(* ===== verification/Prelude.thy ===== *)
theory Prelude
  imports Complex_Main "HOL-Library.Word" "HOL-Library.Monad_Syntax" "HOL-Library.Sublist"
begin

text \<open>
  Shared vocabulary of the development: the machine integer types of the C++ sources
  (\<open>uint8_t\<close>, \<open>uint32_t\<close>, \<open>uint64_t\<close>/\<open>size_t\<close>/\<open>uintptr_t\<close> on the 64-bit target), the lemma
  collections the component theories fill, and the generic facts about words, bits and lists
  that several components use.
\<close>

unbundle bit_operations_syntax

type_synonym u8 = "8 word"
type_synonym u32 = "32 word"
type_synonym u64 = "64 word"

named_theorems layout_simps "geometry of runs: sizes, offsets, rounding"
named_theorems heap_simps "reading one component of the allocator state after a write to another"

declare One_nat_def [simp del]

section \<open>Rounding to powers of two\<close>

lemma and_not_mask_conv: "x AND NOT (mask k) = x - take_bit k (x::'a::len word)"
proof -
  have "(x AND NOT (mask k)) + (x AND mask k) = x"
    by (subst disjunctive_add_eq_or) (auto simp: bit_eq_iff bit_simps)
  then show ?thesis
    by (metis add_diff_cancel_right' take_bit_eq_mask)
qed

lemma unat_and_not_mask:
  "k < LENGTH('a) \<Longrightarrow> unat (x AND NOT (mask k)) = unat x div 2 ^ k * 2 ^ k"
  for x :: "'a::len word"
proof -
  have t: "unat (take_bit k x) = unat x mod 2 ^ k"
    unfolding unsigned_take_bit_eq by (rule take_bit_eq_mod)
  then have "take_bit k x \<le> x"
    by (simp add: word_le_nat_alt)
  then show ?thesis
    by (simp add: and_not_mask_conv unat_sub t minus_mod_eq_div_mult)
qed

text \<open>\<open>p & ~(2^k - 1)\<close> in the form the sources write it, with the constant spelled out.\<close>

lemma mask_constants:
  "mask 12 = (4095 :: u64)" "mask 21 = (2097151 :: u64)"
  by (simp_all add: mask_eq_exp_minus_1)

lemma unat_page_floor: "unat (x AND NOT 4095) = unat x div 4096 * 4096" for x :: u64
  using unat_and_not_mask [of 12 x] by (simp add: mask_constants)

lemma unat_run_floor: "unat (x AND NOT 2097151) = unat x div 2097152 * 2097152" for x :: u64
  using unat_and_not_mask [of 21 x] by (simp add: mask_constants)

text \<open>The simplifier evaluates \<open>NOT 4095\<close> to \<open>- 4096\<close>.\<close>

lemma unat_page_floor': "unat (x AND - 4096) = unat x div 4096 * 4096" for x :: u64
  using unat_page_floor [of x] by simp

lemma unat_run_floor': "unat (x AND - 2097152) = unat x div 2097152 * 2097152" for x :: u64
  using unat_run_floor [of x] by simp

lemma unat_add_no_wrap:
  "unat x + unat y < 2 ^ LENGTH('a) \<Longrightarrow> unat (x + y) = unat x + unat y"
  for x y :: "'a::len word"
  by (simp add: unat_word_ariths)

lemma unat_of_nat_small: "n < 2 ^ LENGTH('a) \<Longrightarrow> unat (of_nat n :: 'a::len word) = n"
  by (simp only: unat_of_nat mod_less)

lemma unat_pow2: "k < LENGTH('a) \<Longrightarrow> unat (2 ^ k :: 'a::len word) = 2 ^ k"
  using unat_of_nat_small [of "2 ^ k", where ?'a = 'a] by simp

lemma unat_ucast_small: "unat x < 2 ^ LENGTH('b) \<Longrightarrow> unat (ucast x :: 'b::len word) = unat x"
  for x :: "'a::len word"
  by (simp add: unsigned_ucast_eq take_bit_nat_eq_self)

lemma unat_mult_no_wrap:
  "unat x * unat y < 2 ^ LENGTH('a) \<Longrightarrow> unat (x * y) = unat x * unat y"
  for x y :: "'a::len word"
  by (simp add: unat_word_ariths)

section \<open>The lowest set bit\<close>

text \<open>\<open>__builtin_ctzll\<close>: the position of the lowest set bit (64 for zero, where the C is undefined).\<close>

definition ctz64 :: "u64 \<Rightarrow> nat" where
  "ctz64 b = length (takeWhile (\<lambda>i. \<not> bit b i) [0..<64])"

lemma takeWhile_upt_first:
  assumes "m < n" "P m"
  defines "k \<equiv> length (takeWhile (\<lambda>i. \<not> P i) [0..<n])"
  shows "P k \<and> k \<le> m \<and> (\<forall>j<k. \<not> P j)"
proof -
  have "k \<le> m"
  proof (rule ccontr)
    assume "\<not> k \<le> m"
    then have "[0..<n] ! m \<in> set (takeWhile (\<lambda>i. \<not> P i) [0..<n])"
      using k_def by (metis linorder_not_less nth_mem takeWhile_nth)
    then show False
      using assms(1,2) by (auto dest: set_takeWhileD)
  qed
  moreover have "P k"
    using nth_length_takeWhile [of "\<lambda>i. \<not> P i" "[0..<n]"] \<open>k \<le> m\<close> assms(1)
    by (simp add: k_def)
  moreover have "\<forall>j<k. \<not> P j"
  proof (intro allI impI)
    fix j assume "j < k"
    then have "[0..<n] ! j \<in> set (takeWhile (\<lambda>i. \<not> P i) [0..<n])"
      using k_def by (metis nth_mem takeWhile_nth)
    moreover have "[0..<n] ! j = j"
      using \<open>j < k\<close> \<open>k \<le> m\<close> assms(1) by simp
    ultimately show "\<not> P j"
      by (metis set_takeWhileD)
  qed
  ultimately show ?thesis by blast
qed

lemma ctz64_lowest:
  assumes "b \<noteq> 0"
  shows "bit b (ctz64 b)" "ctz64 b < 64" "\<And>j. j < ctz64 b \<Longrightarrow> \<not> bit b j"
proof -
  obtain m where m: "bit b m"
    using assms by (metis bit_0_eq bit_eqI bot_apply bot_bool_def)
  then have "m < 64"
    using bit_imp_le_length by fastforce
  from takeWhile_upt_first [OF this, of "bit b"] m \<open>m < 64\<close>
  show "bit b (ctz64 b)" "ctz64 b < 64" "\<And>j. j < ctz64 b \<Longrightarrow> \<not> bit b j"
    unfolding ctz64_def by auto
qed

text \<open>\<open>b & (b - 1)\<close> clears exactly the lowest set bit.\<close>

lemma clear_lowest_bit:
  assumes "b \<noteq> (0::u64)"
  shows "b AND (b - 1) = unset_bit (ctz64 b) b"
proof -
  define k where "k = ctz64 b"
  define c where "c = unset_bit k b"
  note low = ctz64_lowest [OF assms, folded k_def]
  have b: "b = c OR 2 ^ k"
    using low(1,2) by (intro bit_word_eqI) (auto simp: c_def bit_simps)
  have dis: "c AND 2 ^ k = 0"
    by (intro bit_word_eqI) (auto simp: c_def bit_simps)
  have "b = c + 2 ^ k"
    using b dis by (simp add: disjunctive_add_eq_or)
  then have "b - 1 = c + mask k"
    by (simp add: mask_eq_exp_minus_1)
  also have "\<dots> = c OR mask k"
    using low(3) by (intro disjunctive_add_eq_or bit_word_eqI) (auto simp: c_def bit_simps)
  finally have "b AND (b - 1) = (c OR 2 ^ k) AND (c OR mask k)"
    using b by simp
  also have "\<dots> = c"
    by (intro bit_word_eqI) (auto simp: c_def bit_simps)
  finally show ?thesis by (simp add: c_def k_def)
qed

end
