(* ===== verification/SizeClasses.thy ===== *)
theory SizeClasses
  imports Prelude
begin

text \<open>
  The size classes of \<open>src/src/alloc/preload.cpp\<close> (lines 50 to 71): the table \<open>kSizes\<close>, the
  constants derived from it, and \<open>class_of\<close>, the binary search that maps a request to the
  1-based index of the smallest class that holds it.
\<close>

section \<open>The table and the search\<close>

definition kSizes :: "u64 list" where
  "kSizes = [
    8, 16, 24, 32, 40, 48, 56, 64, 80, 96, 112, 128,
    160, 192, 224, 256, 320, 384, 448, 512, 640, 768, 896, 1024,
    1280, 1536, 1792, 2048, 2560, 3072, 3584, 4096, 5120, 6144, 7168, 8192,
    10240, 12288, 14336, 16384, 20480, 24576, 28672, 32768, 40960, 49152, 57344, 65536,
    81920, 98304, 114688, 131072, 163840, 196608, 229376, 262144, 327680, 393216, 458752, 524288,
    655360, 786432, 917504, 1048576, 1310720, 1572864, 1835008, 2097152]"

definition kNumClasses :: nat where "kNumClasses = length kSizes"
definition kLargeMin :: u64 where "kLargeMin = 2097153"
definition kRunSize :: u64 where "kRunSize = push_bit 20 2"
definition kMaxElems :: u32 where "kMaxElems = 65536"

text \<open>\<open>while(lo < hi) { mid = (lo + hi) / 2; if(kSizes[mid] < n) lo = mid + 1; else hi = mid; }\<close>\<close>

function class_search :: "u64 \<Rightarrow> nat \<Rightarrow> nat \<Rightarrow> nat" where
  "class_search n lo hi =
     (if lo < hi then
        let mid = (lo + hi) div 2
        in if kSizes ! mid < n then class_search n (mid + 1) hi else class_search n lo mid
      else lo)"
  by pat_completeness auto
termination
  by (relation "measure (\<lambda>(n, lo, hi). hi - lo)") auto

declare class_search.simps [simp del]

definition class_of :: "u64 \<Rightarrow> nat" where
  "class_of n = class_search n 0 kNumClasses + 1"

section \<open>Facts about the table\<close>

lemma kNumClasses_eq [simp]: "kNumClasses = 68"
  by (simp add: kNumClasses_def kSizes_def)

lemma length_kSizes [simp]: "length kSizes = 68"
  by (simp add: kSizes_def)

lemma kRunSize_eq: "kRunSize = 2097152"
  by (simp add: kRunSize_def push_bit_eq_mult)

lemma kSizes_strict: "sorted_wrt (<) kSizes"
proof -
  have "successively (<) kSizes" by (simp add: kSizes_def)
  then show ?thesis
    by (simp add: successively_conv_sorted_wrt transp_on_less)
qed

lemma kSizes_mono_less: "i < j \<Longrightarrow> j < 68 \<Longrightarrow> kSizes ! i < kSizes ! j"
  using kSizes_strict by (simp add: sorted_wrt_iff_nth_less)

lemma kSizes_mono: "i \<le> j \<Longrightarrow> j < 68 \<Longrightarrow> kSizes ! i \<le> kSizes ! j"
  using kSizes_mono_less [of i j] by (cases "i = j") auto

lemma kSizes_last: "kSizes ! 67 = 2097152"
  by (simp add: kSizes_def)

lemma kSizes_first: "kSizes ! 0 = 8"
  by (simp add: kSizes_def)

lemma kSizes_bounds:
  assumes "i < 68" shows "8 \<le> unat (kSizes ! i)" "unat (kSizes ! i) \<le> 2097152"
  using kSizes_mono [of 0 i] kSizes_mono [of i 67] assms
  by (simp_all add: kSizes_first kSizes_last word_le_nat_alt)

text \<open>Facts that hold of all 68 classes are checked entry by entry over the table.\<close>

lemma all_classes: "(\<forall>i<68. P (kSizes ! i)) \<longleftrightarrow> list_all P kSizes"
  by (simp add: list_all_length)

section \<open>The search\<close>

text \<open>
  The loop invariant: everything below \<open>lo\<close> is too small, everything from \<open>hi\<close> on is large
  enough. At the end the two meet.
\<close>

lemma class_search_inv:
  "lo \<le> hi \<Longrightarrow> hi \<le> 68 \<Longrightarrow> \<forall>i<lo. kSizes ! i < n \<Longrightarrow>
   \<forall>i. hi \<le> i \<and> i < 68 \<longrightarrow> n \<le> kSizes ! i \<Longrightarrow>
   lo \<le> class_search n lo hi \<and> class_search n lo hi \<le> hi \<and>
   (\<forall>i<class_search n lo hi. kSizes ! i < n) \<and>
   (\<forall>i. class_search n lo hi \<le> i \<and> i < 68 \<longrightarrow> n \<le> kSizes ! i)"
proof (induction n lo hi rule: class_search.induct)
  case (1 n lo hi)
  note prems = "1.prems"
  show ?case
  proof (cases "lo < hi")
    case False
    then have "class_search n lo hi = lo" by (simp add: class_search.simps [of n lo hi])
    with prems False show ?thesis by auto
  next
    case True
    define mid where "mid = (lo + hi) div 2"
    have mid: "lo \<le> mid" "mid < hi" using True by (auto simp: mid_def)
    show ?thesis
    proof (cases "kSizes ! mid < n")
      case small: True
      have below: "kSizes ! i < n" if "i < mid + 1" for i
      proof -
        have "kSizes ! i \<le> kSizes ! mid"
          using that mid prems(2) by (intro kSizes_mono) auto
        with small show ?thesis by simp
      qed
      have step: "class_search n lo hi = class_search n (mid + 1) hi"
        using True small by (simp add: class_search.simps [of n lo hi] mid_def [symmetric] Let_def)
      have "mid + 1 \<le> class_search n (mid + 1) hi \<and> class_search n (mid + 1) hi \<le> hi \<and>
          (\<forall>i<class_search n (mid + 1) hi. kSizes ! i < n) \<and>
          (\<forall>i. class_search n (mid + 1) hi \<le> i \<and> i < 68 \<longrightarrow> n \<le> kSizes ! i)"
        using mid below prems by (intro "1.IH"(1) [OF True mid_def small]) auto
      with step mid show ?thesis by simp
    next
      case big: False
      have above: "n \<le> kSizes ! i" if "mid \<le> i" "i < 68" for i
      proof -
        have "kSizes ! mid \<le> kSizes ! i" using that by (rule kSizes_mono)
        with big show ?thesis by simp
      qed
      have step: "class_search n lo hi = class_search n lo mid"
        using True big by (simp add: class_search.simps [of n lo hi] mid_def [symmetric] Let_def)
      have "lo \<le> class_search n lo mid \<and> class_search n lo mid \<le> mid \<and>
          (\<forall>i<class_search n lo mid. kSizes ! i < n) \<and>
          (\<forall>i. class_search n lo mid \<le> i \<and> i < 68 \<longrightarrow> n \<le> kSizes ! i)"
        using mid above prems by (intro "1.IH"(2) [OF True mid_def big]) auto
      with step mid show ?thesis by simp
    qed
  qed
qed

lemma class_search_full:
  "class_search n 0 68 \<le> 68" "\<forall>i<class_search n 0 68. kSizes ! i < n"
  "\<forall>i. class_search n 0 68 \<le> i \<and> i < 68 \<longrightarrow> n \<le> kSizes ! i"
proof -
  have "\<forall>i. (68::nat) \<le> i \<and> i < 68 \<longrightarrow> n \<le> kSizes ! i" by auto
  from class_search_inv [OF _ _ _ this]
  show "class_search n 0 68 \<le> 68" "\<forall>i<class_search n 0 68. kSizes ! i < n"
    "\<forall>i. class_search n 0 68 \<le> i \<and> i < 68 \<longrightarrow> n \<le> kSizes ! i" by auto
qed

lemma class_of_small:
  assumes "n < kLargeMin"
  shows "1 \<le> class_of n" "class_of n \<le> 68" "n \<le> kSizes ! (class_of n - 1)"
    "\<And>i. i < class_of n - 1 \<Longrightarrow> kSizes ! i < n"
proof -
  define r where "r = class_search n 0 68"
  have inv: "r \<le> 68" "\<forall>i<r. kSizes ! i < n" "\<forall>i. r \<le> i \<and> i < 68 \<longrightarrow> n \<le> kSizes ! i"
    unfolding r_def by (rule class_search_full)+
  have "r \<noteq> 68"
  proof
    assume "r = 68"
    with inv(2) have "kSizes ! 67 < n" by simp
    with assms show False
      by (simp add: kSizes_last kLargeMin_def word_less_nat_alt)
  qed
  with inv(1) have r: "r < 68" by simp
  have c: "class_of n = r + 1" by (simp add: class_of_def r_def)
  show "1 \<le> class_of n" "class_of n \<le> 68" "n \<le> kSizes ! (class_of n - 1)"
    "\<And>i. i < class_of n - 1 \<Longrightarrow> kSizes ! i < n"
    using r inv(2,3) c by auto
qed

section \<open>Properties of the size classes\<close>

text \<open>
  For every request below the large threshold, \<open>class_of\<close> returns the 1-based index of the
  smallest size class that holds the request: the class is in the table, its blocks are large
  enough, and every smaller class is too small.
\<close>

theorem class_of_best_fit:
  assumes "n < kLargeMin"
  shows "1 \<le> class_of n \<and> class_of n \<le> kNumClasses \<and> n \<le> kSizes ! (class_of n - 1) \<and>
         (\<forall>i < class_of n - 1. kSizes ! i < n)"
  using class_of_small [OF assms] by auto

theorem class_of_best_fit_witness:
  "class_of 100 = 11 \<and> kSizes ! 10 = 112 \<and> (100::u64) \<le> kSizes ! (class_of 100 - 1)"
proof -
  have h: "(100::u64) < kLargeMin" by (simp add: kLargeMin_def)
  have "class_of 100 = 11" "kSizes ! 10 = 112"
    by (simp_all add: class_of_def class_search.simps kSizes_def)
  with class_of_best_fit [OF h] show ?thesis by simp
qed

text \<open>The step between neighbouring classes, read off the table.\<close>

lemma kSizes_step_small: "i < 8 \<Longrightarrow> unat (kSizes ! i) = 8 * (i + 1)"
proof -
  have "list_all (\<lambda>i. unat (kSizes ! i) = 8 * (i + 1)) [0..<8]"
    by (simp add: kSizes_def upt_rec)
  then show "i < 8 \<Longrightarrow> unat (kSizes ! i) = 8 * (i + 1)"
    by (simp add: list_all_iff)
qed

lemma kSizes_step_large: "7 \<le> i \<Longrightarrow> i < 67 \<Longrightarrow> 4 * unat (kSizes ! Suc i) \<le> 5 * unat (kSizes ! i)"
proof -
  have "successively (\<lambda>a b. 4 * unat b \<le> 5 * unat a) (drop 7 kSizes)"
    by (simp add: kSizes_def)
  then have "\<forall>j. Suc j < length (drop 7 kSizes) \<longrightarrow>
      4 * unat (drop 7 kSizes ! Suc j) \<le> 5 * unat (drop 7 kSizes ! j)"
    by (simp add: successively_conv_nth)
  from spec [OF this, of "i - 7"]
  show "7 \<le> i \<Longrightarrow> i < 67 \<Longrightarrow> 4 * unat (kSizes ! Suc i) \<le> 5 * unat (kSizes ! i)"
    by simp
qed

text \<open>
  Internal fragmentation: a block of the class chosen for \<open>n\<close> bytes wastes fewer than 8 bytes
  up to 64 bytes and less than a quarter of the request above.
\<close>

theorem class_of_waste:
  assumes "n < kLargeMin" "0 < n"
  shows "unat (kSizes ! (class_of n - 1)) < unat n + 8 \<or>
         64 < unat n \<and> 4 * unat (kSizes ! (class_of n - 1)) < 5 * unat n"
proof -
  define c where "c = class_of n - 1"
  have c: "c < 68" and below: "\<And>i. i < c \<Longrightarrow> unat (kSizes ! i) < unat n"
    using class_of_small [OF assms(1)] by (auto simp: c_def word_less_nat_alt)
  show ?thesis
  proof (cases "c < 8")
    case True
    have "8 * c < unat n"
    proof (cases c)
      case 0
      with assms(2) show ?thesis by (simp add: unat_gt_0)
    next
      case (Suc k)
      with below [of k] kSizes_step_small [of k] True show ?thesis by simp
    qed
    with kSizes_step_small [OF True] show ?thesis by (simp add: c_def)
  next
    case False
    then obtain k where k: "c = Suc k" "7 \<le> k" by (cases c) auto
    have "64 \<le> unat (kSizes ! k)"
      using kSizes_step_small [of 7] kSizes_mono [of 7 k] k c by (simp add: word_le_nat_alt)
    with below [of k] kSizes_step_large [of k] k c show ?thesis by (simp add: c_def)
  qed
qed

theorem class_of_waste_witness:
  "unat (kSizes ! (class_of 2000000 - 1)) = 2097152 \<and> 4 * (2097152::nat) < 5 * 2000000"
proof -
  have h: "(2000000::u64) < kLargeMin" "(0::u64) < 2000000" by (simp_all add: kLargeMin_def)
  have v: "class_of 2000000 = 68"
    by (simp add: class_of_def class_search.simps kSizes_def)
  then have "unat (kSizes ! (class_of 2000000 - 1)) = 2097152"
    by (simp add: kSizes_def)
  with class_of_waste [OF h] show ?thesis by simp
qed

text \<open>
  The table and the search are inverse to each other: searching for the size of a class
  returns that class, so a block's recorded size always leads back to the list it came from.
\<close>

theorem class_of_table: 
  assumes "1 \<le> c" "c \<le> kNumClasses"
  shows "class_of (kSizes ! (c - 1)) = c"
proof -
  define n where "n = kSizes ! (c - 1)"
  have n: "n < kLargeMin"
  proof -
    have "c - 1 < 68" using assms by simp
    from kSizes_bounds(2) [OF this] show ?thesis
      by (simp add: n_def kLargeMin_def word_less_nat_alt)
  qed
  note r = class_of_small [OF n]
  have c: "c - 1 < 68" using assms by simp
  have "\<not> c - 1 < class_of n - 1" using r(4) [of "c - 1"] by (auto simp: n_def)
  moreover have "\<not> class_of n - 1 < c - 1"
    using r(3) kSizes_mono_less [of "class_of n - 1" "c - 1"] c
    by (metis linorder_not_le n_def)
  ultimately show ?thesis using r(1) assms by (simp add: n_def)
qed

theorem class_of_table_witness: "(1::nat) \<le> 20 \<and> class_of (kSizes ! 19) = 20"
  using class_of_table [of 20] by simp

end
