(* ===== verification/CStrings.thy ===== *)
theory CStrings
  imports Prelude
begin

text \<open>
  The C and C++ library conversions the sources call on text: \<open>tolower\<close> and \<open>isspace\<close> in the
  C locale, the integer readers \<open>strtoll\<close>, \<open>atoll\<close>, \<open>atoi\<close> and \<open>std::stoull\<close>, and decimal
  printing (\<open>std::to_string\<close>, \<open>%llu\<close>). Strings are byte strings (\<open>char list\<close>), as in the code.
\<close>

section \<open>Characters\<close>

definition char_code :: "char \<Rightarrow> nat" where
  "char_code c = of_char c"

definition is_space :: "char \<Rightarrow> bool" where
  "is_space c \<longleftrightarrow> char_code c = 32 \<or> (9 \<le> char_code c \<and> char_code c \<le> 13)"

definition is_digit :: "char \<Rightarrow> bool" where
  "is_digit c \<longleftrightarrow> 48 \<le> char_code c \<and> char_code c \<le> 57"

definition digit_val :: "char \<Rightarrow> nat" where
  "digit_val c = char_code c - 48"

definition tolower :: "char \<Rightarrow> char" where
  "tolower c = (if 65 \<le> char_code c \<and> char_code c \<le> 90 then char_of (char_code c + 32) else c)"

text \<open>Evaluation reads the code of a character as a binary integer.\<close>

lemma int_char_code: "int (char_code c) = of_char c"
  unfolding char_code_def by (rule of_nat_of_char)

lemma char_code_tests [code]:
  "is_space c \<longleftrightarrow> (let n = of_char c :: int in n = 32 \<or> (9 \<le> n \<and> n \<le> 13))"
  "is_digit c \<longleftrightarrow> (let n = of_char c :: int in 48 \<le> n \<and> n \<le> 57)"
  "digit_val c = nat (of_char c - 48 :: int)"
  "tolower c = (let n = of_char c :: int in if 65 \<le> n \<and> n \<le> 90 then char_of (n + 32) else c)"
proof -
  show "is_space c \<longleftrightarrow> (let n = of_char c :: int in n = 32 \<or> (9 \<le> n \<and> n \<le> 13))"
    unfolding is_space_def Let_def int_char_code [symmetric] by linarith
  show "is_digit c \<longleftrightarrow> (let n = of_char c :: int in 48 \<le> n \<and> n \<le> 57)"
    unfolding is_digit_def Let_def int_char_code [symmetric] by linarith
  show "digit_val c = nat (of_char c - 48 :: int)"
    unfolding digit_val_def int_char_code [symmetric] by simp
  have "char_of (of_char c + 32 :: int) = char_of (char_code c + 32)"
    using char_of_nat [of "char_code c + 32", where ?'a = int] by (simp add: int_char_code)
  moreover have "(65 \<le> (of_char c :: int) \<and> (of_char c :: int) \<le> 90) \<longleftrightarrow> 65 \<le> char_code c \<and> char_code c \<le> 90"
    unfolding int_char_code [symmetric] by linarith
  ultimately show "tolower c = (let n = of_char c :: int in if 65 \<le> n \<and> n \<le> 90 then char_of (n + 32) else c)"
    unfolding tolower_def Let_def by simp
qed

section \<open>Reading integers\<close>

definition digits_val :: "string \<Rightarrow> int" where
  "digits_val ds = foldl (\<lambda>n c. 10 * n + int (digit_val c)) 0 ds"

text \<open>
  The common prefix of the readers: skip white space, an optional sign, then the longest run of
  digits. \<open>None\<close> when there is no digit; otherwise the sign, the value and the rest of the text.
\<close>

definition scan_int :: "string \<Rightarrow> (bool \<times> int \<times> string) option" where
  "scan_int s =
     (let t = dropWhile is_space s;
          neg = (t \<noteq> [] \<and> hd t = CHR ''-'');
          u = (if t \<noteq> [] \<and> (hd t = CHR ''-'' \<or> hd t = CHR ''+'') then tl t else t);
          ds = takeWhile is_digit u
      in if ds = [] then None else Some (neg, digits_val ds, dropWhile is_digit u))"

text \<open>\<open>strtoll(s, &end, 10)\<close> saturates at the limits of \<open>long long\<close>; with no digits it
  returns 0 and leaves the text where it was.\<close>

definition clamp_ll :: "int \<Rightarrow> int" where
  "clamp_ll v = max (- (2 ^ 63)) (min (2 ^ 63 - 1) v)"

definition strtoll :: "string \<Rightarrow> int \<times> string" where
  "strtoll s = (case scan_int s of
     None \<Rightarrow> (0, s)
   | Some (neg, v, rest) \<Rightarrow> (clamp_ll (if neg then - v else v), rest))"

definition atoll :: "string \<Rightarrow> int" where
  "atoll s = fst (strtoll s)"

text \<open>\<open>atoi\<close> is \<open>(int)strtol\<close>: the 64-bit result cut to 32 bits.\<close>

definition atoi :: "string \<Rightarrow> u32" where
  "atoi s = word_of_int (fst (strtoll s))"

text \<open>
  \<open>std::stoull\<close>: \<open>strtoull\<close>, which accepts a sign and negates in the unsigned type, with an
  exception (\<open>None\<close> here) when there is no digit or the magnitude exceeds \<open>2^64 - 1\<close>.
\<close>

definition stoull :: "string \<Rightarrow> u64 option" where
  "stoull s = (case scan_int s of
     None \<Rightarrow> None
   | Some (neg, v, rest) \<Rightarrow>
       if v \<ge> 2 ^ 64 then None else Some (if neg then - word_of_int v else word_of_int v))"

section \<open>Printing integers\<close>

fun show_nat :: "nat \<Rightarrow> string" where
  "show_nat n = (if n < 10 then [char_of (48 + n)] else show_nat (n div 10) @ [char_of (48 + n mod 10)])"

declare show_nat.simps [simp del]

text \<open>Printing a numeral by simplification.\<close>

lemma char_digits:
  "char_of (48 :: nat) = CHR ''0''"
  "char_of (49 :: nat) = CHR ''1''"
  "char_of (50 :: nat) = CHR ''2''"
  "char_of (51 :: nat) = CHR ''3''"
  "char_of (52 :: nat) = CHR ''4''"
  "char_of (53 :: nat) = CHR ''5''"
  "char_of (54 :: nat) = CHR ''6''"
  "char_of (55 :: nat) = CHR ''7''"
  "char_of (56 :: nat) = CHR ''8''"
  "char_of (57 :: nat) = CHR ''9''"
  by code_simp+

lemmas show_nat_eval = show_nat.simps char_digits

definition show_int :: "int \<Rightarrow> string" where
  "show_int i = (if i < 0 then CHR ''-'' # show_nat (nat (- i)) else show_nat (nat i))"

section \<open>Facts\<close>

lemma char_code_char_of [simp]: "n < 256 \<Longrightarrow> char_code (char_of n) = n"
  by (simp add: char_code_def)

lemma digit_of_digit [simp]:
  "n < 10 \<Longrightarrow> is_digit (char_of (48 + n))" "n < 10 \<Longrightarrow> digit_val (char_of (48 + n)) = n"
  by (simp_all add: is_digit_def digit_val_def)

lemma digits_val_snoc: "digits_val (ds @ [c]) = 10 * digits_val ds + int (digit_val c)"
  by (simp add: digits_val_def)

lemma show_nat_digits: "\<forall>c \<in> set (show_nat n). is_digit c"
proof (induction n rule: show_nat.induct)
  case (1 n)
  then show ?case by (subst show_nat.simps) auto
qed

lemma digits_val_show_nat [simp]: "digits_val (show_nat n) = int n"
proof (induction n rule: show_nat.induct)
  case (1 n)
  show ?case
  proof (cases "n < 10")
    case True
    then show ?thesis by (subst show_nat.simps) (simp add: digits_val_def)
  next
    case False
    have "10 * int (n div 10) + int (n mod 10) = int n" by presburger
    then show ?thesis using False 1 by (subst show_nat.simps) (simp add: digits_val_snoc)
  qed
qed

lemma show_nat_nonempty [simp]: "show_nat n \<noteq> []"
  by (subst show_nat.simps) auto

lemma digit_not_space: "is_digit c \<Longrightarrow> \<not> is_space c \<and> c \<noteq> CHR ''-'' \<and> c \<noteq> CHR ''+''"
  by (auto simp: is_digit_def is_space_def char_code_def)

lemma scan_int_show_nat:
  assumes "rest = [] \<or> \<not> is_digit (hd rest)"
  shows "scan_int (show_nat n @ rest) = Some (False, int n, rest)"
proof -
  obtain c cs where s: "show_nat n = c # cs" by (cases "show_nat n") auto
  with show_nat_digits [of n] have c: "is_digit c" and all: "\<forall>x \<in> set (show_nat n). is_digit x"
    by auto
  have "takeWhile is_digit (show_nat n @ rest) = show_nat n"
    "dropWhile is_digit (show_nat n @ rest) = rest"
    using all assms by (cases rest; simp add: takeWhile_append dropWhile_append)+
  then show ?thesis
    using s digit_not_space [OF c] by (simp add: scan_int_def Let_def) (metis append_Cons digits_val_show_nat)
qed

end
