(* ===== verification/AllocState.thy ===== *)
theory AllocState
  imports SizeClasses CStrings
begin

text \<open>
  The state of the interposed allocator (\<open>src/src/alloc/preload.cpp\<close>): the structures \<open>Run\<close>,
  \<open>LargeHdr\<close>, \<open>ClassState\<close> and \<open>TCache\<close>, the global variables, and the memory they live in.

  Memory is kept in typed form. \<open>g_acc\<close> tells which addresses are mapped read/write; a \<open>Run\<close> or
  \<open>LargeHdr\<close> header stored at an address is an entry of \<open>g_runs\<close> or \<open>g_larges\<close>, and every other
  byte is in \<open>g_bytes\<close>. A read of a header field at an address that holds no header reads the
  bytes found there, as the C code would, so a misplaced pointer is not hidden. An access to an
  address that is not mapped, or an update through a pointer to a header that is not there,
  is \<open>None\<close>: the program has faulted or left defined behaviour.

  The operating system is the record \<open>os\<close>: the n-th clock reading, whether the n-th fixed
  \<open>mmap\<close> succeeds, where the kernel puts a mapping it places itself, the process environment
  and the libc entry points found by \<open>dlsym\<close>.
\<close>

section \<open>Structures\<close>

record run =
  r_magic :: u32
  r_cls :: u32
  r_elems :: u32
  r_used :: u32
  r_elem :: u32
  r_pad :: u32
  r_next :: u64
  r_prev :: u64
  r_last_fully_free_ms :: u64
  r_last_touch_ms :: u64
  r_bits :: "u64 list"

record large_hdr =
  l_magic :: u32
  l_pad :: u32
  l_map_size :: u64
  l_user :: u64

record class_state =
  cs_head :: u64
  cs_live_blocks :: u64

record tcache =
  tc_buf :: "u64 list list"
  tc_n :: "u8 list"

definition kMagicRun :: u32 where "kMagicRun = 0x4D465552"
definition kMagicLarge :: u32 where "kMagicLarge = 0x4D46554C"
definition sizeof_Run :: u64 where "sizeof_Run = 56"
definition sizeof_LargeHdr :: u64 where "sizeof_LargeHdr = 24"
definition kReserveSize :: u64 where "kReserveSize = push_bit 40 1"
definition kTCap :: u8 where "kTCap = 16"

datatype libc_call = LibcFree u64 | LibcRealloc u64 u64

record os =
  clock :: "nat \<Rightarrow> u64 \<times> u64"
  mmap_reserve :: "u64 option"
  mmap_fixed_ok :: "nat \<Rightarrow> u64 \<Rightarrow> u64 \<Rightarrow> bool"
  mmap_anywhere :: "nat \<Rightarrow> u64 \<Rightarrow> u64 option"
  key_create_ok :: bool
  pthread_create_ok :: bool
  getenv :: "string \<Rightarrow> string option"
  libc_free_found :: bool
  libc_realloc :: "(nat \<Rightarrow> u64) option"
  page_size :: u64

record alloc =
  g_acc :: "u64 \<Rightarrow> bool"
  g_bytes :: "u64 \<Rightarrow> u8"
  g_runs :: "u64 \<rightharpoonup> run"
  g_larges :: "u64 \<rightharpoonup> large_hdr"
  g_res_start :: u64
  g_res_end :: u64
  g_res_bump :: u64
  g_cls :: "class_state list"
  g_ready :: bool
  g_started :: bool
  g_res_done :: bool
  g_once_done :: bool
  g_trim_started :: bool
  g_mapped :: u64
  g_freed_to_os :: u64
  g_purged :: u64
  tkey_ok :: bool
  tls :: "nat \<Rightarrow> tcache option"
  env_trim_interval_ms :: u64
  env_run_idle_ms :: u64
  env_dirty_idle_ms :: u64
  env_stats :: u32
  g_enomem :: bool
  ticks :: nat
  calls :: nat
  libc_log :: "libc_call list"

text \<open>The static initialisers: nothing mapped, no reserve, default tunables.\<close>

definition class_empty :: class_state where
  "class_empty = \<lparr>cs_head = 0, cs_live_blocks = 0\<rparr>"

definition alloc_initial :: alloc where
  "alloc_initial = \<lparr>
     g_acc = (\<lambda>_. False), g_bytes = (\<lambda>_. 0), g_runs = Map.empty, g_larges = Map.empty,
     g_res_start = 0, g_res_end = 0, g_res_bump = 0,
     g_cls = replicate kNumClasses class_empty,
     g_ready = False, g_started = False, g_res_done = False, g_once_done = False,
     g_trim_started = False, g_mapped = 0, g_freed_to_os = 0, g_purged = 0,
     tkey_ok = False, tls = (\<lambda>_. None),
     env_trim_interval_ms = 3000, env_run_idle_ms = 6000, env_dirty_idle_ms = 2000,
     env_stats = 0, g_enomem = False, ticks = 0, calls = 0, libc_log = []\<rparr>"

section \<open>Clock and environment\<close>

definition now_ms :: "os \<Rightarrow> alloc \<Rightarrow> u64 \<times> alloc" where
  "now_ms os s =
     (case clock os (ticks s) of (sec, nsec) \<Rightarrow>
        (sec * 1000 + nsec div 1000000, s\<lparr>ticks := ticks s + 1\<rparr>))"

definition read_env :: "os \<Rightarrow> alloc \<Rightarrow> alloc" where
  "read_env os s0 =
     (let s1 = (case getenv os ''MEMFLUX_TRIM_MS'' of None \<Rightarrow> s0
                | Some e \<Rightarrow> s0\<lparr>env_trim_interval_ms := word_of_int (atoll e)\<rparr>);
          s2 = (case getenv os ''MEMFLUX_RUN_IDLE_MS'' of None \<Rightarrow> s1
                | Some e \<Rightarrow> s1\<lparr>env_run_idle_ms := word_of_int (atoll e)\<rparr>);
          s3 = (case getenv os ''MEMFLUX_DIRTY_IDLE_MS'' of None \<Rightarrow> s2
                | Some e \<Rightarrow> s2\<lparr>env_dirty_idle_ms := word_of_int (atoll e)\<rparr>)
      in (case getenv os ''MEMFLUX_STATS'' of None \<Rightarrow> s3
          | Some e \<Rightarrow> s3\<lparr>env_stats := atoi e\<rparr>))"

section \<open>Memory\<close>

text \<open>\<open>in_range a n x\<close>: the address \<open>x\<close> is one of the \<open>n\<close> bytes from \<open>a\<close>.\<close>

definition in_range :: "u64 \<Rightarrow> u64 \<Rightarrow> u64 \<Rightarrow> bool" where
  "in_range a n x \<longleftrightarrow> x - a < n"

text \<open>A fresh anonymous mapping: accessible and zero; whatever was there before is gone.\<close>

definition map_range :: "u64 \<Rightarrow> u64 \<Rightarrow> alloc \<Rightarrow> alloc" where
  "map_range a n s = s\<lparr>
     g_acc := (\<lambda>x. in_range a n x \<or> g_acc s x),
     g_bytes := (\<lambda>x. if in_range a n x then 0 else g_bytes s x),
     g_runs := (\<lambda>x. if in_range a n x then None else g_runs s x),
     g_larges := (\<lambda>x. if in_range a n x then None else g_larges s x)\<rparr>"

definition unmap_range :: "u64 \<Rightarrow> u64 \<Rightarrow> alloc \<Rightarrow> alloc" where
  "unmap_range a n s = s\<lparr>
     g_acc := (\<lambda>x. \<not> in_range a n x \<and> g_acc s x),
     g_runs := (\<lambda>x. if in_range a n x then None else g_runs s x),
     g_larges := (\<lambda>x. if in_range a n x then None else g_larges s x)\<rparr>"

definition page_up :: "u64 \<Rightarrow> u64" where
  "page_up n = (n + 4095) AND NOT 4095"

text \<open>\<open>munmap\<close> refuses an unaligned address or a zero length and then changes nothing; the
  length is rounded up to whole pages.\<close>

definition munmap :: "u64 \<Rightarrow> u64 \<Rightarrow> alloc \<Rightarrow> alloc" where
  "munmap a n s = (if a AND 4095 \<noteq> 0 \<or> n = 0 then s else unmap_range a (page_up n) s)"

text \<open>\<open>madvise(MADV_DONTNEED)\<close> on private anonymous memory: the range reads as zero afterwards.\<close>

definition zero_range :: "u64 \<Rightarrow> u64 \<Rightarrow> alloc \<Rightarrow> alloc" where
  "zero_range a n s = s\<lparr>g_bytes := (\<lambda>x. if in_range a n x then 0 else g_bytes s x)\<rparr>"

definition range_acc :: "alloc \<Rightarrow> u64 \<Rightarrow> u64 \<Rightarrow> bool" where
  "range_acc s a n \<longleftrightarrow> (\<forall>i<unat n. g_acc s (a + of_nat i))"

definition memset0 :: "u64 \<Rightarrow> u64 \<Rightarrow> alloc \<Rightarrow> alloc option" where
  "memset0 a n s = (if range_acc s a n then Some (zero_range a n s) else None)"

definition copy_range :: "u64 \<Rightarrow> u64 \<Rightarrow> u64 \<Rightarrow> alloc \<Rightarrow> alloc" where
  "copy_range dst src n s = s\<lparr>g_bytes :=
     (\<lambda>x. if in_range dst n x then g_bytes s (src + (x - dst)) else g_bytes s x)\<rparr>"

definition memcpy :: "u64 \<Rightarrow> u64 \<Rightarrow> u64 \<Rightarrow> alloc \<Rightarrow> alloc option" where
  "memcpy dst src n s =
     (if range_acc s dst n \<and> range_acc s src n then Some (copy_range dst src n s) else None)"

definition u32_at :: "(u64 \<Rightarrow> u8) \<Rightarrow> u64 \<Rightarrow> u32" where
  "u32_at m a = ucast (m a) + 256 * ucast (m (a + 1)) + 65536 * ucast (m (a + 2))
              + 16777216 * ucast (m (a + 3))"

definition u64_at :: "(u64 \<Rightarrow> u8) \<Rightarrow> u64 \<Rightarrow> u64" where
  "u64_at m a = ucast (u32_at m a) + 4294967296 * ucast (u32_at m (a + 4))"

text \<open>The first word of a header, read at any address.\<close>

definition read_magic :: "alloc \<Rightarrow> u64 \<Rightarrow> u32 option" where
  "read_magic s a =
     (if g_acc s a \<and> g_acc s (a + 3) then
        Some (case g_runs s a of Some r \<Rightarrow> r_magic r
              | None \<Rightarrow> (case g_larges s a of Some h \<Rightarrow> l_magic h
                         | None \<Rightarrow> u32_at (g_bytes s) a))
      else None)"

text \<open>The fields of a \<open>Run\<close> or \<open>LargeHdr\<close> as read through a pointer: the header stored there, or
  the bytes at the fields' offsets.\<close>

definition run_view :: "alloc \<Rightarrow> u64 \<Rightarrow> run" where
  "run_view s a = (case g_runs s a of Some r \<Rightarrow> r
     | None \<Rightarrow> \<lparr>r_magic = u32_at (g_bytes s) a, r_cls = u32_at (g_bytes s) (a + 4),
         r_elems = u32_at (g_bytes s) (a + 8), r_used = u32_at (g_bytes s) (a + 12),
         r_elem = u32_at (g_bytes s) (a + 16), r_pad = u32_at (g_bytes s) (a + 20),
         r_next = u64_at (g_bytes s) (a + 24), r_prev = u64_at (g_bytes s) (a + 32),
         r_last_fully_free_ms = u64_at (g_bytes s) (a + 40),
         r_last_touch_ms = u64_at (g_bytes s) (a + 48), r_bits = []\<rparr>)"

definition read_large :: "alloc \<Rightarrow> u64 \<Rightarrow> large_hdr option" where
  "read_large s a =
     (if g_acc s a \<and> g_acc s (a + 23) then
        Some (case g_larges s a of Some h \<Rightarrow> h
              | None \<Rightarrow> \<lparr>l_magic = u32_at (g_bytes s) a, l_pad = u32_at (g_bytes s) (a + 4),
                  l_map_size = u64_at (g_bytes s) (a + 8), l_user = u64_at (g_bytes s) (a + 16)\<rparr>)
      else None)"

definition put_run :: "u64 \<Rightarrow> run \<Rightarrow> alloc \<Rightarrow> alloc" where
  "put_run a r s = s\<lparr>g_runs := (g_runs s)(a \<mapsto> r)\<rparr>"

definition put_large :: "u64 \<Rightarrow> large_hdr \<Rightarrow> alloc \<Rightarrow> alloc" where
  "put_large a h s = s\<lparr>g_larges := (g_larges s)(a \<mapsto> h)\<rparr>"

definition set_head :: "nat \<Rightarrow> u64 \<Rightarrow> alloc \<Rightarrow> alloc" where
  "set_head c a s = s\<lparr>g_cls := (g_cls s)[c := (g_cls s ! c)\<lparr>cs_head := a\<rparr>]\<rparr>"

definition add_live :: "nat \<Rightarrow> u64 \<Rightarrow> alloc \<Rightarrow> alloc" where
  "add_live c d s = s\<lparr>g_cls := (g_cls s)[c := (g_cls s ! c)\<lparr>cs_live_blocks := cs_live_blocks (g_cls s ! c) + d\<rparr>]\<rparr>"

definition class_head :: "alloc \<Rightarrow> nat \<Rightarrow> u64" where
  "class_head s c = cs_head (g_cls s ! c)"

section \<open>The reserve\<close>

definition reserve_init :: "os \<Rightarrow> alloc \<Rightarrow> alloc" where
  "reserve_init os s = (case mmap_reserve os of None \<Rightarrow> s
     | Some p \<Rightarrow> s\<lparr>g_res_start := p, g_res_end := p + kReserveSize, g_res_bump := p\<rparr>)"

definition in_reserve :: "alloc \<Rightarrow> u64 \<Rightarrow> bool" where
  "in_reserve s a \<longleftrightarrow> a \<ge> g_res_start s \<and> a < g_res_end s"

definition align_up :: "u64 \<Rightarrow> u64 \<Rightarrow> u64" where
  "align_up a align = (a + align - 1) AND NOT (align - 1)"

definition reserve_map :: "os \<Rightarrow> u64 \<Rightarrow> u64 \<Rightarrow> alloc \<Rightarrow> u64 \<times> alloc" where
  "reserve_map os sz align s0 =
     (let want = g_res_bump s0;
          s1 = s0\<lparr>g_res_bump := want + (sz + align)\<rparr>;
          base = align_up want align
      in if base + sz > g_res_end s1 then (0, s1)
         else let s2 = s1\<lparr>calls := calls s1 + 1\<rparr>
              in if sz = 0 \<or> \<not> mmap_fixed_ok os (calls s1) base sz then (0, s2)
                 else (base, map_range base sz s2))"

text \<open>\<open>mmap(nullptr, size, ...)\<close>, used when there is no reserve.\<close>

definition mmap_any :: "os \<Rightarrow> u64 \<Rightarrow> alloc \<Rightarrow> u64 \<times> alloc" where
  "mmap_any os sz s0 =
     (let s1 = s0\<lparr>calls := calls s0 + 1\<rparr>
      in if sz = 0 then (0, s1)
         else case mmap_anywhere os (calls s0) sz of None \<Rightarrow> (0, s1)
              | Some a \<Rightarrow> (a, map_range a (page_up sz) s1))"

end
