(* ===== verification/RunOps.thy ===== *)
theory RunOps
  imports AllocState
begin

text \<open>
  Operations on runs (\<open>preload.cpp\<close>, lines 146 to 244): the geometry of a run, the doubly linked
  list of runs of a class, creating a run, recognising a pointer, taking a block from the
  bitmap and giving it back.
\<close>

section \<open>Geometry\<close>

definition bits_words :: "u32 \<Rightarrow> u32" where
  "bits_words e = (e + 63) div 64"

definition data_offset_padded :: "u32 \<Rightarrow> u64" where
  "data_offset_padded e = (let b = sizeof_Run + ucast (bits_words e * 8) in (b + 4095) AND NOT 4095)"

definition run_bytes :: "u32 \<Rightarrow> u32 \<Rightarrow> u64" where
  "run_bytes elems elem = data_offset_padded elems + ucast elems * ucast elem"

definition run_data :: "run \<Rightarrow> u64 \<Rightarrow> u64" where
  "run_data r a = a + data_offset_padded (r_elems r)"

definition run_of :: "u64 \<Rightarrow> u64" where
  "run_of p = p AND NOT (kRunSize - 1)"

section \<open>The list of runs of a class\<close>

definition run_insert :: "nat \<Rightarrow> u64 \<Rightarrow> alloc \<Rightarrow> alloc option" where
  "run_insert c a s0 =
     do { r \<leftarrow> g_runs s0 a;
          let h = class_head s0 c;
          let s1 = put_run a (r\<lparr>r_prev := 0, r_next := h\<rparr>) s0;
          s2 \<leftarrow> (if h \<noteq> 0
                 then do { y \<leftarrow> g_runs s1 h; Some (put_run h (y\<lparr>r_prev := a\<rparr>) s1) }
                 else Some s1);
          Some (set_head c a s2) }"

definition run_remove :: "nat \<Rightarrow> u64 \<Rightarrow> alloc \<Rightarrow> alloc option" where
  "run_remove c a s0 =
     do { r \<leftarrow> g_runs s0 a;
          s1 \<leftarrow> (if r_prev r \<noteq> 0
                 then do { y \<leftarrow> g_runs s0 (r_prev r);
                           Some (put_run (r_prev r) (y\<lparr>r_next := r_next r\<rparr>) s0) }
                 else Some (set_head c (r_next r) s0));
          r' \<leftarrow> g_runs s1 a;
          (if r_next r' \<noteq> 0
           then do { y \<leftarrow> g_runs s1 (r_next r');
                     Some (put_run (r_next r') (y\<lparr>r_prev := r_prev r'\<rparr>) s1) }
           else Some s1) }"

section \<open>Creating a run\<close>

definition run_elems :: "nat \<Rightarrow> u32" where
  "run_elems c = (let e = ucast (kRunSize div kSizes ! (c - 1)) in if e > kMaxElems then kMaxElems else e)"

definition initial_bits :: "u32 \<Rightarrow> u64 list" where
  "initial_bits e =
     (let ws = replicate (unat (bits_words e)) (- 1 :: u64)
      in if e AND 63 \<noteq> 0
         then ws[unat (e div 64) := ws ! unat (e div 64) AND (push_bit (unat (e AND 63)) 1 - 1)]
         else ws)"

definition run_new :: "os \<Rightarrow> nat \<Rightarrow> alloc \<Rightarrow> (u64 \<times> alloc) option" where
  "run_new os c s0 =
     (let elems = run_elems c;
          elem = ucast (kSizes ! (c - 1));
          need = run_bytes elems elem;
          msize = (need + 4095) AND NOT 4095;
          (a, s1) = (if g_res_start s0 \<noteq> 0 then reserve_map os msize kRunSize s0
                     else mmap_any os msize s0)
      in if a = 0 then Some (0, s1)
         else if \<not> g_acc s1 a then None
         else let (t, s2) = now_ms os s1;
                  r = \<lparr>r_magic = kMagicRun, r_cls = of_nat c, r_elems = elems, r_used = 0,
                       r_elem = elem, r_pad = 0, r_next = 0, r_prev = 0,
                       r_last_fully_free_ms = t, r_last_touch_ms = t,
                       r_bits = initial_bits elems\<rparr>;
                  s3 = put_run a r s2;
                  s4 = s3\<lparr>g_mapped := g_mapped s3 + msize\<rparr>
              in do { s5 \<leftarrow> run_insert (c - 1) a s4; Some (a, s5) })"

section \<open>Recognising pointers\<close>

definition ours_small :: "alloc \<Rightarrow> u64 \<Rightarrow> bool option" where
  "ours_small s p =
     (let a = run_of p in
      do { m \<leftarrow> read_magic s a;
           let r = run_view s a;
           if m \<noteq> kMagicRun \<or> r_cls r = 0 \<or> unat (r_cls r) > kNumClasses then Some False
           else let d = run_data r a
                in if p < d then Some False
                   else let off = p - d
                        in Some (off < ucast (r_elems r) * ucast (r_elem r)
                                 \<and> off mod ucast (r_elem r) = 0) })"

definition ours_large :: "alloc \<Rightarrow> u64 \<Rightarrow> bool option" where
  "ours_large s p = do { m \<leftarrow> read_magic s (p - sizeof_LargeHdr); Some (m = kMagicLarge) }"

section \<open>Taking and giving blocks\<close>

text \<open>Block \<open>b\<close> is marked free in the bitmap: \<open>bits[b >> 6] & (1 << (b & 63))\<close>.\<close>

definition blk_free :: "u64 list \<Rightarrow> nat \<Rightarrow> bool" where
  "blk_free bs b \<longleftrightarrow> bit (bs ! (b div 64)) (b mod 64)"

text \<open>The loop of \<open>run_take\<close>: the first bitmap word with a set bit whose index is a block.\<close>

fun take_scan :: "u32 \<Rightarrow> nat \<Rightarrow> u64 list \<Rightarrow> (nat \<times> u32) option" where
  "take_scan e i [] = None"
| "take_scan e i (b # bs) =
     (if b = 0 then take_scan e (i + 1) bs
      else let idx = of_nat i * 64 + of_nat (ctz64 b)
           in if idx \<ge> e then take_scan e (i + 1) bs else Some (i, idx))"

text \<open>The bitmap part of \<open>run_take\<close>: the block index found, its bit cleared, \<open>used\<close> counted up.\<close>

definition take_block :: "run \<Rightarrow> (u32 \<times> run) option" where
  "take_block r =
     (case take_scan (r_elems r) 0 (r_bits r) of
        None \<Rightarrow> None
      | Some (i, idx) \<Rightarrow>
          (let b = r_bits r ! i
           in Some (idx, r\<lparr>r_bits := (r_bits r)[i := b AND (b - 1)], r_used := r_used r + 1\<rparr>)))"

definition run_take :: "os \<Rightarrow> u64 \<Rightarrow> alloc \<Rightarrow> (u64 \<times> alloc) option" where
  "run_take os a s0 =
     do { r \<leftarrow> g_runs s0 a;
          case take_block r of
            None \<Rightarrow> Some (0, s0)
          | Some (idx, r1) \<Rightarrow>
              (let r2 = (if r_used r1 = 1 then r1\<lparr>r_last_fully_free_ms := 0\<rparr> else r1);
                   (t, s1) = now_ms os s0;
                   s2 = put_run a (r2\<lparr>r_last_touch_ms := t\<rparr>) s1;
                   s3 = add_live (unat (r_cls r) - 1) 1 s2
               in Some (run_data r a + ucast idx * ucast (r_elem r), s3)) }"

text \<open>The bitmap part of \<open>run_give\<close>: the bit set, \<open>used\<close> counted down if it is not zero.\<close>

definition give_block :: "u32 \<Rightarrow> run \<Rightarrow> run" where
  "give_block idx r =
     (let i = unat (idx div 64);
          r1 = r\<lparr>r_bits := (r_bits r)[i := r_bits r ! i OR push_bit (unat (idx mod 64)) 1]\<rparr>
      in if r_used r1 \<noteq> 0 then r1\<lparr>r_used := r_used r1 - 1\<rparr> else r1)"

definition block_index :: "run \<Rightarrow> u64 \<Rightarrow> u64 \<Rightarrow> u32" where
  "block_index r a p = ucast ((p - run_data r a) div ucast (r_elem r))"

definition run_give :: "os \<Rightarrow> u64 \<Rightarrow> u64 \<Rightarrow> alloc \<Rightarrow> alloc option" where
  "run_give os a p s0 =
     do { r \<leftarrow> g_runs s0 a;
          let r1 = give_block (block_index r a p) r;
          let (t, s1) = now_ms os s0;
          let r2 = r1\<lparr>r_last_touch_ms := t\<rparr>;
          let (r3, s2) = (if r_used r2 = 0 \<and> r_last_fully_free_ms r2 = 0
                          then let (t', s') = now_ms os s1
                               in (r2\<lparr>r_last_fully_free_ms := t'\<rparr>, s')
                          else (r2, s1));
          Some (add_live (unat (r_cls r) - 1) (- 1) (put_run a r3 s2)) }"

end
