(* ===== verification/AllocApi.thy ===== *)
theory AllocApi
  imports RunOps
begin

text \<open>
  The entry points of the interposed allocator and what they call: the thread cache, lazy
  initialisation, the purge done by the background thread, and the \<open>malloc\<close> family
  (\<open>preload.cpp\<close>, lines 246 to 531). Each function runs as the code does between taking and
  releasing its mutex; \<open>tid\<close> is the calling thread, which selects the thread cache.
\<close>

section \<open>Thread cache\<close>

definition tcache_empty :: tcache where
  "tcache_empty = \<lparr>tc_buf = replicate kNumClasses (replicate 16 0), tc_n = replicate kNumClasses 0\<rparr>"

definition sizeof_TCache :: u64 where "sizeof_TCache = 8776"

text \<open>\<open>pthread_getspecific(tkey)\<close>, guarded by \<open>tkey_ok\<close> as in every caller.\<close>

definition tc_current :: "nat \<Rightarrow> alloc \<Rightarrow> tcache option" where
  "tc_current tid s = (if tkey_ok s then tls s tid else None)"

text \<open>\<open>TCache* tcache()\<close>: the only code that creates a cache.\<close>

definition tcache_fn :: "os \<Rightarrow> nat \<Rightarrow> alloc \<Rightarrow> tcache option \<times> alloc" where
  "tcache_fn os tid s =
     (if \<not> tkey_ok s then (None, s)
      else case tls s tid of Some tc \<Rightarrow> (Some tc, s)
           | None \<Rightarrow> (let (a, s1) = mmap_any os sizeof_TCache s
                      in if a = 0 then (None, s1)
                         else (Some tcache_empty, s1\<lparr>tls := (tls s1)(tid \<mapsto> tcache_empty)\<rparr>)))"

fun give_all :: "os \<Rightarrow> u64 list \<Rightarrow> alloc \<Rightarrow> alloc option" where
  "give_all os [] s = Some s"
| "give_all os (p # ps) s =
     do { own \<leftarrow> (if in_reserve s p then ours_small s p else Some False);
          s' \<leftarrow> (if own then run_give os (run_of p) p s else Some s);
          give_all os ps s' }"

text \<open>The destructor. It ends by unmapping the cache itself, whose address is no part of the model: the cache is gone from
  \<open>tls\<close>.\<close>

definition tcache_dtor :: "os \<Rightarrow> nat \<Rightarrow> tcache \<Rightarrow> alloc \<Rightarrow> alloc option" where
  "tcache_dtor os tid tc s =
     do { s' \<leftarrow> give_all os (concat (map (\<lambda>c. take (unat (tc_n tc ! c)) (tc_buf tc ! c)) [0..<kNumClasses])) s;
          Some (s'\<lparr>tls := (tls s')(tid := None)\<rparr>) }"

section \<open>Initialisation\<close>

definition do_init :: "os \<Rightarrow> alloc \<Rightarrow> alloc" where
  "do_init os s = (read_env os s)\<lparr>tkey_ok := key_create_ok os, g_ready := True\<rparr>"

definition start_trim :: "os \<Rightarrow> alloc \<Rightarrow> alloc" where
  "start_trim os s = (if pthread_create_ok os then s\<lparr>g_trim_started := True\<rparr> else s)"

definition ensure_init :: "os \<Rightarrow> alloc \<Rightarrow> alloc" where
  "ensure_init os s0 =
     (if g_started s0 then s0
      else let s1 = (if \<not> g_res_done s0
                     then (let s = s0\<lparr>g_res_done := True\<rparr>
                           in if g_res_start s = 0 then reserve_init os s else s)
                     else s0);
               s2 = (if \<not> g_once_done s1 then do_init os (s1\<lparr>g_once_done := True\<rparr>) else s1)
           in if g_ready s2 \<and> \<not> g_started s2 then start_trim os (s2\<lparr>g_started := True\<rparr>) else s2)"

section \<open>Purge\<close>

text \<open>
  The page loop of \<open>purge_run\<close>. Offsets are below \<open>elems * elem \<le> (2^32 - 1)^2\<close>, so the 64-bit
  \<open>off + 4096\<close> cannot wrap and the offset is kept as a natural number; the block indices are
  cut to 32 bits as in the code.
\<close>

function purge_pages :: "run \<Rightarrow> u64 \<Rightarrow> nat \<Rightarrow> nat \<Rightarrow> alloc \<Rightarrow> alloc" where
  "purge_pages r d data_len off s =
     (if off + 4096 \<le> data_len then
        let b0 = (off div unat (r_elem r)) mod 2 ^ 32;
            b1' = ((off + 4096) div unat (r_elem r)) mod 2 ^ 32;
            b1 = (if b1' > unat (r_elems r) then unat (r_elems r) else b1')
        in if b1 \<le> b0 then s
           else let s' = (if list_all (blk_free (r_bits r)) [b0..<b1]
                          then (let z = zero_range (d + of_nat off) 4096 s in z\<lparr>g_purged := g_purged z + 4096\<rparr>)
                          else s)
                in purge_pages r d data_len (off + 4096) s'
      else s)"
  by pat_completeness auto
termination
  by (relation "measure (\<lambda>(r, d, n, off, s). n - off)") auto

declare purge_pages.simps [simp del]

definition purge_run :: "u64 \<Rightarrow> u64 \<Rightarrow> alloc \<Rightarrow> alloc option" where
  "purge_run a t s0 =
     do { r \<leftarrow> g_runs s0 a;
          if r_used r = 0 \<and> t - r_last_fully_free_ms r \<ge> env_run_idle_ms s0
          then do { s1 \<leftarrow> run_remove (unat (r_cls r) - 1) a s0;
                    let msize = (run_bytes (r_elems r) (r_elem r) + 4095) AND NOT 4095;
                    let s2 = munmap a msize s1;
                    Some (s2\<lparr>g_freed_to_os := g_freed_to_os s2 + msize\<rparr>) }
          else if t - r_last_touch_ms r < env_dirty_idle_ms s0 then Some s0
          else let r' = r\<lparr>r_last_touch_ms := t\<rparr>;
                   s1 = put_run a r' s0
               in if r_elem r' \<ge> 4096 \<and> (r_elem r' AND 4095) \<noteq> 0 then Some s1
                  else Some (purge_pages r' (run_data r' a) (unat (r_elems r') * unat (r_elem r')) 0 s1) }"

text \<open>The walk over one class, \<open>while(r) { nx = r->next; purge_run(r, t); r = nx; }\<close>. A cyclic
  list would not end: that is \<open>None\<close>, as is a dangling pointer.\<close>

partial_function (option) trim_walk :: "u64 \<Rightarrow> u64 \<Rightarrow> alloc \<Rightarrow> alloc option" where
  "trim_walk t a s =
     (if a = 0 then Some s
      else do { r \<leftarrow> g_runs s a;
                s' \<leftarrow> purge_run a t s;
                trim_walk t (r_next r) s' })"

declare trim_walk.simps [code]

definition trim_class :: "u64 \<Rightarrow> nat \<Rightarrow> alloc \<Rightarrow> alloc option" where
  "trim_class t c s = trim_walk t (class_head s c) s"

fun trim_classes :: "u64 \<Rightarrow> nat list \<Rightarrow> alloc \<Rightarrow> alloc option" where
  "trim_classes t [] s = Some s"
| "trim_classes t (c # cs) s = do { s' \<leftarrow> trim_class t c s; trim_classes t cs s' }"

text \<open>One round of \<open>trim_thread\<close> after its sleep.\<close>

definition trim_round :: "os \<Rightarrow> alloc \<Rightarrow> alloc option" where
  "trim_round os s =
     (if \<not> g_ready s then Some s
      else let (t, s1) = now_ms os s in trim_classes t [0..<kNumClasses] s1)"

section \<open>malloc and free\<close>

text \<open>\<open>while(r && r->used == r->elems) r = r->next;\<close>\<close>

partial_function (option) find_run :: "alloc \<Rightarrow> u64 \<Rightarrow> u64 option" where
  "find_run s a =
     (if a = 0 then Some 0
      else do { r \<leftarrow> g_runs s a;
                if r_used r = r_elems r then find_run s (r_next r) else Some a })"

declare find_run.simps [code]

definition malloc_large :: "os \<Rightarrow> u64 \<Rightarrow> alloc \<Rightarrow> (u64 \<times> alloc) option" where
  "malloc_large os n s0 =
     (let need = sizeof_LargeHdr + n;
          msize = (need + 4095) AND NOT 4095;
          (raw, s1) = (if g_res_start s0 \<noteq> 0 then reserve_map os msize 4096 s0
                       else mmap_any os msize s0)
      in if raw = 0 then Some (0, s1)
         else if \<not> g_acc s1 raw then None
         else let s2 = put_large raw \<lparr>l_magic = kMagicLarge, l_pad = 0, l_map_size = msize, l_user = n\<rparr> s1;
                  s3 = s2\<lparr>g_mapped := g_mapped s2 + msize\<rparr>
              in Some (raw + sizeof_LargeHdr, s3))"

text \<open>The locked path for a small request: first run with room, or a new run.\<close>

definition malloc_run :: "os \<Rightarrow> nat \<Rightarrow> alloc \<Rightarrow> (u64 \<times> alloc) option" where
  "malloc_run os c s0 =
     do { a \<leftarrow> find_run s0 (class_head s0 c);
          (a', s1) \<leftarrow> (if a = 0 then run_new os (c + 1) s0 else Some (a, s0));
          if a' \<noteq> 0 then run_take os a' s1 else Some (0, s1) }"

definition malloc_ready :: "os \<Rightarrow> nat \<Rightarrow> u64 \<Rightarrow> alloc \<Rightarrow> (u64 \<times> alloc) option" where
  "malloc_ready os tid n s =
     (if n \<ge> kLargeMin then malloc_large os n s
      else let c = class_of n - 1
           in case tc_current tid s of
                Some tc \<Rightarrow>
                  (if tc_n tc ! c \<noteq> 0
                   then let k = tc_n tc ! c - 1;
                            tc' = tc\<lparr>tc_n := (tc_n tc)[c := k]\<rparr>
                        in Some (tc_buf tc ! c ! unat k, s\<lparr>tls := (tls s)(tid \<mapsto> tc')\<rparr>)
                   else malloc_run os c s)
              | None \<Rightarrow> malloc_run os c s)"

definition malloc :: "os \<Rightarrow> nat \<Rightarrow> u64 \<Rightarrow> alloc \<Rightarrow> (u64 \<times> alloc) option" where
  "malloc os tid n0 s0 =
     (let n = (if n0 = 0 then 1 else n0)
      in if g_ready s0 then malloc_ready os tid n s0
         else let s1 = ensure_init os s0
              in if \<not> g_ready s1 then Some (0, s1) else malloc_ready os tid n s1)"

definition free_small :: "os \<Rightarrow> nat \<Rightarrow> u64 \<Rightarrow> alloc \<Rightarrow> alloc option" where
  "free_small os tid p s =
     (let c = unat (r_cls (run_view s (run_of p))) - 1
      in case tc_current tid s of
           Some tc \<Rightarrow>
             (if tc_n tc ! c < kTCap
              then let k = tc_n tc ! c;
                       tc' = tc\<lparr>tc_buf := (tc_buf tc)[c := (tc_buf tc ! c)[unat k := p]],
                               tc_n := (tc_n tc)[c := k + 1]\<rparr>
                   in Some (s\<lparr>tls := (tls s)(tid \<mapsto> tc')\<rparr>)
              else run_give os (run_of p) p s)
         | None \<Rightarrow> run_give os (run_of p) p s)"

text \<open>\<open>munmap(h, h->map_size); g_freed_to_os += h->map_size;\<close> the header is read again after the
  unmapping, as the code does.\<close>

definition free_large :: "u64 \<Rightarrow> alloc \<Rightarrow> alloc option" where
  "free_large p s =
     (let ha = p - sizeof_LargeHdr
      in do { h \<leftarrow> read_large s ha;
              let s1 = munmap ha (l_map_size h) s;
              h' \<leftarrow> read_large s1 ha;
              Some (s1\<lparr>g_freed_to_os := g_freed_to_os s1 + l_map_size h'\<rparr>) })"

definition free :: "os \<Rightarrow> nat \<Rightarrow> u64 \<Rightarrow> alloc \<Rightarrow> alloc option" where
  "free os tid p s =
     (if p = 0 then Some s
      else if g_res_start s \<noteq> 0 \<and> \<not> in_reserve s p
           then Some (if libc_free_found os then s\<lparr>libc_log := libc_log s @ [LibcFree p]\<rparr> else s)
      else do { small \<leftarrow> (if in_reserve s p then ours_small s p else Some False);
                if small then free_small os tid p s
                else do { large \<leftarrow> (if in_reserve s p then ours_large s p else Some False);
                          if large then free_large p s else Some s } })"

section \<open>The rest of the malloc family\<close>

definition calloc :: "os \<Rightarrow> nat \<Rightarrow> u64 \<Rightarrow> u64 \<Rightarrow> alloc \<Rightarrow> (u64 \<times> alloc) option" where
  "calloc os tid nm sz s0 =
     (if unat nm * unat sz \<ge> 2 ^ 64 then Some (0, s0\<lparr>g_enomem := True\<rparr>)
      else do { (p, s1) \<leftarrow> malloc os tid (nm * sz) s0;
                if p \<noteq> 0 then do { s2 \<leftarrow> memset0 p (nm * sz) s1; Some (p, s2) } else Some (p, s1) })"

text \<open>What \<open>realloc\<close> finds out about its pointer: the old size and whether it is ours.\<close>

definition realloc_lookup :: "u64 \<Rightarrow> alloc \<Rightarrow> (u64 \<times> bool) option" where
  "realloc_lookup p s =
     (if g_res_start s \<noteq> 0 \<and> in_reserve s p then
        do { small \<leftarrow> ours_small s p;
             if small then Some (ucast (r_elem (run_view s (run_of p))), True)
             else do { large \<leftarrow> ours_large s p;
                       if large then do { h \<leftarrow> read_large s (p - sizeof_LargeHdr); Some (l_user h, True) }
                       else Some (0, False) } }
      else Some (0, False))"

definition realloc :: "os \<Rightarrow> nat \<Rightarrow> u64 \<Rightarrow> u64 \<Rightarrow> alloc \<Rightarrow> (u64 \<times> alloc) option" where
  "realloc os tid p n s0 =
     (if p = 0 then malloc os tid n s0
      else if n = 0 then do { s1 \<leftarrow> free os tid p s0; malloc os tid 1 s1 }
      else do { (old, ours) \<leftarrow> realloc_lookup p s0;
                if \<not> ours then
                  (case libc_realloc os of None \<Rightarrow> Some (0, s0)
                   | Some f \<Rightarrow> Some (f (calls s0), s0\<lparr>calls := calls s0 + 1, libc_log := libc_log s0 @ [LibcRealloc p n]\<rparr>))
                else if n \<le> old \<and> old < kLargeMin \<and> n > old div 2 then Some (p, s0)
                else do { (np, s1) \<leftarrow> malloc os tid n s0;
                          if np \<noteq> 0
                          then do { s2 \<leftarrow> memcpy np p (if old < n then old else n) s1;
                                    s3 \<leftarrow> free os tid p s2;
                                    Some (np, s3) }
                          else Some (np, s1) } })"

definition EINVAL :: nat where "EINVAL = 22"
definition ENOMEM :: nat where "ENOMEM = 12"

text \<open>\<open>posix_memalign(out, align, n)\<close>: the return code, what is stored through \<open>out\<close> (nothing on
  error), and the state. \<open>out_null\<close> says that \<open>out\<close> is the null pointer.\<close>

definition posix_memalign :: "os \<Rightarrow> nat \<Rightarrow> bool \<Rightarrow> u64 \<Rightarrow> u64 \<Rightarrow> alloc \<Rightarrow> (nat \<times> u64 option \<times> alloc) option" where
  "posix_memalign os tid out_null align0 n s0 =
     (if out_null then Some (EINVAL, None, s0)
      else let align = (if align0 < 8 then 8 else align0)
           in if align AND (align - 1) \<noteq> 0 then Some (EINVAL, None, s0)
              else let need = n + align + 4096
                   in do { (p, s1) \<leftarrow> malloc os tid need s0;
                           if p = 0 then Some (ENOMEM, None, s1)
                           else Some (0, Some (align_up p align), s1) })"

definition aligned_alloc :: "os \<Rightarrow> nat \<Rightarrow> u64 \<Rightarrow> u64 \<Rightarrow> alloc \<Rightarrow> (u64 \<times> alloc) option" where
  "aligned_alloc os tid align n s0 =
     do { (code, out, s1) \<leftarrow> posix_memalign os tid False (if align \<noteq> 0 then align else 1) n s0;
          if code \<noteq> 0 then Some (0, s1)
          else Some (case out of Some a \<Rightarrow> a | None \<Rightarrow> 0, s1) }"

definition memalign :: "os \<Rightarrow> nat \<Rightarrow> u64 \<Rightarrow> u64 \<Rightarrow> alloc \<Rightarrow> (u64 \<times> alloc) option" where
  "memalign os tid align n s = aligned_alloc os tid align n s"

definition valloc :: "os \<Rightarrow> nat \<Rightarrow> u64 \<Rightarrow> alloc \<Rightarrow> (u64 \<times> alloc) option" where
  "valloc os tid n s = aligned_alloc os tid (page_size os) n s"

definition pvalloc :: "os \<Rightarrow> nat \<Rightarrow> u64 \<Rightarrow> alloc \<Rightarrow> (u64 \<times> alloc) option" where
  "pvalloc os tid n s =
     (let pg = page_size os in aligned_alloc os tid pg ((n + pg - 1) AND NOT (pg - 1)) s)"

definition reallocarray :: "os \<Rightarrow> nat \<Rightarrow> u64 \<Rightarrow> u64 \<Rightarrow> u64 \<Rightarrow> alloc \<Rightarrow> (u64 \<times> alloc) option" where
  "reallocarray os tid p nm sz s0 =
     (if unat nm * unat sz \<ge> 2 ^ 64 then Some (0, s0\<lparr>g_enomem := True\<rparr>)
      else realloc os tid p (nm * sz) s0)"

end
