(* ===== verification/Reserve.thy ===== *)
theory Reserve
  imports AllocApi
begin

text \<open>
  The address-space reserve (\<open>preload.cpp\<close>, lines 73 to 107): \<open>reserve_map\<close> hands out aligned
  pieces from a bump pointer. As long as the pointer does not wrap around, pieces are aligned,
  inside the reserve and pairwise disjoint; a request larger than the reserve moves the pointer
  past the end for good, and a wrapped pointer hands out memory that is already in use.
\<close>

section \<open>A supply of disjoint pieces\<close>

text \<open>
  What the allocator relies on: every piece lies between the frontier before and after the call.
  \<open>fits\<close> says that a request is in the range for which the provider promises this.
\<close>

locale bump_supply =
  fixes frontier :: "'s \<Rightarrow> nat"
    and fits :: "'s \<Rightarrow> 'q \<Rightarrow> bool"
    and extent :: "'q \<Rightarrow> nat"
    and serve :: "'q \<Rightarrow> 's \<Rightarrow> nat option \<times> 's"
  assumes frontier_mono: "fits s q \<Longrightarrow> serve q s = (x, s') \<Longrightarrow> frontier s \<le> frontier s'"
    and piece_bounds: "fits s q \<Longrightarrow> serve q s = (Some a, s') \<Longrightarrow> frontier s \<le> a \<and> a + extent q \<le> frontier s'"
begin

text \<open>\<open>serves s qs ps s'\<close>: the requests \<open>qs\<close> in turn lead from \<open>s\<close> to \<open>s'\<close>; \<open>ps\<close> lists the
  pieces that were granted, as start and extent.\<close>

inductive serves :: "'s \<Rightarrow> 'q list \<Rightarrow> (nat \<times> nat) list \<Rightarrow> 's \<Rightarrow> bool" where
  serves_Nil: "serves s [] [] s"
| serves_None: "fits s q \<Longrightarrow> serve q s = (None, s1) \<Longrightarrow> serves s1 qs ps s' \<Longrightarrow> serves s (q # qs) ps s'"
| serves_Some: "fits s q \<Longrightarrow> serve q s = (Some a, s1) \<Longrightarrow> serves s1 qs ps s' \<Longrightarrow>
    serves s (q # qs) ((a, extent q) # ps) s'"

lemma serves_above:
  "serves s qs ps s' \<Longrightarrow> frontier s \<le> frontier s' \<and> (\<forall>(a, n) \<in> set ps. frontier s \<le> a \<and> a + n \<le> frontier s')"
proof (induction rule: serves.induct)
  case (serves_Nil s)
  then show ?case by simp
next
  case (serves_None s q s1 qs ps s')
  with frontier_mono [OF serves_None.hyps(1,2)] show ?case by fastforce
next
  case (serves_Some s q a s1 qs ps s')
  with frontier_mono [OF serves_Some.hyps(1,2)] piece_bounds [OF serves_Some.hyps(1,2)]
  show ?case by fastforce
qed

lemma serves_disjoint:
  "serves s qs ps s' \<Longrightarrow> sorted_wrt (\<lambda>(a, n) (b, m). a + n \<le> b) ps"
proof (induction rule: serves.induct)
  case (serves_Nil s)
  then show ?case by simp
next
  case (serves_None s q s1 qs ps s')
  then show ?case by simp
next
  case (serves_Some s q a s1 qs ps s')
  have "a + extent q \<le> b" if "(b, m) \<in> set ps" for b m
  proof -
    from that serves_above [OF serves_Some.hyps(3)] have "frontier s1 \<le> b" by auto
    with piece_bounds [OF serves_Some.hyps(1,2)] show ?thesis by simp
  qed
  with serves_Some.IH show ?case by auto
qed

end

section \<open>One call\<close>

text \<open>The reserve as \<open>reserve_init\<close> leaves it, at a user-space address (below \<open>2^56\<close> on every
  x86-64 kernel), and a request for which the bump pointer does not wrap around.\<close>

definition res_ok :: "alloc \<Rightarrow> bool" where
  "res_ok s \<longleftrightarrow> g_res_start s \<noteq> 0 \<and> unat (g_res_start s) + 2 ^ 40 = unat (g_res_end s) \<and>
     g_res_start s \<le> g_res_bump s \<and> unat (g_res_end s) \<le> 2 ^ 56"

definition no_wrap :: "alloc \<Rightarrow> u64 \<Rightarrow> u64 \<Rightarrow> bool" where
  "no_wrap s sz al \<longleftrightarrow> unat (g_res_bump s) + unat sz + unat al < 2 ^ 64"

lemma align_up_pow2:
  assumes "k < 64" "unat x + 2 ^ k < 2 ^ 64"
  defines "y \<equiv> align_up x (2 ^ k)"
  shows "unat x \<le> unat y" "unat y < unat x + 2 ^ k" "2 ^ k dvd unat y"
proof -
  have p: "unat (2 ^ k :: u64) = 2 ^ k" using assms(1) by (simp add: unat_pow2)
  have s: "unat (x + 2 ^ k) = unat x + 2 ^ k" using assms(2) p by (subst unat_add_no_wrap) auto
  have "(1 :: u64) \<le> x + 2 ^ k" using s by (simp add: word_le_nat_alt trans_le_add2)
  then have m: "unat (x + 2 ^ k - 1) = unat x + 2 ^ k - 1" using s by (simp add: unat_sub)
  have y: "unat y = (unat x + 2 ^ k - 1) div 2 ^ k * 2 ^ k"
    unfolding y_def align_up_def mask_eq_exp_minus_1 [symmetric]
    using unat_and_not_mask [of k "x + 2 ^ k - 1"] assms(1) m by simp
  define d :: nat where "d = 2 ^ k"
  have d: "0 < d" by (simp add: d_def)
  have yd: "unat y = (unat x + d - 1) div d * d" using y by (simp add: d_def)
  have "(unat x + d - 1) div d * d + (unat x + d - 1) mod d = unat x + d - 1" by simp
  moreover have "(unat x + d - 1) mod d < d" using d by simp
  ultimately show "unat x \<le> unat y" "unat y < unat x + 2 ^ k"
    using d unfolding yd d_def [symmetric] by linarith+
  show "2 ^ k dvd unat y" unfolding y by simp
qed

lemma reserve_map_cases:
  assumes ok: "res_ok s" and nw: "no_wrap s sz (2 ^ k)" and k: "k < 64" and sz: "sz \<noteq> 0"
    and r: "reserve_map os sz (2 ^ k) s = (p, s')"
  shows "unat (g_res_bump s') = unat (g_res_bump s) + unat sz + 2 ^ k"
    "p \<noteq> 0 \<Longrightarrow> unat (g_res_bump s) \<le> unat p \<and> unat p < unat (g_res_bump s) + 2 ^ k \<and> 2 ^ k dvd unat p \<and>
       unat p + unat sz \<le> unat (g_res_end s) \<and> unat p + unat sz \<le> unat (g_res_bump s') \<and>
       (\<exists>n. s' = map_range p sz (s\<lparr>g_res_bump := g_res_bump s', calls := n\<rparr>))"
    "p = 0 \<Longrightarrow> \<exists>n. s' = s\<lparr>g_res_bump := g_res_bump s', calls := n\<rparr>"
proof -
  let ?base = "align_up (g_res_bump s) (2 ^ k)"
  let ?bump = "g_res_bump s + (sz + 2 ^ k)"
  have p2: "unat (2 ^ k :: u64) = 2 ^ k" using k by (simp add: unat_pow2)
  have nw': "unat (g_res_bump s) + unat sz + 2 ^ k < 2 ^ 64" using nw p2 by (simp add: no_wrap_def)
  then have sk: "unat (sz + 2 ^ k) = unat sz + 2 ^ k" using p2 by (subst unat_add_no_wrap) auto
  have bump: "unat ?bump = unat (g_res_bump s) + unat sz + 2 ^ k"
    using nw' sk by (subst unat_add_no_wrap) auto
  note al = align_up_pow2 [OF k, of "g_res_bump s"]
  have al': "unat (g_res_bump s) \<le> unat ?base" "unat ?base < unat (g_res_bump s) + 2 ^ k" "2 ^ k dvd unat ?base"
    using al nw' by auto
  have bs: "unat (?base + sz) = unat ?base + unat sz"
    using al'(2) nw' by (subst unat_add_no_wrap) auto
  have "0 < unat (g_res_bump s)" using ok by (auto simp: res_ok_def word_le_nat_alt unat_gt_0 [symmetric])
  then have b0: "?base \<noteq> 0" using al'(1) by auto
  have end_eq: "g_res_end (s\<lparr>g_res_bump := ?bump\<rparr>) = g_res_end s" by simp
  have cases: "(p, s') = (if ?base + sz > g_res_end s then (0, s\<lparr>g_res_bump := ?bump\<rparr>)
     else if \<not> mmap_fixed_ok os (calls s) ?base sz then (0, s\<lparr>g_res_bump := ?bump, calls := calls s + 1\<rparr>)
     else (?base, map_range ?base sz (s\<lparr>g_res_bump := ?bump, calls := calls s + 1\<rparr>)))"
    unfolding r [symmetric] using sz by (simp add: reserve_map_def Let_def)
  show "unat (g_res_bump s') = unat (g_res_bump s) + unat sz + 2 ^ k"
    using cases bump by (auto simp: map_range_def split: if_splits)
  { assume "p = 0"
    then have "s' = s\<lparr>g_res_bump := ?bump\<rparr> \<or> s' = s\<lparr>g_res_bump := ?bump, calls := calls s + 1\<rparr>"
      using cases b0 by (auto split: if_splits)
    then show "\<exists>n. s' = s\<lparr>g_res_bump := g_res_bump s', calls := n\<rparr>"
    proof
      assume "s' = s\<lparr>g_res_bump := ?bump\<rparr>"
      then show ?thesis by (intro exI [of _ "calls s"]) simp
    next
      assume "s' = s\<lparr>g_res_bump := ?bump, calls := calls s + 1\<rparr>"
      then show ?thesis by (intro exI [of _ "calls s + 1"]) simp
    qed }
  { assume "p \<noteq> 0"
    then have c: "\<not> ?base + sz > g_res_end s" "p = ?base"
      "s' = map_range ?base sz (s\<lparr>g_res_bump := ?bump, calls := calls s + 1\<rparr>)"
      using cases by (auto split: if_splits)
    have gb: "g_res_bump s' = ?bump" using c(3) by (simp add: map_range_def)
    have "unat ?base + unat sz \<le> unat (g_res_end s)" using c(1) bs by (simp add: word_less_nat_alt)
    moreover have "unat ?base + unat sz \<le> unat (g_res_bump s')" using gb bump al'(2) by simp
    moreover have "\<exists>n. s' = map_range p sz (s\<lparr>g_res_bump := g_res_bump s', calls := n\<rparr>)"
      unfolding gb using c(2,3) by blast
    ultimately show "unat (g_res_bump s) \<le> unat p \<and> unat p < unat (g_res_bump s) + 2 ^ k \<and> 2 ^ k dvd unat p \<and>
       unat p + unat sz \<le> unat (g_res_end s) \<and> unat p + unat sz \<le> unat (g_res_bump s') \<and>
       (\<exists>n. s' = map_range p sz (s\<lparr>g_res_bump := g_res_bump s', calls := n\<rparr>))"
      using al' c(2) by blast }
qed

section \<open>The reserve as a supply\<close>

text \<open>A request is a size and the exponent of its alignment; the code asks for \<open>2^12\<close> and \<open>2^21\<close>.\<close>

definition reserve_serve :: "os \<Rightarrow> u64 \<times> nat \<Rightarrow> alloc \<Rightarrow> nat option \<times> alloc" where
  "reserve_serve os q s =
     (case reserve_map os (fst q) (2 ^ snd q) s of (p, s') \<Rightarrow> (if p = 0 then None else Some (unat p), s'))"

definition reserve_fits :: "alloc \<Rightarrow> u64 \<times> nat \<Rightarrow> bool" where
  "reserve_fits s q \<longleftrightarrow> res_ok s \<and> fst q \<noteq> 0 \<and> snd q < 64 \<and> no_wrap s (fst q) (2 ^ snd q)"

interpretation rs: bump_supply "\<lambda>s. unat (g_res_bump s)" reserve_fits "\<lambda>q. unat (fst q)" "reserve_serve os"
  for os
proof unfold_locales
  fix s :: alloc and q :: "u64 \<times> nat" and x s'
  assume f: "reserve_fits s q" and "reserve_serve os q s = (x, s')"
  then obtain p where "reserve_map os (fst q) (2 ^ snd q) s = (p, s')"
    by (auto simp: reserve_serve_def split: prod.splits)
  with f show "unat (g_res_bump s) \<le> unat (g_res_bump s')"
    using reserve_map_cases(1) [of s "fst q" "snd q" os p s'] by (auto simp: reserve_fits_def)
next
  fix s :: alloc and q :: "u64 \<times> nat" and a s'
  assume f: "reserve_fits s q" and "reserve_serve os q s = (Some a, s')"
  then obtain p where p: "reserve_map os (fst q) (2 ^ snd q) s = (p, s')" "p \<noteq> 0" "a = unat p"
    by (auto simp: reserve_serve_def split: prod.splits if_splits)
  with f show "unat (g_res_bump s) \<le> a \<and> a + unat (fst q) \<le> unat (g_res_bump s')"
    using reserve_map_cases(2) [of s "fst q" "snd q" os p s'] by (auto simp: reserve_fits_def)
qed

section \<open>Exhaustion and wrap-around\<close>

lemma reserve_map_exhausted:
  assumes "res_ok s" "no_wrap s sz (2 ^ k)" "k < 64" "sz \<noteq> 0" "unat (g_res_end s) \<le> unat (g_res_bump s)"
  shows "fst (reserve_map os sz (2 ^ k) s) = 0"
proof -
  obtain p s' where r: "reserve_map os sz (2 ^ k) s = (p, s')" by fastforce
  have "p = 0"
  proof (rule ccontr)
    assume "p \<noteq> 0"
    from reserve_map_cases(2) [OF assms(1-4) r this] assms(4,5) show False
      by (auto simp: unat_gt_0 [symmetric])
  qed
  then show ?thesis using r by simp
qed

lemma reserve_map_oversize:
  assumes "res_ok s" "no_wrap s sz (2 ^ k)" "k < 64" "2 ^ 40 < unat sz"
  shows "fst (reserve_map os sz (2 ^ k) s) = 0"
    "unat (g_res_end s) \<le> unat (g_res_bump (snd (reserve_map os sz (2 ^ k) s)))"
    "\<exists>b n. snd (reserve_map os sz (2 ^ k) s) = s\<lparr>g_res_bump := b, calls := n\<rparr>"
proof -
  obtain p s' where r: "reserve_map os sz (2 ^ k) s = (p, s')" by fastforce
  have sz: "sz \<noteq> 0" using assms(4) by auto
  have start: "unat (g_res_start s) + 2 ^ 40 = unat (g_res_end s)" "unat (g_res_start s) \<le> unat (g_res_bump s)"
    using assms(1) by (auto simp: res_ok_def word_le_nat_alt)
  note c = reserve_map_cases [OF assms(1-3) sz r]
  have p: "p = 0"
  proof (rule ccontr)
    assume "p \<noteq> 0"
    from c(2) [OF this] start assms(4) show False by linarith
  qed
  then show "fst (reserve_map os sz (2 ^ k) s) = 0" using r by simp
  show "unat (g_res_end s) \<le> unat (g_res_bump (snd (reserve_map os sz (2 ^ k) s)))"
    using r c(1) start assms(4) by simp
  show "\<exists>b n. snd (reserve_map os sz (2 ^ k) s) = s\<lparr>g_res_bump := b, calls := n\<rparr>"
    using r c(3) [OF p] by auto
qed

section \<open>Sequences of requests\<close>

fun reserve_seq :: "os \<Rightarrow> (u64 \<times> nat) list \<Rightarrow> alloc \<Rightarrow> (nat \<times> nat) list \<times> alloc" where
  "reserve_seq os [] s = ([], s)"
| "reserve_seq os (q # qs) s =
     (let (p, s1) = reserve_map os (fst q) (2 ^ snd q) s; (ps, s') = reserve_seq os qs s1
      in (if p = 0 then ps else (unat p, unat (fst q)) # ps, s'))"

definition reserve_demand :: "(u64 \<times> nat) list \<Rightarrow> nat" where
  "reserve_demand qs = sum_list (map (\<lambda>q. unat (fst q) + 2 ^ snd q) qs)"

lemma reserve_map_res_ok:
  assumes "res_ok s" "no_wrap s sz (2 ^ k)" "k < 64" "sz \<noteq> 0" "reserve_map os sz (2 ^ k) s = (p, s')"
  shows "res_ok s'"
proof -
  note c = reserve_map_cases [OF assms]
  have "g_res_start s' = g_res_start s \<and> g_res_end s' = g_res_end s"
    using assms(5) unfolding reserve_map_def Let_def
    by (auto simp: map_range_def split: if_splits)
  then show ?thesis using assms(1) c(1) by (auto simp: res_ok_def word_le_nat_alt)
qed

lemma reserve_seq_serves:
  assumes "res_ok s" "\<forall>q\<in>set qs. fst q \<noteq> 0 \<and> snd q < 64" "unat (g_res_bump s) + reserve_demand qs < 2 ^ 64"
  shows "rs.serves os s qs (fst (reserve_seq os qs s)) (snd (reserve_seq os qs s))"
  using assms
proof (induction qs arbitrary: s)
  case Nil
  then show ?case by (simp add: rs.serves_Nil)
next
  case (Cons q qs)
  obtain p s1 where r: "reserve_map os (fst q) (2 ^ snd q) s = (p, s1)" by fastforce
  have q: "fst q \<noteq> 0" "snd q < 64" using Cons.prems(2) by auto
  have nw: "no_wrap s (fst q) (2 ^ snd q)"
    using Cons.prems(3) q(2) by (simp add: no_wrap_def unat_pow2 reserve_demand_def)
  have fits: "reserve_fits s q" using Cons.prems(1) q nw by (simp add: reserve_fits_def)
  note c = reserve_map_cases [OF Cons.prems(1) nw q(2,1) r]
  have ok1: "res_ok s1" by (rule reserve_map_res_ok [OF Cons.prems(1) nw q(2,1) r])
  have "unat (g_res_bump s1) + reserve_demand qs < 2 ^ 64"
    using Cons.prems(3) c(1) by (simp add: reserve_demand_def)
  with Cons.IH [OF ok1] Cons.prems(2) have ih: "rs.serves os s1 qs (fst (reserve_seq os qs s1)) (snd (reserve_seq os qs s1))"
    by simp
  show ?case
  proof (cases "p = 0")
    case True
    then have "reserve_serve os q s = (None, s1)" using r by (simp add: reserve_serve_def)
    from rs.serves_None [OF fits this ih] show ?thesis using r True by (simp add: case_prod_beta)
  next
    case False
    then have "reserve_serve os q s = (Some (unat p), s1)" using r by (simp add: reserve_serve_def)
    from rs.serves_Some [OF fits this ih] show ?thesis using r False by (simp add: case_prod_beta)
  qed
qed

text \<open>The pieces a sequence of \<open>reserve_map\<close> calls returns lie above the bump pointer, do not overlap
  and come in increasing order, as long as the sizes and alignments asked for, granted or not, add
  up to less than what is left below \<open>2^64\<close>.\<close>

theorem reserve_pieces_disjoint:
  assumes "res_ok s" "\<forall>q\<in>set qs. fst q \<noteq> 0 \<and> snd q < 64" "unat (g_res_bump s) + reserve_demand qs < 2 ^ 64"
  shows "sorted_wrt (\<lambda>(a, n) (b, m). a + n \<le> b) (fst (reserve_seq os qs s)) \<and>
    (\<forall>(a, n) \<in> set (fst (reserve_seq os qs s)). unat (g_res_bump s) \<le> a \<and> a + n \<le> unat (g_res_bump (snd (reserve_seq os qs s))))"
  using rs.serves_disjoint [OF reserve_seq_serves [OF assms]] rs.serves_above [OF reserve_seq_serves [OF assms]] by blast

text \<open>A system that grants every fixed mapping, and the reserve at \<open>2^44\<close>.\<close>

definition grant_os :: os where
  "grant_os = \<lparr>clock = (\<lambda>_. (0, 0)), mmap_reserve = Some 17592186044416, mmap_fixed_ok = (\<lambda>_ _ _. True),
     mmap_anywhere = (\<lambda>_ _. None), key_create_ok = True, pthread_create_ok = True, getenv = (\<lambda>_. None),
     libc_free_found = True, libc_realloc = None, page_size = 4096\<rparr>"

theorem reserve_pieces_disjoint_witness:
  "fst (reserve_seq grant_os [(4096, 12), (2101248, 21), (8192, 12)] (reserve_init grant_os alloc_initial)) =
     [(17592186044416, 4096), (17592188141568, 2101248), (17592190251008, 8192)] \<and>
   sorted_wrt (\<lambda>(a, n) (b, m). a + n \<le> b)
     (fst (reserve_seq grant_os [(4096, 12), (2101248, 21), (8192, 12)] (reserve_init grant_os alloc_initial)))"
proof -
  let ?s = "reserve_init grant_os alloc_initial"
  let ?qs = "[(4096, 12), (2101248, 21), (8192, 12)] :: (u64 \<times> nat) list"
  have f: "g_res_start ?s = 17592186044416" "g_res_end ?s = 18691697672192" "g_res_bump ?s = 17592186044416"
    by (simp_all add: reserve_init_def grant_os_def kReserveSize_def)
  have h: "res_ok ?s" "\<forall>q\<in>set ?qs. fst q \<noteq> 0 \<and> snd q < 64" "unat (g_res_bump ?s) + reserve_demand ?qs < 2 ^ 64"
    by (simp_all add: res_ok_def f reserve_demand_def)
  have v: "fst (reserve_seq grant_os ?qs ?s) = [(17592186044416, 4096), (17592188141568, 2101248), (17592190251008, 8192)]"
    by (simp add: reserve_seq.simps reserve_map_def f Let_def align_up_def grant_os_def reserve_init_def kReserveSize_def map_range_def)
  from reserve_pieces_disjoint [OF h, of grant_os] v show ?thesis by simp
qed

end
