(* ===== verification/RunList.thy ===== *)
theory RunList
  imports RunOps
begin

text \<open>
  The doubly linked list of the runs of a class. A list segment in the store is related to the
  abstract list of its addresses; \<open>run_insert\<close> is then consing and \<open>run_remove\<close> removing an
  element, and neither touches anything but the links of the runs involved and the list head.
\<close>

section \<open>Segments\<close>

text \<open>\<open>dseg m p h L q t\<close>: starting at \<open>h\<close>, whose predecessor is \<open>p\<close>, the links run through the
  addresses \<open>L\<close>; the last of them is \<open>q\<close> and it points to \<open>t\<close>.\<close>

fun dseg :: "(u64 \<rightharpoonup> run) \<Rightarrow> u64 \<Rightarrow> u64 \<Rightarrow> u64 list \<Rightarrow> u64 \<Rightarrow> u64 \<Rightarrow> bool" where
  "dseg m p h [] q t \<longleftrightarrow> p = q \<and> h = t"
| "dseg m p h (a # as) q t \<longleftrightarrow>
     h = a \<and> a \<noteq> 0 \<and> (\<exists>r. m a = Some r \<and> r_prev r = p \<and> dseg m a (r_next r) as q t)"

definition dlist :: "(u64 \<rightharpoonup> run) \<Rightarrow> u64 \<Rightarrow> u64 list \<Rightarrow> bool" where
  "dlist m h L \<longleftrightarrow> distinct L \<and> (\<exists>q. dseg m 0 h L q 0)"

definition links :: "run option \<Rightarrow> (u64 \<times> u64) option" where
  "links = map_option (\<lambda>r. (r_prev r, r_next r))"

lemma links_simps [simp]: "links None = None" "links (Some r) = Some (r_prev r, r_next r)"
  by (simp_all add: links_def)

lemma links_Some_iff: "links x = Some (u, v) \<longleftrightarrow> (\<exists>r. x = Some r \<and> r_prev r = u \<and> r_next r = v)"
  by (cases x) auto

lemma dseg_cong:
  "(\<And>a. a \<in> set L \<Longrightarrow> links (m a) = links (m' a)) \<Longrightarrow> dseg m p h L q t \<longleftrightarrow> dseg m' p h L q t"
proof (induction L arbitrary: p h)
  case Nil
  then show ?case by simp
next
  case (Cons a as)
  have l: "links (m a) = links (m' a)" using Cons.prems by simp
  have IH: "dseg m p h as q t \<longleftrightarrow> dseg m' p h as q t" for p h using Cons by simp
  show ?case using l by (cases "m a"; cases "m' a") (auto simp: IH)
qed

lemma dseg_append:
  "dseg m p h (xs @ ys) q t \<longleftrightarrow> (\<exists>q' t'. dseg m p h xs q' t' \<and> dseg m q' t' ys q t)"
  by (induction xs arbitrary: p h) auto

lemma dseg_mem: "dseg m p h L q t \<Longrightarrow> a \<in> set L \<Longrightarrow> a \<noteq> 0 \<and> m a \<noteq> None"
  by (induction L arbitrary: p h) auto

lemma dseg_set_next:
  "dseg m p h xs q t \<Longrightarrow> xs \<noteq> [] \<Longrightarrow> distinct xs \<Longrightarrow> m q = Some r \<Longrightarrow>
   dseg (m(q \<mapsto> r\<lparr>r_next := t'\<rparr>)) p h xs q t' \<and> q = last xs"
proof (induction xs arbitrary: p h)
  case Nil
  then show ?case by simp
next
  case (Cons a as)
  show ?case
  proof (cases as)
    case Nil
    with Cons.prems show ?thesis by auto
  next
    case (Cons b bs)
    from Cons.prems(1) obtain ra where ra: "m a = Some ra" "r_prev ra = p" "h = a" "a \<noteq> 0"
      "dseg m a (r_next ra) as q t" by auto
    have "as \<noteq> []" "distinct as" using Cons.prems(3) Cons by simp_all
    from Cons.IH [OF ra(5) this Cons.prems(4)]
    have ih: "dseg (m(q \<mapsto> r\<lparr>r_next := t'\<rparr>)) a (r_next ra) as q t'" "q = last as" by blast+
    have "a \<notin> set as" using Cons.prems(3) by simp
    then have "q \<noteq> a" using ih(2) last_in_set [OF \<open>as \<noteq> []\<close>] by metis
    then have "dseg (m(q \<mapsto> r\<lparr>r_next := t'\<rparr>)) p h (a # as) q t'" using ih(1) ra(1-4) by simp
    moreover have "q = last (a # as)" using ih(2) Cons by simp
    ultimately show ?thesis by (rule conjI)
  qed
qed

lemma dseg_set_prev:
  assumes "dseg m p h (y # ys) q t" "distinct (y # ys)" "m y = Some r"
  shows "dseg (m(y \<mapsto> r\<lparr>r_prev := p'\<rparr>)) p' h (y # ys) q t"
proof -
  have "dseg (m(y \<mapsto> r\<lparr>r_prev := p'\<rparr>)) y (r_next r) ys q t \<longleftrightarrow> dseg m y (r_next r) ys q t"
    using assms(2) by (intro dseg_cong) auto
  with assms show ?thesis by auto
qed

lemma dlist_cong:
  "(\<And>a. a \<in> set L \<Longrightarrow> links (m a) = links (m' a)) \<Longrightarrow> dlist m h L \<longleftrightarrow> dlist m' h L"
  unfolding dlist_def using dseg_cong by metis

lemma dlist_Nil [simp]: "dlist m h [] \<longleftrightarrow> h = 0"
  by (auto simp: dlist_def)

lemma dlist_mem: "dlist m h L \<Longrightarrow> a \<in> set L \<Longrightarrow> a \<noteq> 0 \<and> m a \<noteq> None"
  by (auto simp: dlist_def dest: dseg_mem)

lemma dlist_head_zero: "dlist m h L \<Longrightarrow> h = 0 \<longleftrightarrow> L = []"
  by (cases L) (auto simp: dlist_def)

section \<open>What a list operation leaves alone\<close>

definition core :: "run \<Rightarrow> run" where
  "core r = r\<lparr>r_next := 0, r_prev := 0\<rparr>"

definition same_core :: "(u64 \<rightharpoonup> run) \<Rightarrow> (u64 \<rightharpoonup> run) \<Rightarrow> bool" where
  "same_core m m' \<longleftrightarrow> (\<forall>x. map_option core (m x) = map_option core (m' x))"

lemma same_core_refl [simp]: "same_core m m"
  by (simp add: same_core_def)

lemma same_core_trans: "same_core m m' \<Longrightarrow> same_core m' m'' \<Longrightarrow> same_core m m''"
  by (simp add: same_core_def)

lemma same_core_upd:
  "m a = Some r \<Longrightarrow> core r' = core r \<Longrightarrow> same_core m (m(a \<mapsto> r'))"
  by (auto simp: same_core_def)

lemma core_upd [simp]: "core (r\<lparr>r_next := x\<rparr>) = core r" "core (r\<lparr>r_prev := x\<rparr>) = core r"
  by (simp_all add: core_def)

lemma same_core_None: "same_core m m' \<Longrightarrow> m x = None \<longleftrightarrow> m' x = None"
  by (metis map_option_is_None same_core_def)

lemma same_core_Some:
  assumes "same_core m m'" "m' x = Some r'"
  obtains r where "m x = Some r" "core r = core r'"
  using assms by (metis (no_types, lifting) map_option_eq_Some same_core_def)

lemma core_fields:
  assumes "core r = core r'"
  shows "r_magic r = r_magic r'" "r_cls r = r_cls r'" "r_elems r = r_elems r'" "r_used r = r_used r'"
    "r_elem r = r_elem r'" "r_bits r = r_bits r'" "r_last_fully_free_ms r = r_last_fully_free_ms r'"
    "r_last_touch_ms r = r_last_touch_ms r'"
proof -
  from assms have "r_magic (core r) = r_magic (core r')" "r_cls (core r) = r_cls (core r')"
    "r_elems (core r) = r_elems (core r')" "r_used (core r) = r_used (core r')"
    "r_elem (core r) = r_elem (core r')" "r_bits (core r) = r_bits (core r')"
    "r_last_fully_free_ms (core r) = r_last_fully_free_ms (core r')"
    "r_last_touch_ms (core r) = r_last_touch_ms (core r')" by simp_all
  then show "r_magic r = r_magic r'" "r_cls r = r_cls r'" "r_elems r = r_elems r'" "r_used r = r_used r'"
    "r_elem r = r_elem r'" "r_bits r = r_bits r'" "r_last_fully_free_ms r = r_last_fully_free_ms r'"
    "r_last_touch_ms r = r_last_touch_ms r'" by (simp_all add: core_def)
qed

text \<open>\<open>list_step c L s s'\<close>: from \<open>s\<close> to \<open>s'\<close> only the list head of class \<open>c\<close> and the links of runs
  in \<open>L\<close> have changed.\<close>

definition list_step :: "nat \<Rightarrow> u64 set \<Rightarrow> alloc \<Rightarrow> alloc \<Rightarrow> bool" where
  "list_step c A s s' \<longleftrightarrow>
     (\<exists>R h. s' = s\<lparr>g_runs := R, g_cls := (g_cls s)[c := (g_cls s ! c)\<lparr>cs_head := h\<rparr>]\<rparr> \<and>
        same_core (g_runs s) R \<and> (\<forall>x. x \<notin> A \<longrightarrow> R x = g_runs s x))"

section \<open>Insertion\<close>

lemma run_insert_dlist:
  assumes L: "dlist (g_runs s) (class_head s c) L" and a: "g_runs s a = Some r" "a \<noteq> 0" "a \<notin> set L"
    and c: "c < length (g_cls s)"
  shows "\<exists>s'. run_insert c a s = Some s' \<and> dlist (g_runs s') (class_head s' c) (a # L) \<and>
    list_step c (insert a (set L)) s s'"
proof (cases L)
  case Nil
  then have h: "class_head s c = 0" using L by simp
  let ?s' = "set_head c a (put_run a (r\<lparr>r_prev := 0, r_next := 0\<rparr>) s)"
  have "run_insert c a s = Some ?s'" using a h by (simp add: run_insert_def Let_def)
  moreover have "dlist (g_runs ?s') (class_head ?s' c) (a # L)"
    using Nil a c by (simp add: dlist_def set_head_def put_run_def class_head_def)
  moreover have "list_step c (insert a (set L)) s ?s'"
    unfolding list_step_def set_head_def put_run_def
    using a by (intro exI [of _ "(g_runs s)(a \<mapsto> r\<lparr>r_prev := 0, r_next := 0\<rparr>)"] exI [of _ a])
      (auto intro!: same_core_upd simp: core_def)
  ultimately show ?thesis by blast
next
  case (Cons b bs)
  let ?h = "class_head s c"
  obtain q where seg: "dseg (g_runs s) 0 ?h L q 0" and dist: "distinct L"
    using L by (auto simp: dlist_def)
  then obtain y where y: "?h = b" "b \<noteq> 0" "g_runs s b = Some y" using Cons by auto
  have ab: "a \<noteq> b" using a(3) Cons by auto
  let ?m1 = "(g_runs s)(a \<mapsto> r\<lparr>r_prev := 0, r_next := b\<rparr>)"
  let ?m2 = "?m1(b \<mapsto> y\<lparr>r_prev := a\<rparr>)"
  let ?s' = "set_head c a (put_run b (y\<lparr>r_prev := a\<rparr>) (put_run a (r\<lparr>r_prev := 0, r_next := b\<rparr>) s))"
  have run: "run_insert c a s = Some ?s'"
    using a y ab by (simp add: run_insert_def Let_def put_run_def)
  have "dseg ?m1 0 ?h L q 0" using seg a(3) by (subst dseg_cong [of _ _ "g_runs s"]) auto
  then have "dseg ?m2 a ?h L q 0"
    using dseg_set_prev [of ?m1 0 ?h b bs q 0 y a] Cons dist y ab by simp
  then have "dseg ?m2 0 a (a # L) q 0" using a(2) ab y by auto
  then have dl: "dlist (g_runs ?s') (class_head ?s' c) (a # L)"
    using dist a(3) c unfolding dlist_def set_head_def put_run_def class_head_def
    by (intro conjI exI [of _ q]) auto
  have "same_core (g_runs s) ?m1" using a by (auto intro!: same_core_upd simp: core_def)
  moreover have "same_core ?m1 ?m2" using y ab by (auto intro!: same_core_upd)
  ultimately have "same_core (g_runs s) ?m2" by (rule same_core_trans)
  then have "list_step c (insert a (set L)) s ?s'"
    unfolding list_step_def set_head_def put_run_def
    using Cons by (intro exI [of _ ?m2] exI [of _ a]) auto
  with run dl show ?thesis by blast
qed

section \<open>Removal\<close>

text \<open>The first half of \<open>run_remove\<close>: the predecessor, or the head, skips the run.\<close>

lemma unlink_pred:
  assumes seg: "dseg (g_runs s) 0 (class_head s c) (xs @ a # ys) q 0" and dist: "distinct (xs @ a # ys)"
    and r: "g_runs s a = Some r" and c: "c < length (g_cls s)"
  defines "step \<equiv> (if r_prev r \<noteq> 0
                 then do { y \<leftarrow> g_runs s (r_prev r);
                           Some (put_run (r_prev r) (y\<lparr>r_next := r_next r\<rparr>) s) }
                 else Some (set_head c (r_next r) s))"
  shows "\<exists>s1. step = Some s1 \<and> g_runs s1 a = Some r \<and> list_step c (set xs) s s1 \<and>
     dseg (g_runs s1) 0 (class_head s1 c) xs (r_prev r) (r_next r) \<and>
     dseg (g_runs s1) a (r_next r) ys q 0"
proof -
  from seg r have xs: "dseg (g_runs s) 0 (class_head s c) xs (r_prev r) a"
    and ys: "dseg (g_runs s) a (r_next r) ys q 0" by (auto simp: dseg_append)
  show ?thesis
  proof (cases xs rule: rev_cases)
    case Nil
    then have p: "r_prev r = 0" "class_head s c = a" using xs by simp_all
    have "list_step c (set xs) s (set_head c (r_next r) s)"
      unfolding list_step_def set_head_def by (intro exI [of _ "g_runs s"] exI [of _ "r_next r"]) simp
    then show ?thesis using Nil p r ys c unfolding step_def
      by (intro exI [of _ "set_head c (r_next r) s"]) (simp add: set_head_def class_head_def)
  next
    case (snoc us b)
    then have b: "r_prev r = b" "b \<noteq> 0" "g_runs s b \<noteq> None"
      using xs dseg_mem [OF xs, of b] by (auto simp: dseg_append)
    then obtain y where y: "g_runs s b = Some y" by auto
    have ne: "b \<noteq> a" "b \<notin> set ys" using dist snoc by auto
    let ?R = "(g_runs s)(b \<mapsto> y\<lparr>r_next := r_next r\<rparr>)"
    let ?s1 = "put_run b (y\<lparr>r_next := r_next r\<rparr>) s"
    have "dseg ?R 0 (class_head s c) xs b (r_next r)"
      using dseg_set_next [OF xs, of y "r_next r"] dist snoc b y by auto
    moreover have "dseg ?R a (r_next r) ys q 0"
      using ys ne(2) by (subst dseg_cong [of _ _ "g_runs s"]) auto
    moreover have "list_step c (set xs) s ?s1"
      unfolding list_step_def put_run_def using y snoc
      by (intro exI [of _ ?R] exI [of _ "cs_head (g_cls s ! c)"]) (auto intro!: same_core_upd)
    ultimately show ?thesis using b y ne(1) r unfolding step_def
      by (intro exI [of _ ?s1]) (simp add: put_run_def class_head_def)
  qed
qed

lemma list_step_mono: "list_step c A s s' \<Longrightarrow> A \<subseteq> B \<Longrightarrow> list_step c B s s'"
  unfolding list_step_def by (elim exE conjE, intro exI conjI) auto

lemma list_step_trans:
  assumes "list_step c A s s1" "list_step c B s1 s2"
  shows "list_step c (A \<union> B) s s2"
proof -
  obtain R h where 1: "s1 = s\<lparr>g_runs := R, g_cls := (g_cls s)[c := (g_cls s ! c)\<lparr>cs_head := h\<rparr>]\<rparr>"
    "same_core (g_runs s) R" "\<forall>x. x \<notin> A \<longrightarrow> R x = g_runs s x"
    using assms(1) by (auto simp: list_step_def)
  obtain R' h' where 2: "s2 = s1\<lparr>g_runs := R', g_cls := (g_cls s1)[c := (g_cls s1 ! c)\<lparr>cs_head := h'\<rparr>]\<rparr>"
    "same_core (g_runs s1) R'" "\<forall>x. x \<notin> B \<longrightarrow> R' x = g_runs s1 x"
    using assms(2) by (auto simp: list_step_def)
  have "(g_cls s1)[c := (g_cls s1 ! c)\<lparr>cs_head := h'\<rparr>] = (g_cls s)[c := (g_cls s ! c)\<lparr>cs_head := h'\<rparr>]"
    using 1(1) by (cases "c < length (g_cls s)") (auto simp: list_update_beyond)
  then have "s2 = s\<lparr>g_runs := R', g_cls := (g_cls s)[c := (g_cls s ! c)\<lparr>cs_head := h'\<rparr>]\<rparr>"
    using 1(1) 2(1) by simp
  moreover have "same_core (g_runs s) R'" using 1 2 by (auto intro: same_core_trans)
  moreover have "\<forall>x. x \<notin> A \<union> B \<longrightarrow> R' x = g_runs s x" using 1 2 by auto
  ultimately show ?thesis unfolding list_step_def by blast
qed

lemma run_remove_dlist:
  assumes L: "dlist (g_runs s) (class_head s c) L" and a: "a \<in> set L" and c: "c < length (g_cls s)"
  shows "\<exists>s'. run_remove c a s = Some s' \<and> dlist (g_runs s') (class_head s' c) (remove1 a L) \<and>
    list_step c (set L - {a}) s s' \<and> g_runs s' a = g_runs s a"
proof -
  obtain q where seg: "dseg (g_runs s) 0 (class_head s c) L q 0" and dist: "distinct L"
    using L by (auto simp: dlist_def)
  obtain xs ys where L_split: "L = xs @ a # ys" using a by (auto simp: in_set_conv_decomp)
  obtain r where r: "g_runs s a = Some r" using dlist_mem [OF L a] by auto
  from unlink_pred [OF seg [unfolded L_split] dist [unfolded L_split] r c]
  obtain s1 where s1: "(if r_prev r \<noteq> 0
       then do { y \<leftarrow> g_runs s (r_prev r); Some (put_run (r_prev r) (y\<lparr>r_next := r_next r\<rparr>) s) }
       else Some (set_head c (r_next r) s)) = Some s1"
    "g_runs s1 a = Some r" "list_step c (set xs) s s1"
    "dseg (g_runs s1) 0 (class_head s1 c) xs (r_prev r) (r_next r)"
    "dseg (g_runs s1) a (r_next r) ys q 0" by blast
  have rem: "remove1 a L = xs @ ys" using dist by (simp add: L_split remove1_append)
  show ?thesis
  proof (cases ys)
    case Nil
    then have n: "r_next r = 0" "q = a" using s1(5) by auto
    have "run_remove c a s = Some s1" using r s1(1,2) n by (simp add: run_remove_def)
    moreover have "dlist (g_runs s1) (class_head s1 c) xs"
      using s1(4) n(1) dist unfolding dlist_def L_split by auto
    then have "dlist (g_runs s1) (class_head s1 c) (remove1 a L)" using Nil by (simp add: rem)
    moreover have "set xs = set L - {a}" using dist Nil by (auto simp: L_split)
    moreover note \<open>dlist (g_runs s1) (class_head s1 c) (remove1 a L)\<close>
    ultimately show ?thesis using s1(2,3) r by auto
  next
    case (Cons b bs)
    then obtain y where y: "r_next r = b" "b \<noteq> 0" "g_runs s1 b = Some y" using s1(5) by auto
    have ne: "b \<noteq> a" "b \<notin> set xs" using dist Cons by (auto simp: L_split)
    let ?s2 = "put_run b (y\<lparr>r_prev := r_prev r\<rparr>) s1"
    have run: "run_remove c a s = Some ?s2" using r s1(1,2) y by (simp add: run_remove_def)
    have "dseg (g_runs ?s2) (r_prev r) b ys q 0"
      using dseg_set_prev [of "g_runs s1" a b b bs q 0 y "r_prev r"] s1(5) y Cons dist
      by (simp add: L_split put_run_def)
    moreover have "dseg (g_runs ?s2) 0 (class_head s1 c) xs (r_prev r) b"
      using s1(4) y(1) ne(2) by (subst dseg_cong [of _ _ "g_runs s1"]) (auto simp: put_run_def)
    ultimately have "dseg (g_runs ?s2) 0 (class_head ?s2 c) (xs @ ys) q 0"
      by (auto simp: dseg_append class_head_def put_run_def)
    then have dl: "dlist (g_runs ?s2) (class_head ?s2 c) (remove1 a L)"
      using dist unfolding rem dlist_def by (auto simp: L_split)
    have "list_step c {b} s1 ?s2"
      unfolding list_step_def put_run_def using y
      by (intro exI [of _ "(g_runs s1)(b \<mapsto> y\<lparr>r_prev := r_prev r\<rparr>)"] exI [of _ "cs_head (g_cls s1 ! c)"])
        (auto intro!: same_core_upd)
    from list_step_trans [OF s1(3) this] have "list_step c (set L - {a}) s ?s2"
      by (rule list_step_mono) (use Cons ne dist L_split in auto)
    with run dl ne(1) s1(2) r show ?thesis by (auto simp: put_run_def)
  qed
qed

section \<open>Refinement of an abstract list\<close>

text \<open>C28. The list operations refine those on abstract lists: when the links of a class represent the
  list \<open>L\<close>, \<open>run_insert\<close> of a new run represents \<open>a # L\<close> afterwards, \<open>run_remove\<close> of a member
  represents \<open>L\<close> without it, and neither follows a null or dangling pointer.\<close>

theorem run_list_refines:
  assumes "dlist (g_runs s) (class_head s c) L" "c < length (g_cls s)"
  shows "(g_runs s a \<noteq> None \<and> a \<noteq> 0 \<and> a \<notin> set L \<longrightarrow>
      (\<exists>s'. run_insert c a s = Some s' \<and> dlist (g_runs s') (class_head s' c) (a # L))) \<and>
    (a \<in> set L \<longrightarrow> (\<exists>s'. run_remove c a s = Some s' \<and> dlist (g_runs s') (class_head s' c) (remove1 a L)))"
  using run_insert_dlist [OF assms(1) _ _ _ assms(2), of a] run_remove_dlist [OF assms(1) _ assms(2), of a]
  by blast

theorem run_list_refines_witness:
  "\<exists>s s'. dlist (g_runs s) (class_head s 3) [4194304] \<and> run_remove 3 4194304 s = Some s' \<and>
     dlist (g_runs s') (class_head s' 3) []"
proof -
  define r :: run where "r = \<lparr>r_magic = kMagicRun, r_cls = 4, r_elems = 3, r_used = 0, r_elem = 32, r_pad = 0,
    r_next = 0, r_prev = 0, r_last_fully_free_ms = 0, r_last_touch_ms = 0, r_bits = [7]\<rparr>"
  define s where "s = set_head 3 4194304 (put_run 4194304 r alloc_initial)"
  have len: "3 < length (g_cls s)" by (simp add: s_def set_head_def put_run_def alloc_initial_def)
  have dl: "dlist (g_runs s) (class_head s 3) [4194304]"
    by (simp add: dlist_def s_def set_head_def put_run_def class_head_def alloc_initial_def r_def)
  from run_list_refines [OF dl len, of 4194304] dl show ?thesis by auto
qed

end
