(* ===== verification/RunLayout.thy ===== *)
theory RunLayout
  imports RunOps
begin

text \<open>
  The geometry of a run as numbers: how many blocks a run of a class has, where its data starts,
  how large its mapping is, and the address of each block, with no wrap-around anywhere.
\<close>

section \<open>Sizes as numbers\<close>

abbreviation class_ok :: "nat \<Rightarrow> bool" where
  "class_ok c \<equiv> 1 \<le> c \<and> c \<le> 68"

definition elem_n :: "nat \<Rightarrow> nat" where "elem_n c = unat (kSizes ! (c - 1))"
definition elems_n :: "nat \<Rightarrow> nat" where "elems_n c = min (2097152 div elem_n c) 65536"
definition words_n :: "nat \<Rightarrow> nat" where "words_n c = (elems_n c + 63) div 64"
definition doff_n :: "nat \<Rightarrow> nat" where "doff_n c = (56 + 8 * words_n c + 4095) div 4096 * 4096"
definition map_n :: "nat \<Rightarrow> nat" where
  "map_n c = (doff_n c + elems_n c * elem_n c + 4095) div 4096 * 4096"

lemma elem_n_bounds: "class_ok c \<Longrightarrow> 8 \<le> elem_n c" "class_ok c \<Longrightarrow> elem_n c \<le> 2097152"
  using kSizes_bounds [of "c - 1"] by (auto simp: elem_n_def)

lemma elems_n_bounds:
  assumes "class_ok c"
  shows "1 \<le> elems_n c" "elems_n c \<le> 65536" "elems_n c * elem_n c \<le> 2097152"
proof -
  have "0 < 2097152 div elem_n c"
    using elem_n_bounds [OF assms] by (simp add: div_greater_zero_iff)
  then show "1 \<le> elems_n c" by (simp add: elems_n_def)
  show "elems_n c \<le> 65536" by (simp add: elems_n_def)
  have "elems_n c * elem_n c \<le> 2097152 div elem_n c * elem_n c"
    by (simp add: elems_n_def)
  also have "\<dots> \<le> 2097152" by (rule div_times_less_eq_dividend)
  finally show "elems_n c * elem_n c \<le> 2097152" .
qed

lemma words_n_bounds: "class_ok c \<Longrightarrow> 1 \<le> words_n c" "words_n c \<le> 1024"
  "elems_n c \<le> 64 * words_n c" "64 * words_n c < elems_n c + 64"
  using elems_n_bounds [of c] by (auto simp: words_n_def elems_n_def)

lemma doff_n_bounds: "56 + 8 * words_n c \<le> doff_n c" "doff_n c \<le> 12288" "4096 dvd doff_n c"
  using words_n_bounds(2) [of c] by (auto simp: doff_n_def)

lemma map_n_bounds:
  assumes "class_ok c"
  shows "doff_n c + elems_n c * elem_n c \<le> map_n c" "map_n c < doff_n c + elems_n c * elem_n c + 4096"
    "map_n c \<le> 2109440" "4096 dvd map_n c" "4096 \<le> map_n c"
proof -
  show m: "doff_n c + elems_n c * elem_n c \<le> map_n c" "map_n c < doff_n c + elems_n c * elem_n c + 4096"
    "4096 dvd map_n c"
    by (auto simp: map_n_def)
  have "doff_n c + elems_n c * elem_n c \<le> 2109440"
    using doff_n_bounds(2) [of c] elems_n_bounds(3) [OF assms] by simp
  then have "(doff_n c + elems_n c * elem_n c + 4095) div 4096 \<le> (2109440 + 4095) div 4096"
    by (intro div_le_mono) simp
  then show "map_n c \<le> 2109440" by (simp add: map_n_def)
  show "4096 \<le> map_n c" using m doff_n_bounds(1,3) [of c] by (auto elim!: dvdE)
qed

section \<open>The machine-word computations\<close>

lemma unat_run_elems [layout_simps]:
  assumes "class_ok c"
  shows "unat (run_elems c) = elems_n c"
proof -
  define e where "e = (ucast (kRunSize div kSizes ! (c - 1)) :: u32)"
  have "2097152 div elem_n c \<le> 2097152 div 8"
    using elem_n_bounds [OF assms] by (intro div_le_mono2) auto
  then have "unat e = 2097152 div elem_n c"
    by (simp add: e_def unat_ucast_small unat_div kRunSize_eq elem_n_def)
  then show ?thesis
    unfolding run_elems_def e_def [symmetric] Let_def
    by (simp add: kMaxElems_def elems_n_def word_less_nat_alt)
qed

lemma unat_bits_words [layout_simps]:
  assumes "unat e \<le> 65536"
  shows "unat (bits_words e) = (unat e + 63) div 64"
  using assms by (simp add: bits_words_def unat_div unat_add_no_wrap)

lemma unat_data_offset [layout_simps]:
  assumes "unat e \<le> 65536"
  shows "unat (data_offset_padded e) = (56 + 8 * ((unat e + 63) div 64) + 4095) div 4096 * 4096"
proof -
  have w: "unat (bits_words e * 8) = (unat e + 63) div 64 * 8"
    using assms by (simp add: unat_bits_words unat_word_ariths)
  then have "unat (ucast (bits_words e * 8) :: u64) = (unat e + 63) div 64 * 8"
    using assms by (simp add: unat_ucast_small)
  then have "unat (sizeof_Run + ucast (bits_words e * 8) + 4095 :: u64) = 56 + 8 * ((unat e + 63) div 64) + 4095"
    using assms by (simp add: sizeof_Run_def unat_word_ariths)
  then show ?thesis
    unfolding data_offset_padded_def Let_def unat_page_floor by simp
qed

lemma unat_run_doff [layout_simps]:
  "class_ok c \<Longrightarrow> unat (data_offset_padded (run_elems c)) = doff_n c"
  by (simp add: unat_data_offset unat_run_elems elems_n_bounds(2) doff_n_def words_n_def)

lemma unat_elem32 [layout_simps]:
  assumes "class_ok c"
  shows "unat (ucast (kSizes ! (c - 1)) :: u32) = elem_n c"
  using elem_n_bounds [OF assms] by (simp add: unat_ucast_small elem_n_def)

lemma unat_run_bytes [layout_simps]:
  assumes "class_ok c"
  shows "unat (run_bytes (run_elems c) (ucast (kSizes ! (c - 1)))) = doff_n c + elems_n c * elem_n c"
proof -
  have p: "unat (ucast (run_elems c) * ucast (ucast (kSizes ! (c - 1)) :: u32) :: u64) = elems_n c * elem_n c"
    using elems_n_bounds [OF assms] elem_n_bounds [OF assms] assms
    by (subst unat_mult_no_wrap) (simp_all add: unat_run_elems unat_elem32 unat_ucast_small)
  then show ?thesis
    unfolding run_bytes_def
    using elems_n_bounds(3) [OF assms] doff_n_bounds(2) [of c] assms
    by (subst unat_add_no_wrap) (simp_all add: unat_run_doff)
qed

definition run_msize :: "nat \<Rightarrow> u64" where
  "run_msize c = (run_bytes (run_elems c) (ucast (kSizes ! (c - 1))) + 4095) AND NOT 4095"

lemma unat_run_msize [layout_simps]:
  assumes "class_ok c"
  shows "unat (run_msize c) = map_n c"
proof -
  have "unat (run_bytes (run_elems c) (ucast (kSizes ! (c - 1))) + 4095) = doff_n c + elems_n c * elem_n c + 4095"
    using elems_n_bounds(3) [OF assms] doff_n_bounds(2) [of c] assms
    by (subst unat_add_no_wrap) (simp_all add: unat_run_bytes)
  then show ?thesis
    unfolding run_msize_def unat_page_floor map_n_def by simp
qed

section \<open>Block addresses\<close>

text \<open>
  \<open>run_static c r\<close>: the fields of a run of class \<open>c\<close> that never change after \<open>run_new\<close>.
\<close>

definition run_static :: "nat \<Rightarrow> run \<Rightarrow> bool" where
  "run_static c r \<longleftrightarrow> class_ok c \<and> r_magic r = kMagicRun \<and> r_cls r = of_nat c \<and>
     r_elems r = run_elems c \<and> r_elem r = ucast (kSizes ! (c - 1)) \<and>
     length (r_bits r) = words_n c"

lemma run_staticD:
  assumes "run_static c r"
  shows "class_ok c" "r_magic r = kMagicRun" "unat (r_cls r) = c" "unat (r_elems r) = elems_n c"
    "unat (r_elem r) = elem_n c" "length (r_bits r) = words_n c"
    "unat (data_offset_padded (r_elems r)) = doff_n c" "r_elems r = run_elems c"
    "r_elem r = ucast (kSizes ! (c - 1))"
proof -
  have c: "class_ok c" and rest: "r_magic r = kMagicRun" "r_cls r = of_nat c" "r_elems r = run_elems c"
    "r_elem r = ucast (kSizes ! (c - 1))" "length (r_bits r) = words_n c"
    using assms by (simp_all add: run_static_def)
  show "class_ok c" "r_magic r = kMagicRun" "length (r_bits r) = words_n c" "r_elems r = run_elems c"
    "r_elem r = ucast (kSizes ! (c - 1))"
    using c rest by simp_all
  show "unat (r_elems r) = elems_n c" "unat (data_offset_padded (r_elems r)) = doff_n c"
    using c rest by (simp_all add: unat_run_elems unat_run_doff)
  show "unat (r_elem r) = elem_n c" using c rest unat_elem32 [of c] by simp
  show "unat (r_cls r) = c" using c rest by (simp add: unat_of_nat)
qed

definition blk_addr :: "nat \<Rightarrow> u64 \<Rightarrow> nat \<Rightarrow> u64" where
  "blk_addr c a i = a + of_nat (doff_n c + i * elem_n c)"

text \<open>A base address leaves room for the largest run below the end of the address space.\<close>

definition room :: "u64 \<Rightarrow> bool" where
  "room a \<longleftrightarrow> unat a + 2109440 < 2 ^ 64"

lemma blk_end_le:
  assumes "class_ok c" "i < elems_n c"
  shows "doff_n c + i * elem_n c + elem_n c \<le> doff_n c + elems_n c * elem_n c"
proof -
  have "(i + 1) * elem_n c \<le> elems_n c * elem_n c"
    using assms(2) by (intro mult_le_mono1) simp
  then show ?thesis by (simp add: add_mult_distrib)
qed

lemma blk_end_bound:
  "class_ok c \<Longrightarrow> i < elems_n c \<Longrightarrow> doff_n c + i * elem_n c + elem_n c \<le> map_n c"
  using blk_end_le [of c i] map_n_bounds(1) [of c] by simp

lemma blk_end_bound': "class_ok c \<Longrightarrow> i < elems_n c \<Longrightarrow> doff_n c + i * elem_n c < 2109440"
  using blk_end_bound [of c i] map_n_bounds(3) [of c] elem_n_bounds(1) [of c] by simp

lemma unat_blk_addr:
  assumes "class_ok c" "i < elems_n c" "room a"
  shows "unat (blk_addr c a i) = unat a + doff_n c + i * elem_n c"
proof -
  have b: "doff_n c + i * elem_n c < 2109440" using blk_end_bound' [OF assms(1,2)] .
  then have "unat (of_nat (doff_n c + i * elem_n c) :: u64) = doff_n c + i * elem_n c"
    by (intro unat_of_nat_small) simp
  then show ?thesis
    using assms(3) b unfolding blk_addr_def room_def by (subst unat_add_no_wrap) simp_all
qed

lemma blk_addr_inj:
  assumes "class_ok c" "i < elems_n c" "j < elems_n c" "room a" "blk_addr c a i = blk_addr c a j"
  shows "i = j"
proof -
  have "i * elem_n c = j * elem_n c"
    using unat_blk_addr [OF assms(1,2,4)] unat_blk_addr [OF assms(1,3,4)] unfolding assms(5) by linarith
  moreover have "elem_n c \<noteq> 0" using elem_n_bounds(1) [OF assms(1)] by simp
  ultimately show ?thesis by simp
qed

text \<open>What the code computes for block \<open>idx\<close> is \<open>blk_addr\<close>, and back.\<close>

lemma run_data_blk:
  assumes "run_static c r" "unat idx < elems_n c"
  shows "run_data r a + ucast (idx::u32) * ucast (r_elem r) = blk_addr c a (unat idx)"
proof -
  note d = run_staticD [OF assms(1)]
  have "data_offset_padded (r_elems r) = of_nat (doff_n c)"
    using d(7) by (simp add: d(7) [symmetric])
  moreover have "(ucast idx :: u64) = of_nat (unat idx)" "(ucast (r_elem r) :: u64) = of_nat (elem_n c)"
    using d(5) by (simp_all add: d(5) [symmetric])
  ultimately show ?thesis
    by (simp add: run_data_def blk_addr_def algebra_simps)
qed

lemma blk_sub_data:
  assumes "run_static c r" "i < elems_n c" "room a"
  shows "unat (blk_addr c a i - run_data r a) = i * elem_n c" "run_data r a \<le> blk_addr c a i"
proof -
  note d = run_staticD [OF assms(1)]
  have ud: "unat (run_data r a) = unat a + doff_n c"
    using assms(3) d(7) doff_n_bounds(2) [of c] unfolding run_data_def room_def
    by (subst unat_add_no_wrap) simp_all
  note ub = unat_blk_addr [OF d(1) assms(2,3)]
  show le: "run_data r a \<le> blk_addr c a i" using ud ub by (simp add: word_le_nat_alt)
  show "unat (blk_addr c a i - run_data r a) = i * elem_n c"
    using unat_sub [OF le] ud ub by simp
qed

lemma block_index_blk:
  assumes "run_static c r" "i < elems_n c" "room a"
  shows "unat (block_index r a (blk_addr c a i)) = i"
proof -
  note d = run_staticD [OF assms(1)]
  have "unat (ucast (r_elem r) :: u64) = elem_n c"
    using d(5) elem_n_bounds(2) [OF d(1)] by (simp add: unat_ucast_small)
  then have "unat ((blk_addr c a i - run_data r a) div ucast (r_elem r)) = i"
    using blk_sub_data(1) [OF assms] elem_n_bounds(1) [OF d(1)] by (simp add: unat_div)
  moreover have "i < 2 ^ 32" using assms(2) elems_n_bounds(2) [OF d(1)] by simp
  ultimately show ?thesis unfolding block_index_def by (simp add: unat_ucast_small)
qed

section \<open>Finding the run of a block\<close>

definition aligned_run :: "u64 \<Rightarrow> bool" where
  "aligned_run a \<longleftrightarrow> 2097152 dvd unat a"

lemma run_of_unat: "unat (run_of p) = unat p div 2097152 * 2097152"
  unfolding run_of_def kRunSize_eq using unat_run_floor [of p] by simp

lemma run_of_offset:
  assumes "aligned_run a" "unat p = unat a + k" "k < 2097152"
  shows "run_of p = a"
proof -
  obtain q where "unat a = 2097152 * q" using assms(1) by (auto simp: aligned_run_def)
  then have "unat (run_of p) = unat a" using assms(2,3) by (simp add: run_of_unat)
  then show ?thesis by (simp add: word_unat_eq_iff)
qed

lemma run_of_beyond:
  assumes "aligned_run a" "unat p = unat a + k" "2097152 \<le> k"
  shows "run_of p \<noteq> a"
proof
  assume "run_of p = a"
  then have "unat a = unat p div 2097152 * 2097152" using run_of_unat [of p] by simp
  then have "unat p < unat a + 2097152" by (metis div_mod_decomp mod_less_divisor add_less_cancel_left zero_less_numeral)
  with assms show False by simp
qed

text \<open>
  The blocks that start within the first 2 MiB of their run: \<open>run_of\<close> leads back to the header
  for these blocks and for no others, because the data of a run begins after its header while the
  number of blocks is computed from the full 2 MiB.
\<close>

definition reachable_blk :: "nat \<Rightarrow> nat \<Rightarrow> bool" where
  "reachable_blk c i \<longleftrightarrow> doff_n c + i * elem_n c < 2097152"

lemma run_of_blk:
  assumes "class_ok c" "i < elems_n c" "room a" "aligned_run a"
  shows "run_of (blk_addr c a i) = a \<longleftrightarrow> reachable_blk c i"
proof -
  have u: "unat (blk_addr c a i) = unat a + (doff_n c + i * elem_n c)"
    using unat_blk_addr [OF assms(1-3)] by simp
  show ?thesis
    using run_of_offset [OF assms(4) u] run_of_beyond [OF assms(4) u]
    unfolding reachable_blk_def by (meson linorder_not_less)
qed

end
