(* ===== verification/Bitmap.thy ===== *)
theory Bitmap
  imports RunLayout
begin

text \<open>
  The free bitmap of a run. The contract of a pool of numbered blocks is the locale \<open>block_pool\<close>;
  what its clients need is proved there once, and the interpretation shows that the bit scan of
  \<open>run_take\<close> and the bit set of \<open>run_give\<close> meet it.
\<close>

section \<open>The contract of a pool of blocks\<close>

locale block_pool =
  fixes ok :: "'p \<Rightarrow> bool"
    and cap :: "'p \<Rightarrow> nat"
    and avail :: "'p \<Rightarrow> nat set"
    and take1 :: "'p \<Rightarrow> (nat \<times> 'p) option"
    and give1 :: "nat \<Rightarrow> 'p \<Rightarrow> 'p"
  assumes avail_bound: "ok p \<Longrightarrow> avail p \<subseteq> {..<cap p}"
    and take1_None: "ok p \<Longrightarrow> take1 p = None \<longleftrightarrow> avail p = {}"
    and take1_Some: "ok p \<Longrightarrow> take1 p = Some (i, p') \<Longrightarrow>
      ok p' \<and> cap p' = cap p \<and> i \<in> avail p \<and> (\<forall>j \<in> avail p. i \<le> j) \<and> avail p' = avail p - {i}"
    and give1: "ok p \<Longrightarrow> i < cap p \<Longrightarrow> i \<notin> avail p \<Longrightarrow>
      ok (give1 i p) \<and> cap (give1 i p) = cap p \<and> avail (give1 i p) = insert i (avail p)"
begin

lemma finite_avail: "ok p \<Longrightarrow> finite (avail p)"
  using avail_bound finite_subset by blast

lemma take_give:
  assumes "ok p" "take1 p = Some (i, p')"
  shows "ok (give1 i p') \<and> avail (give1 i p') = avail p"
proof -
  from take1_Some [OF assms] have t: "ok p'" "cap p' = cap p" "i \<in> avail p" "avail p' = avail p - {i}"
    by auto
  moreover have "i < cap p'" using t avail_bound [OF assms(1)] by auto
  ultimately show ?thesis using give1 [of p' i] by auto
qed

lemma take_is_min:
  assumes "ok p" "take1 p = Some (i, p')"
  shows "i = Min (avail p)"
  using take1_Some [OF assms] finite_avail [OF assms(1)] by (auto intro!: Min_eqI [symmetric])

text \<open>A run of takes: the blocks \<open>is\<close> taken one after the other lead from \<open>p\<close> to \<open>p'\<close>.\<close>

primrec takes :: "'p \<Rightarrow> nat list \<Rightarrow> 'p \<Rightarrow> bool" where
  "takes p [] p' \<longleftrightarrow> p' = p"
| "takes p (i # is) p' \<longleftrightarrow> (\<exists>q. take1 p = Some (i, q) \<and> takes q is p')"

lemma takes_distinct:
  "ok p \<Longrightarrow> takes p is p' \<Longrightarrow>
   ok p' \<and> distinct is \<and> set is \<subseteq> avail p \<and> avail p' = avail p - set is"
proof (induction "is" arbitrary: p)
  case Nil
  then show ?case by simp
next
  case (Cons i "is")
  then obtain q where q: "take1 p = Some (i, q)" "takes q is p'" by auto
  note t = take1_Some [OF Cons.prems(1) q(1)]
  with Cons.IH [of q] q(2) show ?case by auto
qed

lemma takes_all:
  assumes "ok p"
  shows "\<exists>is p'. takes p is p' \<and> set is = avail p \<and> distinct is \<and> take1 p' = None"
  using assms
proof (induction "card (avail p)" arbitrary: p)
  case 0
  then have "avail p = {}" using finite_avail by simp
  with 0 show ?case
    using take1_None [of p] by (intro exI [of _ "[]"] exI [of _ p]) auto
next
  case (Suc n)
  then have "avail p \<noteq> {}" by auto
  with take1_None [OF Suc.prems] obtain i q where q: "take1 p = Some (i, q)" by fastforce
  note t = take1_Some [OF Suc.prems q]
  then have "n = card (avail q)" using Suc.hyps(2) finite_avail [OF Suc.prems] by simp
  from Suc.hyps(1) [OF this] t obtain "is" p' where
    "takes q is p'" "set is = avail q" "distinct is" "take1 p' = None" by auto
  with q t show ?case by (intro exI [of _ "i # is"] exI [of _ p']) auto
qed

end

section \<open>The bit scan\<close>

lemma take_scan_None:
  "take_scan e k bs = None \<longleftrightarrow>
   (\<forall>j<length bs. bs ! j = 0 \<or> e \<le> of_nat (k + j) * 64 + of_nat (ctz64 (bs ! j)))"
proof (induction bs arbitrary: k)
  case Nil
  then show ?case by simp
next
  case (Cons b bs)
  then show ?case
    by (auto simp: Let_def All_less_Suc2 algebra_simps split: if_splits)
qed

lemma take_scan_Some:
  "take_scan e k bs = Some (i, idx) \<Longrightarrow>
   \<exists>j<length bs. i = k + j \<and> bs ! j \<noteq> 0 \<and> idx = of_nat i * 64 + of_nat (ctz64 (bs ! j)) \<and> idx < e \<and>
     (\<forall>j'<j. bs ! j' = 0 \<or> e \<le> of_nat (k + j') * 64 + of_nat (ctz64 (bs ! j')))"
proof (induction bs arbitrary: k)
  case Nil
  then show ?case by simp
next
  case (Cons b bs)
  show ?case
  proof (cases "b \<noteq> 0 \<and> of_nat k * 64 + of_nat (ctz64 b) < e")
    case True
    with Cons.prems show ?thesis by (intro exI [of _ 0]) (auto simp: Let_def split: if_splits)
  next
    case False
    then have "take_scan e (k + 1) bs = Some (i, idx)"
      using Cons.prems by (auto simp: Let_def not_less split: if_splits)
    from Cons.IH [OF this] obtain j where
      "j < length bs" "i = k + 1 + j" "bs ! j \<noteq> 0" "idx = of_nat i * 64 + of_nat (ctz64 (bs ! j))" "idx < e"
      "\<forall>j'<j. bs ! j' = 0 \<or> e \<le> of_nat (k + 1 + j') * 64 + of_nat (ctz64 (bs ! j'))" by blast
    with False show ?thesis
      by (intro exI [of _ "Suc j"]) (auto simp: All_less_Suc2 not_less algebra_simps)
  qed
qed

section \<open>The bitmap invariant\<close>

definition free_set :: "run \<Rightarrow> nat set" where
  "free_set r = {i. i < unat (r_elems r) \<and> blk_free (r_bits r) i}"

definition bm_ok :: "run \<Rightarrow> bool" where
  "bm_ok r \<longleftrightarrow> unat (r_elems r) \<le> 65536 \<and> length (r_bits r) = (unat (r_elems r) + 63) div 64 \<and>
     (\<forall>i. unat (r_elems r) \<le> i \<and> i < 64 * length (r_bits r) \<longrightarrow> \<not> blk_free (r_bits r) i) \<and>
     unat (r_used r) + card (free_set r) = unat (r_elems r)"

lemma finite_free_set [simp]: "finite (free_set r)"
  by (rule finite_subset [of _ "{..<unat (r_elems r)}"]) (auto simp: free_set_def)

lemma bm_ok_words: "bm_ok r \<Longrightarrow> unat (r_elems r) \<le> 64 * length (r_bits r)"
  "bm_ok r \<Longrightarrow> length (r_bits r) \<le> 1024"
  by (auto simp: bm_ok_def)

lemma free_index: "i < 64 * length bs \<Longrightarrow> i div 64 < length bs"
  by (simp add: less_mult_imp_div_less mult.commute)

lemma unat_scan_index:
  assumes "k \<le> 1024" "b \<noteq> 0"
  shows "unat (of_nat k * 64 + of_nat (ctz64 b) :: u32) = 64 * k + ctz64 b"
proof -
  have "of_nat k * 64 + of_nat (ctz64 b) = (of_nat (64 * k + ctz64 b) :: u32)" by simp
  moreover have "64 * k + ctz64 b < 2 ^ LENGTH(32)" using assms ctz64_lowest(2) [of b] by simp
  ultimately show ?thesis by (metis unat_of_nat_small)
qed

text \<open>On a well-formed bitmap the scan finds the free block with the least index.\<close>

lemma take_scan_ok_None:
  assumes "bm_ok r"
  shows "take_scan (r_elems r) 0 (r_bits r) = None \<longleftrightarrow> free_set r = {}"
proof
  assume none: "take_scan (r_elems r) 0 (r_bits r) = None"
  show "free_set r = {}"
  proof (rule equals0I)
    fix i assume i: "i \<in> free_set r"
    let ?j = "i div 64" let ?b = "r_bits r ! (i div 64)"
    have bit: "bit ?b (i mod 64)" "i < unat (r_elems r)" using i by (auto simp: free_set_def blk_free_def)
    have j: "?j < length (r_bits r)" using bit(2) bm_ok_words(1) [OF assms] by (intro free_index) simp
    have nz: "?b \<noteq> 0" using bit(1) by auto
    then have "ctz64 ?b \<le> i mod 64" using ctz64_lowest(3) [of ?b] bit(1) by (meson not_less)
    then have "64 * ?j + ctz64 ?b \<le> i" using div_mult_mod_eq [of i 64] by linarith
    moreover have "unat (r_elems r) \<le> 64 * ?j + ctz64 ?b"
      using none j nz unat_scan_index [of ?j ?b] bm_ok_words(2) [OF assms]
      by (auto simp: take_scan_None word_le_nat_alt)
    ultimately show False using bit(2) by simp
  qed
next
  assume empty: "free_set r = {}"
  show "take_scan (r_elems r) 0 (r_bits r) = None"
  proof (rule ccontr)
    assume "take_scan (r_elems r) 0 (r_bits r) \<noteq> None"
    then obtain i idx where "take_scan (r_elems r) 0 (r_bits r) = Some (i, idx)" by auto
    from take_scan_Some [OF this] have s: "i < length (r_bits r)" "r_bits r ! i \<noteq> 0"
      "idx = of_nat i * 64 + of_nat (ctz64 (r_bits r ! i))" "idx < r_elems r" by auto
    let ?n = "64 * i + ctz64 (r_bits r ! i)"
    have "unat idx = ?n" using s bm_ok_words(2) [OF assms] by (simp add: unat_scan_index)
    then have "?n < unat (r_elems r)" using s(4) by (simp add: word_less_nat_alt)
    moreover have "blk_free (r_bits r) ?n"
      using ctz64_lowest [OF s(2)] by (simp add: blk_free_def)
    ultimately show False using empty by (auto simp: free_set_def)
  qed
qed

lemma blk_free_update:
  "k < length bs \<Longrightarrow> blk_free (bs[k := w]) i \<longleftrightarrow> (if i div 64 = k then bit w (i mod 64) else blk_free bs i)"
  by (auto simp: blk_free_def)

lemma same_word_eq: "a div 64 = b div 64 \<Longrightarrow> a = b \<longleftrightarrow> a mod 64 = b mod 64" for a b :: nat
  using div_mult_mod_eq [of a 64] div_mult_mod_eq [of b 64] by auto

lemma take_scan_ok_Some:
  assumes "bm_ok r" "take_scan (r_elems r) 0 (r_bits r) = Some (i, idx)"
  shows "i < length (r_bits r)" "r_bits r ! i \<noteq> 0" "i = unat idx div 64"
    "ctz64 (r_bits r ! i) = unat idx mod 64" "unat idx \<in> free_set r" "\<forall>j \<in> free_set r. unat idx \<le> j"
proof -
  from take_scan_Some [OF assms(2)] have s: "i < length (r_bits r)" "r_bits r ! i \<noteq> 0"
    "idx = of_nat i * 64 + of_nat (ctz64 (r_bits r ! i))" "idx < r_elems r"
    and low: "\<And>j. j < i \<Longrightarrow> r_bits r ! j = 0 \<or>
        r_elems r \<le> of_nat j * 64 + of_nat (ctz64 (r_bits r ! j))" by auto
  note c = ctz64_lowest [OF s(2)]
  have u: "unat idx = 64 * i + ctz64 (r_bits r ! i)"
    using s bm_ok_words(2) [OF assms(1)] by (simp add: unat_scan_index)
  show "i < length (r_bits r)" "r_bits r ! i \<noteq> 0" by fact+
  show d: "i = unat idx div 64" "ctz64 (r_bits r ! i) = unat idx mod 64" using u c(2) by simp_all
  show "unat idx \<in> free_set r"
    using s(4) c(1) d by (simp add: free_set_def blk_free_def word_less_nat_alt)
  show "\<forall>j \<in> free_set r. unat idx \<le> j"
  proof
    fix j assume j: "j \<in> free_set r"
    let ?w = "r_bits r ! (j div 64)"
    have bit: "bit ?w (j mod 64)" "j < unat (r_elems r)" using j by (auto simp: free_set_def blk_free_def)
    have nz: "?w \<noteq> 0" using bit(1) by auto
    have cw: "ctz64 ?w \<le> j mod 64" using ctz64_lowest(3) [OF nz] bit(1) by (meson not_less)
    have jl: "j div 64 < length (r_bits r)"
      using bit(2) bm_ok_words(1) [OF assms(1)] by (intro free_index) simp
    show "unat idx \<le> j"
    proof (cases "j div 64 < i")
      case True
      with low [of "j div 64"] nz have "unat (r_elems r) \<le> 64 * (j div 64) + ctz64 ?w"
        using unat_scan_index [of "j div 64" ?w] bm_ok_words(2) [OF assms(1)] jl
        by (simp add: word_le_nat_alt)
      then show ?thesis using cw bit(2) div_mult_mod_eq [of j 64] by linarith
    next
      case False
      then consider "j div 64 = i" | "i < j div 64" by linarith
      then show ?thesis
      proof cases
        case 1
        then show ?thesis using cw u div_mult_mod_eq [of j 64] by auto
      next
        case 2
        then show ?thesis using u c(2) div_mult_mod_eq [of j 64] by linarith
      qed
    qed
  qed
qed

lemma take_block_None: "bm_ok r \<Longrightarrow> take_block r = None \<longleftrightarrow> free_set r = {}"
  by (auto simp: take_block_def take_scan_ok_None [symmetric] Let_def split: option.split)

lemma take_block_Some:
  assumes "bm_ok r" "take_block r = Some (idx, r')"
  shows "unat idx \<in> free_set r" "\<forall>j \<in> free_set r. unat idx \<le> j"
    "free_set r' = free_set r - {unat idx}" "bm_ok r'" "r_elems r' = r_elems r"
    "r' = r\<lparr>r_bits := r_bits r', r_used := r_used r + 1\<rparr>" "length (r_bits r') = length (r_bits r)"
    "unat (r_used r') = unat (r_used r) + 1"
proof -
  obtain i where sc: "take_scan (r_elems r) 0 (r_bits r) = Some (i, idx)"
    and r': "r' = r\<lparr>r_bits := (r_bits r)[i := r_bits r ! i AND (r_bits r ! i - 1)], r_used := r_used r + 1\<rparr>"
    using assms(2) by (auto simp: take_block_def Let_def split: option.splits)
  note s = take_scan_ok_Some [OF assms(1) sc]
  have bits: "r_bits r' = (r_bits r)[i := unset_bit (unat idx mod 64) (r_bits r ! i)]"
    using clear_lowest_bit [OF s(2)] by (simp add: r' s(4))
  have bf: "blk_free (r_bits r') j \<longleftrightarrow> blk_free (r_bits r) j \<and> j \<noteq> unat idx" for j
  proof (cases "j div 64 = i")
    case True
    then have "j = unat idx \<longleftrightarrow> j mod 64 = unat idx mod 64"
      using s(3) by (intro same_word_eq) simp
    with True show ?thesis
      unfolding bits blk_free_update [OF s(1)] by (auto simp: bit_simps blk_free_def)
  next
    case False
    then have "j \<noteq> unat idx" using s(3) by metis
    with False show ?thesis unfolding bits blk_free_update [OF s(1)] by simp
  qed
  show "unat idx \<in> free_set r" "\<forall>j \<in> free_set r. unat idx \<le> j" by (fact s)+
  show el: "r_elems r' = r_elems r" "r' = r\<lparr>r_bits := r_bits r', r_used := r_used r + 1\<rparr>"
    "length (r_bits r') = length (r_bits r)" by (simp_all add: r')
  note el_len = el(3)
  show fs: "free_set r' = free_set r - {unat idx}" by (auto simp: free_set_def bf el(1))
  have "card (free_set r) = Suc (card (free_set r'))"
    unfolding fs using card_Suc_Diff1 [OF finite_free_set s(5)] by simp
  moreover have "unat (r_used r) + card (free_set r) = unat (r_elems r)" "unat (r_elems r) \<le> 65536"
    using assms(1) by (simp_all add: bm_ok_def)
  ultimately have "unat (r_used r + 1) = unat (r_used r) + 1" "unat (r_used r) + 1 + card (free_set r') = unat (r_elems r)"
    by (simp_all add: unat_add_no_wrap)
  then show us: "unat (r_used r') = unat (r_used r) + 1" "bm_ok r'"
    using assms(1) by (simp_all add: bm_ok_def el(1) el_len bf, simp_all add: r')
qed

lemma give_block_ok:
  assumes "bm_ok r" "unat idx < unat (r_elems r)" "unat idx \<notin> free_set r"
  shows "free_set (give_block idx r) = insert (unat idx) (free_set r)" "bm_ok (give_block idx r)"
    "r_elems (give_block idx r) = r_elems r" "length (r_bits (give_block idx r)) = length (r_bits r)"
    "give_block idx r = r\<lparr>r_bits := r_bits (give_block idx r), r_used := r_used r - 1\<rparr>"
    "unat (r_used r) = unat (r_used (give_block idx r)) + 1"
proof -
  let ?r = "give_block idx r"
  have sub: "insert (unat idx) (free_set r) \<subseteq> {..<unat (r_elems r)}"
    using assms(2) by (auto simp: free_set_def)
  have "card (insert (unat idx) (free_set r)) \<le> unat (r_elems r)"
    using card_mono [OF _ sub] by simp
  then have used: "r_used r \<noteq> 0"
    using assms(1,3) by (auto simp: bm_ok_def)
  have i: "unat idx div 64 < length (r_bits r)"
    using assms(2) bm_ok_words(1) [OF assms(1)] by (intro free_index) simp
  have eq: "?r = r\<lparr>r_bits := (r_bits r)[unat idx div 64 :=
      r_bits r ! (unat idx div 64) OR push_bit (unat idx mod 64) 1], r_used := r_used r - 1\<rparr>"
    using used by (simp add: give_block_def Let_def unat_div unat_mod)
  have bf: "blk_free (r_bits ?r) j \<longleftrightarrow> blk_free (r_bits r) j \<or> j = unat idx" for j
  proof (cases "j div 64 = unat idx div 64")
    case True
    then have "j = unat idx \<longleftrightarrow> unat idx mod 64 = j mod 64"
      using same_word_eq by metis
    moreover have "blk_free (r_bits ?r) j \<longleftrightarrow> blk_free (r_bits r) j \<or> unat idx mod 64 = j mod 64"
      using True i by (simp add: eq blk_free_update) (auto simp: bit_simps blk_free_def)
    ultimately show ?thesis by simp
  next
    case False
    then have "j \<noteq> unat idx" by metis
    with False i show ?thesis by (simp add: eq blk_free_update)
  qed
  show el: "r_elems ?r = r_elems r" "length (r_bits ?r) = length (r_bits r)"
    "?r = r\<lparr>r_bits := r_bits ?r, r_used := r_used r - 1\<rparr>" by (simp_all add: eq)
  note el_len = el(2)
  show fs: "free_set ?r = insert (unat idx) (free_set r)"
    using assms(2) by (auto simp: free_set_def bf el(1))
  show us: "unat (r_used r) = unat (r_used ?r) + 1"
  proof -
    have "0 < unat (r_used r)" using used by (simp add: unat_gt_0)
    then show ?thesis using unat_minus_one [OF used] by (simp add: eq)
  qed
  have "card (free_set ?r) = card (free_set r) + 1" unfolding fs using assms(3) by simp
  with assms us show "bm_ok ?r"
    by (auto simp: bm_ok_def el(1) el_len bf)
qed

interpretation bm: block_pool bm_ok "\<lambda>r. unat (r_elems r)" free_set
  "\<lambda>r. map_option (\<lambda>(idx, r'). (unat idx, r')) (take_block r)"
  "\<lambda>i r. give_block (of_nat i) r"
proof unfold_locales
  fix p :: run assume ok: "bm_ok p"
  show "free_set p \<subseteq> {..<unat (r_elems p)}" by (auto simp: free_set_def)
  show "map_option (\<lambda>(idx, r'). (unat idx, r')) (take_block p) = None \<longleftrightarrow> free_set p = {}"
    using take_block_None [OF ok] by simp
next
  fix p i p' assume "bm_ok p" "map_option (\<lambda>(idx, r'). (unat idx, r')) (take_block p) = Some (i, p')"
  then show "bm_ok p' \<and> unat (r_elems p') = unat (r_elems p) \<and> i \<in> free_set p \<and>
      (\<forall>j\<in>free_set p. i \<le> j) \<and> free_set p' = free_set p - {i}"
    using take_block_Some [of p] by fastforce
next
  fix p :: run and i assume ok: "bm_ok p" and i: "i < unat (r_elems p)" "i \<notin> free_set p"
  have "i < 2 ^ 32" using i(1) ok by (simp add: bm_ok_def)
  then have u: "unat (of_nat i :: u32) = i" by (simp add: unat_of_nat_small)
  show "bm_ok (give_block (of_nat i) p) \<and>
      unat (r_elems (give_block (of_nat i) p)) = unat (r_elems p) \<and>
      free_set (give_block (of_nat i) p) = insert i (free_set p)"
    using give_block_ok [OF ok, of "of_nat i"] i u by simp
qed

text \<open>C29. On a well-formed bitmap \<open>run_take\<close>'s scan returns the free block with the least index and
  removes exactly it; \<open>run_give\<close> of this block restores the set of free blocks.\<close>

theorem run_bitmap_roundtrip:
  assumes "bm_ok r" "take_block r = Some (idx, r')"
  shows "unat idx = Min (free_set r) \<and> free_set r' = free_set r - {unat idx} \<and>
    unat (r_used r') = unat (r_used r) + 1 \<and> free_set (give_block idx r') = free_set r \<and> bm_ok (give_block idx r')"
proof -
  have t: "map_option (\<lambda>(idx, r'). (unat idx, r')) (take_block r) = Some (unat idx, r')" using assms(2) by simp
  have o: "(of_nat (unat idx) :: u32) = idx" by simp
  from bm.take_is_min [OF assms(1) t] bm.take_give [OF assms(1) t] take_block_Some(3,8) [OF assms]
  show ?thesis unfolding o by simp
qed

theorem run_bitmap_roundtrip_witness:
  "\<exists>r r'. bm_ok r \<and> r_elems r = 3 \<and> free_set r = {1, 2} \<and> take_block r = Some (1, r') \<and> free_set (give_block 1 r') = {1, 2}"
proof -
  define r :: run where "r = \<lparr>r_magic = kMagicRun, r_cls = 68, r_elems = 3, r_used = 1, r_elem = 0, r_pad = 0,
    r_next = 0, r_prev = 0, r_last_fully_free_ms = 0, r_last_touch_ms = 0, r_bits = [6]\<rparr>"
  have b: "bit (6 :: u64) i \<longleftrightarrow> i = 1 \<or> i = 2" for i
  proof (cases "i < 3")
    case True
    then have "i = 0 \<or> i = 1 \<or> i = 2" by linarith
    moreover have "\<not> bit (6 :: u64) 0" "bit (6 :: u64) 1" "bit (6 :: u64) 2" by code_simp+
    ultimately show ?thesis by auto
  next
    case False
    have "take_bit 3 (6 :: u64) = 6" by (simp add: take_bit_eq_mod)
    then have "\<not> bit (6 :: u64) i" using False by (metis bit_take_bit_iff)
    then show ?thesis using False by auto
  qed
  have f: "r_bits r = [6]" "r_elems r = 3" "r_used r = 1" by (simp_all add: r_def)
  have bf: "blk_free (r_bits r) i \<longleftrightarrow> i = 1 \<or> i = 2" if "i < 64" for i
  proof -
    have "i div 64 = 0" "i mod 64 = i" using that by simp_all
    then show ?thesis unfolding blk_free_def f by (simp only: nth_Cons_0 b)
  qed
  have fs: "free_set r = {1, 2}" unfolding free_set_def f(2) using bf f(1) by auto
  have ok: "bm_ok r" unfolding bm_ok_def fs f(2,3) using bf f(1) by auto
  obtain r' where t: "take_block r = Some (1, r')"
  proof -
    have "map_option fst (take_block r) = Some 1" unfolding r_def by code_simp
    then show ?thesis using that by (auto simp: map_option_eq_Some)
  qed
  from run_bitmap_roundtrip [OF ok t] ok fs t show ?thesis by (intro exI [of _ r] exI [of _ r']) (simp add: r_def)
qed

end
