(* ===== verification/AllocInv.thy ===== *)
theory AllocInv
  imports Reserve RunList Bitmap
begin

text \<open>
  The invariant of the allocator state and the blocks it has handed out. \<open>mem_inv\<close> relates the
  headers, the mapped memory and the reserve; \<open>class_lists s E\<close> says that the class lists hold exactly
  the runs of their class, except for the runs in \<open>E\<close> (one that is being inserted or removed).
\<close>

section \<open>The invariant\<close>

definition region :: "alloc \<Rightarrow> u64 \<Rightarrow> nat \<Rightarrow> bool" where
  "region s a n \<longleftrightarrow> (\<exists>r. g_runs s a = Some r \<and> n = map_n (unat (r_cls r))) \<or>
                   (\<exists>h. g_larges s a = Some h \<and> n = unat (l_map_size h))"

definition run_inv :: "alloc \<Rightarrow> u64 \<Rightarrow> run \<Rightarrow> bool" where
  "run_inv s a r \<longleftrightarrow> run_static (unat (r_cls r)) r \<and> bm_ok r \<and> aligned_run a \<and> g_larges s a = None"

definition large_inv :: "u64 \<Rightarrow> large_hdr \<Rightarrow> bool" where
  "large_inv a h \<longleftrightarrow> l_magic h = kMagicLarge \<and> 4096 dvd unat a \<and> 4096 dvd unat (l_map_size h) \<and>
     24 + unat (l_user h) \<le> unat (l_map_size h)"

definition region_inv :: "alloc \<Rightarrow> u64 \<Rightarrow> nat \<Rightarrow> bool" where
  "region_inv s a n \<longleftrightarrow> unat (g_res_start s) \<le> unat a \<and> unat a + n \<le> unat (g_res_end s) \<and>
     unat a + n \<le> unat (g_res_bump s) \<and> (\<forall>i<n. g_acc s (a + of_nat i))"

definition apart :: "u64 \<Rightarrow> nat \<Rightarrow> u64 \<Rightarrow> nat \<Rightarrow> bool" where
  "apart a n b m \<longleftrightarrow> unat a + n \<le> unat b \<or> unat b + m \<le> unat a"

definition mem_inv :: "alloc \<Rightarrow> bool" where
  "mem_inv s \<longleftrightarrow> res_ok s \<and> length (g_cls s) = 68 \<and> tls s = (\<lambda>_. None) \<and>
     (\<forall>a r. g_runs s a = Some r \<longrightarrow> run_inv s a r) \<and>
     (\<forall>a h. g_larges s a = Some h \<longrightarrow> large_inv a h) \<and>
     (\<forall>a n. region s a n \<longrightarrow> region_inv s a n) \<and>
     (\<forall>a n b m. region s a n \<longrightarrow> region s b m \<longrightarrow> a \<noteq> b \<longrightarrow> apart a n b m)"

definition runs_of_class :: "alloc \<Rightarrow> nat \<Rightarrow> u64 set" where
  "runs_of_class s c = {a. \<exists>r. g_runs s a = Some r \<and> unat (r_cls r) = c + 1}"

definition class_lists :: "alloc \<Rightarrow> u64 set \<Rightarrow> bool" where
  "class_lists s E \<longleftrightarrow> (\<forall>c<68. \<exists>L. dlist (g_runs s) (class_head s c) L \<and> set L = runs_of_class s c - E)"

definition ainv :: "alloc \<Rightarrow> bool" where
  "ainv s \<longleftrightarrow> mem_inv s \<and> class_lists s {}"

section \<open>Reading the invariant\<close>

lemma mem_invD:
  assumes "mem_inv s"
  shows "res_ok s" "length (g_cls s) = 68" "tls s = (\<lambda>_. None)"
    "\<And>a r. g_runs s a = Some r \<Longrightarrow> run_inv s a r"
    "\<And>a h. g_larges s a = Some h \<Longrightarrow> large_inv a h"
    "\<And>a n. region s a n \<Longrightarrow> region_inv s a n"
    "\<And>a n b m. region s a n \<Longrightarrow> region s b m \<Longrightarrow> a \<noteq> b \<Longrightarrow> apart a n b m"
  using assms unfolding mem_inv_def by blast+

lemma region_run: "g_runs s a = Some r \<Longrightarrow> region s a (map_n (unat (r_cls r)))"
  by (auto simp: region_def)

lemma region_large: "g_larges s a = Some h \<Longrightarrow> region s a (unat (l_map_size h))"
  by (auto simp: region_def)

lemma run_facts:
  assumes "mem_inv s" "g_runs s a = Some r"
  shows "class_ok (unat (r_cls r))" "run_static (unat (r_cls r)) r" "bm_ok r" "aligned_run a"
    "room a" "a \<noteq> 0" "unat a + map_n (unat (r_cls r)) \<le> unat (g_res_end s)"
    "\<And>i. i < map_n (unat (r_cls r)) \<Longrightarrow> g_acc s (a + of_nat i)"
    "unat (g_res_start s) \<le> unat a" "unat a + map_n (unat (r_cls r)) \<le> unat (g_res_bump s)"
proof -
  have ri: "run_inv s a r" and rg: "region_inv s a (map_n (unat (r_cls r)))" and ok: "res_ok s"
    using mem_invD(4) [OF assms] mem_invD(6) [OF assms(1) region_run [OF assms(2)]]
      mem_invD(1) [OF assms(1)] by simp_all
  show "run_static (unat (r_cls r)) r" "bm_ok r" "aligned_run a" using ri by (simp_all add: run_inv_def)
  show c: "class_ok (unat (r_cls r))" using ri by (auto simp: run_inv_def dest: run_staticD(1))
  show "unat a + map_n (unat (r_cls r)) \<le> unat (g_res_end s)" "unat (g_res_start s) \<le> unat a"
    "unat a + map_n (unat (r_cls r)) \<le> unat (g_res_bump s)"
    "\<And>i. i < map_n (unat (r_cls r)) \<Longrightarrow> g_acc s (a + of_nat i)"
    using rg by (simp_all add: region_inv_def)
  then show "room a" using ok by (simp add: room_def res_ok_def)
  show "a \<noteq> 0" using \<open>unat (g_res_start s) \<le> unat a\<close> ok by (auto simp: res_ok_def unat_0_iff)
qed

lemma region_pos:
  assumes "mem_inv s" "region s a n"
  shows "24 \<le> n"
proof -
  from assms(2) consider r where "g_runs s a = Some r" "n = map_n (unat (r_cls r))"
    | h where "g_larges s a = Some h" "n = unat (l_map_size h)"
    by (auto simp: region_def)
  then show ?thesis
  proof cases
    case 1
    from run_facts(1) [OF assms(1) 1(1)] map_n_bounds(5) show ?thesis using 1(2) by fastforce
  next
    case 2
    with mem_invD(5) [OF assms(1) 2(1)] show ?thesis by (simp add: large_inv_def)
  qed
qed

text \<open>The invariant reads the headers, the accessible memory and the reserve variables only.\<close>

lemma mem_inv_cong:
  assumes "g_runs s' = g_runs s" "g_larges s' = g_larges s" "g_acc s' = g_acc s" "g_res_start s' = g_res_start s"
    "g_res_end s' = g_res_end s" "g_res_bump s' = g_res_bump s" "length (g_cls s') = length (g_cls s)" "tls s' = tls s"
  shows "mem_inv s' \<longleftrightarrow> mem_inv s"
  using assms by (simp add: mem_inv_def res_ok_def region_def run_inv_def region_inv_def)

lemma class_lists_cong:
  assumes "g_runs s' = g_runs s" "\<And>c. class_head s' c = class_head s c"
  shows "class_lists s' E \<longleftrightarrow> class_lists s E"
  using assms by (simp add: class_lists_def runs_of_class_def)

section \<open>Changing the links of runs\<close>

lemma list_step_fields:
  assumes "list_step c A s s'"
  shows "g_larges s' = g_larges s" "g_acc s' = g_acc s" "g_bytes s' = g_bytes s"
    "g_res_start s' = g_res_start s" "g_res_end s' = g_res_end s" "g_res_bump s' = g_res_bump s"
    "length (g_cls s') = length (g_cls s)" "tls s' = tls s" "same_core (g_runs s) (g_runs s')"
    "\<And>x. x \<notin> A \<Longrightarrow> g_runs s' x = g_runs s x" "\<And>d. d \<noteq> c \<Longrightarrow> class_head s' d = class_head s d"
    "g_ready s' = g_ready s" "ticks s' = ticks s" "calls s' = calls s" "tkey_ok s' = tkey_ok s"
    "env_run_idle_ms s' = env_run_idle_ms s" "env_dirty_idle_ms s' = env_dirty_idle_ms s"
    "g_purged s' = g_purged s" "g_freed_to_os s' = g_freed_to_os s" "g_mapped s' = g_mapped s"
  using assms unfolding list_step_def by (auto simp: class_head_def)

lemma same_core_runs:
  assumes "same_core (g_runs s) (g_runs s')"
  shows "runs_of_class s' c = runs_of_class s c"
proof -
  have "(\<exists>r. g_runs s' a = Some r \<and> unat (r_cls r) = c + 1) \<longleftrightarrow> (\<exists>r. g_runs s a = Some r \<and> unat (r_cls r) = c + 1)" for a
  proof
    assume "\<exists>r. g_runs s' a = Some r \<and> unat (r_cls r) = c + 1"
    then obtain r' where r': "g_runs s' a = Some r'" "unat (r_cls r') = c + 1" by blast
    from same_core_Some [OF assms r'(1)] obtain r where "g_runs s a = Some r" "core r = core r'" .
    with r'(2) core_fields(2) show "\<exists>r. g_runs s a = Some r \<and> unat (r_cls r) = c + 1" by metis
  next
    assume "\<exists>r. g_runs s a = Some r \<and> unat (r_cls r) = c + 1"
    then obtain r where r: "g_runs s a = Some r" "unat (r_cls r) = c + 1" by blast
    have "same_core (g_runs s') (g_runs s)" using assms by (simp add: same_core_def)
    from same_core_Some [OF this r(1)] obtain r' where "g_runs s' a = Some r'" "core r' = core r" .
    with r(2) core_fields(2) show "\<exists>r. g_runs s' a = Some r \<and> unat (r_cls r) = c + 1" by metis
  qed
  then show ?thesis by (simp add: runs_of_class_def)
qed

lemma core_run_static:
  assumes "core r = core r'"
  shows "run_static c r \<longleftrightarrow> run_static c r'" "bm_ok r \<longleftrightarrow> bm_ok r'" "free_set r = free_set r'"
  using core_fields [OF assms] by (simp_all add: run_static_def bm_ok_def free_set_def)

lemma mem_inv_list_step:
  assumes "mem_inv s" "list_step c A s s'"
  shows "mem_inv s'"
proof -
  note f = list_step_fields [OF assms(2)] and d = mem_invD [OF assms(1)]
  have old: "\<exists>r. g_runs s a = Some r \<and> core r = core r'" if "g_runs s' a = Some r'" for a r'
    using same_core_Some [OF f(9) that] by metis
  have reg: "region s' a n \<Longrightarrow> region s a n" for a n
    unfolding region_def f(1) using old core_fields(2) by metis
  have "run_inv s' a r'" if a: "g_runs s' a = Some r'" for a r'
  proof -
    from old [OF a] obtain r where r: "g_runs s a = Some r" "core r = core r'" by blast
    from d(4) [OF r(1)] show ?thesis
      using core_run_static [OF r(2)] core_fields(2) [OF r(2)] f(1) by (simp add: run_inv_def)
  qed
  moreover have "region_inv s' a n" if "region s' a n" for a n
    using d(6) [OF reg [OF that]] f by (simp add: region_inv_def)
  moreover have "apart a n b m" if "region s' a n" "region s' b m" "a \<noteq> b" for a n b m
    using d(7) reg that by blast
  moreover have "res_ok s'" using d(1) f by (simp add: res_ok_def)
  ultimately show ?thesis unfolding mem_inv_def using d f by simp
qed

text \<open>Inserting and removing a run changes one class list and keeps the others.\<close>

lemma class_lists_step:
  assumes ls: "class_lists s E" and st: "list_step c A s s'" and A: "A \<subseteq> runs_of_class s c"
    and new: "c < 68 \<Longrightarrow> \<exists>L. dlist (g_runs s') (class_head s' c) L \<and> set L = runs_of_class s c - E'"
    and same: "E - runs_of_class s c = E' - runs_of_class s c"
  shows "class_lists s' E'"
  unfolding class_lists_def
proof (intro allI impI)
  fix d assume d: "d < (68::nat)"
  note f = list_step_fields [OF st]
  have runs: "runs_of_class s' d = runs_of_class s d" by (rule same_core_runs [OF f(9)])
  show "\<exists>L. dlist (g_runs s') (class_head s' d) L \<and> set L = runs_of_class s' d - E'"
  proof (cases "d = c")
    case True
    with new d runs show ?thesis by auto
  next
    case False
    obtain L where L: "dlist (g_runs s) (class_head s d) L" "set L = runs_of_class s d - E"
      using ls d by (auto simp: class_lists_def)
    have disj: "runs_of_class s d \<inter> runs_of_class s c = {}" using False by (auto simp: runs_of_class_def)
    then have "a \<notin> A" if "a \<in> set L" for a using A L(2) that by auto
    then have "dlist (g_runs s') (class_head s' d) L"
      using L(1) f(10,11) False by (subst dlist_cong [of _ _ "g_runs s"]) auto
    moreover have "set L = runs_of_class s' d - E'" using L(2) runs disj same by auto
    ultimately show ?thesis by blast
  qed
qed

lemma insert_ok:
  assumes "mem_inv s" "class_lists s {a}" "g_runs s a = Some r" "unat (r_cls r) = c + 1" "c < 68"
  shows "\<exists>s'. run_insert c a s = Some s' \<and> mem_inv s' \<and> class_lists s' {} \<and> list_step c UNIV s s'"
proof -
  obtain L where L: "dlist (g_runs s) (class_head s c) L" "set L = runs_of_class s c - {a}"
    using assms(2,5) by (auto simp: class_lists_def)
  have am: "a \<in> runs_of_class s c" using assms(3,4) by (auto simp: runs_of_class_def)
  have len: "c < length (g_cls s)" using assms(5) mem_invD(2) [OF assms(1)] by simp
  from run_insert_dlist [OF L(1) assms(3) run_facts(6) [OF assms(1,3)] _ len] L(2)
  obtain s' where s': "run_insert c a s = Some s'" "dlist (g_runs s') (class_head s' c) (a # L)"
    "list_step c (insert a (set L)) s s'" by auto
  have "class_lists s' {}"
  proof (rule class_lists_step [OF assms(2) s'(3)])
    show "insert a (set L) \<subseteq> runs_of_class s c" using L(2) am by auto
    show "\<exists>L. dlist (g_runs s') (class_head s' c) L \<and> set L = runs_of_class s c - {}"
      using s'(2) L(2) am by (intro exI [of _ "a # L"]) auto
    show "{a} - runs_of_class s c = {} - runs_of_class s c" using am by auto
  qed
  then show ?thesis
    using s'(1) mem_inv_list_step [OF assms(1) s'(3)] list_step_mono [OF s'(3) subset_UNIV] by blast
qed

lemma remove_ok:
  assumes "mem_inv s" "class_lists s {}" "g_runs s a = Some r" "unat (r_cls r) = c + 1" "c < 68"
  shows "\<exists>s'. run_remove c a s = Some s' \<and> mem_inv s' \<and> class_lists s' {a} \<and> list_step c UNIV s s' \<and> g_runs s' a = Some r"
proof -
  obtain L where L: "dlist (g_runs s) (class_head s c) L" "set L = runs_of_class s c"
    using assms(2,5) by (auto simp: class_lists_def)
  have am: "a \<in> set L" using assms(3,4) L(2) by (auto simp: runs_of_class_def)
  have len: "c < length (g_cls s)" using assms(5) mem_invD(2) [OF assms(1)] by simp
  from run_remove_dlist [OF L(1) am len]
  obtain s' where s': "run_remove c a s = Some s'" "dlist (g_runs s') (class_head s' c) (remove1 a L)"
    "list_step c (set L - {a}) s s'" "g_runs s' a = g_runs s a" by blast
  have dist: "distinct L" using L(1) by (auto simp: dlist_def)
  have "class_lists s' {a}"
  proof (rule class_lists_step [OF assms(2) s'(3)])
    show "set L - {a} \<subseteq> runs_of_class s c" using L(2) by auto
    show "\<exists>L. dlist (g_runs s') (class_head s' c) L \<and> set L = runs_of_class s c - {a}"
      using s'(2) L(2) dist by (intro exI [of _ "remove1 a L"]) auto
    show "{} - runs_of_class s c = {a} - runs_of_class s c" using am L(2) by auto
  qed
  then show ?thesis
    using s'(1,4) assms(3) mem_inv_list_step [OF assms(1) s'(3)] list_step_mono [OF s'(3) subset_UNIV] by metis
qed

end
