(* ===== verification/AllocLive.thy ===== *)
theory AllocLive
  imports AllocInv
begin

text \<open>
  The blocks an allocator state has handed out and not got back, and the effect of each step of
  the allocator on them: taking a block, giving it back, creating a run, mapping a large block.
\<close>

section \<open>Live blocks\<close>

definition used_blk :: "run \<Rightarrow> nat \<Rightarrow> bool" where
  "used_blk r i \<longleftrightarrow> i < unat (r_elems r) \<and> i \<notin> free_set r"

definition live :: "alloc \<Rightarrow> u64 \<Rightarrow> nat \<Rightarrow> bool" where
  "live s p n \<longleftrightarrow>
     (\<exists>a r i. g_runs s a = Some r \<and> used_blk r i \<and> p = blk_addr (unat (r_cls r)) a i \<and> n = elem_n (unat (r_cls r))) \<or>
     (\<exists>a h. g_larges s a = Some h \<and> p = a + sizeof_LargeHdr \<and> n = unat (l_user h))"

lemma live_smallI:
  "g_runs s a = Some r \<Longrightarrow> used_blk r i \<Longrightarrow> live s (blk_addr (unat (r_cls r)) a i) (elem_n (unat (r_cls r)))"
  unfolding live_def by blast

lemma used_blk_lt: "run_static c r \<Longrightarrow> used_blk r i \<Longrightarrow> i < elems_n c"
  by (auto simp: used_blk_def dest: run_staticD(4))

lemma large_ptr:
  assumes "mem_inv s" "g_larges s a = Some h"
  shows "unat (a + sizeof_LargeHdr) = unat a + 24" "unat a + unat (l_map_size h) < 2 ^ 64"
proof -
  have "region_inv s a (unat (l_map_size h))" "large_inv a h" "res_ok s"
    using assms by (auto intro: mem_invD region_large)
  then have "unat a + unat (l_map_size h) \<le> 2 ^ 56" "24 \<le> unat (l_map_size h)"
    by (auto simp: region_inv_def res_ok_def large_inv_def)
  then show "unat (a + sizeof_LargeHdr) = unat a + 24" "unat a + unat (l_map_size h) < 2 ^ 64"
    by (auto simp: sizeof_LargeHdr_def intro!: unat_add_no_wrap [THEN trans])
qed

text \<open>A live block lies inside one region, behind its header.\<close>

lemma live_region:
  assumes inv: "mem_inv s" and l: "live s p n"
  shows "\<exists>a m. region s a m \<and> unat a + 24 \<le> unat p \<and> unat p + n \<le> unat a + m \<and>
    ((\<exists>r i. g_runs s a = Some r \<and> used_blk r i \<and> p = blk_addr (unat (r_cls r)) a i \<and> n = elem_n (unat (r_cls r))) \<or>
     (\<exists>h. g_larges s a = Some h \<and> p = a + sizeof_LargeHdr \<and> n = unat (l_user h)))"
  using l unfolding live_def
proof (elim disjE exE conjE)
  fix a r i
  assume r: "g_runs s a = Some r" and i: "used_blk r i" and p: "p = blk_addr (unat (r_cls r)) a i"
    and n: "n = elem_n (unat (r_cls r))"
  note f = run_facts [OF inv r]
  have il: "i < elems_n (unat (r_cls r))" using used_blk_lt [OF f(2) i] .
  have u: "unat p = unat a + doff_n (unat (r_cls r)) + i * elem_n (unat (r_cls r))"
    unfolding p by (rule unat_blk_addr [OF f(1) il f(5)])
  have "unat p + n \<le> unat a + map_n (unat (r_cls r))"
    using u n blk_end_bound [OF f(1) il] by simp
  moreover have "unat a + 24 \<le> unat p" using u doff_n_bounds(1) [of "unat (r_cls r)"] by simp
  ultimately show ?thesis using region_run [OF r] r i p n by blast
next
  fix a h
  assume h: "g_larges s a = Some h" and p: "p = a + sizeof_LargeHdr" and n: "n = unat (l_user h)"
  have "large_inv a h" using mem_invD(5) [OF inv h] .
  then have "unat p + n \<le> unat a + unat (l_map_size h)" "unat a + 24 \<le> unat p"
    using large_ptr [OF inv h] p n by (simp_all add: large_inv_def)
  then show ?thesis using region_large [OF h] h p n by blast
qed

lemma region_unique:
  assumes "mem_inv s" "region s a n" "region s a m" shows "n = m"
  using assms mem_invD(4) [OF assms(1)] by (fastforce simp: region_def run_inv_def)

text \<open>Two live blocks are the same block or do not overlap.\<close>

lemma live_disjoint:
  assumes inv: "mem_inv s" and l1: "live s p n" and l2: "live s q m"
  shows "p = q \<and> n = m \<or> apart p n q m"
proof -
  obtain a k where a: "region s a k" "unat a + 24 \<le> unat p" "unat p + n \<le> unat a + k"
    "(\<exists>r i. g_runs s a = Some r \<and> used_blk r i \<and> p = blk_addr (unat (r_cls r)) a i \<and> n = elem_n (unat (r_cls r))) \<or>
     (\<exists>h. g_larges s a = Some h \<and> p = a + sizeof_LargeHdr \<and> n = unat (l_user h))"
    using live_region [OF inv l1] by blast
  obtain b l where b: "region s b l" "unat b + 24 \<le> unat q" "unat q + m \<le> unat b + l"
    "(\<exists>r i. g_runs s b = Some r \<and> used_blk r i \<and> q = blk_addr (unat (r_cls r)) b i \<and> m = elem_n (unat (r_cls r))) \<or>
     (\<exists>h. g_larges s b = Some h \<and> q = b + sizeof_LargeHdr \<and> m = unat (l_user h))"
    using live_region [OF inv l2] by blast
  show ?thesis
  proof (cases "a = b")
    case False
    then have "apart a k b l" using mem_invD(7) [OF inv a(1) b(1)] by blast
    then show ?thesis using a(2,3) b(2,3) by (auto simp: apart_def)
  next
    case True
    show ?thesis
    proof (cases "g_runs s a")
      case None
      with a(4) b(4) True show ?thesis by auto
    next
      case (Some r)
      note f = run_facts [OF inv Some]
      let ?c = "unat (r_cls r)"
      have nl: "g_larges s a = None" using mem_invD(4) [OF inv Some] by (simp add: run_inv_def)
      then obtain i where i: "used_blk r i" "p = blk_addr ?c a i" "n = elem_n ?c" using a(4) Some by auto
      obtain j where j: "used_blk r j" "q = blk_addr ?c a j" "m = elem_n ?c" using b(4) Some nl True by auto
      have u: "unat p = unat a + doff_n ?c + i * elem_n ?c" "unat q = unat a + doff_n ?c + j * elem_n ?c"
        using i j unat_blk_addr [OF f(1) used_blk_lt [OF f(2)] f(5)] by auto
      consider "i = j" | "i + 1 \<le> j" | "j + 1 \<le> i" by linarith
      then show ?thesis
      proof cases
        case 1
        with i j show ?thesis by simp
      next
        case 2
        then have "(i + 1) * elem_n ?c \<le> j * elem_n ?c" by (rule mult_le_mono1)
        with u i j show ?thesis by (simp add: apart_def add_mult_distrib)
      next
        case 3
        then have "(j + 1) * elem_n ?c \<le> i * elem_n ?c" by (rule mult_le_mono1)
        with u i j show ?thesis by (simp add: apart_def add_mult_distrib)
      qed
    qed
  qed
qed

lemma live_ptr_unique:
  assumes inv: "mem_inv s" and l1: "live s p n" and l2: "live s p m"
  shows "n = m"
proof -
  obtain a k where a: "region s a k" "unat a + 24 \<le> unat p" "unat p + n \<le> unat a + k"
    "(\<exists>r i. g_runs s a = Some r \<and> used_blk r i \<and> p = blk_addr (unat (r_cls r)) a i \<and> n = elem_n (unat (r_cls r))) \<or>
     (\<exists>h. g_larges s a = Some h \<and> p = a + sizeof_LargeHdr \<and> n = unat (l_user h))"
    using live_region [OF inv l1] by blast
  obtain b l where b: "region s b l" "unat b + 24 \<le> unat p" "unat p + m \<le> unat b + l"
    "(\<exists>r i. g_runs s b = Some r \<and> used_blk r i \<and> p = blk_addr (unat (r_cls r)) b i \<and> m = elem_n (unat (r_cls r))) \<or>
     (\<exists>h. g_larges s b = Some h \<and> p = b + sizeof_LargeHdr \<and> m = unat (l_user h))"
    using live_region [OF inv l2] by blast
  have "a = b"
  proof (rule ccontr)
    assume "a \<noteq> b"
    then have "apart a k b l" using mem_invD(7) [OF inv a(1) b(1)] by blast
    with a(2,3) b(2,3) show False by (auto simp: apart_def)
  qed
  with a(4) b(4) show ?thesis
    using mem_invD(4) [OF inv] by (fastforce simp: run_inv_def)
qed

text \<open>Every byte of a live block is accessible.\<close>

lemma live_acc:
  assumes "mem_inv s" "live s p n" "i < n"
  shows "g_acc s (p + of_nat i)"
proof -
  obtain a k where a: "region s a k" "unat a + 24 \<le> unat p" "unat p + n \<le> unat a + k"
    using live_region [OF assms(1,2)] by blast
  then have le: "a \<le> p" by (simp add: word_le_nat_alt)
  have "p + of_nat i = a + of_nat (unat (p - a) + i)" by simp
  moreover have "unat (p - a) + i < k" using a assms(3) unat_sub [OF le] by simp
  ultimately show ?thesis using mem_invD(6) [OF assms(1) a(1)] by (auto simp: region_inv_def)
qed

section \<open>Steps that change one run\<close>

text \<open>\<open>quiet s s'\<close>: nothing but run headers, the clock counter and the live counters has changed.\<close>

definition quiet :: "alloc \<Rightarrow> alloc \<Rightarrow> bool" where
  "quiet s s' \<longleftrightarrow> g_acc s' = g_acc s \<and> g_bytes s' = g_bytes s \<and> g_larges s' = g_larges s \<and>
     g_res_start s' = g_res_start s \<and> g_res_end s' = g_res_end s \<and> g_res_bump s' = g_res_bump s \<and>
     (\<forall>c. class_head s' c = class_head s c) \<and> length (g_cls s') = length (g_cls s) \<and>
     tls s' = tls s \<and> g_ready s' = g_ready s \<and> tkey_ok s' = tkey_ok s"

lemma quiet_refl [simp]: "quiet s s"
  by (simp add: quiet_def)

lemma class_head_add_live [simp]: "class_head (add_live c d s) c' = class_head s c'"
  by (cases "c < length (g_cls s)"; cases "c = c'")
    (simp_all add: class_head_def add_live_def list_update_beyond)

lemma ainv_put:
  assumes inv: "ainv s" and r: "g_runs s a = Some r" and q: "quiet s s'"
    and runs: "g_runs s' = (g_runs s)(a \<mapsto> r')"
    and st: "run_static (unat (r_cls r)) r'" "bm_ok r'" "r_prev r' = r_prev r" "r_next r' = r_next r"
  shows "ainv s'"
proof -
  have mi: "mem_inv s" and ls: "class_lists s {}" using inv by (simp_all add: ainv_def)
  note d = mem_invD [OF mi] and f = run_facts [OF mi r]
  have cls: "r_cls r' = r_cls r"
    using st(1) f(2) by (simp add: run_static_def)
  have q': "g_acc s' = g_acc s" "g_larges s' = g_larges s" "g_res_start s' = g_res_start s"
    "g_res_end s' = g_res_end s" "g_res_bump s' = g_res_bump s" "length (g_cls s') = length (g_cls s)" "tls s' = tls s"
    "\<And>c. class_head s' c = class_head s c"
    using q by (simp_all add: quiet_def)
  have reg: "region s' b n \<longleftrightarrow> region s b n" for b n
    using r cls by (auto simp: region_def runs q'(2))
  have "run_inv s' b rb" if "g_runs s' b = Some rb" for b rb
    using that d(4) [of b] d(4) [OF r] st(1,2) cls by (auto simp: runs run_inv_def q'(2) split: if_splits)
  moreover have "large_inv b h" if "g_larges s' b = Some h" for b h using that d(5) q'(2) by simp
  moreover have "region_inv s' b n" if "region s' b n" for b n
    using that d(6) reg q' by (simp add: region_inv_def)
  moreover have "apart b n b' n'" if "region s' b n" "region s' b' n'" "b \<noteq> b'" for b n b' n'
    using that d(7) reg by blast
  moreover have "res_ok s'" using d(1) q' by (simp add: res_ok_def)
  ultimately have mi': "mem_inv s'" unfolding mem_inv_def using d(2,3) q'(6,7) by simp
  have roc: "runs_of_class s' c = runs_of_class s c" for c
    using r cls by (auto simp: runs_of_class_def runs)
  have "links (g_runs s' x) = links (g_runs s x)" for x
    using r st(3,4) by (simp add: runs)
  then have "dlist (g_runs s') h L \<longleftrightarrow> dlist (g_runs s) h L" for h L by (rule dlist_cong)
  then have "class_lists s' {}" using ls by (simp add: class_lists_def roc q'(8))
  with mi' show ?thesis by (simp add: ainv_def)
qed

lemma ainv_runs: "ainv s \<Longrightarrow> g_runs s a = Some r \<Longrightarrow> run_static (unat (r_cls r)) r \<and> bm_ok r"
  using run_facts(2,3) by (auto simp: ainv_def)

lemma now_ms_quiet:
  assumes "now_ms os s = (t, s')"
  shows "quiet s s'" "g_runs s' = g_runs s" "g_cls s' = g_cls s"
  using assms by (auto simp: now_ms_def quiet_def class_head_def split: prod.splits)

section \<open>Taking a block\<close>

lemma run_take_ok:
  assumes inv: "ainv s" and r: "g_runs s a = Some r" and fr: "free_set r \<noteq> {}"
  shows "\<exists>i r' s'. run_take os a s = Some (blk_addr (unat (r_cls r)) a i, s') \<and> i = Min (free_set r) \<and> i \<in> free_set r \<and>
    g_runs s' = (g_runs s)(a \<mapsto> r') \<and> r_cls r' = r_cls r \<and> r_elems r' = r_elems r \<and>
    free_set r' = free_set r - {i} \<and> quiet s s' \<and> ainv s'"
proof -
  have st: "run_static (unat (r_cls r)) r" "bm_ok r" using ainv_runs [OF inv r] by auto
  obtain idx r1 where tk: "take_block r = Some (idx, r1)"
    using take_block_None [OF st(2)] fr by (cases "take_block r") auto
  note t = take_block_Some [OF st(2) tk]
  have mn: "unat idx = Min (free_set r)"
    using t(1,2) by (intro Min_eqI [symmetric]) auto
  have lt: "unat idx < elems_n (unat (r_cls r))"
    using t(1) run_staticD(4) [OF st(1)] by (simp add: free_set_def)
  obtain tm s1 where now: "now_ms os s = (tm, s1)" by fastforce
  define r2 where "r2 = (if r_used r1 = 1 then r1\<lparr>r_last_fully_free_ms := 0\<rparr> else r1)\<lparr>r_last_touch_ms := tm\<rparr>"
  let ?s' = "add_live (unat (r_cls r) - 1) 1 (put_run a r2 s1)"
  have run: "run_take os a s = Some (blk_addr (unat (r_cls r)) a (unat idx), ?s')"
    using r tk now run_data_blk [OF st(1) lt] by (simp add: run_take_def r2_def Let_def)
  have f2: "r_bits r2 = r_bits r1" "r_elems r2 = r_elems r1" "r_used r2 = r_used r1" "r_cls r2 = r_cls r1"
    "r_magic r2 = r_magic r1" "r_elem r2 = r_elem r1" "r_next r2 = r_next r1" "r_prev r2 = r_prev r1"
    by (simp_all add: r2_def)
  have f1: "r_cls r1 = r_cls r" "r_magic r1 = r_magic r" "r_elem r1 = r_elem r" "r_next r1 = r_next r" "r_prev r1 = r_prev r"
    by (subst t(6), simp)+
  have s2: "run_static (unat (r_cls r)) r2" using st(1) t(5,7) f1 by (simp add: run_static_def f2)
  have b2: "bm_ok r2" "free_set r2 = free_set r - {unat idx}"
    using t(3,4) by (simp_all add: bm_ok_def free_set_def f2)
  have q: "quiet s ?s'"
    using now_ms_quiet [OF now] by (simp add: quiet_def) (simp add: add_live_def put_run_def class_head_def)
  have runs: "g_runs ?s' = (g_runs s)(a \<mapsto> r2)"
    using now_ms_quiet(2) [OF now] by (simp add: add_live_def put_run_def)
  have "ainv ?s'"
    by (rule ainv_put [OF inv r q runs s2 b2(1)]) (simp_all add: f2 f1)
  then show ?thesis
    using run mn t(1,5) runs q b2(2) f1(1) f2(2,4)
    by (intro exI [of _ "unat idx"] exI [of _ r2] exI [of _ ?s']) simp
qed

section \<open>Giving a block back\<close>

lemma run_give_ok:
  assumes inv: "ainv s" and r: "g_runs s a = Some r" and u: "used_blk r i"
  shows "\<exists>r' s'. run_give os a (blk_addr (unat (r_cls r)) a i) s = Some s' \<and>
    g_runs s' = (g_runs s)(a \<mapsto> r') \<and> r_cls r' = r_cls r \<and> r_elems r' = r_elems r \<and>
    free_set r' = insert i (free_set r) \<and> quiet s s' \<and> ainv s'"
proof -
  have st: "run_static (unat (r_cls r)) r" "bm_ok r" using ainv_runs [OF inv r] by auto
  have mi: "mem_inv s" using inv by (simp add: ainv_def)
  have il: "i < elems_n (unat (r_cls r))" using used_blk_lt [OF st(1) u] .
  define idx where "idx = block_index r a (blk_addr (unat (r_cls r)) a i)"
  have ui: "unat idx = i" unfolding idx_def by (rule block_index_blk [OF st(1) il run_facts(5) [OF mi r]])
  have g: "unat idx < unat (r_elems r)" "unat idx \<notin> free_set r" using u ui by (simp_all add: used_blk_def)
  note gb = give_block_ok [OF st(2) g]
  let ?r1 = "give_block idx r"
  have f1: "r_cls ?r1 = r_cls r" "r_magic ?r1 = r_magic r" "r_elem ?r1 = r_elem r" "r_next ?r1 = r_next r"
    "r_prev ?r1 = r_prev r"
    by (subst gb(5), simp)+
  obtain t1 s1 where n1: "now_ms os s = (t1, s1)" by fastforce
  obtain t2 s2 where n2: "now_ms os s1 = (t2, s2)" by fastforce
  define z where "z \<longleftrightarrow> r_used ?r1 = 0 \<and> r_last_fully_free_ms ?r1 = 0"
  define r3 where "r3 = (if z then ?r1\<lparr>r_last_touch_ms := t1, r_last_fully_free_ms := t2\<rparr> else ?r1\<lparr>r_last_touch_ms := t1\<rparr>)"
  define sf where "sf = (if z then s2 else s1)"
  let ?s' = "add_live (unat (r_cls r) - 1) (- 1) (put_run a r3 sf)"
  have run: "run_give os a (blk_addr (unat (r_cls r)) a i) s = Some ?s'"
    using r n1 n2 by (simp add: run_give_def Let_def idx_def [symmetric] z_def r3_def sf_def)
  have f3: "r_bits r3 = r_bits ?r1" "r_elems r3 = r_elems ?r1" "r_used r3 = r_used ?r1" "r_cls r3 = r_cls ?r1"
    "r_magic r3 = r_magic ?r1" "r_elem r3 = r_elem ?r1" "r_next r3 = r_next ?r1" "r_prev r3 = r_prev ?r1"
    by (simp_all add: r3_def)
  have s3: "run_static (unat (r_cls r)) r3" using st(1) gb(3,4) f1 by (simp add: run_static_def f3)
  have b3: "bm_ok r3" "free_set r3 = insert i (free_set r)"
    using gb(1,2) ui by (simp_all add: bm_ok_def free_set_def f3)
  have qs: "quiet s sf" "g_runs sf = g_runs s"
    using now_ms_quiet [OF n1] now_ms_quiet [OF n2] by (auto simp: quiet_def sf_def)
  have q: "quiet s ?s'"
    using qs(1) by (simp add: quiet_def) (simp add: add_live_def put_run_def class_head_def)
  have runs: "g_runs ?s' = (g_runs s)(a \<mapsto> r3)" using qs(2) by (simp add: add_live_def put_run_def)
  have "ainv ?s'" by (rule ainv_put [OF inv r q runs s3 b3(1)]) (simp_all add: f3 f1)
  then show ?thesis
    using run runs q b3(2) f1(1) f3(2,4) gb(3) by (intro exI [of _ r3] exI [of _ ?s']) simp
qed

section \<open>Live blocks after a step\<close>

lemma live_put:
  assumes inv: "ainv s" and r: "g_runs s a = Some r" and q: "g_larges s' = g_larges s"
    and runs: "g_runs s' = (g_runs s)(a \<mapsto> r')" "r_cls r' = r_cls r" "r_elems r' = r_elems r"
  shows "live s' p n \<longleftrightarrow>
    (\<exists>i. used_blk r' i \<and> p = blk_addr (unat (r_cls r)) a i \<and> n = elem_n (unat (r_cls r))) \<or>
    (live s p n \<and> \<not> (\<exists>i. used_blk r i \<and> p = blk_addr (unat (r_cls r)) a i \<and> n = elem_n (unat (r_cls r))))"
    (is "_ \<longleftrightarrow> ?new \<or> (live s p n \<and> \<not> ?mine)")
proof -
  have mi: "mem_inv s" using inv by (simp add: ainv_def)
  define others where "others \<longleftrightarrow>
     (\<exists>b rb i. b \<noteq> a \<and> g_runs s b = Some rb \<and> used_blk rb i \<and> p = blk_addr (unat (r_cls rb)) b i \<and> n = elem_n (unat (r_cls rb))) \<or>
     (\<exists>b h. g_larges s b = Some h \<and> p = b + sizeof_LargeHdr \<and> n = unat (l_user h))"
  define At where "At m b \<longleftrightarrow> (\<exists>rb i. m b = Some rb \<and> used_blk rb i \<and> p = blk_addr (unat (r_cls rb)) b i \<and>
     n = elem_n (unat (r_cls rb)))" for m :: "u64 \<rightharpoonup> run" and b
  define big where "big \<longleftrightarrow> (\<exists>b h. g_larges s b = Some h \<and> p = b + sizeof_LargeHdr \<and> n = unat (l_user h))"
  have others: "others \<longleftrightarrow> (\<exists>b. b \<noteq> a \<and> At (g_runs s) b) \<or> big"
    unfolding others_def At_def big_def by blast
  have at: "live s p n \<longleftrightarrow> (\<exists>b. At (g_runs s) b) \<or> big" "live s' p n \<longleftrightarrow> (\<exists>b. At (g_runs s') b) \<or> big"
    unfolding live_def At_def big_def q by blast+
  have mine: "At (g_runs s) a \<longleftrightarrow> ?mine" "At (g_runs s') a \<longleftrightarrow> ?new"
    by (simp_all add: At_def r runs)
  have upd: "At (g_runs s') b \<longleftrightarrow> At (g_runs s) b" if "b \<noteq> a" for b
    using that by (simp add: At_def runs(1))
  have 1: "live s' p n \<longleftrightarrow> ?new \<or> others" unfolding at others mine(2) [symmetric] using upd by metis
  have 2: "live s p n \<longleftrightarrow> ?mine \<or> others" unfolding at others mine(1) [symmetric] by metis
  have "\<not> (?mine \<and> others)"
  proof
    assume m: "?mine \<and> others"
    then obtain i where i: "used_blk r i" "p = blk_addr (unat (r_cls r)) a i" "n = elem_n (unat (r_cls r))" by blast
    note f = run_facts [OF mi r]
    have il: "i < elems_n (unat (r_cls r))" using used_blk_lt [OF f(2) i(1)] .
    have ul: "unat a + 24 \<le> unat p" "unat p + n \<le> unat a + map_n (unat (r_cls r))" "8 \<le> n"
      using unat_blk_addr [OF f(1) il f(5)] blk_end_bound [OF f(1) il] i
        doff_n_bounds(1) [of "unat (r_cls r)"] elem_n_bounds(1) [OF f(1)] by auto
    from m have "\<exists>b k. b \<noteq> a \<and> region s b k \<and> unat b + 24 \<le> unat p \<and> unat p + n \<le> unat b + k"
      unfolding others_def
    proof (elim conjE disjE exE)
      fix b rb j
      assume b: "b \<noteq> a" "g_runs s b = Some rb" "used_blk rb j" "p = blk_addr (unat (r_cls rb)) b j" "n = elem_n (unat (r_cls rb))"
      note fb = run_facts [OF mi b(2)]
      have jl: "j < elems_n (unat (r_cls rb))" using used_blk_lt [OF fb(2) b(3)] .
      show ?thesis
        using unat_blk_addr [OF fb(1) jl fb(5)] blk_end_bound [OF fb(1) jl] b doff_n_bounds(1) [of "unat (r_cls rb)"]
        by (intro exI [of _ b] exI [of _ "map_n (unat (r_cls rb))"]) (auto intro: region_run)
    next
      fix b h
      assume b: "g_larges s b = Some h" "p = b + sizeof_LargeHdr" "n = unat (l_user h)"
      have "b \<noteq> a" using b(1) mem_invD(4) [OF mi r] by (auto simp: run_inv_def)
      then show ?thesis using b large_ptr [OF mi b(1)] mem_invD(5) [OF mi b(1)]
        by (intro exI [of _ b] exI [of _ "unat (l_map_size h)"]) (auto intro: region_large simp: large_inv_def)
    qed
    then obtain b k where b: "b \<noteq> a" "region s b k" "unat b + 24 \<le> unat p" "unat p + n \<le> unat b + k" by blast
    from mem_invD(7) [OF mi region_run [OF r] b(2)] b ul show False by (auto simp: apart_def)
  qed
  with 1 2 show ?thesis by blast
qed

lemma blk_addr_eq_iff:
  assumes "mem_inv s" "g_runs s a = Some r" "i < unat (r_elems r)" "j < unat (r_elems r)"
  shows "blk_addr (unat (r_cls r)) a i = blk_addr (unat (r_cls r)) a j \<longleftrightarrow> i = j"
proof -
  note f = run_facts [OF assms(1,2)]
  show ?thesis
    using blk_addr_inj [OF f(1) _ _ f(5)] assms(3,4) run_staticD(4) [OF f(2)] by auto
qed

lemma live_take:
  assumes inv: "ainv s" and r: "g_runs s a = Some r" and q: "g_larges s' = g_larges s"
    and runs: "g_runs s' = (g_runs s)(a \<mapsto> r')" "r_cls r' = r_cls r" "r_elems r' = r_elems r"
    and i: "i \<in> free_set r" "free_set r' = free_set r - {i}"
  defines "p \<equiv> blk_addr (unat (r_cls r)) a i"
  shows "live s' x n \<longleftrightarrow> live s x n \<or> (x = p \<and> n = elem_n (unat (r_cls r)))"
    "\<not> live s p m"
proof -
  have mi: "mem_inv s" using inv by (simp add: ainv_def)
  have used: "used_blk r' j \<longleftrightarrow> used_blk r j \<or> j = i" for j
    using i runs(3) by (auto simp: used_blk_def free_set_def)
  show "live s' x n \<longleftrightarrow> live s x n \<or> (x = p \<and> n = elem_n (unat (r_cls r)))"
    unfolding live_put [OF inv r q runs] used p_def using live_smallI [OF r] by blast
  note lp = live_put [OF inv r q runs]
  have fresh: "\<not> (\<exists>j. used_blk r j \<and> p = blk_addr (unat (r_cls r)) a j)"
    using i(1) blk_addr_eq_iff [OF mi r] by (auto simp: p_def used_blk_def free_set_def)
  show "\<not> live s p m"
  proof
    assume l: "live s p m"
    have ai: "i < unat (r_elems r)" using i(1) by (simp add: free_set_def)
    note f = run_facts [OF mi r]
    have il: "i < elems_n (unat (r_cls r))" using ai run_staticD(4) [OF f(2)] by simp
    obtain b k where b: "region s b k" "unat b + 24 \<le> unat p" "unat p + m \<le> unat b + k"
      "(\<exists>rb j. g_runs s b = Some rb \<and> used_blk rb j \<and> p = blk_addr (unat (r_cls rb)) b j \<and> m = elem_n (unat (r_cls rb))) \<or>
       (\<exists>h. g_larges s b = Some h \<and> p = b + sizeof_LargeHdr \<and> m = unat (l_user h))"
      using live_region [OF mi l] by blast
    have ul: "unat a + 24 \<le> unat p" "unat p + 8 \<le> unat a + map_n (unat (r_cls r))"
      using unat_blk_addr [OF f(1) il f(5)] blk_end_bound [OF f(1) il]
        doff_n_bounds(1) [of "unat (r_cls r)"] elem_n_bounds(1) [OF f(1)] by (auto simp: p_def)
    have "b = a"
    proof (rule ccontr)
      assume "b \<noteq> a"
      then have "apart b k a (map_n (unat (r_cls r)))" using mem_invD(7) [OF mi b(1) region_run [OF r]] by blast
      with b(2,3) ul have "m = 0 \<and> unat p = unat b + k" by (auto simp: apart_def)
      moreover have "unat a + map_n (unat (r_cls r)) \<le> unat b \<or> unat b + k \<le> unat a"
        using \<open>apart b k a _\<close> by (auto simp: apart_def)
      ultimately show False using b(2) ul by auto
    qed
    with b(4) r fresh mem_invD(4) [OF mi r] show False by (auto simp: run_inv_def)
  qed
qed

lemma live_give:
  assumes inv: "ainv s" and r: "g_runs s a = Some r" and q: "g_larges s' = g_larges s"
    and runs: "g_runs s' = (g_runs s)(a \<mapsto> r')" "r_cls r' = r_cls r" "r_elems r' = r_elems r"
    and i: "used_blk r i" "free_set r' = insert i (free_set r)"
  defines "p \<equiv> blk_addr (unat (r_cls r)) a i"
  shows "live s' x n \<longleftrightarrow> live s x n \<and> x \<noteq> p"
proof -
  have mi: "mem_inv s" using inv by (simp add: ainv_def)
  have used: "used_blk r' j \<longleftrightarrow> used_blk r j \<and> j \<noteq> i" for j
    using i runs(3) by (auto simp: used_blk_def free_set_def)
  have lp: "live s p (elem_n (unat (r_cls r)))" unfolding p_def by (rule live_smallI [OF r i(1)])
  have uniq: "n = elem_n (unat (r_cls r))" if "live s p n" for n
    by (rule live_ptr_unique [OF mi that lp])
  have inj: "blk_addr (unat (r_cls r)) a j = p \<longleftrightarrow> j = i" if "used_blk r j" for j
    using that i(1) blk_addr_eq_iff [OF mi r] by (simp add: p_def used_blk_def)
  show ?thesis
  proof (cases "live s x n")
    case True
    have "\<not> (\<exists>j. (used_blk r j \<and> j \<noteq> i) \<and> p = blk_addr (unat (r_cls r)) a j)" using inj by blast
    then show ?thesis
      using True inj uniq i(1) unfolding live_put [OF inv r q runs] used by (cases "x = p") (auto simp: p_def)
  next
    case False
    then show ?thesis unfolding live_put [OF inv r q runs] used using live_smallI [OF r] by metis
  qed
qed

end
