(* ===== verification/AllocGrow.thy ===== *)
theory AllocGrow
  imports AllocLive
begin

text \<open>
  Growing the allocator: mapping a piece of the reserve, storing a header in it, and the two
  clients of this, \<open>run_new\<close> and the large path of \<open>malloc\<close>. A failed growth changes nothing that
  the invariant reads.
\<close>

section \<open>Address ranges\<close>

lemma in_range_iff:
  assumes "unat a + unat n < 2 ^ 64"
  shows "in_range a n x \<longleftrightarrow> unat a \<le> unat x \<and> unat x < unat a + unat n"
proof (cases "a \<le> x")
  case True
  then show ?thesis
    unfolding in_range_def word_less_nat_alt unat_sub [OF True] by (auto simp: word_le_nat_alt)
next
  case False
  then have lt: "unat x < unat a" by (simp add: word_le_nat_alt)
  have "\<not> x - a < n"
  proof
    assume "x - a < n"
    then have "unat (x - a) + unat a < 2 ^ 64" using assms by (simp add: word_less_nat_alt)
    then have "unat (x - a + a) = unat (x - a) + unat a" by (intro unat_add_no_wrap) simp
    then show False using lt by simp
  qed
  then show ?thesis using lt by (simp add: in_range_def)
qed

lemma unat_add_of_nat:
  "unat a + i < 2 ^ 64 \<Longrightarrow> unat (a + of_nat i) = unat a + i" for a :: u64
  by (subst unat_add_no_wrap) (simp_all add: unat_of_nat_small)

section \<open>Steps that keep the live blocks and their contents\<close>

definition contents_kept :: "alloc \<Rightarrow> alloc \<Rightarrow> bool" where
  "contents_kept s s' \<longleftrightarrow> (\<forall>p n i. live s p n \<longrightarrow> i < n \<longrightarrow> g_bytes s' (p + of_nat i) = g_bytes s (p + of_nat i))"

lemma contents_keptI: "g_bytes s' = g_bytes s \<Longrightarrow> contents_kept s s'"
  by (simp add: contents_kept_def)

lemma contents_kept_trans:
  "contents_kept s s1 \<Longrightarrow> (\<And>p n. live s p n \<Longrightarrow> live s1 p n) \<Longrightarrow> contents_kept s1 s2 \<Longrightarrow> contents_kept s s2"
  unfolding contents_kept_def by metis

lemma live_cong: "g_runs s' = g_runs s \<Longrightarrow> g_larges s' = g_larges s \<Longrightarrow> live s' p n \<longleftrightarrow> live s p n"
  by (simp add: live_def)

lemma live_same_core:
  assumes "same_core (g_runs s) (g_runs s')" "g_larges s' = g_larges s"
  shows "live s' p n \<longleftrightarrow> live s p n"
proof -
  have one: "live t p n" if sc: "same_core (g_runs t) (g_runs t')" and lg: "g_larges t' = g_larges t"
    and l: "live t' p n" for t t'
  proof -
    from l consider (small) a r i where "g_runs t' a = Some r" "used_blk r i" "p = blk_addr (unat (r_cls r)) a i"
        "n = elem_n (unat (r_cls r))"
      | (large) a h where "g_larges t' a = Some h" "p = a + sizeof_LargeHdr" "n = unat (l_user h)"
      unfolding live_def by blast
    then show ?thesis
    proof cases
      case small
      from same_core_Some [OF sc small(1)] obtain r0 where r0: "g_runs t a = Some r0" "core r0 = core r" .
      have "used_blk r0 i" using small(2) core_fields [OF r0(2)] by (simp add: used_blk_def free_set_def)
      then show ?thesis using live_smallI [OF r0(1), of i] small core_fields(2) [OF r0(2)] by simp
    next
      case large
      then show ?thesis using lg unfolding live_def by auto
    qed
  qed
  have "same_core (g_runs s') (g_runs s)" using assms(1) by (simp add: same_core_def)
  then show ?thesis using one [of s s'] one [of s' s] assms by metis
qed

text \<open>\<open>runs_kept s s'\<close>: no run has gone and no block of a run has been given back.\<close>

definition runs_kept :: "alloc \<Rightarrow> alloc \<Rightarrow> bool" where
  "runs_kept s s' \<longleftrightarrow> (\<forall>a r. g_runs s a = Some r \<longrightarrow>
     (\<exists>r'. g_runs s' a = Some r' \<and> r_cls r' = r_cls r \<and> r_elems r' = r_elems r \<and> free_set r' \<subseteq> free_set r))"

lemma runs_kept_same: "g_runs s' = g_runs s \<Longrightarrow> runs_kept s s'"
  by (auto simp: runs_kept_def)

lemma runs_kept_trans: "runs_kept s s1 \<Longrightarrow> runs_kept s1 s2 \<Longrightarrow> runs_kept s s2"
  unfolding runs_kept_def
proof (intro allI impI)
  fix a r
  assume k: "\<forall>a r. g_runs s a = Some r \<longrightarrow>
      (\<exists>r'. g_runs s1 a = Some r' \<and> r_cls r' = r_cls r \<and> r_elems r' = r_elems r \<and> free_set r' \<subseteq> free_set r)"
    "\<forall>a r. g_runs s1 a = Some r \<longrightarrow>
      (\<exists>r'. g_runs s2 a = Some r' \<and> r_cls r' = r_cls r \<and> r_elems r' = r_elems r \<and> free_set r' \<subseteq> free_set r)"
    and r: "g_runs s a = Some r"
  from k(1) r obtain r1 where r1: "g_runs s1 a = Some r1" "r_cls r1 = r_cls r" "r_elems r1 = r_elems r"
    "free_set r1 \<subseteq> free_set r" by blast
  from k(2) r1(1) obtain r2 where "g_runs s2 a = Some r2" "r_cls r2 = r_cls r1" "r_elems r2 = r_elems r1"
    "free_set r2 \<subseteq> free_set r1" by blast
  with r1 show "\<exists>r'. g_runs s2 a = Some r' \<and> r_cls r' = r_cls r \<and> r_elems r' = r_elems r \<and> free_set r' \<subseteq> free_set r"
    by auto
qed

lemma runs_kept_core: "same_core (g_runs s) (g_runs s') \<Longrightarrow> runs_kept s s'"
  unfolding runs_kept_def
proof (intro allI impI)
  fix a r assume sc: "same_core (g_runs s) (g_runs s')" and r: "g_runs s a = Some r"
  have "same_core (g_runs s') (g_runs s)" using sc by (simp add: same_core_def)
  from same_core_Some [OF this r] obtain r' where r': "g_runs s' a = Some r'" "core r' = core r" .
  show "\<exists>r'. g_runs s' a = Some r' \<and> r_cls r' = r_cls r \<and> r_elems r' = r_elems r \<and> free_set r' \<subseteq> free_set r"
    using r'(1) core_fields(2,3) [OF r'(2)] core_run_static(3) [OF r'(2)] by simp
qed

section \<open>Mapping a piece\<close>

lemma region_live_bound:
  assumes "mem_inv s" "region s a n"
  shows "unat a + n \<le> unat (g_res_bump s)" "unat a + n \<le> 2 ^ 56"
  using mem_invD(6) [OF assms] mem_invD(1) [OF assms(1)] by (auto simp: region_inv_def res_ok_def)

lemma header_region: "g_runs s a = Some r \<Longrightarrow> \<exists>n. region s a n" "g_larges s a = Some h \<Longrightarrow> \<exists>n. region s a n"
  by (auto simp: region_def)

text \<open>The state after a successful \<open>reserve_map\<close>: as before, with a fresh zero-filled range that
  no header and no live block touches.\<close>

lemma reserve_map_ok:
  assumes inv: "ainv s" and nw: "no_wrap s sz (2 ^ k)" and k: "k < 64" and sz: "sz \<noteq> 0"
    and r: "reserve_map os sz (2 ^ k) s = (p, s1)"
  shows "ainv s1" "live s1 x n \<longleftrightarrow> live s x n" "contents_kept s s1"
    "g_runs s1 = g_runs s" "g_larges s1 = g_larges s" "g_ready s1 = g_ready s"
    "unat (g_res_bump s1) = unat (g_res_bump s) + unat sz + 2 ^ k" "tkey_ok s1 = tkey_ok s"
    "p \<noteq> 0 \<Longrightarrow> 2 ^ k dvd unat p" "p \<noteq> 0 \<Longrightarrow> unat (g_res_start s) \<le> unat p"
    "p \<noteq> 0 \<Longrightarrow> unat p + unat sz \<le> unat (g_res_end s)"
    "p \<noteq> 0 \<Longrightarrow> unat p + unat sz \<le> unat (g_res_bump s1)"
    "p \<noteq> 0 \<Longrightarrow> i < unat sz \<Longrightarrow> g_acc s1 (p + of_nat i)"
    "p \<noteq> 0 \<Longrightarrow> i < unat sz \<Longrightarrow> g_bytes s1 (p + of_nat i) = 0"
    "p \<noteq> 0 \<Longrightarrow> region s1 a m \<Longrightarrow> unat a + m \<le> unat p"
    "g_res_start s1 = g_res_start s" "g_res_end s1 = g_res_end s" "g_cls s1 = g_cls s" "tls s1 = tls s"
proof -
  have mi: "mem_inv s" and cl: "class_lists s {}" using inv by (simp_all add: ainv_def)
  note d = mem_invD [OF mi]
  note c = reserve_map_cases [OF d(1) nw k sz r]
  have endb: "unat (g_res_end s) \<le> 2 ^ 56" "unat (g_res_start s) \<le> unat (g_res_bump s)"
    using d(1) by (auto simp: res_ok_def word_le_nat_alt)
  have bump: "unat (g_res_bump s1) = unat (g_res_bump s) + unat sz + 2 ^ k" by (fact c(1))
  consider (z) n where "p = 0" "s1 = s\<lparr>g_res_bump := g_res_bump s1, calls := n\<rparr>"
    | (nz) n where "p \<noteq> 0" "s1 = map_range p sz (s\<lparr>g_res_bump := g_res_bump s1, calls := n\<rparr>)"
    using c(2,3) by blast
  then have all: "g_runs s1 = g_runs s \<and> g_larges s1 = g_larges s \<and> g_res_start s1 = g_res_start s \<and> g_res_end s1 = g_res_end s \<and>
     g_cls s1 = g_cls s \<and> tls s1 = tls s \<and> g_ready s1 = g_ready s \<and> tkey_ok s1 = tkey_ok s \<and>
     (\<forall>x. g_acc s x \<longrightarrow> g_acc s1 x) \<and> (\<forall>x. unat x < unat (g_res_bump s) \<longrightarrow> g_bytes s1 x = g_bytes s x) \<and>
     (p \<noteq> 0 \<longrightarrow> (\<forall>i<unat sz. g_acc s1 (p + of_nat i) \<and> g_bytes s1 (p + of_nat i) = 0))"
  proof cases
    case z
    have "g_runs s1 = g_runs s" "g_larges s1 = g_larges s" "g_res_start s1 = g_res_start s" "g_res_end s1 = g_res_end s"
      "g_cls s1 = g_cls s" "tls s1 = tls s" "g_ready s1 = g_ready s" "tkey_ok s1 = tkey_ok s"
      "g_acc s1 = g_acc s" "g_bytes s1 = g_bytes s"
      by (subst z(2), simp)+
    with z(1) show ?thesis by simp
  next
    case nz
    note pp = c(2) [OF nz(1)]
    have rng: "in_range p sz x \<longleftrightarrow> unat p \<le> unat x \<and> unat x < unat p + unat sz" for x
      using pp endb by (intro in_range_iff) simp
    have nohdr: "\<not> in_range p sz a" if "region s a n" for a n
      using region_live_bound(1) [OF mi that] region_pos [OF mi that] pp rng by auto
    have nr: "in_range p sz x \<Longrightarrow> g_runs s x = None" for x
      using nohdr header_region(1) [of s x] by (cases "g_runs s x") auto
    have nl: "in_range p sz x \<Longrightarrow> g_larges s x = None" for x
      using nohdr header_region(2) [of s x] by (cases "g_larges s x") auto
    have hdr: "g_runs s1 = g_runs s"
      by (rule ext, subst nz(2)) (simp add: map_range_def nr)
    have hdl: "g_larges s1 = g_larges s"
      by (rule ext, subst nz(2)) (simp add: map_range_def nl)
    have rest: "g_res_start s1 = g_res_start s" "g_res_end s1 = g_res_end s" "g_cls s1 = g_cls s" "tls s1 = tls s"
      "g_ready s1 = g_ready s" "tkey_ok s1 = tkey_ok s"
      "g_acc s1 x \<longleftrightarrow> in_range p sz x \<or> g_acc s x" "g_bytes s1 x = (if in_range p sz x then 0 else g_bytes s x)" for x
      by (subst nz(2), simp add: map_range_def)+
    have new: "in_range p sz (p + of_nat i)" if "i < unat sz" for i
      using that pp endb unat_add_of_nat [of p i] by (simp add: rng)
    show ?thesis using hdr hdl rest rng new pp by auto
  qed
  show g: "g_runs s1 = g_runs s" "g_larges s1 = g_larges s" "g_ready s1 = g_ready s" "tkey_ok s1 = tkey_ok s"
    "g_res_start s1 = g_res_start s" "g_res_end s1 = g_res_end s" "g_cls s1 = g_cls s" "tls s1 = tls s"
    using all by simp_all
  show "unat (g_res_bump s1) = unat (g_res_bump s) + unat sz + 2 ^ k" by (fact bump)
  show "p \<noteq> 0 \<Longrightarrow> 2 ^ k dvd unat p" "p \<noteq> 0 \<Longrightarrow> unat p + unat sz \<le> unat (g_res_end s)"
    "p \<noteq> 0 \<Longrightarrow> unat p + unat sz \<le> unat (g_res_bump s1)" "p \<noteq> 0 \<Longrightarrow> unat (g_res_start s) \<le> unat p"
    using c(2) endb(2) by auto
  show "p \<noteq> 0 \<Longrightarrow> i < unat sz \<Longrightarrow> g_acc s1 (p + of_nat i)"
    "p \<noteq> 0 \<Longrightarrow> i < unat sz \<Longrightarrow> g_bytes s1 (p + of_nat i) = 0" using all by auto
  have reg: "region s1 a m \<longleftrightarrow> region s a m" for a m by (simp add: region_def g)
  show "p \<noteq> 0 \<Longrightarrow> region s1 a m \<Longrightarrow> unat a + m \<le> unat p"
    using reg region_live_bound(1) [OF mi] c(2) by fastforce
  show "live s1 x n \<longleftrightarrow> live s x n" using g by (intro live_cong)
  show "contents_kept s s1" unfolding contents_kept_def
  proof (intro allI impI)
    fix q m i assume l: "live s q m" "i < m"
    from live_region [OF mi l(1)] obtain a n where a: "region s a n" "unat q + m \<le> unat a + n" by blast
    have "unat (q + of_nat i) < unat (g_res_bump s)"
      using region_live_bound [OF mi a(1)] a(2) l(2) unat_add_of_nat [of q i] by simp
    then show "g_bytes s1 (q + of_nat i) = g_bytes s (q + of_nat i)" using all by simp
  qed
  have "region_inv s1 a m" if "region s1 a m" for a m
  proof -
    have "region_inv s a m" using d(6) that reg by simp
    then show ?thesis using all g(5,6) bump unfolding region_inv_def by simp
  qed
  moreover have "res_ok s1" using d(1) g bump by (auto simp: res_ok_def word_le_nat_alt)
  ultimately have "mem_inv s1" unfolding mem_inv_def using d g reg by (simp add: run_inv_def)
  moreover have "class_lists s1 {}" using cl g by (subst class_lists_cong [of s1 s]) (simp_all add: class_head_def)
  ultimately show "ainv s1" by (simp add: ainv_def)
qed

section \<open>Storing a header in a fresh piece\<close>

text \<open>\<open>fresh_piece s p n\<close>: the \<open>n\<close> bytes from \<open>p\<close> are mapped, inside the reserve, below the bump
  pointer and above every region in use.\<close>

definition fresh_piece :: "alloc \<Rightarrow> u64 \<Rightarrow> nat \<Rightarrow> bool" where
  "fresh_piece s p n \<longleftrightarrow> region_inv s p n \<and> 24 \<le> n \<and> (\<forall>a m. region s a m \<longrightarrow> unat a + m \<le> unat p)"

lemma fresh_no_header:
  assumes "mem_inv s" "fresh_piece s p n"
  shows "g_runs s p = None" "g_larges s p = None" "\<And>m. \<not> region s p m"
proof -
  show nr: "\<not> region s p m" for m
  proof
    assume m: "region s p m"
    then have "unat p + m \<le> unat p" using assms(2) unfolding fresh_piece_def by blast
    with region_pos [OF assms(1) m] show False by simp
  qed
  show "g_runs s p = None" "g_larges s p = None"
    using nr header_region [of s p] by (cases "g_runs s p"; cases "g_larges s p"; blast)+
qed

lemma mem_inv_add:
  assumes inv: "mem_inv s" and fp: "fresh_piece s p n"
    and same: "g_acc s' = g_acc s" "g_res_start s' = g_res_start s" "g_res_end s' = g_res_end s"
      "g_res_bump s' = g_res_bump s" "length (g_cls s') = length (g_cls s)" "tls s' = tls s"
    and reg: "\<And>a m. region s' a m \<longleftrightarrow> region s a m \<or> a = p \<and> m = n"
    and runs: "\<And>a r. g_runs s' a = Some r \<Longrightarrow> run_inv s' a r"
    and larges: "\<And>a h. g_larges s' a = Some h \<Longrightarrow> large_inv a h"
  shows "mem_inv s'"
proof -
  note d = mem_invD [OF inv]
  have rinv: "region_inv s' a m \<longleftrightarrow> region_inv s a m" for a m using same by (simp add: region_inv_def)
  have "region_inv s' a m" if "region s' a m" for a m
    using that fp d(6) by (auto simp: reg rinv fresh_piece_def)
  moreover have "apart a m b k" if "region s' a m" "region s' b k" "a \<noteq> b" for a m b k
  proof -
    have "apart p n b k \<and> apart b k p n" if "region s b k" for b k
      using fp that by (auto simp: fresh_piece_def apart_def)
    then show ?thesis using that d(7) by (auto simp: reg)
  qed
  moreover have "res_ok s'" using d(1) same by (simp add: res_ok_def)
  ultimately show ?thesis unfolding mem_inv_def using runs larges same d(2,3) by simp
qed

lemma add_run_ok:
  assumes inv: "ainv s" and fp: "fresh_piece s p (map_n c)" and al: "aligned_run p"
    and r: "run_static c r" "bm_ok r" "\<And>i. \<not> used_blk r i"
    and runs: "g_runs s' = (g_runs s)(p \<mapsto> r)" and q: "quiet s s'"
  shows "mem_inv s'" "class_lists s' {p}" "live s' x n \<longleftrightarrow> live s x n"
proof -
  have mi: "mem_inv s" and cl: "class_lists s {}" using inv by (simp_all add: ainv_def)
  note d = mem_invD [OF mi] and nh = fresh_no_header [OF mi fp] and rc = run_staticD [OF r(1)]
  have q': "g_acc s' = g_acc s" "g_larges s' = g_larges s" "g_res_start s' = g_res_start s"
    "g_res_end s' = g_res_end s" "g_res_bump s' = g_res_bump s" "length (g_cls s') = length (g_cls s)" "tls s' = tls s"
    "\<And>c. class_head s' c = class_head s c"
    using q by (simp_all add: quiet_def)
  show "mem_inv s'"
  proof (rule mem_inv_add [OF mi fp q'(1,3-7)])
    fix a m show "region s' a m \<longleftrightarrow> region s a m \<or> a = p \<and> m = map_n c"
      using nh rc(3) by (auto simp: region_def runs q'(2))
  next
    fix a ra assume "g_runs s' a = Some ra"
    then show "run_inv s' a ra"
      using d(4) [of a] r(1,2) rc(3) al nh by (auto simp: runs run_inv_def q'(2) split: if_splits)
  next
    fix a h assume "g_larges s' a = Some h"
    then show "large_inv a h" using d(5) q'(2) by simp
  qed
  show "class_lists s' {p}" unfolding class_lists_def
  proof (intro allI impI)
    fix e :: nat assume "e < 68"
    then obtain L where L: "dlist (g_runs s) (class_head s e) L" "set L = runs_of_class s e"
      using cl by (auto simp: class_lists_def)
    have pL: "p \<notin> set L" using L(2) nh(1) by (auto simp: runs_of_class_def)
    have "dlist (g_runs s') (class_head s' e) L"
      using L(1) pL unfolding q'(8) by (subst dlist_cong [of _ _ "g_runs s"]) (auto simp: runs)
    moreover have "set L = runs_of_class s' e - {p}" using L(2) nh(1) by (auto simp: runs_of_class_def runs)
    ultimately show "\<exists>L. dlist (g_runs s') (class_head s' e) L \<and> set L = runs_of_class s' e - {p}" by blast
  qed
  have "g_runs s' a = Some ra \<and> used_blk ra i \<longleftrightarrow> g_runs s a = Some ra \<and> used_blk ra i" for a ra i
    using nh(1) r(3) by (auto simp: runs)
  then show "live s' x n \<longleftrightarrow> live s x n" unfolding live_def q'(2) by blast
qed

lemma add_large_ok:
  assumes inv: "ainv s" and fp: "fresh_piece s p (unat (l_map_size h))" and h: "large_inv p h"
  defines "s' \<equiv> put_large p h s"
  shows "ainv s'" "live s' x n \<longleftrightarrow> live s x n \<or> (x = p + sizeof_LargeHdr \<and> n = unat (l_user h))"
    "\<not> live s (p + sizeof_LargeHdr) k"
proof -
  have mi: "mem_inv s" and cl: "class_lists s {}" using inv by (simp_all add: ainv_def)
  note d = mem_invD [OF mi] and nh = fresh_no_header [OF mi fp]
  have q': "g_acc s' = g_acc s" "g_res_start s' = g_res_start s"
    "g_res_end s' = g_res_end s" "g_res_bump s' = g_res_bump s" "length (g_cls s') = length (g_cls s)" "tls s' = tls s"
    "g_runs s' = g_runs s" "g_larges s' = (g_larges s)(p \<mapsto> h)" "\<And>c. class_head s' c = class_head s c"
    by (simp_all add: s'_def put_large_def class_head_def)
  have "mem_inv s'"
  proof (rule mem_inv_add [OF mi fp q'(1-6)])
    fix a m show "region s' a m \<longleftrightarrow> region s a m \<or> a = p \<and> m = unat (l_map_size h)"
      using nh by (auto simp: region_def q')
  next
    fix a ra assume a: "g_runs s' a = Some ra"
    then show "run_inv s' a ra" using d(4) [of a ra] nh(1) by (auto simp: run_inv_def q')
  next
    fix a g assume "g_larges s' a = Some g"
    then show "large_inv a g" using d(5) [of a g] h by (auto simp: q' split: if_splits)
  qed
  moreover have "class_lists s' {}" using cl q'(7,9) class_lists_cong by blast
  ultimately show "ainv s'" by (simp add: ainv_def)
  show "live s' x n \<longleftrightarrow> live s x n \<or> (x = p + sizeof_LargeHdr \<and> n = unat (l_user h))"
    using nh(2) unfolding live_def q'(7,8) by (auto split: if_splits)
  have ri: "region_inv s p (unat (l_map_size h))" using fp by (simp add: fresh_piece_def)
  then have up: "unat (p + sizeof_LargeHdr) = unat p + 24"
    using d(1) h by (auto simp: region_inv_def res_ok_def large_inv_def sizeof_LargeHdr_def intro!: unat_add_no_wrap [THEN trans])
  show "\<not> live s (p + sizeof_LargeHdr) k"
  proof
    assume "live s (p + sizeof_LargeHdr) k"
    from live_region [OF mi this] obtain a m where
      a: "region s a m" "unat (p + sizeof_LargeHdr) + k \<le> unat a + m" by blast
    then have "unat a + m \<le> unat p" using fp by (auto simp: fresh_piece_def)
    with a(2) up show False by simp
  qed
qed

end
