(* ===== verification/AllocMalloc.thy ===== *)
theory AllocMalloc
  imports AllocGrow
begin

text \<open>
  Allocation: \<open>run_new\<close>, the search for a run with room, the large path and \<open>malloc\<close> itself. Each
  either fails and leaves the live blocks alone, or adds exactly one block that was not live.
\<close>

section \<open>A fresh bitmap\<close>

lemma words_round_up:
  assumes "m mod 64 \<noteq> (0 :: nat)" shows "(m + 63) div 64 = m div 64 + 1"
proof -
  define q k where "q = m div 64" and "k = m mod 64"
  have m: "m = 64 * q + k" "k < 64" "k \<noteq> 0" using assms by (simp_all add: q_def k_def)
  then have l: "k = (k - 1) + 1" "k - 1 < 63" by simp_all
  have "m + 63 = (k - 1) + 64 * (q + 1)" using m l by simp
  then have "(m + 63) div 64 = q + 1" using l by simp
  then show ?thesis by (simp add: q_def)
qed

lemma initial_bits_ok:
  assumes e: "unat e \<le> 65536"
  shows "length (initial_bits e) = (unat e + 63) div 64"
    "i < 64 * length (initial_bits e) \<Longrightarrow> blk_free (initial_bits e) i \<longleftrightarrow> i < unat e"
proof -
  let ?n = "(unat e + 63) div 64"
  have w: "unat (bits_words e) = ?n" using unat_bits_words [OF e] .
  show l: "length (initial_bits e) = ?n" by (simp add: initial_bits_def Let_def w)
  have d: "unat (e div 64) = unat e div 64" "unat (e AND 63) = unat e mod 64"
  proof -
    show "unat (e div 64) = unat e div 64" by (simp add: unat_div)
    have "e AND 63 = take_bit 6 e" using take_bit_eq_mask [of 6 e] by (simp add: mask_eq_exp_minus_1)
    then show "unat (e AND 63) = unat e mod 64"
      using take_bit_eq_mod [of 6 "unat e"] by (simp add: unsigned_take_bit_eq)
  qed
  show "blk_free (initial_bits e) i \<longleftrightarrow> i < unat e" if i: "i < 64 * length (initial_bits e)"
  proof (cases "unat e mod 64 = 0")
    case True
    then have z: "e AND 63 = 0" using d(2) by (metis unat_eq_zero)
    have "64 * ?n = unat e" using True by (auto elim!: dvdE simp: mod_eq_0_iff_dvd)
    then have "i < unat e" using i l by simp
    moreover have "blk_free (initial_bits e) i"
      using i l w by (simp add: initial_bits_def Let_def z blk_free_def free_index)
    ultimately show ?thesis by simp
  next
    case False
    then have nz: "e AND 63 \<noteq> 0" using d(2) by force
    let ?k = "unat e mod 64" let ?j = "unat e div 64"
    have j: "?n = ?j + 1" "?j < ?n" using words_round_up [OF False] by simp_all
    have m: "push_bit ?k 1 - 1 = (mask ?k :: u64)" by (simp add: mask_eq_exp_minus_1 push_bit_eq_mult)
    have bits: "initial_bits e = (replicate ?n (- 1))[?j := mask ?k]"
      using nz j unfolding initial_bits_def Let_def w d m by simp
    have il: "i div 64 < ?n" using free_index [of i "initial_bits e"] i l by simp
    have dm: "i = 64 * (i div 64) + i mod 64" "unat e = 64 * ?j + ?k" by simp_all
    show ?thesis
    proof (cases "i div 64 = ?j")
      case True
      then have "blk_free (initial_bits e) i \<longleftrightarrow> i mod 64 < ?k"
        unfolding bits using j by (simp add: blk_free_update bit_simps)
      then show ?thesis using dm True by linarith
    next
      case False
      then have "blk_free (initial_bits e) i"
        unfolding bits using j il by (simp add: blk_free_update) (simp add: blk_free_def)
      moreover have "i div 64 < ?j" using False il j(1) by simp
      then have "i < unat e" using dm by (metis div_le_mono leD linorder_le_less_linear)
      ultimately show ?thesis by simp
    qed
  qed
qed

definition new_run :: "nat \<Rightarrow> u64 \<Rightarrow> run" where
  "new_run c t = \<lparr>r_magic = kMagicRun, r_cls = of_nat c, r_elems = run_elems c, r_used = 0,
     r_elem = ucast (kSizes ! (c - 1)), r_pad = 0, r_next = 0, r_prev = 0,
     r_last_fully_free_ms = t, r_last_touch_ms = t, r_bits = initial_bits (run_elems c)\<rparr>"

lemma new_run_ok:
  assumes c: "class_ok c"
  shows "run_static c (new_run c t)" "bm_ok (new_run c t)" "\<not> used_blk (new_run c t) i"
    "free_set (new_run c t) = {..<elems_n c}"
proof -
  have e: "unat (run_elems c) = elems_n c" "elems_n c \<le> 65536" using c unat_run_elems elems_n_bounds by auto
  have el: "unat (run_elems c) \<le> 65536" using e by simp
  note ib = initial_bits_ok [OF el]
  have len: "length (initial_bits (run_elems c)) = words_n c" using ib(1) e(1) by (simp add: words_n_def)
  show "run_static c (new_run c t)" using c len by (simp add: run_static_def new_run_def)
  have fr: "blk_free (initial_bits (run_elems c)) i" if "i < elems_n c" for i
    using ib(2) [of i] that e(1) len words_n_bounds(3) [of c] by simp
  show fs: "free_set (new_run c t) = {..<elems_n c}" using e fr by (auto simp: free_set_def new_run_def)
  show "\<not> used_blk (new_run c t) i" using fs e by (auto simp: used_blk_def new_run_def)
  show "bm_ok (new_run c t)"
    using e fs ib len unfolding bm_ok_def by (simp add: new_run_def words_n_def)
qed

section \<open>Finding a run with room\<close>

lemma find_run_dseg:
  assumes "dseg (g_runs s) p h L q 0"
  shows "\<exists>a. find_run s h = Some a \<and>
    (a = 0 \<and> (\<forall>b\<in>set L. \<exists>r. g_runs s b = Some r \<and> r_used r = r_elems r) \<or>
     a \<in> set L \<and> (\<exists>r. g_runs s a = Some r \<and> r_used r \<noteq> r_elems r))"
  using assms
proof (induction L arbitrary: p h)
  case Nil
  then show ?case by (subst find_run.simps) simp
next
  case (Cons b L)
  then obtain r where r: "g_runs s b = Some r" "h = b" "b \<noteq> 0" "dseg (g_runs s) b (r_next r) L q 0" by auto
  show ?case
  proof (cases "r_used r = r_elems r")
    case True
    then have "find_run s h = find_run s (r_next r)" using r by (subst find_run.simps) simp
    with Cons.IH [OF r(4)] True r(1) show ?thesis by auto
  next
    case False
    then have "find_run s h = Some b" using r by (subst find_run.simps) simp
    with False r(1) show ?thesis by auto
  qed
qed

lemma find_run_ok:
  assumes "ainv s" "c < 68"
  shows "\<exists>a. find_run s (class_head s c) = Some a \<and>
    (a = 0 \<or> (\<exists>r. g_runs s a = Some r \<and> unat (r_cls r) = c + 1 \<and> free_set r \<noteq> {} \<and> a \<noteq> 0))"
proof -
  have mi: "mem_inv s" using assms(1) by (simp add: ainv_def)
  obtain L where L: "dlist (g_runs s) (class_head s c) L" "set L = runs_of_class s c"
    using assms by (auto simp: ainv_def class_lists_def)
  then obtain q where seg: "dseg (g_runs s) 0 (class_head s c) L q 0" by (auto simp: dlist_def)
  from find_run_dseg [OF this] obtain a where a: "find_run s (class_head s c) = Some a"
    "a = 0 \<or> a \<in> set L \<and> (\<exists>r. g_runs s a = Some r \<and> r_used r \<noteq> r_elems r)" by blast
  show ?thesis
  proof (cases "a = 0")
    case True
    with a(1) show ?thesis by blast
  next
    case False
    with a(2) obtain r where r: "g_runs s a = Some r" "r_used r \<noteq> r_elems r" "a \<in> runs_of_class s c"
      using L(2) by auto
    have "bm_ok r" using run_facts(3) [OF mi r(1)] .
    then have "free_set r \<noteq> {}" using r(2) by (auto simp: bm_ok_def word_unat_eq_iff)
    moreover have "unat (r_cls r) = c + 1" using r(1,3) by (auto simp: runs_of_class_def)
    ultimately show ?thesis using a(1) r(1) False by blast
  qed
qed

section \<open>Creating a run\<close>

lemma two_pow_21: "(2 ^ 21 :: u64) = kRunSize" by (simp add: kRunSize_eq)

lemma two_pow_12: "(2 ^ 12 :: u64) = 4096" by simp

lemma reserve_start_nz: "ainv s \<Longrightarrow> g_res_start s \<noteq> 0"
  by (simp add: ainv_def mem_inv_def res_ok_def)

lemma fresh_piece_mapped:
  assumes "ainv s" "no_wrap s sz (2 ^ k)" "k < 64" "24 \<le> unat sz"
    and "reserve_map os sz (2 ^ k) s = (p, s1)" "p \<noteq> 0"
  shows "fresh_piece s1 p (unat sz)"
proof -
  have "sz \<noteq> 0" using assms(4) by auto
  from reserve_map_ok [OF assms(1-3) this assms(5)] assms(4,6) show ?thesis
    by (simp add: fresh_piece_def region_inv_def)
qed

lemma run_new_ok:
  assumes inv: "ainv s" and c: "class_ok c" and nw: "no_wrap s (run_msize c) kRunSize"
  shows "\<exists>a s'. run_new os c s = Some (a, s') \<and> ainv s' \<and> (\<forall>x n. live s' x n \<longleftrightarrow> live s x n) \<and>
    contents_kept s s' \<and> runs_kept s s' \<and> g_ready s' = g_ready s \<and> tkey_ok s' = tkey_ok s \<and>
    unat (g_res_bump s') = unat (g_res_bump s) + map_n c + 2 ^ 21 \<and>
    (a \<noteq> 0 \<longrightarrow> (\<exists>r. g_runs s' a = Some r \<and> unat (r_cls r) = c \<and> free_set r \<noteq> {}))"
proof -
  obtain a s1 where rm: "reserve_map os (run_msize c) (2 ^ 21) s = (a, s1)" by fastforce
  have nw': "no_wrap s (run_msize c) (2 ^ 21)" using nw unfolding two_pow_21 .
  have msz: "unat (run_msize c) = map_n c" "4096 \<le> map_n c" using c unat_run_msize map_n_bounds(5) by auto
  have nz: "run_msize c \<noteq> 0" using msz by auto
  note m = reserve_map_ok [OF inv nw' _ nz rm, simplified]
  have unf: "run_new os c s = (if a = 0 then Some (0, s1) else if \<not> g_acc s1 a then None
     else let (t, s2) = now_ms os s1; s3 = put_run a (new_run c t) s2;
          s4 = s3\<lparr>g_mapped := g_mapped s3 + run_msize c\<rparr>
       in do { s5 \<leftarrow> run_insert (c - 1) a s4; Some (a, s5) })"
    using rm reserve_start_nz [OF inv]
    unfolding run_new_def Let_def run_msize_def [symmetric] two_pow_21 new_run_def [symmetric] by simp
  show ?thesis
  proof (cases "a = 0")
    case True
    then show ?thesis using unf m(1-3,6-8) runs_kept_same [OF m(4)] msz by auto
  next
    case False
    have acc: "g_acc s1 a" using m(13) [OF False, of 0] msz by simp
    obtain t s2 where n: "now_ms os s1 = (t, s2)" by fastforce
    let ?s4 = "(put_run a (new_run c t) s2)\<lparr>g_mapped := g_mapped (put_run a (new_run c t) s2) + run_msize c\<rparr>"
    note nq = now_ms_quiet [OF n]
    have q: "quiet s1 ?s4" using nq(1) by (simp add: quiet_def) (simp add: put_run_def class_head_def)
    have runs: "g_runs ?s4 = (g_runs s1)(a \<mapsto> new_run c t)" using nq(2) by (simp add: put_run_def)
    have fp: "fresh_piece s1 a (map_n c)"
      using fresh_piece_mapped [OF inv nw' _ _ rm False] msz by simp
    have al: "aligned_run a" using m(9) [OF False] by (simp add: aligned_run_def)
    note nr = new_run_ok [OF c, of t]
    note ar = add_run_ok [OF m(1) fp al nr(1-3) runs q]
    have cls: "unat (r_cls (new_run c t)) = c - 1 + 1" "c - 1 < 68" using run_staticD(3) [OF nr(1)] c by auto
    have gr: "g_runs ?s4 a = Some (new_run c t)" using runs by simp
    from insert_ok [OF ar(1,2) gr cls] obtain s' where s': "run_insert (c - 1) a ?s4 = Some s'"
      "mem_inv s'" "class_lists s' {}" "list_step (c - 1) UNIV ?s4 s'" by blast
    note lf = list_step_fields [OF s'(4)]
    have run: "run_new os c s = Some (a, s')" using unf False acc n s'(1) by (simp add: Let_def)
    have "\<exists>r. g_runs s' a = Some r \<and> core r = core (new_run c t)"
      using lf(9) gr unfolding same_core_def by (metis map_option_eq_Some)
    then obtain r where r: "g_runs s' a = Some r" "core r = core (new_run c t)" by blast
    have fs: "free_set r = {..<elems_n c}" "unat (r_cls r) = c"
      using r(2) nr(4) core_run_static(3) [OF r(2)] core_fields(2) [OF r(2)] cls c by simp_all
    have lv: "live s' x n \<longleftrightarrow> live s x n" for x n
      using live_same_core [OF lf(9,1)] ar(3) m(2) by simp
    have ck: "contents_kept s s'"
    proof (rule contents_kept_trans [OF m(3)])
      show "live s1 p n" if "live s p n" for p n using m(2) that by simp
      show "contents_kept s1 s'" using lf(3) q by (intro contents_keptI) (simp add: quiet_def)
    qed
    have "runs_kept s1 ?s4"
      using runs fresh_no_header(1) [OF _ fp] m(1) by (auto simp: runs_kept_def ainv_def)
    then have rk: "runs_kept s s'"
      using runs_kept_trans [OF runs_kept_same [OF m(4)]] runs_kept_trans runs_kept_core [OF lf(9)] by blast
    have "g_ready s' = g_ready s" "tkey_ok s' = tkey_ok s" "g_res_bump s' = g_res_bump s1"
      using lf(6,12,15) q m(6,8) by (simp_all add: quiet_def)
    moreover have "free_set r \<noteq> {}" using fs(1) elems_n_bounds(1) [OF c] by (auto simp: lessThan_empty_iff)
    ultimately show ?thesis
      using run s'(2,3) lv ck rk m(7) msz(1) r(1) fs(2)
      by (intro exI [of _ a] exI [of _ s']) (simp add: ainv_def)
  qed
qed

section \<open>The locked path for small requests\<close>

text \<open>What an allocation of \<open>n\<close> bytes promises: on failure no block appears or disappears, on
  success exactly one appears, of at least \<open>n\<close> bytes and at an address where no block was live.\<close>

definition alloc_result :: "alloc \<Rightarrow> nat \<Rightarrow> u64 \<Rightarrow> alloc \<Rightarrow> bool" where
  "alloc_result s n p s' \<longleftrightarrow> ainv s' \<and> contents_kept s s' \<and> runs_kept s s' \<and> g_ready s' = g_ready s \<and> tkey_ok s' = tkey_ok s \<and>
     (if p = 0 then \<forall>x k. live s' x k \<longleftrightarrow> live s x k
      else \<exists>m\<ge>n. (\<forall>x k. live s' x k \<longleftrightarrow> live s x k \<or> x = p \<and> k = m) \<and> (\<forall>k. \<not> live s p k))"

lemma blk_addr_nz:
  assumes "ainv s" "g_runs s a = Some r" "i < elems_n (unat (r_cls r))"
  shows "blk_addr (unat (r_cls r)) a i \<noteq> 0"
proof -
  have mi: "mem_inv s" using assms(1) by (simp add: ainv_def)
  note f = run_facts [OF mi assms(2)]
  from unat_blk_addr [OF f(1) assms(3) f(5)] doff_n_bounds(1) [of "unat (r_cls r)"]
  show ?thesis by (metis add_is_0 le_zero_eq unat_0 zero_neq_numeral)
qed

lemma run_take_result:
  assumes inv: "ainv s" and r: "g_runs s a = Some r" "unat (r_cls r) = c" "free_set r \<noteq> {}"
  shows "\<exists>p s'. run_take os a s = Some (p, s') \<and> p \<noteq> 0 \<and> alloc_result s (elem_n c) p s' \<and> g_res_bump s' = g_res_bump s \<and>
    (\<forall>x k. live s' x k \<longleftrightarrow> live s x k \<or> x = p \<and> k = elem_n c)"
proof -
  from run_take_ok [OF inv r(1,3)] obtain i r' s' where t:
    "run_take os a s = Some (blk_addr (unat (r_cls r)) a i, s')" "i \<in> free_set r"
    "g_runs s' = (g_runs s)(a \<mapsto> r')" "r_cls r' = r_cls r" "r_elems r' = r_elems r"
    "free_set r' = free_set r - {i}" "quiet s s'" "ainv s'" by blast
  have q: "g_larges s' = g_larges s" "g_bytes s' = g_bytes s" "g_ready s' = g_ready s" "tkey_ok s' = tkey_ok s"
    "g_res_bump s' = g_res_bump s" using t(7) by (simp_all add: quiet_def)
  note lt = live_take [OF inv r(1) q(1) t(3-5) t(2) t(6)]
  have "i < elems_n (unat (r_cls r))"
    using t(2) ainv_runs [OF inv r(1)] run_staticD(4) [of "unat (r_cls r)" r] by (simp add: free_set_def)
  then have nz: "blk_addr (unat (r_cls r)) a i \<noteq> 0" by (rule blk_addr_nz [OF inv r(1)])
  have "alloc_result s (elem_n c) (blk_addr (unat (r_cls r)) a i) s'"
  proof -
    have "runs_kept s s'" using t(3-6) r(1) by (auto simp: runs_kept_def)
    then show ?thesis unfolding alloc_result_def using t(8) q nz lt r(2) by (auto intro!: contents_keptI)
  qed
  then show ?thesis using t(1) nz q(5) lt(1) r(2)
    by (intro exI [of _ "blk_addr (unat (r_cls r)) a i"] exI [of _ s']) simp
qed

lemma malloc_run_ok:
  assumes inv: "ainv s" and c: "c < 68" and nw: "unat (g_res_bump s) + 2 ^ 23 < 2 ^ 64"
  shows "\<exists>p s'. malloc_run os c s = Some (p, s') \<and> alloc_result s (elem_n (c + 1)) p s' \<and>
    unat (g_res_bump s') \<le> unat (g_res_bump s) + 2 ^ 23"
proof -
  from find_run_ok [OF inv c] obtain a where a: "find_run s (class_head s c) = Some a"
    "a = 0 \<or> (\<exists>r. g_runs s a = Some r \<and> unat (r_cls r) = c + 1 \<and> free_set r \<noteq> {} \<and> a \<noteq> 0)" by blast
  show ?thesis
  proof (cases "a = 0")
    case False
    with a(2) obtain r where r: "g_runs s a = Some r" "unat (r_cls r) = c + 1" "free_set r \<noteq> {}" by blast
    from run_take_result [OF inv r, of os] obtain p s' where
      t: "run_take os a s = Some (p, s')" "alloc_result s (elem_n (c + 1)) p s'" "g_res_bump s' = g_res_bump s" by blast
    then show ?thesis using a(1) False by (simp add: malloc_run_def)
  next
    case True
    have co: "class_ok (c + 1)" using c by simp
    have "no_wrap s (run_msize (c + 1)) kRunSize"
      using nw unat_run_msize [OF co] map_n_bounds(3) [OF co] by (simp add: no_wrap_def kRunSize_eq)
    from run_new_ok [OF inv co this, of os] obtain b s1 where n: "run_new os (c + 1) s = Some (b, s1)" "ainv s1"
      "\<forall>x n. live s1 x n \<longleftrightarrow> live s x n" "contents_kept s s1" "g_ready s1 = g_ready s" "tkey_ok s1 = tkey_ok s"
      "unat (g_res_bump s1) = unat (g_res_bump s) + map_n (c + 1) + 2 ^ 21" "runs_kept s s1"
      "b \<noteq> 0 \<longrightarrow> (\<exists>r. g_runs s1 b = Some r \<and> unat (r_cls r) = c + 1 \<and> free_set r \<noteq> {})" by blast
    have bump: "unat (g_res_bump s1) \<le> unat (g_res_bump s) + 2 ^ 23"
      using n(7) map_n_bounds(3) [OF co] by simp
    show ?thesis
    proof (cases "b = 0")
      case True
      then have "malloc_run os c s = Some (0, s1)" using a(1) \<open>a = 0\<close> n(1) by (simp add: malloc_run_def)
      then show ?thesis using n bump by (auto simp: alloc_result_def)
    next
      case False
      with n(9) obtain r where r: "g_runs s1 b = Some r" "unat (r_cls r) = c + 1" "free_set r \<noteq> {}" by blast
      from run_take_result [OF n(2) r, of os] obtain p s' where
        t: "run_take os b s1 = Some (p, s')" "alloc_result s1 (elem_n (c + 1)) p s'" "g_res_bump s' = g_res_bump s1" by blast
      then have "malloc_run os c s = Some (p, s')" using a(1) \<open>a = 0\<close> n(1) False by (simp add: malloc_run_def)
      moreover have "alloc_result s (elem_n (c + 1)) p s'"
      proof -
        have l: "live s1 = live s" using n(3) by (intro ext) simp
        then show ?thesis
          using t(2) n(5,6) contents_kept_trans [OF n(4), of s'] runs_kept_trans [OF n(8), of s'] unfolding alloc_result_def by (cases "p = 0") simp_all
      qed
      ultimately show ?thesis using t(3) bump by auto
    qed
  qed
qed

section \<open>The large path\<close>

definition large_msize :: "u64 \<Rightarrow> u64" where
  "large_msize n = (sizeof_LargeHdr + n + 4095) AND NOT 4095"

lemma unat_large_msize:
  assumes "unat n + 4119 < 2 ^ 64"
  shows "unat (large_msize n) = (unat n + 4119) div 4096 * 4096" "24 + unat n \<le> unat (large_msize n)"
    "unat (large_msize n) \<le> unat n + 4119" "4096 dvd unat (large_msize n)"
proof -
  have "unat (n + 4119) = unat n + 4119" using assms by (subst unat_add_no_wrap) simp_all
  moreover have "sizeof_LargeHdr + n + 4095 = n + 4119" by (simp add: sizeof_LargeHdr_def)
  ultimately have "unat (sizeof_LargeHdr + n + 4095) = unat n + 4119" by metis
  then show e: "unat (large_msize n) = (unat n + 4119) div 4096 * 4096"
    unfolding large_msize_def unat_page_floor by (simp only:)
  show "24 + unat n \<le> unat (large_msize n)" "unat (large_msize n) \<le> unat n + 4119" "4096 dvd unat (large_msize n)"
    unfolding e by simp_all
qed

lemma malloc_large_ok:
  assumes inv: "ainv s" and nw: "unat (g_res_bump s) + unat n + 2 ^ 23 < 2 ^ 64"
  shows "\<exists>p s'. malloc_large os n s = Some (p, s') \<and> alloc_result s (unat n) p s' \<and>
    unat (g_res_bump s') \<le> unat (g_res_bump s) + unat n + 2 ^ 23"
proof -
  have nb: "unat n + 4119 < 2 ^ 64" using nw by simp
  note ms = unat_large_msize [OF nb]
  obtain a s1 where rm: "reserve_map os (large_msize n) (2 ^ 12) s = (a, s1)" by fastforce
  have nw': "no_wrap s (large_msize n) (2 ^ 12)" using nw ms by (simp add: no_wrap_def)
  have nz: "large_msize n \<noteq> 0" using ms(2) by auto
  note m = reserve_map_ok [OF inv nw' _ nz rm, simplified]
  have unf: "malloc_large os n s = (if a = 0 then Some (0, s1) else if \<not> g_acc s1 a then None
     else let s2 = put_large a \<lparr>l_magic = kMagicLarge, l_pad = 0, l_map_size = large_msize n, l_user = n\<rparr> s1;
              s3 = s2\<lparr>g_mapped := g_mapped s2 + large_msize n\<rparr>
          in Some (a + sizeof_LargeHdr, s3))"
    using rm reserve_start_nz [OF inv]
    unfolding malloc_large_def Let_def large_msize_def [symmetric] two_pow_12 by simp
  have bump: "unat (g_res_bump s1) \<le> unat (g_res_bump s) + unat n + 2 ^ 23" using m(7) ms(3) by simp
  have l1: "live s1 = live s" using m(2) by (intro ext) simp
  show ?thesis
  proof (cases "a = 0")
    case True
    then have "alloc_result s (unat n) 0 s1" using m(1,3,6,8) runs_kept_same [OF m(4)] l1 by (simp add: alloc_result_def)
    then show ?thesis using unf True bump by auto
  next
    case False
    let ?h = "\<lparr>l_magic = kMagicLarge, l_pad = 0, l_map_size = large_msize n, l_user = n\<rparr>"
    let ?s2 = "put_large a ?h s1" let ?s' = "?s2\<lparr>g_mapped := g_mapped ?s2 + large_msize n\<rparr>"
    have acc: "g_acc s1 a" using m(13) [OF False, of 0] nz by (simp add: unat_gt_0)
    have fp: "fresh_piece s1 a (unat (l_map_size ?h))"
      using fresh_piece_mapped [OF inv nw' _ _ rm False] ms(2) by simp
    have li: "large_inv a ?h" using m(9) [OF False] ms by (simp add: large_inv_def)
    note ar = add_large_ok [OF m(1) fp li]
    have s': "ainv ?s'" "live ?s' = live ?s2"
    proof -
      have "mem_inv ?s'" using ar(1) by (subst mem_inv_cong [of _ ?s2]) (simp_all add: ainv_def)
      moreover have "class_lists ?s' {}" using ar(1) by (subst class_lists_cong [of _ ?s2]) (simp_all add: ainv_def class_head_def)
      ultimately show "ainv ?s'" by (simp add: ainv_def)
      show "live ?s' = live ?s2" by (intro ext live_cong) simp_all
    qed
    have up: "a + sizeof_LargeHdr \<noteq> 0"
    proof -
      have "g_larges ?s2 a = Some ?h" "mem_inv ?s2" using ar(1) by (simp_all add: put_large_def ainv_def)
      from large_ptr(1) [OF this(2,1)] show ?thesis by auto
    qed
    have run: "malloc_large os n s = Some (a + sizeof_LargeHdr, ?s')" using unf False acc by (simp add: Let_def)
    have keep: "contents_kept s ?s'" using m(3) by (simp add: contents_kept_def put_large_def)
    have rk: "runs_kept s ?s'" using m(4) by (intro runs_kept_same) (simp add: put_large_def)
    have fields: "g_ready ?s' = g_ready s" "tkey_ok ?s' = tkey_ok s" "g_res_bump ?s' = g_res_bump s1"
      using m(6,8) by (simp_all add: put_large_def)
    have "alloc_result s (unat n) (a + sizeof_LargeHdr) ?s'"
      unfolding alloc_result_def using s' keep rk fields(1,2) up ar(2,3) l1
      by (auto intro!: exI [of _ "unat n"])
    then show ?thesis
      by (intro exI [of _ "a + sizeof_LargeHdr"] exI [of _ ?s'] conjI run) (simp_all only: fields bump)
  qed
qed

section \<open>malloc\<close>

lemma ainv_tc_None: "ainv s \<Longrightarrow> tc_current tid s = None"
  by (simp add: ainv_def mem_inv_def tc_current_def)

lemma malloc_ready_ok:
  assumes inv: "ainv s" and nw: "unat (g_res_bump s) + unat n + 2 ^ 23 < 2 ^ 64"
  shows "\<exists>p s'. malloc_ready os tid n s = Some (p, s') \<and> alloc_result s (unat n) p s' \<and>
    unat (g_res_bump s') \<le> unat (g_res_bump s) + unat n + 2 ^ 23"
proof (cases "kLargeMin \<le> n")
  case True
  then show ?thesis using malloc_large_ok [OF inv nw, of os] by (simp add: malloc_ready_def)
next
  case False
  then have lt: "n < kLargeMin" by simp
  note c = class_of_small [OF lt]
  have c68: "class_of n - 1 < 68" using c by simp
  have "unat (g_res_bump s) + 2 ^ 23 < 2 ^ 64" using nw by simp
  from malloc_run_ok [OF inv c68 this, of os] obtain p s' where r: "malloc_run os (class_of n - 1) s = Some (p, s')"
    "alloc_result s (elem_n (class_of n)) p s'" "unat (g_res_bump s') \<le> unat (g_res_bump s) + 2 ^ 23" using c(1) by auto
  have "unat n \<le> elem_n (class_of n)" using c(3) by (simp add: elem_n_def word_le_nat_alt)
  then have "alloc_result s (unat n) p s'"
    using r(2) unfolding alloc_result_def by (cases "p = 0") (auto intro: order_trans)
  moreover have "malloc_ready os tid n s = Some (p, s')"
    using False r(1) ainv_tc_None [OF inv] by (simp add: malloc_ready_def)
  ultimately show ?thesis using r(3) by auto
qed

text \<open>The request sizes for which the bump pointer does not wrap around.\<close>

definition roomy :: "alloc \<Rightarrow> nat \<Rightarrow> bool" where
  "roomy s n \<longleftrightarrow> unat (g_res_bump s) + n + 2 ^ 24 < 2 ^ 64"

lemma malloc_ok:
  assumes inv: "ainv s" and rd: "g_ready s" and nw: "roomy s (unat n)"
  shows "\<exists>p s'. malloc os tid n s = Some (p, s') \<and> alloc_result s (max 1 (unat n)) p s' \<and>
    unat (g_res_bump s') \<le> unat (g_res_bump s) + unat n + 2 ^ 24"
proof -
  define n' where "n' = (if n = 0 then 1 else n)"
  have u: "unat n' = max 1 (unat n)" using unat_gt_0 [of n] by (auto simp: n'_def)
  have "unat (g_res_bump s) + unat n' + 2 ^ 23 < 2 ^ 64" using nw by (simp add: u roomy_def)
  from malloc_ready_ok [OF inv this, of os tid] rd show ?thesis
    unfolding malloc_def n'_def [symmetric] Let_def u by auto
qed

lemma malloc_small:
  assumes "ainv s" "g_ready s" "n \<noteq> 0" "n < kLargeMin"
  shows "malloc os tid n s = malloc_run os (class_of n - 1) s"
proof -
  have "\<not> kLargeMin \<le> n" using assms(4) by simp
  then show ?thesis using assms(2,3) ainv_tc_None [OF assms(1)] by (simp add: malloc_def malloc_ready_def)
qed

end
