(* ===== verification/AllocFree.thy ===== *)
theory AllocFree
  imports AllocMalloc
begin

text \<open>
  \<open>free\<close>: what happens to a live block that is handed back. A block whose address leads back to its
  run header is returned to the bitmap; a block that starts beyond the first 2 MiB of its run is
  not recognised and stays live; a large block is unmapped and its header is then read once more.
\<close>

section \<open>Recognising blocks\<close>

lemma kMagic_neq: "kMagicRun \<noteq> kMagicLarge"
  by (simp add: kMagicRun_def kMagicLarge_def)

lemma run_acc: "mem_inv s \<Longrightarrow> g_runs s a = Some r \<Longrightarrow> i < 4096 \<Longrightarrow> g_acc s (a + of_nat i)"
  using run_facts(1) [of s a r] run_facts(8) [of s a r i] map_n_bounds(5) [of "unat (r_cls r)"] by linarith

lemma read_magic_run:
  assumes "mem_inv s" "g_runs s a = Some r"
  shows "read_magic s a = Some kMagicRun"
  using run_acc [OF assms, of 0] run_acc [OF assms, of 3] assms(2) run_facts(2) [OF assms]
  by (simp add: read_magic_def run_static_def)

lemma large_acc:
  "mem_inv s \<Longrightarrow> g_larges s a = Some h \<Longrightarrow> i < unat (l_map_size h) \<Longrightarrow> g_acc s (a + of_nat i)"
  using mem_invD(6) [OF _ region_large] by (simp add: region_inv_def)

lemma large_size:
  assumes "mem_inv s" "g_larges s a = Some h"
  shows "4096 \<le> unat (l_map_size h)" "24 + unat (l_user h) \<le> unat (l_map_size h)" "l_magic h = kMagicLarge"
    "4096 dvd unat a" "4096 dvd unat (l_map_size h)" "g_runs s a = None"
proof -
  have li: "large_inv a h" using mem_invD(5) [OF assms] .
  then show "24 + unat (l_user h) \<le> unat (l_map_size h)" "l_magic h = kMagicLarge" "4096 dvd unat a"
    "4096 dvd unat (l_map_size h)" by (simp_all add: large_inv_def)
  then show "4096 \<le> unat (l_map_size h)" by (auto elim!: dvdE)
  show "g_runs s a = None"
    using mem_invD(4) [OF assms(1), of a] assms(2) by (cases "g_runs s a") (auto simp: run_inv_def)
qed

lemma read_magic_large:
  assumes "mem_inv s" "g_larges s a = Some h"
  shows "read_magic s a = Some kMagicLarge" "read_large s a = Some h"
  using large_acc [OF assms, of 0] large_acc [OF assms, of 3] large_acc [OF assms, of 23] large_size [OF assms] assms(2)
  by (simp_all add: read_magic_def read_large_def)

text \<open>Blocks of a run lie in the reserve.\<close>

lemma region_in_reserve:
  assumes "mem_inv s" "region s a n" "unat a \<le> unat p" "unat p < unat a + n"
  shows "in_reserve s p"
  using mem_invD(6) [OF assms(1,2)] assms(3,4)
  by (auto simp: region_inv_def in_reserve_def word_le_nat_alt word_less_nat_alt)

lemma blk_in_reserve:
  assumes "mem_inv s" "g_runs s a = Some r" "i < elems_n (unat (r_cls r))"
  shows "in_reserve s (blk_addr (unat (r_cls r)) a i)"
proof -
  note f = run_facts [OF assms(1,2)]
  show ?thesis
    using region_in_reserve [OF assms(1) region_run [OF assms(2)]] unat_blk_addr [OF f(1) assms(3) f(5)]
      blk_end_bound [OF f(1) assms(3)] elem_n_bounds(1) [OF f(1)] by simp
qed

lemma unat_run_len:
  assumes "run_static c r"
  shows "unat (ucast (r_elems r) * ucast (r_elem r) :: u64) = elems_n c * elem_n c"
  using run_staticD [OF assms] elems_n_bounds [of c] elem_n_bounds [of c]
  by (subst unat_mult_no_wrap) (simp_all add: unat_ucast_small)

lemma ours_small_reachable:
  assumes inv: "mem_inv s" and r: "g_runs s a = Some r" and i: "i < elems_n (unat (r_cls r))"
    and reach: "reachable_blk (unat (r_cls r)) i"
  shows "run_of (blk_addr (unat (r_cls r)) a i) = a" "ours_small s (blk_addr (unat (r_cls r)) a i) = Some True"
proof -
  note f = run_facts [OF inv r] and d = run_staticD [OF run_facts(2) [OF inv r]]
  let ?c = "unat (r_cls r)" let ?p = "blk_addr ?c a i"
  show ro: "run_of ?p = a" using run_of_blk [OF f(1) i f(5,4)] reach by simp
  note b = blk_sub_data [OF f(2) i f(5)]
  have e: "unat (ucast (r_elem r) :: u64) = elem_n ?c"
    using d(5) elem_n_bounds(2) [OF f(1)] by (simp add: unat_ucast_small)
  have "r_cls r \<noteq> 0" "unat (r_cls r) \<le> kNumClasses" using f(1) by auto
  moreover have "i * elem_n ?c < elems_n ?c * elem_n ?c" using i elem_n_bounds(1) [OF f(1)] by simp
  then have "?p - run_data r a < ucast (r_elems r) * ucast (r_elem r)"
    unfolding word_less_nat_alt b(1) unat_run_len [OF f(2)] .
  moreover have "(?p - run_data r a) mod ucast (r_elem r) = 0"
    by (simp add: word_unat_eq_iff unat_mod b(1) e)
  ultimately show "ours_small s ?p = Some True"
    using b(2) read_magic_run [OF inv r] r unfolding ours_small_def ro Let_def
    by (simp add: run_view_def not_less [symmetric])
qed

section \<open>Freeing a small block\<close>

lemma free_small_ok:
  assumes inv: "ainv s" and r: "g_runs s a = Some r" and u: "used_blk r i"
    and reach: "reachable_blk (unat (r_cls r)) i"
  defines "p \<equiv> blk_addr (unat (r_cls r)) a i"
  shows "\<exists>s'. free os tid p s = Some s' \<and> ainv s' \<and> (\<forall>x k. live s' x k \<longleftrightarrow> live s x k \<and> x \<noteq> p) \<and>
    g_bytes s' = g_bytes s \<and> g_acc s' = g_acc s \<and> g_res_bump s' = g_res_bump s \<and> g_ready s' = g_ready s"
proof -
  have mi: "mem_inv s" using inv by (simp add: ainv_def)
  have i: "i < elems_n (unat (r_cls r))" using used_blk_lt u ainv_runs [OF inv r] by blast
  note os = ours_small_reachable [OF mi r i reach, folded p_def]
  have nz: "p \<noteq> 0" unfolding p_def by (rule blk_addr_nz [OF inv r i])
  have ir: "in_reserve s p" unfolding p_def by (rule blk_in_reserve [OF mi r i])
  from run_give_ok [OF inv r u, of os, folded p_def] obtain r' s' where g:
    "run_give os a p s = Some s'" "g_runs s' = (g_runs s)(a \<mapsto> r')" "r_cls r' = r_cls r" "r_elems r' = r_elems r"
    "free_set r' = insert i (free_set r)" "quiet s s'" "ainv s'" by blast
  have q: "g_larges s' = g_larges s" "g_bytes s' = g_bytes s" "g_acc s' = g_acc s" "g_res_bump s' = g_res_bump s"
    "g_ready s' = g_ready s" using g(6) by (simp_all add: quiet_def)
  have "free os tid p s = Some s'"
    using nz ir os g(1) ainv_tc_None [OF inv] by (simp add: free_def free_small_def Let_def)
  then show ?thesis
    using live_give [OF inv r q(1) g(2-4) u g(5), folded p_def] g(7) q by blast
qed

section \<open>Blocks that are not recognised\<close>

text \<open>The bytes at an address spell a magic number where no header is stored: the program wrote
  them. \<open>unforged s p\<close> excludes this at the two places \<open>free\<close> looks at.\<close>

definition unforged :: "alloc \<Rightarrow> u64 \<Rightarrow> bool" where
  "unforged s p \<longleftrightarrow>
     (g_runs s (run_of p) = None \<and> g_larges s (run_of p) = None \<longrightarrow> u32_at (g_bytes s) (run_of p) \<noteq> kMagicRun) \<and>
     (g_runs s (p - sizeof_LargeHdr) = None \<and> g_larges s (p - sizeof_LargeHdr) = None \<longrightarrow>
        u32_at (g_bytes s) (p - sizeof_LargeHdr) \<noteq> kMagicLarge)"

text \<open>The start of a region is not inside another region.\<close>

lemma header_not_inside:
  assumes "mem_inv s" "region s a n" "unat a < unat x" "unat x < unat a + n"
  shows "g_runs s x = None" "g_larges s x = None"
proof -
  have no: "\<not> region s x m" for m
  proof
    assume m: "region s x m"
    have "a \<noteq> x" using assms(3) by auto
    from mem_invD(7) [OF assms(1,2) m this] region_pos [OF assms(1) m] assms(3,4)
    show False by (auto simp: apart_def)
  qed
  show "g_runs s x = None" "g_larges s x = None"
    using no header_region [of s x] by (cases "g_runs s x"; cases "g_larges s x"; blast)+
qed

lemma region_acc:
  assumes "mem_inv s" "region s a n" "unat a \<le> unat x" "unat x < unat a + n"
  shows "g_acc s x"
proof -
  have "a \<le> x" using assms(3) by (simp add: word_le_nat_alt)
  then have "unat (x - a) < n" using assms(3,4) by (simp add: unat_sub)
  moreover have "x = a + of_nat (unat (x - a))" by simp
  ultimately show ?thesis using mem_invD(6) [OF assms(1,2)] unfolding region_inv_def by metis
qed

lemma free_unreachable:
  assumes inv: "ainv s" and r: "g_runs s a = Some r" and u: "used_blk r i"
    and far: "\<not> reachable_blk (unat (r_cls r)) i"
  defines "p \<equiv> blk_addr (unat (r_cls r)) a i"
  assumes uf: "unforged s p"
  shows "free os tid p s = Some s"
proof -
  have mi: "mem_inv s" using inv by (simp add: ainv_def)
  note f = run_facts [OF mi r]
  let ?c = "unat (r_cls r)"
  have i: "i < elems_n ?c" using used_blk_lt u f(2) by blast
  have up: "unat p = unat a + doff_n ?c + i * elem_n ?c" unfolding p_def by (rule unat_blk_addr [OF f(1) i f(5)])
  have pe: "unat p + 8 \<le> unat a + map_n ?c"
    using up blk_end_bound [OF f(1) i] elem_n_bounds(1) [OF f(1)] by simp
  have pg: "unat a + 2097152 \<le> unat p" using far up by (simp add: reachable_blk_def)
  obtain q where q: "unat a = 2097152 * q" using f(4) by (auto simp: aligned_run_def)
  have ro: "unat (run_of p) = unat p div 2097152 * 2097152" by (rule run_of_unat)
  have "unat a + 2097152 \<le> unat (run_of p)" "unat (run_of p) \<le> unat p"
  proof -
    have "q + 1 \<le> unat p div 2097152" using pg q by (simp add: less_eq_div_iff_mult_less_eq algebra_simps)
    then show "unat a + 2097152 \<le> unat (run_of p)" unfolding ro q by simp
    show "unat (run_of p) \<le> unat p" unfolding ro by simp
  qed
  note rb = this
  note hr = header_not_inside [OF mi region_run [OF r]]
  have h1: "g_runs s (run_of p) = None" "g_larges s (run_of p) = None" using hr [of "run_of p"] rb pe by auto
  have u24: "unat (p - sizeof_LargeHdr) = unat p - 24"
    using pg by (subst unat_sub) (simp_all add: sizeof_LargeHdr_def word_le_nat_alt)
  have h2: "g_runs s (p - sizeof_LargeHdr) = None" "g_larges s (p - sizeof_LargeHdr) = None"
    using hr [of "p - sizeof_LargeHdr"] u24 pg pe by auto
  note ac = region_acc [OF mi region_run [OF r]]
  have u3: "unat (x + 3) = unat x + 3" if "unat x \<le> unat p" for x :: u64
    using that pe f(7) mem_invD(1) [OF mi] by (subst unat_add_no_wrap) (auto simp: res_ok_def)
  have a1: "g_acc s (run_of p)" "g_acc s (run_of p + 3)"
    using ac [of "run_of p"] ac [of "run_of p + 3"] u3 [of "run_of p"] rb pe by auto
  have a2: "g_acc s (p - sizeof_LargeHdr)" "g_acc s (p - sizeof_LargeHdr + 3)"
    using ac [of "p - sizeof_LargeHdr"] ac [of "p - sizeof_LargeHdr + 3"] u3 [of "p - sizeof_LargeHdr"] u24 pg pe by auto
  have "ours_small s p = Some False"
    using uf h1 a1 by (simp add: ours_small_def read_magic_def unforged_def Let_def)
  moreover have "ours_large s p = Some False"
    using uf h2 a2 by (simp add: ours_large_def read_magic_def unforged_def)
  moreover have "in_reserve s p" unfolding p_def by (rule blk_in_reserve [OF mi r i])
  moreover have "p \<noteq> 0" unfolding p_def by (rule blk_addr_nz [OF inv r i])
  ultimately show ?thesis by (simp add: free_def)
qed

section \<open>Freeing a large block\<close>

lemma and_4095: "x AND 4095 = 0 \<longleftrightarrow> 4096 dvd unat x" for x :: u64
proof -
  have "x AND 4095 = take_bit 12 x" using take_bit_eq_mask [of 12 x] by (simp add: mask_eq_exp_minus_1)
  moreover have "unat (take_bit 12 x) = unat x mod 4096"
    using take_bit_eq_mod [of 12 "unat x"] by (simp add: unsigned_take_bit_eq)
  ultimately show ?thesis by (metis dvd_eq_mod_eq_0 unat_eq_zero unat_0)
qed

lemma page_up_dvd:
  assumes "4096 dvd unat n" "unat n + 4095 < 2 ^ 64"
  shows "page_up n = n"
proof -
  have "unat (n + 4095) = unat n + 4095" using assms(2) by (subst unat_add_no_wrap) simp_all
  then have "unat (page_up n) = (unat n + 4095) div 4096 * 4096"
    unfolding page_up_def unat_page_floor by (simp only:)
  also have "\<dots> = unat n" using assms(1) by (auto elim!: dvdE)
  finally show ?thesis by (simp add: word_unat_eq_iff)
qed

lemma munmap_aligned:
  assumes "4096 dvd unat a" "4096 dvd unat n" "n \<noteq> 0" "unat n + 4095 < 2 ^ 64"
  shows "munmap a n s = unmap_range a n s"
  using assms and_4095 [of a] page_up_dvd [of n] by (simp add: munmap_def)

lemma ours_small_large:
  assumes mi: "mem_inv s" and h: "g_larges s a = Some h" and uf: "unforged s (a + sizeof_LargeHdr)"
  shows "ours_small s (a + sizeof_LargeHdr) \<noteq> Some True"
proof -
  let ?p = "a + sizeof_LargeHdr"
  note lp = large_ptr [OF mi h] and ls = large_size [OF mi h]
  show ?thesis
  proof (cases "g_runs s (run_of ?p)")
    case None
    have "read_magic s (run_of ?p) \<noteq> Some kMagicRun"
    proof (cases "g_larges s (run_of ?p)")
      case (Some h')
      then show ?thesis using read_magic_large(1) [OF mi Some] kMagic_neq by simp
    next
      case none: None
      with None uf show ?thesis by (auto simp: read_magic_def unforged_def)
    qed
    then show ?thesis by (auto simp: ours_small_def Let_def split: option.splits bind_splits)
  next
    case (Some r)
    let ?b = "run_of ?p"
    note f = run_facts [OF mi Some]
    have ba: "a \<noteq> ?b" using ls(6) Some by auto
    have "unat ?b \<le> unat a + 24" using run_of_unat [of ?p] lp(1) by simp
    then have ap: "unat ?b + map_n (unat (r_cls r)) \<le> unat a"
      using mem_invD(7) [OF mi region_large [OF h] region_run [OF Some] ba] ls(1) by (auto simp: apart_def)
    have ud: "unat (run_data r ?b) = unat ?b + doff_n (unat (r_cls r))"
      using f(5) run_staticD(7) [OF f(2)] doff_n_bounds(2) [of "unat (r_cls r)"] unfolding run_data_def room_def
      by (subst unat_add_no_wrap) simp_all
    have le: "run_data r ?b \<le> ?p" using ud ap lp(1) map_n_bounds(1) [OF f(1)] by (simp add: word_le_nat_alt)
    have "\<not> ?p - run_data r ?b < ucast (r_elems r) * ucast (r_elem r)"
      unfolding word_less_nat_alt unat_run_len [OF f(2)] unat_sub [OF le] ud
      using ap lp(1) map_n_bounds(1) [OF f(1)] by simp
    then show ?thesis using read_magic_run [OF mi Some] Some le f(1)
      by (auto simp: ours_small_def Let_def run_view_def)
  qed
qed

lemma free_large_faults:
  assumes mi: "mem_inv s" and h: "g_larges s a = Some h" and uf: "unforged s (a + sizeof_LargeHdr)"
  shows "free os tid (a + sizeof_LargeHdr) s = None"
proof -
  let ?p = "a + sizeof_LargeHdr"
  note lp = large_ptr [OF mi h] and ls = large_size [OF mi h]
  have pa: "?p - sizeof_LargeHdr = a" by simp
  have nz: "l_map_size h \<noteq> 0" using ls(1) by auto
  have bnd: "unat (l_map_size h) + 4095 < 2 ^ 64"
    using region_live_bound(2) [OF mi region_large [OF h]] by simp
  have "\<not> g_acc (munmap a (l_map_size h) s) a"
    using munmap_aligned [OF ls(4,5) nz bnd, of s] nz
    by (simp add: unmap_range_def in_range_def word_neq_0_conv)
  then have "free_large ?p s = None"
    using read_magic_large(2) [OF mi h] by (simp add: free_large_def read_large_def Let_def pa)
  moreover have "ours_large s ?p = Some True"
    using read_magic_large(1) [OF mi h] by (simp add: ours_large_def pa)
  moreover have "in_reserve s ?p"
    using region_in_reserve [OF mi region_large [OF h], of ?p] lp(1) ls(1) by simp
  moreover have "?p \<noteq> 0" using lp(1) by auto
  ultimately show ?thesis using ours_small_large [OF mi h uf]
    by (cases "ours_small s ?p") (auto simp: free_def)
qed

end
