(* ===== verification/AllocTrim.thy ===== *)
theory AllocTrim
  imports AllocFree
begin

text \<open>
  The background thread: giving idle empty runs back to the system and dropping the contents of
  free pages. A round of \<open>trim_thread\<close> never faults, ends, keeps the invariant and every live
  block; it keeps the contents of the blocks of every class whose size divides a page or is at
  least a page.
\<close>

section \<open>Unmapping an empty run\<close>

lemma list_step_live: "list_step c A s s' \<Longrightarrow> live s' x n \<longleftrightarrow> live s x n"
  using live_same_core list_step_fields(1,9) by blast

lemma unmap_run_ok:
  assumes mi: "mem_inv s" and cl: "class_lists s {a}" and r: "g_runs s a = Some r"
    and empty: "\<And>i. \<not> used_blk r i"
  defines "s' \<equiv> unmap_range a (of_nat (map_n (unat (r_cls r)))) s"
  shows "ainv s'" "live s' x n \<longleftrightarrow> live s x n" "g_runs s' = (g_runs s)(a := None)"
proof -
  note d = mem_invD [OF mi] and f = run_facts [OF mi r]
  let ?n = "map_n (unat (r_cls r))"
  have un: "unat (of_nat ?n :: u64) = ?n" using map_n_bounds(3) [OF f(1)] by (intro unat_of_nat_small) simp
  have nb: "unat a + ?n < 2 ^ 64" using f(7) d(1) by (simp add: res_ok_def)
  have rng: "in_range a (of_nat ?n) x \<longleftrightarrow> unat a \<le> unat x \<and> unat x < unat a + ?n" for x
    using in_range_iff [of a "of_nat ?n" x] un nb by simp
  have out: "\<not> in_range a (of_nat ?n) x" if "region s b m" "b \<noteq> a" "unat b \<le> unat x" "unat x < unat b + m" for b m x
    using d(7) [OF that(1) region_run [OF r] that(2)] that(3,4) by (auto simp: rng apart_def)
  have outs: "\<not> in_range a (of_nat ?n) b" if "region s b m" "b \<noteq> a" for b m
    using out [OF that, of b] region_pos [OF mi that(1)] by simp
  have ina: "in_range a (of_nat ?n) a" using map_n_bounds(5) [OF f(1)] by (simp add: rng)
  show runs: "g_runs s' = (g_runs s)(a := None)"
  proof (rule ext)
    fix x
    have "in_range a (of_nat ?n) x \<Longrightarrow> x \<noteq> a \<Longrightarrow> g_runs s x = None"
      using outs header_region(1) [of s x] by (cases "g_runs s x") auto
    then show "g_runs s' x = ((g_runs s)(a := None)) x" using ina by (auto simp: s'_def unmap_range_def)
  qed
  have la: "g_larges s a = None" using d(4) [OF r] by (simp add: run_inv_def)
  have larges: "g_larges s' = g_larges s"
  proof (rule ext)
    fix x
    have "in_range a (of_nat ?n) x \<Longrightarrow> g_larges s x = None"
      using outs header_region(2) [of s x] la by (cases "x = a"; cases "g_larges s x") auto
    then show "g_larges s' x = g_larges s x" by (auto simp: s'_def unmap_range_def)
  qed
  have same: "g_res_start s' = g_res_start s" "g_res_end s' = g_res_end s" "g_res_bump s' = g_res_bump s"
    "g_cls s' = g_cls s" "tls s' = tls s" by (simp_all add: s'_def unmap_range_def)
  have reg: "region s' b m \<longleftrightarrow> region s b m \<and> b \<noteq> a" for b m
    using la by (auto simp: region_def runs larges)
  have "region_inv s' b m" if "region s' b m" for b m
  proof -
    have b: "region s b m" "b \<noteq> a" using that reg by auto
    have ri: "region_inv s b m" using d(6) [OF b(1)] .
    have "g_acc s' (b + of_nat i)" if i: "i < m" for i
    proof -
      have "unat (b + of_nat i) = unat b + i"
        using i region_live_bound(2) [OF mi b(1)] by (intro unat_add_of_nat) simp
      then show ?thesis using out [OF b, of "b + of_nat i"] i ri
        by (simp add: s'_def unmap_range_def region_inv_def)
    qed
    then show ?thesis using ri same by (simp add: region_inv_def)
  qed
  moreover have "run_inv s' b rb" if "g_runs s' b = Some rb" for b rb
    using that d(4) [of b rb] by (auto simp: runs run_inv_def larges split: if_splits)
  moreover have "apart b m b' m'" if "region s' b m" "region s' b' m'" "b \<noteq> b'" for b m b' m'
    using that d(7) by (simp add: reg)
  moreover have "res_ok s'" using d(1) same by (simp add: res_ok_def)
  ultimately have "mem_inv s'" unfolding mem_inv_def using d(2,3,5) larges same by simp
  moreover have "class_lists s' {}" unfolding class_lists_def
  proof (intro allI impI)
    fix e :: nat assume "e < 68"
    then obtain L where L: "dlist (g_runs s) (class_head s e) L" "set L = runs_of_class s e - {a}"
      using cl by (auto simp: class_lists_def)
    have "dlist (g_runs s') (class_head s' e) L"
      using L by (subst dlist_cong [of _ _ "g_runs s"]) (auto simp: runs same class_head_def)
    moreover have "set L = runs_of_class s' e - {}" using L(2) by (auto simp: runs_of_class_def runs)
    ultimately show "\<exists>L. dlist (g_runs s') (class_head s' e) L \<and> set L = runs_of_class s' e - {}" by blast
  qed
  ultimately show "ainv s'" by (simp add: ainv_def)
  have "g_runs s' b = Some rb \<and> used_blk rb i \<longleftrightarrow> g_runs s b = Some rb \<and> used_blk rb i" for b rb i
    using r empty by (auto simp: runs split: if_splits)
  then show "live s' x n \<longleftrightarrow> live s x n" unfolding live_def larges by blast
qed

section \<open>Dropping free pages\<close>

text \<open>The pages \<open>purge_pages\<close> drops lie in the data area; at most the bytes there become zero.\<close>

definition blk_lo :: "run \<Rightarrow> nat \<Rightarrow> nat" where
  "blk_lo r off = (off div unat (r_elem r)) mod 2 ^ 32"

definition blk_hi :: "run \<Rightarrow> nat \<Rightarrow> nat" where
  "blk_hi r off = min (((off + 4096) div unat (r_elem r)) mod 2 ^ 32) (unat (r_elems r))"

definition page_zeroed :: "run \<Rightarrow> u64 \<Rightarrow> nat \<Rightarrow> u64 \<Rightarrow> bool" where
  "page_zeroed r d len x \<longleftrightarrow> (\<exists>off. off mod 4096 = 0 \<and> off + 4096 \<le> len \<and> in_range (d + of_nat off) 4096 x \<and>
     blk_lo r off < blk_hi r off \<and> (\<forall>b. blk_lo r off \<le> b \<and> b < blk_hi r off \<longrightarrow> blk_free (r_bits r) b))"

lemma purge_pages_same:
  "\<exists>m k. purge_pages r d len off s = s\<lparr>g_bytes := m, g_purged := k\<rparr>"
proof (induction r d len off s rule: purge_pages.induct)
  case (1 r d len off s)
  show ?case
  proof (cases "off + 4096 \<le> len")
    case False
    then show ?thesis by (subst purge_pages.simps) (auto intro!: exI [of _ "g_bytes s"] exI [of _ "g_purged s"])
  next
    case True
    define b0 where "b0 = (off div unat (r_elem r)) mod 2 ^ 32"
    define b1' where "b1' = ((off + 4096) div unat (r_elem r)) mod 2 ^ 32"
    define b1 where "b1 = (if b1' > unat (r_elems r) then unat (r_elems r) else b1')"
    define s1 where "s1 = (if list_all (blk_free (r_bits r)) [b0..<b1]
                          then (let z = zero_range (d + of_nat off) 4096 s in z\<lparr>g_purged := g_purged z + 4096\<rparr>)
                          else s)"
    have eq: "purge_pages r d len off s = (if b1 \<le> b0 then s else purge_pages r d len (off + 4096) s1)"
      using True by (subst purge_pages.simps) (simp add: Let_def b0_def b1'_def b1_def s1_def)
    show ?thesis
    proof (cases "b1 \<le> b0")
      case True
      then show ?thesis unfolding eq by (auto intro!: exI [of _ "g_bytes s"] exI [of _ "g_purged s"])
    next
      case False
      from "1.IH" [OF True b0_def b1'_def b1_def False s1_def]
      obtain m k where "purge_pages r d len (off + 4096) s1 = s1\<lparr>g_bytes := m, g_purged := k\<rparr>" by blast
      then show ?thesis using False unfolding eq
        by (auto simp: s1_def zero_range_def Let_def intro!: exI [of _ m] exI [of _ k])
    qed
  qed
qed

lemma purge_pages_bytes:
  "off mod 4096 = 0 \<Longrightarrow>
   g_bytes (purge_pages r d len off s) x = g_bytes s x \<or> page_zeroed r d len x"
proof (induction r d len off s rule: purge_pages.induct)
  case (1 r d len off s)
  show ?case
  proof (cases "off + 4096 \<le> len")
    case False
    then show ?thesis by (subst purge_pages.simps) simp
  next
    case True
    define b0 where "b0 = (off div unat (r_elem r)) mod 2 ^ 32"
    define b1' where "b1' = ((off + 4096) div unat (r_elem r)) mod 2 ^ 32"
    define b1 where "b1 = (if b1' > unat (r_elems r) then unat (r_elems r) else b1')"
    define s1 where "s1 = (if list_all (blk_free (r_bits r)) [b0..<b1]
                          then (let z = zero_range (d + of_nat off) 4096 s in z\<lparr>g_purged := g_purged z + 4096\<rparr>)
                          else s)"
    have eq: "purge_pages r d len off s = (if b1 \<le> b0 then s else purge_pages r d len (off + 4096) s1)"
      using True by (subst purge_pages.simps) (simp add: Let_def b0_def b1'_def b1_def s1_def)
    show ?thesis
    proof (cases "b1 \<le> b0")
      case True
      then show ?thesis unfolding eq by simp
    next
      case False
      have m: "(off + 4096) mod 4096 = 0" using "1.prems" by (metis mod_add_self2)
      from "1.IH" [OF True b0_def b1'_def b1_def False s1_def m]
      have ih: "g_bytes (purge_pages r d len off s) x = g_bytes s1 x \<or> page_zeroed r d len x"
        using False unfolding eq by simp
      have "g_bytes s1 x = g_bytes s x \<or> page_zeroed r d len x"
      proof (cases "list_all (blk_free (r_bits r)) [b0..<b1] \<and> in_range (d + of_nat off) 4096 x")
        case True
        have "b0 = blk_lo r off" "b1 = blk_hi r off" by (simp_all add: b0_def b1_def b1'_def blk_lo_def blk_hi_def)
        then have "page_zeroed r d len x" unfolding page_zeroed_def
          using True False "1.prems" \<open>off + 4096 \<le> len\<close>
          by (intro exI [of _ off]) (auto simp: list_all_iff)
        then show ?thesis ..
      next
        case False
        then show ?thesis by (auto simp: s1_def zero_range_def Let_def)
      qed
      with ih show ?thesis by metis
    qed
  qed
qed

text \<open>When the block size divides the page size, or is a multiple of it, the blocks tested are all the
  blocks that reach into the page.\<close>

definition page_safe :: "nat \<Rightarrow> bool" where
  "page_safe e \<longleftrightarrow> e dvd 4096 \<or> 4096 dvd e"

lemma blocks_of_page:
  fixes e j k i off :: nat
  assumes safe: "page_safe e" and e: "0 < e" and off: "4096 dvd off" and k: "k < 4096"
    and x: "off + k = j * e + i" "i < e" and lt: "off div e < (off + 4096) div e"
  shows "off div e \<le> j" "j < (off + 4096) div e"
proof -
  have jd: "j = (off + k) div e" using x e by simp
  show "off div e \<le> j" unfolding jd by (rule div_le_mono) simp
  show "j < (off + 4096) div e"
  proof (cases "e dvd 4096")
    case True
    then have "e dvd off + 4096" using off by (meson dvd_add dvd_trans)
    then obtain m where m: "off + 4096 = e * m" by (elim dvdE)
    have "j * e < e * m" using x k m by linarith
    then have "j < m" using e by (simp add: mult.commute)
    then show ?thesis using m e by simp
  next
    case False
    then obtain f where f: "e = 4096 * f" using safe by (auto simp: page_safe_def)
    obtain o' where o': "off = 4096 * o'" using off by (elim dvdE)
    have "4096 * (j * f) < 4096 * (o' + 1)" using x k f o' by (simp add: algebra_simps)
    then have "j * f < o' + 1" by (simp only: mult_less_cancel1)
    then have "j * f \<le> o'" by simp
    then have "j * e \<le> off" using f o' by simp
    then have "j \<le> off div e" using e by (simp add: less_eq_div_iff_mult_less_eq)
    then show ?thesis using lt by simp
  qed
qed

lemma page_zeroed_free:
  assumes st: "run_static c r" and bm: "bm_ok r" and rm: "room a" and safe: "page_safe (elem_n c)"
    and u: "used_blk r j" and i: "i < elem_n c"
  shows "\<not> page_zeroed r (run_data r a) (elems_n c * elem_n c) (blk_addr c a j + of_nat i)"
proof
  note d = run_staticD [OF st] and eb = elem_n_bounds [OF run_staticD(1) [OF st]] and nb = elems_n_bounds [OF run_staticD(1) [OF st]]
  let ?x = "blk_addr c a j + of_nat i" let ?e = "elem_n c"
  assume "page_zeroed r (run_data r a) (elems_n c * ?e) ?x"
  then obtain off where off: "off mod 4096 = 0" "off + 4096 \<le> elems_n c * ?e" "in_range (run_data r a + of_nat off) 4096 ?x"
    "blk_lo r off < blk_hi r off" "\<forall>b. blk_lo r off \<le> b \<and> b < blk_hi r off \<longrightarrow> blk_free (r_bits r) b"
    unfolding page_zeroed_def by (elim exE conjE) (rule that, assumption+)
  have jl: "j < elems_n c" using used_blk_lt [OF st u] .
  have ux: "unat ?x = unat a + doff_n c + j * ?e + i"
    using unat_blk_addr [OF d(1) jl rm] blk_end_bound [OF d(1) jl] map_n_bounds(3) [OF d(1)] i rm
    by (subst unat_add_of_nat) (simp_all add: room_def)
  have ud: "unat (run_data r a) = unat a + doff_n c"
    using rm d(7) doff_n_bounds(2) [of c] unfolding run_data_def room_def by (subst unat_add_no_wrap) simp_all
  have uo: "unat (run_data r a + of_nat off) = unat a + doff_n c + off"
    using rm off(2) nb(3) doff_n_bounds(2) [of c] ud by (subst unat_add_of_nat) (simp_all add: room_def)
  have "unat (run_data r a + of_nat off) + unat (4096 :: u64) < 2 ^ 64"
    using uo rm off(2) nb(3) doff_n_bounds(2) [of c] by (simp add: room_def)
  from in_range_iff [OF this, of ?x] off(3)
  have "unat (run_data r a + of_nat off) \<le> unat ?x" "unat ?x < unat (run_data r a + of_nat off) + 4096" by simp_all
  then have k: "off \<le> j * ?e + i" "j * ?e + i < off + 4096" using ux uo by linarith+
  then obtain k where k: "off + k = j * ?e + i" "k < 4096" by (metis le_Suc_ex nat_add_left_cancel_less)
  have small: "(off + 4096) div ?e < 2 ^ 32" "off div ?e < 2 ^ 32"
  proof -
    have l: "off + 4096 < 2 ^ 32" using off(2) nb(3) by simp
    then show "(off + 4096) div ?e < 2 ^ 32" by (rule le_less_trans [OF div_le_dividend])
    have "off < 2 ^ 32" using l by simp
    then show "off div ?e < 2 ^ 32" by (rule le_less_trans [OF div_le_dividend])
  qed
  have lo: "blk_lo r off = off div ?e" and hi: "blk_hi r off = min ((off + 4096) div ?e) (elems_n c)"
    using small by (simp_all add: blk_lo_def blk_hi_def d(4,5))
  have e0: "0 < ?e" using eb(1) by simp
  have "4096 dvd off" using off(1) by (simp add: dvd_eq_mod_eq_0)
  from blocks_of_page [OF safe e0 this k(2,1) i] off(4) lo hi
  have "blk_lo r off \<le> j" "j < blk_hi r off" using jl by auto
  then have "blk_free (r_bits r) j" using off(5) by blast
  then show False using u by (simp add: used_blk_def free_set_def)
qed

text \<open>The page dropped lies in the data of its run: no other block can contain any of it.\<close>

lemma page_zeroed_inside:
  assumes st: "run_static c r" and rm: "room a" and z: "page_zeroed r (run_data r a) (elems_n c * elem_n c) x"
  shows "unat a \<le> unat x" "unat x < unat a + map_n c"
proof -
  note d = run_staticD [OF st] and nb = elems_n_bounds [OF run_staticD(1) [OF st]]
  from z obtain off where off: "off + 4096 \<le> elems_n c * elem_n c" "in_range (run_data r a + of_nat off) 4096 x"
    unfolding page_zeroed_def by blast
  have ud: "unat (run_data r a) = unat a + doff_n c"
    using rm d(7) doff_n_bounds(2) [of c] unfolding run_data_def room_def by (subst unat_add_no_wrap) simp_all
  have uo: "unat (run_data r a + of_nat off) = unat a + doff_n c + off"
    using rm off(1) nb(3) doff_n_bounds(2) [of c] ud by (subst unat_add_of_nat) (simp_all add: room_def)
  have "unat (run_data r a + of_nat off) + unat (4096 :: u64) < 2 ^ 64"
    using uo rm off(1) nb(3) doff_n_bounds(2) [of c] by (simp add: room_def)
  from in_range_iff [OF this, of x] off(2)
  have "unat (run_data r a + of_nat off) \<le> unat x" "unat x < unat (run_data r a + of_nat off) + 4096" by simp_all
  then show "unat a \<le> unat x" "unat x < unat a + map_n c"
    using uo off(1) map_n_bounds(1) [OF d(1)] by linarith+
qed

section \<open>Purging one run\<close>

text \<open>The contents of the blocks whose pages are dropped as a whole.\<close>

definition trim_kept :: "alloc \<Rightarrow> alloc \<Rightarrow> bool" where
  "trim_kept s s' \<longleftrightarrow> (\<forall>p n i. live s p n \<longrightarrow> i < n \<longrightarrow> (4096 \<le> n \<or> n dvd 4096) \<longrightarrow>
     g_bytes s' (p + of_nat i) = g_bytes s (p + of_nat i))"

definition clist :: "alloc \<Rightarrow> nat \<Rightarrow> u64 list \<Rightarrow> bool" where
  "clist s c L \<longleftrightarrow> dlist (g_runs s) (class_head s c) L \<and> set L = runs_of_class s c"

definition trim_step :: "alloc \<Rightarrow> alloc \<Rightarrow> bool" where
  "trim_step s s' \<longleftrightarrow> ainv s' \<and> live s' = live s \<and> trim_kept s s' \<and> g_ready s' = g_ready s \<and> g_res_bump s' = g_res_bump s"

lemma trim_step_refl: "ainv s \<Longrightarrow> trim_step s s"
  by (simp add: trim_step_def trim_kept_def)

lemma trim_step_trans: "trim_step s s1 \<Longrightarrow> trim_step s1 s2 \<Longrightarrow> trim_step s s2"
  unfolding trim_step_def trim_kept_def by simp

lemma empty_run: "bm_ok r \<Longrightarrow> r_used r = 0 \<Longrightarrow> \<not> used_blk r i"
proof -
  assume bm: "bm_ok r" and "r_used r = 0"
  then have "card (free_set r) = unat (r_elems r)" by (simp add: bm_ok_def)
  moreover have "free_set r \<subseteq> {..<unat (r_elems r)}" by (auto simp: free_set_def)
  ultimately have "free_set r = {..<unat (r_elems r)}" by (intro card_subset_eq) simp_all
  then show ?thesis by (auto simp: used_blk_def)
qed

lemma msize_of_run:
  assumes "run_static c r"
  shows "(run_bytes (r_elems r) (r_elem r) + 4095) AND NOT 4095 = run_msize c" "run_msize c = of_nat (map_n c)"
proof -
  note d = run_staticD [OF assms]
  show "(run_bytes (r_elems r) (r_elem r) + 4095) AND NOT 4095 = run_msize c"
    unfolding run_msize_def d(8,9) ..
  show "run_msize c = of_nat (map_n c)" unfolding unat_run_msize [OF d(1), symmetric] by simp
qed

lemma purge_drop_ok:
  assumes inv: "ainv s" and c: "c < 68" and L: "clist s c (pre @ a # rest)" and r: "g_runs s a = Some r"
    and used: "r_used r = 0"
  shows "\<exists>s'. (do { s1 \<leftarrow> run_remove (unat (r_cls r) - 1) a s;
                    let msize = (run_bytes (r_elems r) (r_elem r) + 4095) AND NOT 4095;
                    let s2 = munmap a msize s1;
                    Some (s2\<lparr>g_freed_to_os := g_freed_to_os s2 + msize\<rparr>) }) = Some s' \<and>
    trim_step s s' \<and> clist s' c (pre @ rest)"
proof -
  have mi: "mem_inv s" and cl: "class_lists s {}" using inv by (simp_all add: ainv_def)
  note f = run_facts [OF mi r]
  have dl: "dlist (g_runs s) (class_head s c) (pre @ a # rest)" and st: "set (pre @ a # rest) = runs_of_class s c"
    using L by (simp_all add: clist_def)
  have "a \<in> runs_of_class s c" using st by auto
  then have cls: "unat (r_cls r) = c + 1" "unat (r_cls r) - 1 = c" using r by (auto simp: runs_of_class_def)
  have dist: "distinct (pre @ a # rest)" using dl by (simp add: dlist_def)
  have len: "c < length (g_cls s)" using mem_invD(2) [OF mi] c by simp
  have rem1: "remove1 a (pre @ a # rest) = pre @ rest" using dist by (simp add: remove1_append)
  from run_remove_dlist [OF dl _ len, of a] rem1 obtain s1 where s1: "run_remove c a s = Some s1"
    "dlist (g_runs s1) (class_head s1 c) (pre @ rest)" "g_runs s1 a = Some r" using r by auto
  from remove_ok [OF mi cl r cls(1) c] s1(1) have rm: "mem_inv s1" "class_lists s1 {a}" "list_step c UNIV s s1" by auto
  note lf = list_step_fields [OF rm(3)]
  let ?m = "run_msize (unat (r_cls r))" let ?n = "map_n (unat (r_cls r))"
  note ms = msize_of_run [OF f(2)]
  have um: "unat ?m = ?n" by (rule unat_run_msize [OF f(1)])
  have a4: "4096 dvd unat a" using f(4) unfolding aligned_run_def by (rule dvd_trans [rotated]) simp
  have mn: "munmap a ?m s1 = unmap_range a ?m s1"
    using a4 map_n_bounds(3-5) [OF f(1)] um by (intro munmap_aligned) auto
  have empty: "\<not> used_blk r i" for i using empty_run [OF f(3) used] .
  note ur = unmap_run_ok [OF rm(1,2) s1(3) empty]
  let ?s2 = "unmap_range a (of_nat ?n) s1" let ?s' = "?s2\<lparr>g_freed_to_os := g_freed_to_os ?s2 + ?m\<rparr>"
  have fields: "g_runs ?s' = (g_runs s1)(a := None)" "g_bytes ?s' = g_bytes s" "g_ready ?s' = g_ready s"
    "g_res_bump ?s' = g_res_bump s" "class_head ?s' c = class_head s1 c"
    using ur(3) lf by (simp_all add: class_head_def) (simp_all add: unmap_range_def)
  have "mem_inv ?s'" "class_lists ?s' {}"
    using ur(1) by (simp_all add: ainv_def mem_inv_cong [of ?s' ?s2] class_lists_cong [of ?s' ?s2] class_head_def)
  moreover have "live ?s' = live s"
  proof (intro ext)
    fix x k
    have "live ?s' x k \<longleftrightarrow> live ?s2 x k" by (rule live_cong) simp_all
    then show "live ?s' x k = live s x k" using ur(2) list_step_live [OF rm(3)] by simp
  qed
  ultimately have "trim_step s ?s'" using fields by (simp add: trim_step_def ainv_def trim_kept_def)
  moreover have "clist ?s' c (pre @ rest)" unfolding clist_def
  proof
    show "dlist (g_runs ?s') (class_head ?s' c) (pre @ rest)"
      using s1(2) dist fields(1,5) by (subst dlist_cong [of _ _ "g_runs s1"]) auto
    have "runs_of_class ?s' c = runs_of_class s1 c - {a}" by (auto simp: runs_of_class_def fields(1))
    also have "runs_of_class s1 c = runs_of_class s c" by (rule same_core_runs [OF lf(9)])
    finally show "set (pre @ rest) = runs_of_class ?s' c" using st dist by auto
  qed
  ultimately show ?thesis
    using s1(1) mn ms unfolding cls(2) by (intro exI [of _ ?s']) (simp add: Let_def)
qed

lemma purge_pages_ok:
  fixes t :: u64
  assumes inv: "ainv s" and c: "c < 68" and L: "clist s c L" and r: "g_runs s a = Some r" and cls: "unat (r_cls r) = c + 1"
  defines "r' \<equiv> r\<lparr>r_last_touch_ms := t\<rparr>"
  defines "s' \<equiv> (if r_elem r' \<ge> 4096 \<and> (r_elem r' AND 4095) \<noteq> 0 then put_run a r' s
                 else purge_pages r' (run_data r' a) (unat (r_elems r') * unat (r_elem r')) 0 (put_run a r' s))"
  shows "trim_step s s' \<and> clist s' c L"
proof -
  have mi: "mem_inv s" using inv by (simp add: ainv_def)
  note f = run_facts [OF mi r] and d = run_staticD [OF run_facts(2) [OF mi r]]
  have fr: "free_set r' = free_set r" "r_cls r' = r_cls r" "r_elems r' = r_elems r" "run_data r' a = run_data r a"
    "r_elem r' = r_elem r" "r_bits r' = r_bits r" "bm_ok r' = bm_ok r" "run_static c r' = run_static c r"
    "core r' = (core r)\<lparr>r_last_touch_ms := t\<rparr>" "r_next r' = r_next r" "r_prev r' = r_prev r" for c
    by (simp_all add: r'_def free_set_def run_data_def bm_ok_def run_static_def core_def)
  have q0: "quiet s (put_run a r' s)" "g_runs (put_run a r' s) = (g_runs s)(a \<mapsto> r')"
    by (simp_all add: quiet_def put_run_def class_head_def)
  obtain m k where s': "s' = (put_run a r' s)\<lparr>g_bytes := m, g_purged := k\<rparr>"
  proof (cases "r_elem r' \<ge> 4096 \<and> (r_elem r' AND 4095) \<noteq> 0")
    case True
    then show ?thesis using that [of "g_purged s" "g_bytes s"] by (simp add: s'_def put_run_def)
  next
    case False
    then show ?thesis using that purge_pages_same [of r' "run_data r' a" "unat (r_elems r') * unat (r_elem r')" 0 "put_run a r' s"]
      unfolding s'_def by (metis (no_types, lifting))
  qed
  have fields: "g_runs s' = (g_runs s)(a \<mapsto> r')" "g_larges s' = g_larges s" "g_ready s' = g_ready s"
    "g_res_bump s' = g_res_bump s" "class_head s' e = class_head s e" for e
    by (simp_all add: s' put_run_def class_head_def)
  have a1: "ainv (put_run a r' s)"
    by (rule ainv_put [OF inv r q0]) (simp_all add: fr f)
  have "mem_inv s' \<longleftrightarrow> mem_inv (put_run a r' s)" by (rule mem_inv_cong) (simp_all add: s')
  moreover have "class_lists s' {} \<longleftrightarrow> class_lists (put_run a r' s) {}"
    by (rule class_lists_cong) (simp_all add: s' class_head_def)
  ultimately have "mem_inv s'" "class_lists s' {}" using a1 by (simp_all add: ainv_def)
  moreover have lv: "live s' = live s"
  proof (intro ext)
    fix x n
    have ub: "used_blk r' i \<longleftrightarrow> used_blk r i" for i by (simp add: used_blk_def fr)
    show "live s' x n = live s x n"
      unfolding live_put [OF inv r fields(2,1) fr(2,3)] ub using live_smallI [OF r] by metis
  qed
  moreover have "trim_kept s s'" unfolding trim_kept_def
  proof (intro allI impI)
    fix p n i assume l: "live s p n" "i < n" "4096 \<le> n \<or> n dvd 4096"
    show "g_bytes s' (p + of_nat i) = g_bytes s (p + of_nat i)"
    proof (cases "r_elem r' \<ge> 4096 \<and> (r_elem r' AND 4095) \<noteq> 0")
      case True
      then show ?thesis by (simp add: s'_def put_run_def)
    next
      case False
      let ?c = "unat (r_cls r)" let ?x = "p + of_nat i"
      have pz: "g_bytes s' ?x = g_bytes s ?x \<or> page_zeroed r' (run_data r' a) (elems_n ?c * elem_n ?c) ?x"
        using purge_pages_bytes [of 0 r' "run_data r' a" "unat (r_elems r') * unat (r_elem r')" "put_run a r' s" ?x] False
        unfolding s'_def fr d(4,5) by (simp add: put_run_def)
      have "\<not> page_zeroed r' (run_data r' a) (elems_n ?c * elem_n ?c) ?x"
      proof
        assume z: "page_zeroed r' (run_data r' a) (elems_n ?c * elem_n ?c) ?x"
        have st': "run_static ?c r'" using f(2) fr(8) by simp
        note ins = page_zeroed_inside [OF st' f(5) z]
        from live_region [OF mi l(1)] obtain b k where b: "region s b k" "unat b + 24 \<le> unat p" "unat p + n \<le> unat b + k"
          "(\<exists>rb j. g_runs s b = Some rb \<and> used_blk rb j \<and> p = blk_addr (unat (r_cls rb)) b j \<and> n = elem_n (unat (r_cls rb))) \<or>
           (\<exists>h. g_larges s b = Some h \<and> p = b + sizeof_LargeHdr \<and> n = unat (l_user h))" by blast
        have ux: "unat ?x = unat p + i"
          using region_live_bound(2) [OF mi b(1)] b(3) l(2) by (intro unat_add_of_nat) simp
        have "b = a"
        proof (rule ccontr)
          assume "b \<noteq> a"
          from mem_invD(7) [OF mi b(1) region_run [OF r] this] ins ux b(2,3) l(2) show False by (auto simp: apart_def)
        qed
        then obtain j where j: "used_blk r j" "p = blk_addr ?c a j" "n = elem_n ?c"
          using b(4) r mem_invD(4) [OF mi r] by (auto simp: run_inv_def)
        have e4: "unat (r_elem r') = n" using d(5) j(3) fr(5) by simp
        have "page_safe n"
        proof (cases "n dvd 4096")
          case True
          then show ?thesis by (simp add: page_safe_def)
        next
          case F: False
          then have "4096 \<le> r_elem r'" using l(3) e4 by (simp add: word_le_nat_alt)
          then have "r_elem r' AND 4095 = 0" using False by simp
          moreover have "r_elem r' AND 4095 = take_bit 12 (r_elem r')"
            using take_bit_eq_mask [of 12 "r_elem r'"] by (simp add: mask_eq_exp_minus_1)
          moreover have "unat (take_bit 12 (r_elem r')) = unat (r_elem r') mod 4096"
            using take_bit_eq_mod [of 12 "unat (r_elem r')"] by (simp add: unsigned_take_bit_eq)
          ultimately have "n mod 4096 = 0" using e4 by (metis unat_0)
          then show ?thesis by (simp add: page_safe_def mod_eq_0_iff_dvd)
        qed
        then have "\<not> page_zeroed r' (run_data r' a) (elems_n ?c * elem_n ?c) (blk_addr ?c a j + of_nat i)"
          using page_zeroed_free [OF st' _ f(5), of j i] f(3) j l(2) fr(1,3,7) by (simp add: used_blk_def)
        then show False using z j(2) by simp
      qed
      then show ?thesis using pz by simp
    qed
  qed
  ultimately have "trim_step s s'" using fields by (simp add: trim_step_def ainv_def)
  moreover have "dlist (g_runs s') (class_head s' c) L"
    using L r fields(5) fr by (subst dlist_cong [of _ _ "g_runs s"]) (auto simp: fields(1) clist_def)
  moreover have "runs_of_class s' c = runs_of_class s c" using r fr(2) by (auto simp: runs_of_class_def fields(1))
  ultimately show ?thesis using L by (simp add: clist_def)
qed

lemma purge_run_ok:
  assumes inv: "ainv s" and c: "c < 68" and L: "clist s c (pre @ a # rest)"
  shows "\<exists>s' pre'. purge_run a t s = Some s' \<and> trim_step s s' \<and> clist s' c (pre' @ rest)"
proof -
  have "a \<in> runs_of_class s c" using L by (auto simp: clist_def)
  then obtain r where r: "g_runs s a = Some r" "unat (r_cls r) = c + 1" by (auto simp: runs_of_class_def)
  show ?thesis
  proof (cases "r_used r = 0 \<and> env_run_idle_ms s \<le> t - r_last_fully_free_ms r")
    case True
    with purge_drop_ok [OF inv c L r(1)] obtain s' where "purge_run a t s = Some s'" "trim_step s s'" "clist s' c (pre @ rest)"
      using r(1) unfolding purge_run_def by auto
    then show ?thesis by blast
  next
    case F: False
    show ?thesis
    proof (cases "t - r_last_touch_ms r < env_dirty_idle_ms s")
      case True
      then have "purge_run a t s = Some s"
        by (simp only: purge_run_def r(1) bind.bind_lunit F if_False if_True)
      moreover have "clist s c ((pre @ [a]) @ rest)" using L by simp
      ultimately show ?thesis using trim_step_refl [OF inv] by blast
    next
      case False
      let ?r = "r\<lparr>r_last_touch_ms := t\<rparr>"
      let ?s = "if r_elem ?r \<ge> 4096 \<and> (r_elem ?r AND 4095) \<noteq> 0 then put_run a ?r s
                 else purge_pages ?r (run_data ?r a) (unat (r_elems ?r) * unat (r_elem ?r)) 0 (put_run a ?r s)"
      have "purge_run a t s = Some ?s"
        using False F r(1) unfolding purge_run_def Let_def by (simp only: bind.bind_lunit if_False if_distrib [of Some])
      moreover have "trim_step s ?s \<and> clist ?s c ((pre @ [a]) @ rest)"
        using purge_pages_ok [OF inv c L r] by simp
      ultimately show ?thesis by blast
    qed
  qed
qed

section \<open>A round of the thread\<close>

lemma dlist_next:
  assumes "dlist m h (pre @ a # rest)" "m a = Some r"
  shows "r_next r = (case rest of [] \<Rightarrow> 0 | b # _ \<Rightarrow> b)"
  using assms by (cases rest) (auto simp: dlist_def dseg_append)

lemma trim_walk_ok:
  assumes "ainv s" "c < 68" "clist s c (pre @ rest)" "h = (case rest of [] \<Rightarrow> 0 | b # _ \<Rightarrow> b)"
  shows "\<exists>s'. trim_walk t h s = Some s' \<and> trim_step s s'"
  using assms
proof (induction rest arbitrary: s pre h)
  case Nil
  then show ?case by (subst trim_walk.simps) (simp add: trim_step_refl)
next
  case (Cons a rest)
  have h: "h = a" using Cons.prems(4) by simp
  have "a \<in> runs_of_class s c" and dl: "dlist (g_runs s) (class_head s c) (pre @ a # rest)"
    using Cons.prems(3) by (auto simp: clist_def)
  then obtain r where r: "g_runs s a = Some r" by (auto simp: runs_of_class_def)
  have nz: "a \<noteq> 0" using dlist_mem [OF dl, of a] by simp
  from purge_run_ok [OF Cons.prems(1-3), of t] obtain s1 pre' where
    s1: "purge_run a t s = Some s1" "trim_step s s1" "clist s1 c (pre' @ rest)" by blast
  have "ainv s1" using s1(2) by (simp add: trim_step_def)
  from Cons.IH [OF this Cons.prems(2) s1(3) dlist_next [OF dl r]] obtain s'
    where "trim_walk t (r_next r) s1 = Some s'" "trim_step s1 s'" by blast
  then show ?case using s1(1) r nz trim_step_trans [OF s1(2)] h by (subst trim_walk.simps) auto
qed

lemma trim_class_ok:
  assumes "ainv s" "c < 68"
  shows "\<exists>s'. trim_class t c s = Some s' \<and> trim_step s s'"
proof -
  obtain L where L: "dlist (g_runs s) (class_head s c) L" "set L = runs_of_class s c"
    using assms by (auto simp: ainv_def class_lists_def)
  have "class_head s c = (case L of [] \<Rightarrow> 0 | b # _ \<Rightarrow> b)" using L(1) by (cases L) (auto simp: dlist_def)
  then show ?thesis using trim_walk_ok [OF assms, of "[]" L] L by (simp add: clist_def trim_class_def)
qed

lemma trim_classes_ok:
  assumes "ainv s" "\<forall>c\<in>set cs. c < 68"
  shows "\<exists>s'. trim_classes t cs s = Some s' \<and> trim_step s s'"
  using assms
proof (induction cs arbitrary: s)
  case Nil
  then show ?case by (simp add: trim_step_refl)
next
  case (Cons c cs)
  have "c < 68" using Cons.prems(2) by simp
  from trim_class_ok [OF Cons.prems(1) this, of t] obtain s1 where s1: "trim_class t c s = Some s1" "trim_step s s1" by blast
  then have "ainv s1" by (simp add: trim_step_def)
  from Cons.IH [OF this] Cons.prems(2) obtain s' where "trim_classes t cs s1 = Some s'" "trim_step s1 s'" by auto
  then show ?case using s1 trim_step_trans by (auto simp del: One_nat_def)
qed

lemma trim_round_ok:
  assumes "ainv s"
  shows "\<exists>s'. trim_round os s = Some s' \<and> trim_step s s'"
proof (cases "g_ready s")
  case False
  then show ?thesis using trim_step_refl [OF assms] by (simp add: trim_round_def)
next
  case True
  obtain t s1 where n: "now_ms os s = (t, s1)" by fastforce
  note q = now_ms_quiet [OF n]
  have q': "g_larges s1 = g_larges s" "g_acc s1 = g_acc s" "g_res_start s1 = g_res_start s" "g_res_end s1 = g_res_end s"
    "g_res_bump s1 = g_res_bump s" "g_bytes s1 = g_bytes s" "tls s1 = tls s" "g_ready s1 = g_ready s"
    using q(1) by (simp_all add: quiet_def)
  have "mem_inv s1 \<longleftrightarrow> mem_inv s" by (rule mem_inv_cong) (simp_all add: q q')
  moreover have "class_lists s1 {} \<longleftrightarrow> class_lists s {}" by (rule class_lists_cong) (simp_all add: q class_head_def)
  ultimately have a1: "ainv s1" using assms by (simp add: ainv_def)
  have "live s1 = live s" by (intro ext live_cong) (simp_all add: q q')
  then have st: "trim_step s s1" using a1 q' by (simp add: trim_step_def trim_kept_def)
  from trim_classes_ok [OF a1, of "[0..<kNumClasses]" t] obtain s' where
    "trim_classes t [0..<kNumClasses] s1 = Some s'" "trim_step s1 s'" by auto
  then show ?thesis using True n trim_step_trans [OF st] by (auto simp: trim_round_def)
qed

end
