(* ===== verification/AllocClients.thy ===== *)
theory AllocClients
  imports AllocTrim
begin

text \<open>
  The rest of the \<open>malloc\<close> family as clients of \<open>malloc\<close> and \<open>free\<close>. What they need of the heap is
  the locale \<open>block_store\<close>: blocks do not overlap, and writing bytes changes no block. Inside it,
  a write confined to one block keeps the contents of all others; \<open>calloc\<close> and \<open>realloc\<close> use this for
  their \<open>memset\<close> and \<open>memcpy\<close>.
\<close>

section \<open>A store of disjoint blocks\<close>

locale block_store =
  fixes ok :: "'s \<Rightarrow> bool"
    and blk :: "'s \<Rightarrow> u64 \<Rightarrow> nat \<Rightarrow> bool"
    and byte :: "'s \<Rightarrow> u64 \<Rightarrow> u8"
    and upd :: "(u64 \<Rightarrow> u8) \<Rightarrow> 's \<Rightarrow> 's"
  assumes blk_disjoint: "ok s \<Longrightarrow> blk s p n \<Longrightarrow> blk s q m \<Longrightarrow> p = q \<and> n = m \<or> apart p n q m"
    and blk_bound: "ok s \<Longrightarrow> blk s p n \<Longrightarrow> unat p + n < 2 ^ 64"
    and upd_ok: "ok (upd f s) \<longleftrightarrow> ok s"
    and upd_blk: "blk (upd f s) = blk s"
    and upd_byte: "byte (upd f s) = f"
begin

definition confined :: "u64 \<Rightarrow> nat \<Rightarrow> (u64 \<Rightarrow> u8) \<Rightarrow> 's \<Rightarrow> bool" where
  "confined p k f s \<longleftrightarrow> (\<forall>x. \<not> (unat p \<le> unat x \<and> unat x < unat p + k) \<longrightarrow> f x = byte s x)"

lemma write_other:
  assumes "ok s" "blk s p n" "confined p k f s" "k \<le> n" "blk s q m" "q \<noteq> p" "i < m"
  shows "byte (upd f s) (q + of_nat i) = byte s (q + of_nat i)"
proof -
  have ap: "apart p n q m" using blk_disjoint [OF assms(1,2,5)] assms(6) by blast
  have "unat (q + of_nat i) = unat q + i"
    using blk_bound [OF assms(1,5)] assms(7) by (intro unat_add_of_nat) simp
  then have "f (q + of_nat i) = byte s (q + of_nat i)"
    using assms(3,4,7) ap by (auto simp: confined_def apart_def)
  then show ?thesis by (simp add: upd_byte)
qed

lemma write_tail:
  assumes "ok s" "blk s p n" "confined p k f s" "k \<le> i" "i < n"
  shows "byte (upd f s) (p + of_nat i) = byte s (p + of_nat i)"
proof -
  have "unat (p + of_nat i) = unat p + i"
    using blk_bound [OF assms(1,2)] assms(5) by (intro unat_add_of_nat) simp
  then show ?thesis using assms(3,4) by (simp add: confined_def upd_byte)
qed

end

lemma live_bound: "mem_inv s \<Longrightarrow> live s p n \<Longrightarrow> unat p + n \<le> 2 ^ 56"
  using live_region [of s p n] region_live_bound(2) [of s] by fastforce

interpretation heap: block_store mem_inv live g_bytes "\<lambda>f s. s\<lparr>g_bytes := f\<rparr>"
proof unfold_locales
  fix s p n q m assume "mem_inv s" "live s p n" "live s q m"
  then show "p = q \<and> n = m \<or> apart p n q m" by (rule live_disjoint)
next
  fix s p n assume "mem_inv s" "live s p n"
  then have "unat p + n \<le> 2 ^ 56" by (rule live_bound)
  then show "unat p + n < 2 ^ 64" by simp
next
  fix f s show "mem_inv (s\<lparr>g_bytes := f\<rparr>) \<longleftrightarrow> mem_inv s" by (rule mem_inv_cong) simp_all
next
  fix f s show "live (s\<lparr>g_bytes := f\<rparr>) = live s" by (intro ext live_cong) simp_all
qed simp

lemma ainv_bytes: "ainv (s\<lparr>g_bytes := f\<rparr>) \<longleftrightarrow> ainv s"
  using heap.upd_ok [of f s] class_lists_cong [of "s\<lparr>g_bytes := f\<rparr>" s "{}"]
  by (simp add: ainv_def class_head_def)

section \<open>memset and memcpy on a block\<close>

lemma range_acc_live:
  assumes "mem_inv s" "live s p n" "unat k \<le> n"
  shows "range_acc s p k"
  using live_acc [OF assms(1,2)] assms(3) by (simp add: range_acc_def)

lemma live_in_range:
  assumes "mem_inv s" "live s p n" "unat k \<le> n"
  shows "in_range p k x \<longleftrightarrow> unat p \<le> unat x \<and> unat x < unat p + unat k"
  using live_bound [OF assms(1,2)] assms(3) by (intro in_range_iff) simp

lemma memset0_block:
  assumes "ainv s" "live s p n" "unat k \<le> n"
  shows "\<exists>s'. memset0 p k s = Some s' \<and> ainv s' \<and> live s' = live s \<and> g_ready s' = g_ready s \<and> tkey_ok s' = tkey_ok s \<and>
    g_res_bump s' = g_res_bump s \<and> g_runs s' = g_runs s \<and>
    (\<forall>i<unat k. g_bytes s' (p + of_nat i) = 0) \<and>
    (\<forall>q m i. live s q m \<longrightarrow> q \<noteq> p \<longrightarrow> i < m \<longrightarrow> g_bytes s' (q + of_nat i) = g_bytes s (q + of_nat i))"
proof -
  have mi: "mem_inv s" using assms(1) by (simp add: ainv_def)
  note rng = live_in_range [OF mi assms(2,3)]
  let ?f = "\<lambda>x. if in_range p k x then 0 else g_bytes s x"
  let ?s = "s\<lparr>g_bytes := ?f\<rparr>"
  have w: "heap.confined p (unat k) ?f s" by (auto simp: heap.confined_def rng)
  have "memset0 p k s = Some ?s"
    using range_acc_live [OF mi assms(2,3)] by (simp add: memset0_def zero_range_def)
  moreover have "ainv ?s" "live ?s = live s" using assms(1) ainv_bytes heap.upd_blk by auto
  moreover have "g_bytes ?s (p + of_nat i) = 0" if "i < unat k" for i
  proof -
    have "unat (p + of_nat i) = unat p + i"
      using live_bound [OF mi assms(2)] assms(3) that by (intro unat_add_of_nat) simp
    then show ?thesis using that by (simp add: rng)
  qed
  moreover have "g_bytes ?s (q + of_nat i) = g_bytes s (q + of_nat i)" if "live s q m" "q \<noteq> p" "i < m" for q m i
    by (rule heap.write_other [OF mi assms(2) w assms(3) that])
  ultimately show ?thesis by (intro exI [of _ ?s]) simp
qed

lemma memcpy_block:
  assumes "ainv s" "live s p n" "unat k \<le> n" "live s src m" "unat k \<le> m"
  shows "\<exists>s'. memcpy p src k s = Some s' \<and> s' = s\<lparr>g_bytes := g_bytes s'\<rparr> \<and>
    (\<forall>i<unat k. g_bytes s' (p + of_nat i) = g_bytes s (src + of_nat i)) \<and>
    (\<forall>q m i. live s q m \<longrightarrow> q \<noteq> p \<longrightarrow> i < m \<longrightarrow> g_bytes s' (q + of_nat i) = g_bytes s (q + of_nat i))"
proof -
  have mi: "mem_inv s" using assms(1) by (simp add: ainv_def)
  note rng = live_in_range [OF mi assms(2,3)]
  let ?f = "\<lambda>x. if in_range p k x then g_bytes s (src + (x - p)) else g_bytes s x"
  let ?s = "s\<lparr>g_bytes := ?f\<rparr>"
  have w: "heap.confined p (unat k) ?f s" by (auto simp: heap.confined_def rng)
  have "memcpy p src k s = Some ?s"
    using range_acc_live [OF mi assms(2,3)] range_acc_live [OF mi assms(4,5)] by (simp add: memcpy_def copy_range_def)
  moreover have "g_bytes ?s (p + of_nat i) = g_bytes s (src + of_nat i)" if "i < unat k" for i
  proof -
    have "unat (p + of_nat i) = unat p + i"
      using live_bound [OF mi assms(2)] assms(3) that by (intro unat_add_of_nat) simp
    then show ?thesis using that by (simp add: rng)
  qed
  moreover have "g_bytes ?s (q + of_nat i) = g_bytes s (q + of_nat i)" if "live s q m" "q \<noteq> p" "i < m" for q m i
    by (rule heap.write_other [OF mi assms(2) w assms(3) that])
  ultimately show ?thesis by (intro exI [of _ ?s]) simp
qed

section \<open>calloc\<close>

lemma calloc_ok:
  assumes inv: "ainv s" and rd: "g_ready s" and nw: "unat nm * unat sz < 2 ^ 64" "roomy s (unat nm * unat sz)"
  shows "\<exists>p s'. calloc os tid nm sz s = Some (p, s') \<and> alloc_result s (max 1 (unat nm * unat sz)) p s' \<and>
    (p \<noteq> 0 \<longrightarrow> (\<forall>i<unat nm * unat sz. g_bytes s' (p + of_nat i) = 0))"
proof -
  have u: "unat (nm * sz) = unat nm * unat sz" using nw(1) by (intro unat_mult_no_wrap) simp
  have "roomy s (unat (nm * sz))" using nw(2) u by simp
  from malloc_ok [OF inv rd this, of os tid] obtain p s1 where
    m: "malloc os tid (nm * sz) s = Some (p, s1)" "alloc_result s (max 1 (unat nm * unat sz)) p s1" using u by auto
  have eq: "calloc os tid nm sz s = (if p \<noteq> 0 then do { s2 \<leftarrow> memset0 p (nm * sz) s1; Some (p, s2) } else Some (p, s1))"
    using nw(1) m(1) by (simp add: calloc_def)
  show ?thesis
  proof (cases "p = 0")
    case True
    then show ?thesis using eq m(2) by simp
  next
    case False
    with m(2) obtain k where k: "max 1 (unat nm * unat sz) \<le> k" "\<forall>x j. live s1 x j \<longleftrightarrow> live s x j \<or> x = p \<and> j = k"
      "\<forall>k. \<not> live s p k" "ainv s1" "contents_kept s s1" "g_ready s1 = g_ready s" "tkey_ok s1 = tkey_ok s" "runs_kept s s1"
      unfolding alloc_result_def by auto
    have lp: "live s1 p k" using k(2) by simp
    have uk: "unat (nm * sz) \<le> k" using k(1) u by simp
    from memset0_block [OF k(4) lp uk] obtain s2 where s2: "memset0 p (nm * sz) s1 = Some s2" "ainv s2" "live s2 = live s1" "g_runs s2 = g_runs s1"
      "g_ready s2 = g_ready s1" "tkey_ok s2 = tkey_ok s1" "\<forall>i<unat (nm * sz). g_bytes s2 (p + of_nat i) = 0"
      "\<forall>q m i. live s1 q m \<longrightarrow> q \<noteq> p \<longrightarrow> i < m \<longrightarrow> g_bytes s2 (q + of_nat i) = g_bytes s1 (q + of_nat i)" by blast
    have "contents_kept s s2" unfolding contents_kept_def
    proof (intro allI impI)
      fix q m i assume l: "live s q m" "i < m"
      then have "q \<noteq> p" "live s1 q m" using k(2,3) by auto
      then show "g_bytes s2 (q + of_nat i) = g_bytes s (q + of_nat i)"
        using s2(8) k(5) l unfolding contents_kept_def by simp
    qed
    then have "alloc_result s (max 1 (unat nm * unat sz)) p s2"
      unfolding alloc_result_def using False s2(2,3,5,6) k runs_kept_trans [OF k(8) runs_kept_same [OF s2(4)]] by auto
    then show ?thesis using eq False s2(1,7) u by auto
  qed
qed

section \<open>realloc\<close>

text \<open>A small block that \<open>free\<close> and \<open>realloc\<close> recognise.\<close>

definition freeable :: "alloc \<Rightarrow> u64 \<Rightarrow> nat \<Rightarrow> bool" where
  "freeable s p n \<longleftrightarrow> (\<exists>a r i. g_runs s a = Some r \<and> used_blk r i \<and> reachable_blk (unat (r_cls r)) i \<and>
     p = blk_addr (unat (r_cls r)) a i \<and> n = elem_n (unat (r_cls r)))"

lemma freeable_live: "freeable s p n \<Longrightarrow> live s p n"
  unfolding freeable_def using live_smallI by blast

lemma free_ok:
  assumes "ainv s" "freeable s p n"
  shows "\<exists>s'. free os tid p s = Some s' \<and> ainv s' \<and> (\<forall>x k. live s' x k \<longleftrightarrow> live s x k \<and> x \<noteq> p) \<and>
    g_bytes s' = g_bytes s \<and> g_acc s' = g_acc s \<and> g_res_bump s' = g_res_bump s \<and> g_ready s' = g_ready s"
  using assms(2) free_small_ok [OF assms(1)] unfolding freeable_def by blast

lemma realloc_lookup_ok:
  assumes inv: "ainv s" and fr: "freeable s p n"
  shows "\<exists>old. realloc_lookup p s = Some (old, True) \<and> unat old = n" "p \<noteq> 0"
proof -
  have mi: "mem_inv s" using inv by (simp add: ainv_def)
  obtain a r i where b: "g_runs s a = Some r" "used_blk r i" "reachable_blk (unat (r_cls r)) i"
    "p = blk_addr (unat (r_cls r)) a i" "n = elem_n (unat (r_cls r))" using fr unfolding freeable_def by blast
  note f = run_facts [OF mi b(1)]
  have i: "i < elems_n (unat (r_cls r))" using used_blk_lt b(2) f(2) by blast
  note os = ours_small_reachable [OF mi b(1) i b(3), folded b(4)]
  have "in_reserve s p" unfolding b(4) by (rule blk_in_reserve [OF mi b(1) i])
  then have "realloc_lookup p s = Some (ucast (r_elem r), True)"
    using os b(1) reserve_start_nz [OF inv] by (simp add: realloc_lookup_def run_view_def)
  moreover have "unat (ucast (r_elem r) :: u64) = n"
    using run_staticD(5) [OF f(2)] b(5) elem_n_bounds(2) [OF f(1)] by (simp add: unat_ucast_small)
  ultimately show "\<exists>old. realloc_lookup p s = Some (old, True) \<and> unat old = n" by blast
  show "p \<noteq> 0" unfolding b(4) by (rule blk_addr_nz [OF inv b(1) i])
qed

lemma freeable_kept:
  assumes "runs_kept s s'" "freeable s p n"
  shows "freeable s' p n"
proof -
  obtain a r i where b: "g_runs s a = Some r" "used_blk r i" "reachable_blk (unat (r_cls r)) i"
    "p = blk_addr (unat (r_cls r)) a i" "n = elem_n (unat (r_cls r))" using assms(2) unfolding freeable_def by blast
  from assms(1) b(1) obtain r' where r': "g_runs s' a = Some r'" "r_cls r' = r_cls r" "r_elems r' = r_elems r"
    "free_set r' \<subseteq> free_set r" unfolding runs_kept_def by blast
  then have "used_blk r' i" using b(2) by (auto simp: used_blk_def)
  with b r' show ?thesis unfolding freeable_def by metis
qed

lemma realloc_in_place:
  assumes "ainv s" "freeable s p old" "0 < unat n" "unat n \<le> old" "old < 2097153" "old div 2 < unat n"
  shows "realloc os tid p n s = Some (p, s)"
proof -
  obtain o' where o': "realloc_lookup p s = Some (o', True)" "unat o' = old" using realloc_lookup_ok(1) [OF assms(1,2)] by blast
  have "n \<le> o'" "o' < kLargeMin" "o' div 2 < n" "n \<noteq> 0"
    using assms(3-6) o'(2) by (auto simp: word_le_nat_alt word_less_nat_alt kLargeMin_def unat_div)
  then show ?thesis using o'(1) realloc_lookup_ok(2) [OF assms(1,2)] by (simp add: realloc_def)
qed

lemma realloc_move:
  assumes inv: "ainv s" and rd: "g_ready s" and fr: "freeable s p old" and n: "0 < unat n" "roomy s (unat n)"
    and move: "\<not> (unat n \<le> old \<and> old < 2097153 \<and> old div 2 < unat n)"
  shows "\<exists>q s'. realloc os tid p n s = Some (q, s') \<and> ainv s' \<and> g_ready s' \<and>
    (q = 0 \<longrightarrow> (\<forall>x k. live s' x k \<longleftrightarrow> live s x k) \<and> contents_kept s s') \<and>
    (q \<noteq> 0 \<longrightarrow> (\<exists>m\<ge>unat n. (\<forall>k. \<not> live s q k) \<and> (\<forall>x k. live s' x k \<longleftrightarrow> live s x k \<and> x \<noteq> p \<or> x = q \<and> k = m)) \<and>
       (\<forall>i<min old (unat n). g_bytes s' (q + of_nat i) = g_bytes s (p + of_nat i)) \<and>
       (\<forall>x k i. live s x k \<longrightarrow> x \<noteq> p \<longrightarrow> i < k \<longrightarrow> g_bytes s' (x + of_nat i) = g_bytes s (x + of_nat i)))"
proof -
  obtain o' where o': "realloc_lookup p s = Some (o', True)" "unat o' = old" using realloc_lookup_ok(1) [OF inv fr] by blast
  have nz: "n \<noteq> 0" "p \<noteq> 0" using n(1) realloc_lookup_ok(2) [OF inv fr] by auto
  have mv: "\<not> (n \<le> o' \<and> o' < kLargeMin \<and> n > o' div 2)"
    using move o'(2) by (simp add: word_le_nat_alt word_less_nat_alt kLargeMin_def unat_div)
  from malloc_ok [OF inv rd n(2), of os tid] obtain q s1 where
    m: "malloc os tid n s = Some (q, s1)" "alloc_result s (max 1 (unat n)) q s1" by auto
  define k where "k = (if o' < n then o' else n)"
  have uk: "unat k = min old (unat n)" using o'(2) by (simp add: k_def word_less_nat_alt)
  have eq: "realloc os tid p n s = (if q \<noteq> 0 then do { s2 \<leftarrow> memcpy q p k s1; s3 \<leftarrow> free os tid p s2; Some (q, s3) }
     else Some (q, s1))"
    by (simp add: realloc_def k_def nz o'(1) m(1) if_not_P [OF mv])
  show ?thesis
  proof (cases "q = 0")
    case True
    then show ?thesis using eq m(2) rd unfolding alloc_result_def by auto
  next
    case False
    with m(2) obtain j where j: "max 1 (unat n) \<le> j" "\<forall>x i. live s1 x i \<longleftrightarrow> live s x i \<or> x = q \<and> i = j"
      "\<forall>k. \<not> live s q k" "ainv s1" "contents_kept s s1" "runs_kept s s1" "g_ready s1 = g_ready s"
      unfolding alloc_result_def by auto
    have lq: "live s1 q j" and lp: "live s1 p old" using j(2) freeable_live [OF fr] by simp_all
    have pq: "p \<noteq> q" using j(3) freeable_live [OF fr] by auto
    have kj: "unat k \<le> j" "unat k \<le> old" using uk j(1) by linarith+
    from memcpy_block [OF j(4) lq kj(1) lp kj(2)] obtain s2 where s2: "memcpy q p k s1 = Some s2"
      "s2 = s1\<lparr>g_bytes := g_bytes s2\<rparr>" "\<forall>i<unat k. g_bytes s2 (q + of_nat i) = g_bytes s1 (p + of_nat i)"
      "\<forall>x m i. live s1 x m \<longrightarrow> x \<noteq> q \<longrightarrow> i < m \<longrightarrow> g_bytes s2 (x + of_nat i) = g_bytes s1 (x + of_nat i)" by blast
    have i2: "ainv s2" using j(4) s2(2) ainv_bytes by metis
    have "live s2 = live s1" by (subst s2(2)) (rule heap.upd_blk)
    have "g_runs s2 = g_runs s1" by (subst s2(2)) simp
    then have "freeable s2 p old" using freeable_kept [OF j(6) fr] by (simp add: freeable_def)
    from free_ok [OF i2 this, of os tid] obtain s3 where s3: "free os tid p s2 = Some s3" "ainv s3"
      "\<forall>x k. live s3 x k \<longleftrightarrow> live s2 x k \<and> x \<noteq> p" "g_bytes s3 = g_bytes s2" "g_ready s3 = g_ready s2" by blast
    have rdy: "g_ready s3" using s3(5) j(7) rd by (subst (asm) s2(2)) simp
    have run: "realloc os tid p n s = Some (q, s3)" using eq False s2(1) s3(1) by simp
    have lv: "live s3 x i \<longleftrightarrow> live s x i \<and> x \<noteq> p \<or> x = q \<and> i = j" for x i
      using s3(3) \<open>live s2 = live s1\<close> j(2) pq by auto
    have cp: "g_bytes s3 (q + of_nat i) = g_bytes s (p + of_nat i)" if "i < min old (unat n)" for i
      using that s2(3) s3(4) uk j(5) freeable_live [OF fr] by (simp add: contents_kept_def)
    have other: "g_bytes s3 (x + of_nat i) = g_bytes s (x + of_nat i)" if l: "live s x m" "x \<noteq> p" "i < m" for x m i
    proof -
      have "x \<noteq> q" "live s1 x m" using l(1) j(2,3) by auto
      then show ?thesis using s2(4) s3(4) l j(5) by (simp add: contents_kept_def)
    qed
    have "\<exists>m\<ge>unat n. (\<forall>k. \<not> live s q k) \<and> (\<forall>x k. live s3 x k \<longleftrightarrow> live s x k \<and> x \<noteq> p \<or> x = q \<and> k = m)"
      using j(1,3) lv by (intro exI [of _ j]) simp
    then show ?thesis using run s3(2) rdy False cp other by (intro exI [of _ q] exI [of _ s3]) simp
  qed
qed

section \<open>posix_memalign\<close>

lemma power_of_two_mask:
  assumes "x \<noteq> 0" "x AND (x - 1) = (0 :: u64)"
  shows "\<exists>k<64. x = 2 ^ k"
proof -
  note c = ctz64_lowest [OF assms(1)]
  have u: "unset_bit (ctz64 x) x = 0" using clear_lowest_bit [OF assms(1)] assms(2) by simp
  have "x = 2 ^ ctz64 x"
  proof (rule bit_word_eqI)
    fix i assume i: "i < LENGTH(64)"
    have "bit (unset_bit (ctz64 x) x) i \<longleftrightarrow> bit x i \<and> i \<noteq> ctz64 x" by (auto simp: bit_simps)
    then have "bit x i \<longleftrightarrow> i = ctz64 x" using u c(1) by auto
    then show "bit x i \<longleftrightarrow> bit (2 ^ ctz64 x :: u64) i" using i by (auto simp: bit_simps)
  qed
  then show ?thesis using c(2) by blast
qed

lemma posix_memalign_einval:
  "posix_memalign os tid True al n s = Some (EINVAL, None, s)"
  "8 \<le> al \<Longrightarrow> al AND (al - 1) \<noteq> 0 \<Longrightarrow> posix_memalign os tid False al n s = Some (EINVAL, None, s)"
  by (simp_all add: posix_memalign_def leD)

lemma posix_memalign_ok:
  assumes inv: "ainv s" and rd: "g_ready s" and al: "max 8 (unat al) = 2 ^ k" and rm: "roomy s (unat n + 2 ^ k + 4096)"
  shows "\<exists>code out s'. posix_memalign os tid False al n s = Some (code, out, s') \<and> ainv s' \<and> g_ready s' \<and> contents_kept s s' \<and>
    (code = 0 \<and> (\<exists>q p m. out = Some q \<and> 2 ^ k dvd unat q \<and> live s' p m \<and> (\<forall>j. \<not> live s p j) \<and>
        unat p \<le> unat q \<and> unat q + unat n \<le> unat p + m \<and> (\<forall>x j. live s' x j \<longleftrightarrow> live s x j \<or> x = p \<and> j = m)) \<or>
     code = ENOMEM \<and> out = None \<and> (\<forall>x j. live s' x j \<longleftrightarrow> live s x j))"
proof -
  define a where "a = (if al < 8 then 8 else al)"
  have ua: "unat a = 2 ^ k" using al by (auto simp: a_def word_less_nat_alt)
  have lt: "(2 :: nat) ^ k < 2 ^ 64" using unsigned_less [of a, where ?'a = nat] ua by simp
  then have k: "k < 64" using power_less_imp_less_exp [of 2 k 64] by simp
  have a2: "a = 2 ^ k" using ua k by (simp add: word_unat_eq_iff unat_pow2)
  have pow: "a AND (a - 1) = 0"
    unfolding a2 by (intro bit_word_eqI) (auto simp: bit_simps mask_eq_exp_minus_1 [symmetric])
  define need where "need = n + a + 4096"
  have un: "unat need = unat n + 2 ^ k + 4096"
  proof -
    have "unat (n + a) = unat n + 2 ^ k" using rm ua by (subst unat_add_no_wrap) (simp_all add: roomy_def)
    then show ?thesis using rm unfolding need_def by (subst unat_add_no_wrap) (simp_all add: roomy_def)
  qed
  have "roomy s (unat need)" using rm un by simp
  from malloc_ok [OF inv rd this, of os tid] obtain p s1 where
    m: "malloc os tid need s = Some (p, s1)" "alloc_result s (max 1 (unat need)) p s1" by auto
  have eq: "posix_memalign os tid False al n s = (if p = 0 then Some (ENOMEM, None, s1) else Some (0, Some (align_up p a), s1))"
    unfolding posix_memalign_def a_def [symmetric] Let_def need_def [symmetric] using pow m(1) by simp
  show ?thesis
  proof (cases "p = 0")
    case True
    then show ?thesis using eq m(2) rd by (auto simp: alloc_result_def)
  next
    case False
    with m(2) obtain j where j: "max 1 (unat need) \<le> j" "\<forall>x i. live s1 x i \<longleftrightarrow> live s x i \<or> x = p \<and> i = j"
      "\<forall>k. \<not> live s p k" "ainv s1" "contents_kept s s1" "g_ready s1" using rd unfolding alloc_result_def by auto
    have lp: "live s1 p j" using j(2) by simp
    then have pb: "unat p + j \<le> 2 ^ 56" using live_bound j(4) by (auto simp: ainv_def)
    then have "unat p + 2 ^ k < 2 ^ 64" using j(1) un by simp
    note au = align_up_pow2 [OF k this, folded a2]
    have "unat (align_up p a) + unat n \<le> unat p + j" using au(2) un j(1) by simp
    then show ?thesis using eq False j lp au(1,3)
      by (intro exI [of _ 0] exI [of _ "Some (align_up p a)"] exI [of _ s1]) (auto intro!: exI [of _ p] exI [of _ j])
  qed
qed

end
