(* ===== verification/AllocHeap.thy ===== *)
theory AllocHeap
  imports AllocClients
begin

text \<open>
  The allocator as a state machine and its correctness properties: the states reached from the
  initialised allocator by \<open>malloc\<close>, \<open>free\<close> of recognisable blocks and rounds of the background
  thread, and what each entry point does in such a state.
\<close>

section \<open>Initialisation\<close>

text \<open>The kernel placed the reserve in user space.\<close>

definition reserve_at :: "os \<Rightarrow> u64 \<Rightarrow> bool" where
  "reserve_at os p \<longleftrightarrow> mmap_reserve os = Some p \<and> p \<noteq> 0 \<and> unat p + 2 ^ 40 \<le> 2 ^ 56"

lemma unat_kReserveSize: "unat kReserveSize = 2 ^ 40"
  by (simp add: kReserveSize_def)

lemma read_env_fields:
  "g_runs (read_env os s) = g_runs s" "g_larges (read_env os s) = g_larges s" "g_acc (read_env os s) = g_acc s"
  "g_res_start (read_env os s) = g_res_start s" "g_res_end (read_env os s) = g_res_end s"
  "g_res_bump (read_env os s) = g_res_bump s" "g_cls (read_env os s) = g_cls s" "tls (read_env os s) = tls s"
  "g_bytes (read_env os s) = g_bytes s" "g_once_done (read_env os s) = g_once_done s" "g_started (read_env os s) = g_started s"
  by (simp_all add: read_env_def Let_def split: option.splits)

lemma ensure_init_initial:
  assumes "reserve_at os p"
  defines "s \<equiv> ensure_init os alloc_initial"
  shows "g_runs s = Map.empty" "g_larges s = Map.empty" "g_res_start s = p" "g_res_end s = p + kReserveSize"
    "g_res_bump s = p" "g_cls s = replicate 68 class_empty" "tls s = (\<lambda>_. None)" "g_ready s" "g_started s" "g_bytes s = (\<lambda>_. 0)"
  using assms(1) unfolding s_def reserve_at_def
  by (simp_all add: ensure_init_def Let_def alloc_initial_def reserve_init_def do_init_def start_trim_def read_env_fields)

lemma ainv_initial:
  assumes "reserve_at os p"
  shows "ainv (ensure_init os alloc_initial)"
proof -
  note f = ensure_init_initial [OF assms]
  let ?s = "ensure_init os alloc_initial"
  have "unat (p + kReserveSize) = unat p + 2 ^ 40"
    using assms by (subst unat_add_no_wrap) (simp_all add: reserve_at_def unat_kReserveSize)
  then have "res_ok ?s" using assms by (simp add: res_ok_def f reserve_at_def)
  then have "mem_inv ?s" by (simp add: mem_inv_def f region_def)
  moreover have "class_lists ?s {}"
    by (auto simp: class_lists_def f runs_of_class_def class_head_def class_empty_def intro!: exI [of _ "[]"])
  ultimately show ?thesis by (simp add: ainv_def)
qed

text \<open>A concrete system for the examples: the reserve at \<open>2^44\<close>, every fixed mapping of at most
  \<open>2^40\<close> bytes granted, no environment variables.\<close>

definition demo_os :: os where
  "demo_os = \<lparr>clock = (\<lambda>n. (of_nat n, 0)), mmap_reserve = Some 17592186044416,
     mmap_fixed_ok = (\<lambda>_ _ sz. sz \<le> kReserveSize), mmap_anywhere = (\<lambda>_ _. None),
     key_create_ok = True, pthread_create_ok = True, getenv = (\<lambda>_. None),
     libc_free_found = True, libc_realloc = None, page_size = 4096\<rparr>"

definition demo_start :: alloc where
  "demo_start = ensure_init demo_os alloc_initial"

lemma demo_reserve: "reserve_at demo_os 17592186044416"
  by (simp add: reserve_at_def demo_os_def)

lemma demo_bump: "g_res_bump demo_start = 17592186044416"
  unfolding demo_start_def by (rule ensure_init_initial(5) [OF demo_reserve])

section \<open>The state machine\<close>

text \<open>The calls of a client, the rounds of the background thread, and the bytes the client writes to its blocks.\<close>

inductive heap_step :: "os \<Rightarrow> alloc \<Rightarrow> alloc \<Rightarrow> bool" for os where
  step_malloc: "roomy s (unat n) \<Longrightarrow> malloc os tid n s = Some (p, s') \<Longrightarrow> heap_step os s s'"
| step_calloc: "unat nm * unat sz < 2 ^ 64 \<Longrightarrow> roomy s (unat nm * unat sz) \<Longrightarrow> calloc os tid nm sz s = Some (p, s') \<Longrightarrow>
    heap_step os s s'"
| step_realloc: "freeable s q k \<Longrightarrow> 0 < unat n \<Longrightarrow> roomy s (unat n) \<Longrightarrow> realloc os tid q n s = Some (p, s') \<Longrightarrow>
    heap_step os s s'"
| step_memalign: "max 8 (unat al) = 2 ^ k \<Longrightarrow> roomy s (unat n + 2 ^ k + 4096) \<Longrightarrow>
    posix_memalign os tid False al n s = Some (code, out, s') \<Longrightarrow> heap_step os s s'"
| step_free: "freeable s p k \<Longrightarrow> free os tid p s = Some s' \<Longrightarrow> heap_step os s s'"
| step_trim: "trim_round os s = Some s' \<Longrightarrow> heap_step os s s'"
| step_write: "live s p n \<Longrightarrow> i < n \<Longrightarrow> heap_step os s (s\<lparr>g_bytes := (g_bytes s)(p + of_nat i := v)\<rparr>)"

inductive heap_reach :: "os \<Rightarrow> alloc \<Rightarrow> bool" for os where
  reach_init: "reserve_at os p \<Longrightarrow> heap_reach os (ensure_init os alloc_initial)"
| reach_step: "heap_reach os s \<Longrightarrow> heap_step os s s' \<Longrightarrow> heap_reach os s'"

lemma heap_step_inv:
  assumes "heap_step os s s'" "ainv s" "g_ready s"
  shows "ainv s' \<and> g_ready s'"
  using assms
proof (cases rule: heap_step.cases)
  case (step_malloc n tid p)
  then show ?thesis using malloc_ok [OF assms(2,3) step_malloc(1), of os tid] assms(3) by (auto simp: alloc_result_def)
next
  case (step_calloc nm sz tid p)
  then show ?thesis using calloc_ok [OF assms(2,3) step_calloc(1,2), of os tid] assms(3) by (auto simp: alloc_result_def)
next
  case (step_realloc q k n tid p)
  show ?thesis
  proof (cases "unat n \<le> k \<and> k < 2097153 \<and> k div 2 < unat n")
    case True
    then show ?thesis using realloc_in_place [OF assms(2) step_realloc(1,2), of os tid] step_realloc(4) assms(2,3) by simp
  next
    case False
    then show ?thesis using realloc_move [OF assms(2,3) step_realloc(1-3) False, of os tid] step_realloc(4) by auto
  qed
next
  case (step_memalign al k n tid code out)
  then show ?thesis using posix_memalign_ok [OF assms(2,3) step_memalign(1,2), of os tid] by auto
next
  case (step_free p k tid)
  then show ?thesis using free_ok [OF assms(2) step_free(1), of os tid] assms(3) by auto
next
  case step_trim
  then show ?thesis using trim_round_ok [OF assms(2), of os] assms(3) by (auto simp: trim_step_def)
next
  case step_write
  then show ?thesis using assms(2,3) by (simp add: ainv_bytes)
qed

lemma heap_reach_inv: "heap_reach os s \<Longrightarrow> ainv s \<and> g_ready s"
proof (induction rule: heap_reach.induct)
  case (reach_init p)
  then show ?case using ainv_initial ensure_init_initial(8) by blast
next
  case (reach_step s s')
  then show ?case using heap_step_inv by blast
qed

lemma heap_reachD:
  assumes "heap_reach os s"
  shows "ainv s" "g_ready s" "mem_inv s"
  using heap_reach_inv [OF assms] by (simp_all add: ainv_def)

lemma demo_reach: "heap_reach demo_os demo_start"
  unfolding demo_start_def by (rule reach_init [OF demo_reserve])

section \<open>Properties\<close>

subsection \<open>The heap as a whole\<close>

text \<open>C1. In every state reached from initialisation by \<open>malloc\<close>, \<open>calloc\<close>, \<open>realloc\<close>, \<open>posix_memalign\<close>,
  \<open>free\<close> of recognisable blocks, trim rounds and any writes to live blocks, two different live blocks share no byte, and
  every byte of a live block is mapped.\<close>

theorem live_blocks_separate:
  assumes "heap_reach os s" "live s p n" "live s q m" "i < n" "j < m" "p + of_nat i = q + of_nat j"
  shows "p = q \<and> n = m \<and> g_acc s (p + of_nat i)"
proof -
  note r = heap_reachD [OF assms(1)]
  have b: "unat p + n \<le> 2 ^ 56" "unat q + m \<le> 2 ^ 56" using live_bound r(3) assms(2,3) by auto
  have "unat p + i = unat q + j"
    using assms(4-6) b unat_add_of_nat [of p i] unat_add_of_nat [of q j] by simp
  then have "p = q \<and> n = m"
    using live_disjoint [OF r(3) assms(2,3)] assms(4,5) by (auto simp: apart_def)
  then show ?thesis using live_acc [OF r(3) assms(2,4)] by simp
qed

text \<open>The state after \<open>malloc(100)\<close> in the demonstration system.\<close>

definition demo_100 :: alloc where
  "demo_100 = snd (the (malloc demo_os 0 100 demo_start))"

lemma demo_malloc_100: "malloc demo_os 0 100 demo_start = Some (17592186048512, demo_100)"
proof -
  have "map_option fst (malloc demo_os 0 100 (ensure_init demo_os alloc_initial)) = Some 17592186048512" by code_simp
  then show ?thesis unfolding demo_100_def demo_start_def by (auto simp: map_option_eq_Some)
qed

lemma demo_roomy: "n < 2 ^ 63 \<Longrightarrow> roomy demo_start n"
  by (simp add: roomy_def demo_bump)

lemma demo_100_reach: "heap_reach demo_os demo_100"
proof (rule reach_step [OF demo_reach])
  have "roomy demo_start (unat (100 :: u64))" by (simp add: demo_roomy)
  then show "heap_step demo_os demo_start demo_100" using demo_malloc_100 by (rule step_malloc)
qed

lemma demo_100_run: "\<exists>r. g_runs demo_100 17592186044416 = Some r \<and> r_cls r = 11 \<and> r_elems r = 18724 \<and> used_blk r 0"
proof -
  have "(case malloc demo_os 0 100 (ensure_init demo_os alloc_initial) of Some (p, s) \<Rightarrow>
      (case g_runs s 17592186044416 of Some r \<Rightarrow> r_cls r = 11 \<and> r_elems r = 18724 \<and> \<not> blk_free (r_bits r) 0 | None \<Rightarrow> False)
    | None \<Rightarrow> False)" by code_simp
  then show ?thesis unfolding demo_100_def demo_start_def
    by (auto simp: used_blk_def free_set_def split: option.splits)
qed

lemma doff_11: "doff_n 11 = 4096" "elem_n 11 = 112"
proof -
  have e: "elem_n 11 = 112" by (simp add: elem_n_def kSizes_def)
  then show "elem_n 11 = 112" .
  show "doff_n 11 = 4096" by (simp add: doff_n_def words_n_def elems_n_def e)
qed

lemma demo_100_freeable: "freeable demo_100 17592186048512 112"
proof -
  obtain r where r: "g_runs demo_100 17592186044416 = Some r" "r_cls r = 11" "used_blk r 0" using demo_100_run by blast
  have u: "unat (r_cls r) = 11" using r(2) by simp
  have "reachable_blk 11 0" by (simp add: reachable_blk_def doff_11)
  moreover have "blk_addr 11 17592186044416 0 = 17592186048512" by (simp add: blk_addr_def doff_11)
  ultimately show ?thesis unfolding freeable_def
    using r u doff_11(2) by (intro exI [of _ 17592186044416] exI [of _ r] exI [of _ 0]) simp
qed

theorem live_blocks_separate_witness:
  "live demo_100 17592186048512 112 \<and> g_acc demo_100 (17592186048512 + of_nat 5)"
proof -
  have l: "live demo_100 17592186048512 112" using demo_100_freeable by (rule freeable_live)
  have "(5::nat) < 112" by simp
  from live_blocks_separate [OF demo_100_reach l l this this refl] l show ?thesis by simp
qed

subsection \<open>Allocation\<close>

text \<open>C3. From a reachable state \<open>malloc(n)\<close>, for every \<open>n\<close> for which the bump pointer does not wrap around (\<open>roomy\<close>), never faults. It either returns 0 and the live blocks are
  the same, or it returns the address of one new block of at least \<open>max 1 n\<close> bytes at which nothing
  was live; every other live block stays, with its contents, and the state is reachable again.\<close>

theorem malloc_correct:
  assumes "heap_reach os s" "roomy s (unat n)"
  shows "\<exists>p s'. malloc os tid n s = Some (p, s') \<and> heap_reach os s' \<and> contents_kept s s' \<and>
    (p = 0 \<and> live s' = live s \<or>
     p \<noteq> 0 \<and> (\<exists>m \<ge> max 1 (unat n). (\<forall>k. \<not> live s p k) \<and> live s' = (\<lambda>x k. live s x k \<or> x = p \<and> k = m)))"
proof -
  note r = heap_reachD [OF assms(1)]
  from malloc_ok [OF r(1,2) assms(2), of os tid] obtain p s' where
    m: "malloc os tid n s = Some (p, s')" "alloc_result s (max 1 (unat n)) p s'" by blast
  have "heap_reach os s'" using reach_step [OF assms(1) step_malloc [OF assms(2) m(1)]] .
  moreover have "contents_kept s s'" using m(2) by (simp add: alloc_result_def)
  moreover have "p = 0 \<and> live s' = live s \<or> p \<noteq> 0 \<and> (\<exists>m \<ge> max 1 (unat n). (\<forall>k. \<not> live s p k) \<and>
      live s' = (\<lambda>x k. live s x k \<or> x = p \<and> k = m))"
  proof (cases "p = 0")
    case True
    then show ?thesis using m(2) by (auto simp: alloc_result_def)
  next
    case False
    with m(2) obtain j where "max 1 (unat n) \<le> j" "\<forall>x k. live s' x k \<longleftrightarrow> live s x k \<or> x = p \<and> k = j" "\<forall>k. \<not> live s p k"
      unfolding alloc_result_def by auto
    then show ?thesis using False by (intro disjI2 conjI exI [of _ j]) auto
  qed
  ultimately show ?thesis using m(1) by blast
qed

theorem malloc_correct_witness:
  "malloc demo_os 0 100 demo_start = Some (17592186048512, demo_100) \<and>
   live demo_100 17592186048512 112 \<and> \<not> live demo_start 17592186048512 112"
proof -
  have rm: "roomy demo_start (unat (100 :: u64))" by (simp add: demo_roomy)
  from malloc_correct [OF demo_reach rm, of 0] demo_malloc_100
  have "\<forall>k. \<not> live demo_start 17592186048512 k" by auto
  then show ?thesis using demo_malloc_100 freeable_live [OF demo_100_freeable] by simp
qed

text \<open>C21. From a reachable state \<open>calloc(nm, sz)\<close> whose product does not overflow and for which the bump pointer does not wrap
  behaves as \<open>malloc\<close> of the product, and all bytes asked for read as zero.\<close>

theorem calloc_correct:
  assumes "heap_reach os s" "unat nm * unat sz < 2 ^ 64" "roomy s (unat nm * unat sz)"
  shows "\<exists>p s'. calloc os tid nm sz s = Some (p, s') \<and> heap_reach os s' \<and> contents_kept s s' \<and>
    (p \<noteq> 0 \<longrightarrow> (\<exists>m \<ge> unat nm * unat sz. live s' p m \<and> (\<forall>k. \<not> live s p k)) \<and>
              (\<forall>i < unat nm * unat sz. g_bytes s' (p + of_nat i) = 0))"
proof -
  note r = heap_reachD [OF assms(1)]
  from calloc_ok [OF r(1,2) assms(2,3), of os tid] obtain p s' where
    m: "calloc os tid nm sz s = Some (p, s')" "alloc_result s (max 1 (unat nm * unat sz)) p s'"
    "p \<noteq> 0 \<longrightarrow> (\<forall>i<unat nm * unat sz. g_bytes s' (p + of_nat i) = 0)" by blast
  have "heap_reach os s'" using reach_step [OF assms(1) step_calloc [OF assms(2,3) m(1)]] .
  moreover have "contents_kept s s'" using m(2) by (simp add: alloc_result_def)
  moreover have "\<exists>m \<ge> unat nm * unat sz. live s' p m \<and> (\<forall>k. \<not> live s p k)" if "p \<noteq> 0"
    using m(2) that by (auto simp: alloc_result_def)
  ultimately show ?thesis using m(1,3) by blast
qed

theorem calloc_correct_witness:
  "unat (25::u64) * unat (4::u64) = 100 \<and> (\<exists>p s'. calloc demo_os 0 25 4 demo_start = Some (p, s') \<and> heap_reach demo_os s')"
proof -
  have h: "unat (25::u64) * unat (4::u64) < 2 ^ 64" "roomy demo_start (unat (25::u64) * unat (4::u64))"
    by (simp_all add: demo_roomy)
  from calloc_correct [OF demo_reach h, of 0] show ?thesis by auto
qed

text \<open>\<open>calloc\<close> and \<open>reallocarray\<close> with an overflowing product return 0, set \<open>errno\<close> and change
  nothing else.\<close>

theorem calloc_overflow:
  assumes "2 ^ 64 \<le> unat nm * unat sz"
  shows "calloc os tid nm sz s = Some (0, s\<lparr>g_enomem := True\<rparr>) \<and>
    reallocarray os tid p nm sz s = Some (0, s\<lparr>g_enomem := True\<rparr>)"
  using assms by (simp add: calloc_def reallocarray_def)

theorem calloc_overflow_witness:
  "unat (4294967296::u64) * unat (4294967296::u64) = 2 ^ 64 \<and>
   calloc demo_os 0 4294967296 4294967296 demo_start = Some (0, demo_start\<lparr>g_enomem := True\<rparr>)"
proof -
  have h: "2 ^ 64 \<le> unat (4294967296::u64) * unat (4294967296::u64)" by simp
  from calloc_overflow [OF this] show ?thesis by simp
qed

subsection \<open>Release\<close>

text \<open>C5. Freeing a small block that starts within the first 2 MiB of its run never faults, removes
  exactly this block from the live blocks, and changes no byte and no mapping.\<close>

theorem free_correct:
  assumes "heap_reach os s" "freeable s p n"
  shows "\<exists>s'. free os tid p s = Some s' \<and> heap_reach os s' \<and> live s' = (\<lambda>x k. live s x k \<and> x \<noteq> p) \<and>
    g_bytes s' = g_bytes s \<and> g_acc s' = g_acc s"
proof -
  from free_ok [OF heap_reachD(1) [OF assms(1)] assms(2), of os tid] obtain s' where
    f: "free os tid p s = Some s'" "\<forall>x k. live s' x k \<longleftrightarrow> live s x k \<and> x \<noteq> p" "g_bytes s' = g_bytes s" "g_acc s' = g_acc s" by blast
  moreover have "heap_reach os s'" using reach_step [OF assms(1) step_free [OF assms(2) f(1)]] .
  ultimately show ?thesis by (auto simp: fun_eq_iff)
qed

theorem free_correct_witness:
  "live demo_100 17592186048512 112 \<and>
   (\<exists>s'. free demo_os 0 17592186048512 demo_100 = Some s' \<and> \<not> live s' 17592186048512 112)"
  using free_correct [OF demo_100_reach demo_100_freeable, of 0] freeable_live [OF demo_100_freeable] by auto

text \<open>Where a small request comes from: a block of a run of its class, now in use.\<close>

lemma malloc_run_block:
  assumes inv: "ainv s" and c: "c < 68" and nw: "unat (g_res_bump s) + 2 ^ 23 < 2 ^ 64"
    and m: "malloc_run os c s = Some (p, s')" "p \<noteq> 0"
  shows "\<exists>a r i. g_runs s' a = Some r \<and> used_blk r i \<and> p = blk_addr (unat (r_cls r)) a i"
proof -
  have take: "\<exists>a r i. g_runs s' a = Some r \<and> used_blk r i \<and> p = blk_addr (unat (r_cls r)) a i"
    if a: "ainv t" "g_runs t a = Some r" "free_set r \<noteq> {}" "run_take os a t = Some (p, s')" for t a r
  proof -
    from run_take_ok [OF a(1-3), of os] obtain i r' where i: "p = blk_addr (unat (r_cls r)) a i" "i \<in> free_set r"
      "g_runs s' = (g_runs t)(a \<mapsto> r')" "r_cls r' = r_cls r" "r_elems r' = r_elems r" "free_set r' = free_set r - {i}"
      using a(4) by auto
    then have "used_blk r' i" by (simp add: used_blk_def free_set_def)
    then show ?thesis using i by (intro exI [of _ a] exI [of _ r'] exI [of _ i]) simp
  qed
  from find_run_ok [OF inv c] obtain a where a: "find_run s (class_head s c) = Some a"
    "a = 0 \<or> (\<exists>r. g_runs s a = Some r \<and> unat (r_cls r) = c + 1 \<and> free_set r \<noteq> {} \<and> a \<noteq> 0)" by blast
  show ?thesis
  proof (cases "a = 0")
    case False
    then show ?thesis using a m(1) take [OF inv] by (auto simp: malloc_run_def)
  next
    case True
    have co: "class_ok (c + 1)" using c by simp
    have "no_wrap s (run_msize (c + 1)) kRunSize"
      using nw unat_run_msize [OF co] map_n_bounds(3) [OF co] by (simp add: no_wrap_def kRunSize_eq)
    from run_new_ok [OF inv co this, of os] obtain b s1 where n: "run_new os (c + 1) s = Some (b, s1)" "ainv s1"
      "b \<noteq> 0 \<longrightarrow> (\<exists>r. g_runs s1 b = Some r \<and> unat (r_cls r) = c + 1 \<and> free_set r \<noteq> {})" by blast
    have "b \<noteq> 0" "run_take os b s1 = Some (p, s')" using a(1) True n(1) m by (auto simp: malloc_run_def split: if_splits)
    then show ?thesis using n(2,3) take by blast
  qed
qed

text \<open>And a large one: right behind its header.\<close>

lemma malloc_large_block:
  assumes "malloc_large os n s = Some (p, s')" "p \<noteq> 0"
  shows "\<exists>h. g_larges s' (p - sizeof_LargeHdr) = Some h"
  using assms by (auto simp: malloc_large_def Let_def put_large_def split: prod.splits if_splits)

text \<open>C18. What \<open>malloc\<close> followed by \<open>free\<close> of the result does. A block of at most 2 MiB comes from a run: if it starts within
  the first 2 MiB of the run, \<open>free\<close> never faults and restores the live blocks, with the contents of all of them
  kept; if it starts further on, \<open>free\<close> does not recognise it and changes nothing, so the block stays live for ever. A
  larger block makes \<open>free\<close> fault. (The last two as long as the bytes in front of the block do not spell a magic number.)\<close>

theorem malloc_free_roundtrip:
  assumes "heap_reach os s" "roomy s (unat n)" "malloc os tid n s = Some (p, s1)" "p \<noteq> 0"
  shows "(n < kLargeMin \<longrightarrow> (\<exists>a r. g_runs s1 a = Some r \<and> unat a < unat p \<and>
      (if unat p < unat a + 2097152
       then \<exists>s'. free os tid' p s1 = Some s' \<and> live s' = live s \<and> contents_kept s s'
       else unforged s1 p \<longrightarrow> free os tid' p s1 = Some s1))) \<and>
    (kLargeMin \<le> n \<longrightarrow> unforged s1 p \<longrightarrow> free os tid' p s1 = None)"
proof (intro conjI impI)
  note r = heap_reachD [OF assms(1)]
  have m: "alloc_result s (max 1 (unat n)) p s1" using malloc_ok [OF r(1,2) assms(2), of os tid] assms(3) by auto
  then have i1: "ainv s1" by (simp add: alloc_result_def)
  then have mi: "mem_inv s1" by (simp add: ainv_def)
  from m assms(4) obtain j where j: "\<forall>k. \<not> live s p k" "\<forall>x k. live s1 x k \<longleftrightarrow> live s x k \<or> x = p \<and> k = j" "contents_kept s s1"
    unfolding alloc_result_def by auto
  show "\<exists>a r. g_runs s1 a = Some r \<and> unat a < unat p \<and>
      (if unat p < unat a + 2097152
       then \<exists>s'. free os tid' p s1 = Some s' \<and> live s' = live s \<and> contents_kept s s'
       else unforged s1 p \<longrightarrow> free os tid' p s1 = Some s1)" if small: "n < kLargeMin"
  proof -
    define n1 where "n1 = (if n = 0 then 1 else n)"
    have n1: "n1 \<noteq> 0" "n1 < kLargeMin" using small by (auto simp: n1_def kLargeMin_def)
    have "malloc os tid n s = malloc os tid n1 s" by (simp add: malloc_def n1_def)
    then have run: "malloc_run os (class_of n1 - 1) s = Some (p, s1)" using assms(3) malloc_small [OF r(1,2) n1, of os tid] by simp
    have c: "class_of n1 - 1 < 68" using class_of_small [OF n1(2)] by simp
    have "unat (g_res_bump s) + 2 ^ 23 < 2 ^ 64" using assms(2) by (simp add: roomy_def)
    from malloc_run_block [OF r(1) c this run assms(4)] obtain a q i where
      b: "g_runs s1 a = Some q" "used_blk q i" "p = blk_addr (unat (r_cls q)) a i" by blast
    note f = run_facts [OF mi b(1)]
    have il: "i < elems_n (unat (r_cls q))" using used_blk_lt [OF f(2) b(2)] .
    have up: "unat p = unat a + doff_n (unat (r_cls q)) + i * elem_n (unat (r_cls q))"
      unfolding b(3) by (rule unat_blk_addr [OF f(1) il f(5)])
    have lt: "unat a < unat p" using up doff_n_bounds(1) [of "unat (r_cls q)"] by simp
    show ?thesis
    proof (cases "unat p < unat a + 2097152")
      case True
      then have reach: "reachable_blk (unat (r_cls q)) i" using up by (simp add: reachable_blk_def)
      from free_small_ok [OF i1 b(1,2) reach, folded b(3), of os tid'] obtain s' where
        s': "free os tid' p s1 = Some s'" "\<forall>x k. live s' x k \<longleftrightarrow> live s1 x k \<and> x \<noteq> p" "g_bytes s' = g_bytes s1" by blast
      have "live s' = live s" using j s'(2) by (auto simp: fun_eq_iff)
      moreover have "contents_kept s s'" using j(3) s'(3) by (simp add: contents_kept_def)
      ultimately show ?thesis using s'(1) True b(1) lt by (intro exI [of _ a] exI [of _ q]) simp
    next
      case False
      then have "\<not> reachable_blk (unat (r_cls q)) i" using up by (simp add: reachable_blk_def)
      from free_unreachable [OF i1 b(1,2) this, folded b(3)] show ?thesis
        using False b(1) lt by (intro exI [of _ a] exI [of _ q]) simp
    qed
  qed
  assume l: "kLargeMin \<le> n" "unforged s1 p"
  then have "n \<noteq> 0" by (auto simp: kLargeMin_def)
  then have "malloc_large os n s = Some (p, s1)" using assms(3) r(2) l(1) by (simp add: malloc_def malloc_ready_def)
  from malloc_large_block [OF this assms(4)] obtain h where h: "g_larges s1 (p - sizeof_LargeHdr) = Some h" ..
  have "unforged s1 (p - sizeof_LargeHdr + sizeof_LargeHdr)" using l(2) by simp
  from free_large_faults [OF mi h this, of os tid'] show "free os tid' p s1 = None" by simp
qed

theorem malloc_free_roundtrip_witness:
  "malloc demo_os 0 100 demo_start = Some (17592186048512, demo_100) \<and>
   (\<exists>s'. free demo_os 1 17592186048512 demo_100 = Some s' \<and> live s' = live demo_start)"
proof -
  have rm: "roomy demo_start (unat (100 :: u64))" by (simp add: demo_roomy)
  have k: "(100 :: u64) < kLargeMin" by (simp add: kLargeMin_def)
  from malloc_free_roundtrip [OF demo_reach rm demo_malloc_100, of 1] k obtain a q where
    a: "g_runs demo_100 a = Some q" "unat a < 17592186048512"
    "unat (17592186048512 :: u64) < unat a + 2097152 \<longrightarrow> (\<exists>s'. free demo_os 1 17592186048512 demo_100 = Some s' \<and> live s' = live demo_start)"
    by (auto split: if_splits)
  have mi: "mem_inv demo_100" using heap_reachD(1) [OF demo_100_reach] by (simp add: ainv_def)
  have "map_option (\<lambda>x. g_res_start (snd x)) (malloc demo_os 0 100 (ensure_init demo_os alloc_initial)) = Some 17592186044416"
    by code_simp
  then have "unat (g_res_start demo_100) = 17592186044416"
    unfolding demo_100_def demo_start_def by (auto simp: map_option_eq_Some)
  then have "17592186044416 \<le> unat a" using run_facts(9) [OF mi a(1)] by simp
  then show ?thesis using a(3) demo_malloc_100 by simp
qed

subsection \<open>Resizing and alignment\<close>

text \<open>C6. \<open>realloc\<close> of a recognisable small block to \<open>n > 0\<close> bytes, few enough for the bump pointer not to wrap, never faults. It returns the same
  pointer with nothing changed, or it returns 0 with the block still live and its contents kept, or
  it returns a block of at least \<open>n\<close> bytes that was not live, holding the first \<open>min old n\<close> bytes;
  then the old block is gone and all others are untouched.\<close>

theorem realloc_correct:
  assumes "heap_reach os s" "freeable s p old" "0 < unat n" "roomy s (unat n)"
  shows "\<exists>q s'. realloc os tid p n s = Some (q, s') \<and> heap_reach os s' \<and>
    (q = p \<and> s' = s \<and> unat n \<le> old \<or>
     q = 0 \<and> live s' = live s \<and> contents_kept s s' \<or>
     (\<exists>m \<ge> unat n. (\<forall>k. \<not> live s q k) \<and> live s' = (\<lambda>x k. live s x k \<and> x \<noteq> p \<or> x = q \<and> k = m) \<and>
        (\<forall>i < min old (unat n). g_bytes s' (q + of_nat i) = g_bytes s (p + of_nat i)) \<and>
        (\<forall>x k i. live s x k \<longrightarrow> x \<noteq> p \<longrightarrow> i < k \<longrightarrow> g_bytes s' (x + of_nat i) = g_bytes s (x + of_nat i))))"
proof -
  note r = heap_reachD [OF assms(1)]
  show ?thesis
  proof (cases "unat n \<le> old \<and> old < 2097153 \<and> old div 2 < unat n")
    case True
    then show ?thesis using realloc_in_place [OF r(1) assms(2,3), of os tid] assms(1) by auto
  next
    case False
    from realloc_move [OF r(1,2) assms(2-4) False, of os tid] obtain q s' where
      q: "realloc os tid p n s = Some (q, s')"
      "q = 0 \<longrightarrow> (\<forall>x k. live s' x k \<longleftrightarrow> live s x k) \<and> contents_kept s s'"
      "q \<noteq> 0 \<longrightarrow> (\<exists>m\<ge>unat n. (\<forall>k. \<not> live s q k) \<and> (\<forall>x k. live s' x k \<longleftrightarrow> live s x k \<and> x \<noteq> p \<or> x = q \<and> k = m)) \<and>
       (\<forall>i<min old (unat n). g_bytes s' (q + of_nat i) = g_bytes s (p + of_nat i)) \<and>
       (\<forall>x k i. live s x k \<longrightarrow> x \<noteq> p \<longrightarrow> i < k \<longrightarrow> g_bytes s' (x + of_nat i) = g_bytes s (x + of_nat i))" by blast
    have reach: "heap_reach os s'" using reach_step [OF assms(1) step_realloc [OF assms(2-4) q(1)]] .
    show ?thesis
    proof (cases "q = 0")
      case True
      then have "live s' = live s" "contents_kept s s'" using q(2) by (auto simp: fun_eq_iff)
      then show ?thesis using q(1) reach True by blast
    next
      case False
      with q(3) obtain m where "unat n \<le> m" "\<forall>k. \<not> live s q k"
        "live s' = (\<lambda>x k. live s x k \<and> x \<noteq> p \<or> x = q \<and> k = m)" by (auto simp: fun_eq_iff)
      then show ?thesis using q(1,3) reach False by blast
    qed
  qed
qed

theorem realloc_correct_witness:
  "(\<exists>q s'. realloc demo_os 0 17592186048512 5000 demo_100 = Some (q, s') \<and> heap_reach demo_os s') \<and> (0::nat) < 5000"
proof -
  have h: "0 < unat (5000 :: u64)" by simp
  have rm0: "roomy demo_start (unat (100 :: u64))" by (simp add: demo_roomy)
  have "unat (g_res_bump demo_100) \<le> unat (g_res_bump demo_start) + 2 ^ 25"
    using malloc_ok [OF heap_reachD(1,2) [OF demo_reach] rm0, of demo_os 0] demo_malloc_100 by auto
  then have rm: "roomy demo_100 (unat (5000 :: u64))" by (simp add: roomy_def demo_bump)
  from realloc_correct [OF demo_100_reach demo_100_freeable h rm, of 0] show ?thesis by auto
qed

text \<open>C24. \<open>posix_memalign\<close> with a power-of-two alignment (below 8 it counts as 8) and a size for which the bump pointer
  does not wrap stores a pointer that is a multiple of the alignment and has \<open>n\<close> bytes of exactly one new live block behind
  it, or returns \<open>ENOMEM\<close>, stores nothing and leaves the live blocks alone (the bump pointer moves all the
  same). Either way the contents of all blocks that were live are kept.\<close>

theorem posix_memalign_correct:
  assumes "heap_reach os s" "max 8 (unat al) = 2 ^ k" "roomy s (unat n + 2 ^ k + 4096)"
  shows "\<exists>code out s'. posix_memalign os tid False al n s = Some (code, out, s') \<and> heap_reach os s' \<and> contents_kept s s' \<and>
    (code = 0 \<and> (\<exists>q p m. out = Some q \<and> 2 ^ k dvd unat q \<and> (\<forall>j. \<not> live s p j) \<and>
        live s' = (\<lambda>x j. live s x j \<or> x = p \<and> j = m) \<and> unat p \<le> unat q \<and> unat q + unat n \<le> unat p + m) \<or>
     code = ENOMEM \<and> out = None \<and> live s' = live s)"
proof -
  note r = heap_reachD [OF assms(1)]
  from posix_memalign_ok [OF r(1,2) assms(2,3), of os tid] obtain code out s' where
    m: "posix_memalign os tid False al n s = Some (code, out, s')" "contents_kept s s'"
    "(code = 0 \<and> (\<exists>q p m. out = Some q \<and> 2 ^ k dvd unat q \<and> live s' p m \<and> (\<forall>j. \<not> live s p j) \<and>
        unat p \<le> unat q \<and> unat q + unat n \<le> unat p + m \<and> (\<forall>x j. live s' x j \<longleftrightarrow> live s x j \<or> x = p \<and> j = m)) \<or>
     code = ENOMEM \<and> out = None \<and> (\<forall>x j. live s' x j \<longleftrightarrow> live s x j))" by blast
  have reach: "heap_reach os s'" using reach_step [OF assms(1) step_memalign [OF assms(2,3) m(1)]] .
  from m(3) show ?thesis
  proof (elim disjE conjE exE)
    fix q p j assume e: "code = 0" "out = Some q" "2 ^ k dvd unat q" "\<forall>j. \<not> live s p j"
      "unat p \<le> unat q" "unat q + unat n \<le> unat p + j" "\<forall>x i. live s' x i \<longleftrightarrow> live s x i \<or> x = p \<and> i = j"
    then have "live s' = (\<lambda>x i. live s x i \<or> x = p \<and> i = j)" by (auto simp: fun_eq_iff)
    then show ?thesis using m(1,2) reach e by blast
  next
    assume e: "code = ENOMEM" "out = None" "\<forall>x j. live s' x j \<longleftrightarrow> live s x j"
    then have "live s' = live s" by (auto simp: fun_eq_iff)
    then show ?thesis using m(1,2) reach e by blast
  qed
qed

theorem posix_memalign_correct_witness:
  "max 8 (unat (64::u64)) = 2 ^ 6 \<and> (\<exists>code out s'. posix_memalign demo_os 0 False 64 1000 demo_start = Some (code, out, s'))"
proof -
  have h: "max 8 (unat (64::u64)) = 2 ^ 6" "roomy demo_start (unat (1000::u64) + 2 ^ 6 + 4096)" by (simp_all add: demo_roomy)
  from posix_memalign_correct [OF demo_reach h, of 0] h show ?thesis by auto
qed

text \<open>\<open>posix_memalign\<close> rejects a null result pointer and an alignment of 8 or more that is not a power
  of two with \<open>EINVAL\<close>, before it allocates anything; every other alignment passes the test (in
  particular alignments below 8, powers of two or not, which POSIX wants rejected unless they are
  multiples of the pointer size).\<close>

theorem posix_memalign_validation:
  "posix_memalign os tid out_null al n s \<noteq> Some (EINVAL, None, s) \<longleftrightarrow>
   \<not> out_null \<and> (\<exists>k<64. max 8 (unat al) = 2 ^ k)"
proof -
  define a where "a = (if al < 8 then 8 else al)"
  have ua: "unat a = max 8 (unat al)" "a \<noteq> 0" by (auto simp: a_def word_less_nat_alt)
  have pow: "a AND (a - 1) = 0 \<longleftrightarrow> (\<exists>k<64. max 8 (unat al) = 2 ^ k)"
  proof
    assume "a AND (a - 1) = 0"
    from power_of_two_mask [OF ua(2) this] show "\<exists>k<64. max 8 (unat al) = 2 ^ k" using ua(1) unat_pow2 [where ?'a = 64] by force
  next
    assume "\<exists>k<64. max 8 (unat al) = 2 ^ k"
    then obtain k where "k < 64" "unat a = 2 ^ k" using ua(1) by auto
    then have "a = 2 ^ k" by (simp add: word_unat_eq_iff unat_pow2)
    then show "a AND (a - 1) = 0" by (auto intro!: bit_word_eqI simp: bit_simps mask_eq_exp_minus_1 [symmetric])
  qed
  have "posix_memalign os tid False al n s \<noteq> Some (EINVAL, None, s)" if "a AND (a - 1) = 0"
    using that by (auto simp: posix_memalign_def a_def [symmetric] Let_def EINVAL_def ENOMEM_def split: bind_splits if_splits)
  moreover have "posix_memalign os tid False al n s = Some (EINVAL, None, s)" if "a AND (a - 1) \<noteq> 0"
    using that by (simp add: posix_memalign_def a_def [symmetric] Let_def)
  ultimately show ?thesis using pow by (cases out_null) (auto simp: posix_memalign_einval(1))
qed

subsection \<open>The background thread\<close>

text \<open>C7. A round of the trim thread in a reachable state ends without a fault: it keeps the invariant
  and all live blocks, and the contents of every block of at least a page or of a size that
  divides the page size.\<close>

theorem trim_round_correct:
  assumes "heap_reach os s"
  shows "\<exists>s'. trim_round os s = Some s' \<and> heap_reach os s' \<and> live s' = live s \<and>
    (\<forall>p n i. live s p n \<longrightarrow> i < n \<longrightarrow> (4096 \<le> n \<or> n dvd 4096) \<longrightarrow> g_bytes s' (p + of_nat i) = g_bytes s (p + of_nat i))"
proof -
  from trim_round_ok [OF heap_reachD(1) [OF assms], of os] obtain s' where
    t: "trim_round os s = Some s'" "trim_step s s'" by blast
  have "heap_reach os s'" using reach_step [OF assms step_trim [OF t(1)]] .
  then show ?thesis using t unfolding trim_step_def trim_kept_def by blast
qed

theorem trim_round_correct_witness:
  "\<exists>s'. trim_round demo_os demo_100 = Some s' \<and> live s' 17592186048512 112"
  using trim_round_correct [OF demo_100_reach] freeable_live [OF demo_100_freeable] by auto

text \<open>No thread ever has a thread cache: no entry point calls the function that creates one, so
  every \<open>malloc\<close> and \<open>free\<close> of a small block takes the locked path.\<close>

theorem thread_cache_never_used:
  assumes "heap_reach os s" "n < kLargeMin"
  shows "tls s tid = None \<and> malloc_ready os tid n s = malloc_run os (class_of n - 1) s \<and>
    free_small os tid p s = run_give os (run_of p) p s"
proof -
  have "tls s tid = None" using heap_reachD(3) [OF assms(1)] by (simp add: mem_inv_def)
  moreover have "\<not> kLargeMin \<le> n" using assms(2) by simp
  ultimately show ?thesis by (simp add: malloc_ready_def free_small_def tc_current_def)
qed

theorem thread_cache_never_used_witness:
  "tkey_ok demo_100 \<and> malloc_ready demo_os 7 100 demo_100 = malloc_run demo_os 10 demo_100"
proof -
  have "(100::u64) < kLargeMin" by (simp add: kLargeMin_def)
  from thread_cache_never_used [OF demo_100_reach this, of 7]
  have m: "malloc_ready demo_os 7 100 demo_100 = malloc_run demo_os (class_of 100 - 1) demo_100" by simp
  have "class_of 100 - 1 = 10" by code_simp
  moreover have "tkey_ok demo_100" unfolding demo_100_def demo_start_def by code_simp
  ultimately show ?thesis using m by simp
qed

end
