(* ===== verification/AllocFaults.thy ===== *)
theory AllocFaults
  imports AllocHeap
begin

text \<open>
  Where the allocator does not do what it means to: blocks that cannot be given back, the large
  \<open>free\<close> that reads an unmapped header, pages dropped under a live block, and requests whose size
  arithmetic wraps around.
\<close>

section \<open>Blocks that cannot be given back\<close>

text \<open>C40. Freeing a large block of a reachable state faults: \<open>free\<close> unmaps the block and then reads
  the size from the unmapped header. (The hypothesis excludes that the program itself wrote a
  header magic where \<open>free\<close> looks for one.)\<close>

theorem free_large_reads_unmapped:
  assumes "heap_reach os s" "g_larges s a = Some h" "unforged s (a + sizeof_LargeHdr)"
  shows "live s (a + sizeof_LargeHdr) (unat (l_user h)) \<and> free os tid (a + sizeof_LargeHdr) s = None"
  using free_large_faults [OF heap_reachD(3) [OF assms(1)] assms(2,3)] assms(2) unfolding live_def by blast

definition demo_large :: alloc where
  "demo_large = snd (the (malloc demo_os 0 3145728 demo_start))"

lemma demo_malloc_large: "malloc demo_os 0 3145728 demo_start = Some (17592186044440, demo_large)"
proof -
  have "map_option fst (malloc demo_os 0 3145728 (ensure_init demo_os alloc_initial)) = Some 17592186044440" by code_simp
  then show ?thesis unfolding demo_large_def demo_start_def by (auto simp: map_option_eq_Some)
qed

lemma demo_large_reach: "heap_reach demo_os demo_large"
proof (rule reach_step [OF demo_reach])
  have "roomy demo_start (unat (3145728 :: u64))" by (simp add: demo_roomy)
  then show "heap_step demo_os demo_start demo_large" using demo_malloc_large by (rule step_malloc)
qed

lemma demo_large_hdr:
  "g_larges demo_large 17592186044416 = Some \<lparr>l_magic = kMagicLarge, l_pad = 0, l_map_size = 3149824, l_user = 3145728\<rparr>"
  unfolding demo_large_def demo_start_def by code_simp

theorem free_large_reads_unmapped_witness:
  "malloc demo_os 0 3145728 demo_start = Some (17592186044440, demo_large) \<and> free demo_os 0 17592186044440 demo_large = None"
proof -
  have p: "17592186044416 + sizeof_LargeHdr = 17592186044440" by (simp add: sizeof_LargeHdr_def)
  have "run_of 17592186044440 = 17592186044416" by code_simp
  then have "unforged demo_large (17592186044416 + sizeof_LargeHdr)"
    using demo_large_hdr by (simp add: unforged_def sizeof_LargeHdr_def)
  from free_large_reads_unmapped [OF demo_large_reach demo_large_hdr this, of 0] p demo_malloc_large
  show ?thesis by simp
qed

text \<open>A block that starts 2 MiB or more after its run header is not recognised by \<open>free\<close>: the
  call does nothing and the block stays live.\<close>

theorem free_beyond_2MiB_ignored:
  assumes "heap_reach os s" "g_runs s a = Some r" "used_blk r i" "\<not> reachable_blk (unat (r_cls r)) i"
    "unforged s (blk_addr (unat (r_cls r)) a i)"
  shows "live s (blk_addr (unat (r_cls r)) a i) (elem_n (unat (r_cls r))) \<and>
    free os tid (blk_addr (unat (r_cls r)) a i) s = Some s"
  using free_unreachable [OF heap_reachD(1) [OF assms(1)] assms(2-5)] live_smallI [OF assms(2,3)] by blast

text \<open>Requests of 4096 bytes fill the blocks of a run in order; the 512th starts at 2 MiB.\<close>

lemma class_of_4096: "class_of 4096 = 32"
  by code_simp

lemma elems_32: "elems_n 32 = 512" "doff_n 32 = 4096" "elem_n 32 = 4096"
proof -
  show e: "elem_n 32 = 4096" by (simp add: elem_n_def kSizes_def)
  show "elems_n 32 = 512" "doff_n 32 = 4096" by (simp_all add: doff_n_def words_n_def elems_n_def e)
qed

definition filled :: "nat \<Rightarrow> alloc \<Rightarrow> bool" where
  "filled k s \<longleftrightarrow> heap_reach demo_os s \<and> class_head s 31 = 17592186044416 \<and> u32_at (g_bytes s) 17592188141568 = 0 \<and> u32_at (g_bytes s) 17592188141544 = 0 \<and>
     g_res_bump s = 17592190242816 \<and>
     (\<exists>r. g_runs s 17592186044416 = Some r \<and> unat (r_cls r) = 32 \<and> free_set r = {k..<512})"

lemma filled_run:
  assumes "heap_reach demo_os s" "class_head s 31 = 17592186044416" "u32_at (g_bytes s) 17592188141568 = 0 \<and> u32_at (g_bytes s) 17592188141544 = 0" "g_res_bump s = 17592190242816"
    and r: "g_runs s 17592186044416 = Some r" "unat (r_cls r) = 32" "free_set r = {k..<512}" and k: "k < 512"
  shows "\<exists>s'. malloc demo_os 0 4096 s = Some (blk_addr 32 17592186044416 k, s') \<and> filled (k + 1) s'"
proof -
  note h = heap_reachD [OF assms(1)]
  have ne: "free_set r \<noteq> {}" using r(3) k by auto
  have "r_used r \<noteq> r_elems r"
    using run_facts(3) [OF h(3) r(1)] ne by (auto simp: bm_ok_def)
  then have fr: "find_run s (class_head s 31) = Some 17592186044416"
    using r(1) by (subst find_run.simps) (simp add: assms(2))
  from run_take_ok [OF h(1) r(1) ne, of demo_os] obtain i r' s' where
    t: "run_take demo_os 17592186044416 s = Some (blk_addr (unat (r_cls r)) 17592186044416 i, s')" "i = Min (free_set r)"
    "g_runs s' = (g_runs s)(17592186044416 \<mapsto> r')" "r_cls r' = r_cls r" "free_set r' = free_set r - {i}" "quiet s s'" by blast
  have i: "i = k" unfolding t(2) r(3) by (rule Min_eqI) (use k in auto)
  have "malloc demo_os 0 4096 s = malloc_run demo_os 31 s"
    using malloc_small [OF h(1,2), of 4096] class_of_4096 by (simp add: kLargeMin_def)
  also have "\<dots> = run_take demo_os 17592186044416 s" unfolding malloc_run_def fr by simp
  finally have m: "malloc demo_os 0 4096 s = Some (blk_addr 32 17592186044416 k, s')"
    unfolding t(1) i r(2) .
  have "roomy s (unat (4096 :: u64))" by (simp add: roomy_def assms(4))
  then have "heap_reach demo_os s'" using reach_step [OF assms(1)] step_malloc m by blast
  moreover have "free_set r' = {k + 1..<512}"
    unfolding t(5) r(3) i by (intro set_eqI) (simp only: Diff_iff atLeastLessThan_iff singleton_iff, linarith)
  ultimately have "filled (k + 1) s'"
    using t(3,4,6) r(2) assms(2-4) by (auto simp: filled_def quiet_def)
  then show ?thesis using m by blast
qed

lemma filled_first: "\<exists>s. filled 1 s"
proof -
  define s where "s = snd (the (malloc demo_os 0 4096 demo_start))"
  have ev: "(case malloc demo_os 0 4096 (ensure_init demo_os alloc_initial) of Some (p, s) \<Rightarrow> p = 17592186048512 \<and>
      class_head s 31 = 17592186044416 \<and> g_res_bump s = 17592190242816 \<and>
      u32_at (g_bytes s) 17592188141568 = 0 \<and> u32_at (g_bytes s) 17592188141544 = 0 \<and>
      (case g_runs s 17592186044416 of Some r \<Rightarrow> r_cls r = 32 \<and> r_elems r = 512 \<and> r_bits r = (- 2) # replicate 7 (- 1) | None \<Rightarrow> False)
    | None \<Rightarrow> False)" by code_simp
  then obtain p where m: "malloc demo_os 0 4096 demo_start = Some (p, s)" by (auto simp: s_def demo_start_def split: option.splits prod.splits)
  from ev obtain r where r: "class_head s 31 = 17592186044416" "g_res_bump s = 17592190242816" "g_runs s 17592186044416 = Some r"
    "u32_at (g_bytes s) 17592188141568 = 0 \<and> u32_at (g_bytes s) 17592188141544 = 0"
    "r_cls r = 32" "r_elems r = 512" "r_bits r = (- 2) # replicate 7 (- 1)"
    using m by (auto simp: demo_start_def split: option.splits)
  have rm: "roomy demo_start (unat (4096 :: u64))" by (simp add: demo_roomy)
  have reach: "heap_reach demo_os s" using reach_step [OF demo_reach step_malloc [OF rm m]] .
  have "free_set r = {1..<512}"
  proof -
    have "blk_free (r_bits r) i \<longleftrightarrow> i \<noteq> 0" if "i < 512" for i
    proof (cases "i div 64")
      case 0
      then have "i < 64" by (simp add: div_eq_0_iff)
      moreover have "bit (- 2 :: u64) i \<longleftrightarrow> i \<noteq> 0 \<and> i < 64" for i
      proof -
        have "(- 2 :: u64) = NOT 1" by simp
        then show ?thesis by (simp only: bit_not_iff bit_1_iff) (auto simp: possible_bit_def)
      qed
      ultimately show ?thesis by (simp add: blk_free_def r(7))
    next
      case (Suc j)
      then have "i div 64 < 8" using that by simp
      then have "j < 7" using Suc by simp
      then show ?thesis using Suc by (auto simp: blk_free_def r(7))
    qed
    then show ?thesis by (auto simp: free_set_def r(6))
  qed
  then show ?thesis using reach r by (auto simp: filled_def)
qed

lemma filled_512: "\<exists>s. filled 512 s"
proof -
  have "\<exists>s. filled (1 + k) s" if "k < 512" for k
    using that
  proof (induction k)
    case 0
    then show ?case using filled_first by simp
  next
    case (Suc k)
    then obtain s where s: "filled (1 + k) s" by auto
    then obtain r where r: "g_runs s 17592186044416 = Some r" "unat (r_cls r) = 32" "free_set r = {1 + k..<512}"
      by (auto simp: filled_def)
    have "1 + k < 512" using Suc.prems by simp
    from filled_run [OF _ _ _ _ r this] s obtain s' where "filled (1 + k + 1) s'" unfolding filled_def by blast
    moreover have "1 + k + 1 = 1 + Suc k" by simp
    ultimately show ?case by metis
  qed
  from this [of 511] show ?thesis by simp
qed

theorem free_beyond_2MiB_ignored_witness:
  "\<exists>s. heap_reach demo_os s \<and> live s 17592188141568 4096 \<and> free demo_os 0 17592188141568 s = Some s"
proof -
  obtain s where s: "filled 512 s" using filled_512 by blast
  then obtain r where r: "heap_reach demo_os s" "g_runs s 17592186044416 = Some r" "unat (r_cls r) = 32" "free_set r = {512..<512}"
    "u32_at (g_bytes s) 17592188141568 = 0" "u32_at (g_bytes s) 17592188141544 = 0"
    by (auto simp: filled_def)
  have el: "unat (r_elems r) = 512"
    using run_staticD(4) [OF run_facts(2) [OF heap_reachD(3) [OF r(1)] r(2)]] r(3) elems_32 by simp
  then have u: "used_blk r 511" using r(4) by (simp add: used_blk_def)
  have b: "blk_addr 32 17592186044416 511 = 17592188141568" by (simp add: blk_addr_def elems_32)
  have nr: "\<not> reachable_blk (unat (r_cls r)) 511" by (simp add: r(3) reachable_blk_def elems_32)
  have "run_of 17592188141568 = 17592188141568" by code_simp
  then have uf: "unforged s (blk_addr (unat (r_cls r)) 17592186044416 511)"
    using r(5,6) by (simp add: unforged_def r(3) b sizeof_LargeHdr_def kMagicRun_def kMagicLarge_def)
  from free_beyond_2MiB_ignored [OF r(1,2) u nr uf, of 0] r(1) show ?thesis
    unfolding r(3) b elems_32 by blast
qed

text \<open>The number of blocks of a class that start beyond the first 2 MiB.\<close>

definition lost_blocks :: "nat \<Rightarrow> nat" where
  "lost_blocks c = elems_n c - (2097152 - doff_n c + elem_n c - 1) div elem_n c"

lemma reachable_iff:
  assumes "class_ok c"
  shows "reachable_blk c i \<longleftrightarrow> i < (2097152 - doff_n c + elem_n c - 1) div elem_n c"
proof -
  have e: "0 < elem_n c" using elem_n_bounds(1) [OF assms] by simp
  have d: "doff_n c \<le> 12288" by (rule doff_n_bounds(2))
  define w where "w = 2097152 - doff_n c"
  have "reachable_blk c i \<longleftrightarrow> i * elem_n c < w" using d by (auto simp: reachable_blk_def w_def)
  also have "\<dots> \<longleftrightarrow> (i + 1) * elem_n c \<le> w + elem_n c - 1" using e by (simp add: add_mult_distrib) linarith
  also have "\<dots> \<longleftrightarrow> i + 1 \<le> (w + elem_n c - 1) div elem_n c" using e by (simp add: less_eq_div_iff_mult_less_eq)
  also have "\<dots> \<longleftrightarrow> i < (w + elem_n c - 1) div elem_n c" by linarith
  finally show ?thesis unfolding w_def .
qed

lemma card_lost:
  assumes "class_ok c"
  shows "card {i. i < elems_n c \<and> \<not> reachable_blk c i} = lost_blocks c"
proof -
  have "{i. i < elems_n c \<and> \<not> reachable_blk c i} = {(2097152 - doff_n c + elem_n c - 1) div elem_n c..<elems_n c}"
    by (auto simp: reachable_iff [OF assms])
  then show ?thesis by (simp add: lost_blocks_def)
qed

definition lost_table :: "nat list" where
  "lost_table = [0, 0, 0, 384, 204, 170, 146, 128, 50, 42, 36, 32, 25, 20, 18, 16, 12, 10, 9, 8, 5, 4, 4, 4, 2, 2, 2, 2, 1, 0, 1, 1,
     0, 0, 0, 0, 0, 0, 0, 0, 0, 0, 0, 0, 0, 0, 0, 0, 0, 0, 0, 0, 0, 0, 0, 0, 0, 0, 0, 0, 0, 0, 0, 0, 0, 0, 0, 0]"

definition lost_of_size :: "nat \<Rightarrow> nat" where
  "lost_of_size e = (let n = min (2097152 div e) 65536; d = (56 + 8 * ((n + 63) div 64) + 4095) div 4096 * 4096
                     in n - (2097152 - d + e - 1) div e)"

lemma lost_table_sizes: "map (\<lambda>w. lost_of_size (unat w)) kSizes = lost_table"
  by (simp add: kSizes_def lost_of_size_def lost_table_def Let_def)

lemma lost_blocks_table:
  assumes "class_ok c"
  shows "lost_blocks c = lost_table ! (c - 1)"
proof -
  have "lost_blocks c = lost_of_size (unat (kSizes ! (c - 1)))"
    by (simp add: lost_blocks_def lost_of_size_def Let_def elems_n_def doff_n_def words_n_def elem_n_def)
  moreover have "c - 1 < length kSizes" using assms by (simp, linarith)
  ultimately show ?thesis unfolding lost_table_sizes [symmetric] by (simp only: nth_map)
qed

text \<open>Exactly 28 of the 68 size classes have blocks for which \<open>run_of\<close> does not lead back to the
  run: those of 32 to 4096 bytes except 3072, with the counts of \<open>lost_table\<close> (384 of the 65536
  blocks of 32 bytes, 1 of the 512 blocks of 4096 bytes). The header is counted in the mapping but
  not in the number of blocks.\<close>

theorem lost_blocks_per_class:
  assumes "1 \<le> c" "c \<le> kNumClasses" "aligned_run a" "room a"
  shows "card {i. i < unat (run_elems c) \<and>
      run_of (a + data_offset_padded (run_elems c) + of_nat i * kSizes ! (c - 1)) \<noteq> a} = lost_table ! (c - 1)"
proof -
  have c: "class_ok c" using assms by simp
  have addr: "a + data_offset_padded (run_elems c) + of_nat i * kSizes ! (c - 1) = blk_addr c a i" for i
  proof -
    have d: "data_offset_padded (run_elems c) = of_nat (doff_n c)" "kSizes ! (c - 1) = of_nat (elem_n c)"
      by (simp_all add: unat_run_doff [OF c, symmetric] elem_n_def)
    show ?thesis unfolding d blk_addr_def by (simp add: algebra_simps)
  qed
  have "{i. i < unat (run_elems c) \<and> run_of (a + data_offset_padded (run_elems c) + of_nat i * kSizes ! (c - 1)) \<noteq> a} =
      {i. i < elems_n c \<and> \<not> reachable_blk c i}"
    unfolding addr unat_run_elems [OF c] using run_of_blk [OF c _ assms(4,3)] by auto
  then have "card {i. i < unat (run_elems c) \<and> run_of (a + data_offset_padded (run_elems c) + of_nat i * kSizes ! (c - 1)) \<noteq> a} = lost_blocks c"
    using card_lost [OF c] by simp
  then show ?thesis using lost_blocks_table [OF c] by simp
qed

theorem lost_blocks_per_class_witness:
  "unat (run_elems 32) = 512 \<and> length (filter ((\<noteq>) 0) lost_table) = 28 \<and>
   card {i. i < unat (run_elems 32) \<and> run_of (4194304 + data_offset_padded (run_elems 32) + of_nat i * 4096) \<noteq> 4194304} = 1"
proof -
  have k: "kSizes ! (32 - 1) = 4096" by code_simp
  have h: "(1::nat) \<le> 32" "32 \<le> kNumClasses" "aligned_run 4194304" "room 4194304"
    by (simp_all add: aligned_run_def room_def)
  have e: "unat (run_elems 32) = 512" "length (filter ((\<noteq>) 0) lost_table) = 28" "lost_table ! (32 - 1) = 1" by code_simp+
  with lost_blocks_per_class [OF h] show ?thesis unfolding k e(3) by simp
qed

section \<open>Interior pointers\<close>

lemma ours_small_interior:
  assumes mi: "mem_inv s" and l: "live s p n" and x: "unat p < unat x" "unat x < unat p + n" and uf: "unforged s x"
  shows "ours_small s x \<noteq> Some True"
proof -
  obtain a k where a: "region s a k" "unat a + 24 \<le> unat p" "unat p + n \<le> unat a + k"
    "(\<exists>r i. g_runs s a = Some r \<and> used_blk r i \<and> p = blk_addr (unat (r_cls r)) a i \<and> n = elem_n (unat (r_cls r))) \<or>
     (\<exists>h. g_larges s a = Some h \<and> p = a + sizeof_LargeHdr \<and> n = unat (l_user h))"
    using live_region [OF mi l] by blast
  let ?b = "run_of x"
  show ?thesis
  proof (cases "g_runs s ?b")
    case None
    have "read_magic s ?b \<noteq> Some kMagicRun"
    proof (cases "g_larges s ?b")
      case (Some h')
      then show ?thesis using read_magic_large(1) [OF mi Some] kMagic_neq by simp
    next
      case none: None
      with None uf show ?thesis by (auto simp: read_magic_def unforged_def)
    qed
    then show ?thesis by (auto simp: ours_small_def Let_def split: option.splits bind_splits)
  next
    case (Some r)
    note f = run_facts [OF mi Some] and d = run_staticD [OF run_facts(2) [OF mi Some]]
    let ?c = "unat (r_cls r)"
    have ud: "unat (run_data r ?b) = unat ?b + doff_n ?c"
      using f(5) d(7) doff_n_bounds(2) [of ?c] unfolding run_data_def room_def by (subst unat_add_no_wrap) simp_all
    have eq: "ours_small s x = (if x < run_data r ?b then Some False
        else Some (x - run_data r ?b < ucast (r_elems r) * ucast (r_elem r) \<and> (x - run_data r ?b) mod ucast (r_elem r) = 0))"
      using read_magic_run [OF mi Some] Some f(1) by (auto simp: ours_small_def Let_def run_view_def)
    have e: "unat (ucast (r_elem r) :: u64) = elem_n ?c" using d(5) elem_n_bounds(2) [OF f(1)] by (simp add: unat_ucast_small)
    show ?thesis
    proof (cases "?b = a")
      case True
      then obtain i where i: "used_blk r i" "p = blk_addr ?c a i" "n = elem_n ?c"
        using a(4) Some mem_invD(4) [OF mi Some] by (auto simp: run_inv_def)
      have il: "i < elems_n ?c" using used_blk_lt [OF f(2) i(1)] .
      have up: "unat p = unat a + doff_n ?c + i * elem_n ?c"
        unfolding i(2) using unat_blk_addr [OF f(1) il] f(5) True by simp
      define j where "j = unat x - unat p"
      have j: "0 < j" "j < elem_n ?c" "unat x = unat a + doff_n ?c + i * elem_n ?c + j"
        using x up i(3) by (simp_all add: j_def)
      have le: "run_data r ?b \<le> x" using ud j(3) True by (simp add: word_le_nat_alt)
      have "unat (x - run_data r ?b) = i * elem_n ?c + j" unfolding unat_sub [OF le] using ud j(3) True by simp
      then have "unat ((x - run_data r ?b) mod ucast (r_elem r)) = j" using j(2) by (simp add: unat_mod e)
      then have "(x - run_data r ?b) mod ucast (r_elem r) \<noteq> 0" using j(1) by (metis less_irrefl unat_0)
      then show ?thesis using eq le by auto
    next
      case False
      have "unat ?b \<le> unat x" using run_of_unat [of x] by simp
      moreover have "apart a k ?b (map_n ?c)" using mem_invD(7) [OF mi a(1) region_run [OF Some]] False by auto
      ultimately have ap: "unat ?b + map_n ?c \<le> unat x" using x a(2,3) by (auto simp: apart_def)
      have le: "run_data r ?b \<le> x" using ud ap map_n_bounds(1) [OF f(1)] by (simp add: word_le_nat_alt)
      have "\<not> x - run_data r ?b < ucast (r_elems r) * ucast (r_elem r)"
        unfolding word_less_nat_alt unat_run_len [OF f(2)] unat_sub [OF le] ud using ap map_n_bounds(1) [OF f(1)] by simp
      then show ?thesis using eq by auto
    qed
  qed
qed

text \<open>\<open>free\<close> of a pointer strictly inside a live block, which is what \<open>posix_memalign\<close> returns
  whenever the block was not aligned by chance, never releases anything: it does nothing, or
  faults when the 2 MiB boundary below the pointer is not mapped. The memory is lost.\<close>

theorem free_interior_pointer:
  assumes "heap_reach os s" "live s p n" "unat p < unat x" "unat x < unat p + n" "unforged s x"
  shows "free os tid x s = Some s \<or> free os tid x s = None"
proof -
  note mi = heap_reachD(3) [OF assms(1)]
  obtain a k where a: "region s a k" "unat a + 24 \<le> unat p" "unat p + n \<le> unat a + k"
    using live_region [OF mi assms(2)] by blast
  have u24: "unat (x - sizeof_LargeHdr) = unat x - 24"
    using assms(3) a(2) by (subst unat_sub) (simp_all add: sizeof_LargeHdr_def word_le_nat_alt)
  have hdr: "g_runs s (x - sizeof_LargeHdr) = None" "g_larges s (x - sizeof_LargeHdr) = None"
    using header_not_inside [OF mi a(1), of "x - sizeof_LargeHdr"] u24 assms(3,4) a(2,3) by auto
  have "ours_large s x \<noteq> Some True"
    using hdr assms(5) by (auto simp: ours_large_def read_magic_def unforged_def split: if_splits)
  moreover have "in_reserve s x" using region_in_reserve [OF mi a(1)] assms(3,4) a(2,3) by simp
  moreover have "x \<noteq> 0" using assms(3) by auto
  moreover note ours_small_interior [OF mi assms(2-5)]
  ultimately show ?thesis
    by (cases "ours_small s x"; cases "ours_large s x") (auto simp: free_def)
qed

definition demo_aligned :: alloc where
  "demo_aligned = snd (snd (the (posix_memalign demo_os 0 False 8192 100 demo_start)))"

lemma demo_memalign:
  "posix_memalign demo_os 0 False 8192 100 demo_start = Some (0, Some 17592186052608, demo_aligned)"
proof -
  have "map_option (\<lambda>(c, x, s). (c, x)) (posix_memalign demo_os 0 False 8192 100 (ensure_init demo_os alloc_initial))
      = Some (0, Some 17592186052608)" by code_simp
  then show ?thesis unfolding demo_aligned_def demo_start_def by (auto simp: map_option_eq_Some)
qed

lemma demo_aligned_facts:
  "heap_reach demo_os demo_aligned" "live demo_aligned 17592186048512 14336" "unforged demo_aligned 17592186052608"
proof -
  have rm: "roomy demo_start (unat (100 :: u64) + 2 ^ 13 + 4096)" by (simp add: demo_roomy)
  have al: "max 8 (unat (8192 :: u64)) = 2 ^ 13" by simp
  show reach: "heap_reach demo_os demo_aligned"
    by (rule reach_step [OF demo_reach step_memalign [OF al rm demo_memalign]])
  have ev: "(case posix_memalign demo_os 0 False 8192 100 (ensure_init demo_os alloc_initial) of Some (c, x, s) \<Rightarrow>
      u32_at (g_bytes s) 17592186052584 = 0 \<and>
      (case g_runs s 17592186044416 of Some r \<Rightarrow> r_cls r = 39 \<and> r_elems r = 146 \<and> \<not> blk_free (r_bits r) 0 | None \<Rightarrow> False)
    | None \<Rightarrow> False)" by code_simp
  then obtain r where r: "u32_at (g_bytes demo_aligned) 17592186052584 = 0" "g_runs demo_aligned 17592186044416 = Some r"
    "r_cls r = 39" "r_elems r = 146" "\<not> blk_free (r_bits r) 0"
    using demo_memalign by (auto simp: demo_start_def split: option.splits)
  have e: "elem_n 39 = 14336" by (simp add: elem_n_def kSizes_def)
  then have d: "doff_n 39 = 4096" by (simp add: doff_n_def words_n_def elems_n_def)
  have "used_blk r 0" using r(4,5) by (simp add: used_blk_def free_set_def)
  from live_smallI [OF r(2) this] show "live demo_aligned 17592186048512 14336"
    using r(3) e d by (simp add: blk_addr_def)
  have "run_of 17592186052608 = 17592186044416" by code_simp
  then show "unforged demo_aligned 17592186052608"
    using r(1,2) by (simp add: unforged_def sizeof_LargeHdr_def kMagicLarge_def)
qed

theorem free_interior_pointer_witness:
  "posix_memalign demo_os 0 False 8192 100 demo_start = Some (0, Some 17592186052608, demo_aligned) \<and>
   live demo_aligned 17592186048512 14336 \<and>
   (free demo_os 0 17592186052608 demo_aligned = Some demo_aligned \<or> free demo_os 0 17592186052608 demo_aligned = None)"
proof -
  have "unat (17592186048512 :: u64) < unat (17592186052608 :: u64)" "unat (17592186052608 :: u64) < unat (17592186048512 :: u64) + 14336"
    by simp_all
  from free_interior_pointer [OF demo_aligned_facts(1,2) this demo_aligned_facts(3), of 0] demo_memalign demo_aligned_facts(2)
  show ?thesis by blast
qed

end
