(* ===== verification/AllocLimits.thy ===== *)
theory AllocLimits
  imports AllocFaults
begin

text \<open>
  Size arithmetic at its limits, the mode without a reserve, and what the trim thread does to
  blocks whose size does not divide a page.
\<close>

section \<open>Requests larger than the reserve\<close>

lemma malloc_large_oversize:
  assumes inv: "ainv s" and n: "2 ^ 40 < unat n" "roomy s (unat n)"
  shows "\<exists>s'. malloc_large os n s = Some (0, s') \<and> unat (g_res_end s') \<le> unat (g_res_bump s')"
proof -
  have ok: "res_ok s" using inv by (simp add: ainv_def mem_inv_def)
  have nb: "unat n + 4119 < 2 ^ 64" using n(2) by (simp add: roomy_def)
  note ms = unat_large_msize [OF nb]
  have nw: "no_wrap s (large_msize n) (2 ^ 12)" using n(2) ms by (simp add: no_wrap_def roomy_def)
  have big: "2 ^ 40 < unat (large_msize n)" using n(1) ms(2) by simp
  obtain a s1 where rm: "reserve_map os (large_msize n) (2 ^ 12) s = (a, s1)" by fastforce
  note o = reserve_map_oversize [OF ok nw _ big, of os, unfolded rm, simplified]
  have e: "g_res_end s1 = g_res_end s" using o(3) by auto
  have "malloc_large os n s = Some (0, s1)"
    using rm o(1) reserve_start_nz [OF inv]
    unfolding malloc_large_def Let_def large_msize_def [symmetric] two_pow_12 by simp
  then show ?thesis using o(2) e by simp
qed

lemma malloc_large_exhausted:
  assumes inv: "ainv s" and ex: "unat (g_res_end s) \<le> unat (g_res_bump s)" and n: "roomy s (unat n)"
  shows "\<exists>s'. malloc_large os n s = Some (0, s')"
proof -
  have ok: "res_ok s" using inv by (simp add: ainv_def mem_inv_def)
  have nb: "unat n + 4119 < 2 ^ 64" using n by (simp add: roomy_def)
  note ms = unat_large_msize [OF nb]
  have nw: "no_wrap s (large_msize n) (2 ^ 12)" using n ms by (simp add: no_wrap_def roomy_def)
  have nz: "large_msize n \<noteq> 0" using ms(2) by auto
  obtain a s1 where rm: "reserve_map os (large_msize n) (2 ^ 12) s = (a, s1)" by fastforce
  have "a = 0" using reserve_map_exhausted [OF ok nw _ nz ex, of os] rm by simp
  then have "malloc_large os n s = Some (0, s1)"
    using rm reserve_start_nz [OF inv]
    unfolding malloc_large_def Let_def large_msize_def [symmetric] two_pow_12 by simp
  then show ?thesis ..
qed

text \<open>One request of more than 1 TiB fails, as it should, but it has moved the bump pointer past
  the end of the reserve for good: from then on every request of more than 2 MiB fails, whatever
  its size and however much of the reserve is unused.\<close>

theorem oversize_request_exhausts_reserve:
  assumes "heap_reach os s" "2 ^ 40 < unat n" "roomy s (unat n)"
  shows "\<exists>s'. malloc os tid n s = Some (0, s') \<and> heap_reach os s' \<and>
    (\<forall>m tid'. kLargeMin \<le> m \<longrightarrow> roomy s' (unat m) \<longrightarrow> (\<exists>s''. malloc os tid' m s' = Some (0, s'')))"
proof -
  note r = heap_reachD [OF assms(1)]
  have big: "kLargeMin \<le> n" "n \<noteq> 0" using assms(2) by (auto simp: kLargeMin_def word_le_nat_alt)
  from malloc_large_oversize [OF r(1) assms(2,3), of os] obtain s' where
    s': "malloc_large os n s = Some (0, s')" "unat (g_res_end s') \<le> unat (g_res_bump s')" by blast
  have m: "malloc os tid n s = Some (0, s')" using s'(1) big r(2) by (simp add: malloc_def malloc_ready_def)
  have reach: "heap_reach os s'" by (rule reach_step [OF assms(1) step_malloc [OF assms(3) m]])
  have "\<exists>s''. malloc os tid' j s' = Some (0, s'')" if "kLargeMin \<le> j" "roomy s' (unat j)" for j tid'
  proof -
    have "j \<noteq> 0" using that(1) by (auto simp: kLargeMin_def)
    then show ?thesis
      using malloc_large_exhausted [OF heap_reachD(1) [OF reach] s'(2) that(2), of os] that(1) heap_reachD(2) [OF reach]
      by (simp add: malloc_def malloc_ready_def)
  qed
  then show ?thesis using m reach by blast
qed

theorem oversize_request_exhausts_reserve_witness:
  "unat (1099511627777 :: u64) = 2 ^ 40 + 1 \<and>
   (\<exists>s'. malloc demo_os 0 1099511627777 demo_start = Some (0, s') \<and> heap_reach demo_os s')"
proof -
  have h: "2 ^ 40 < unat (1099511627777 :: u64)" "roomy demo_start (unat (1099511627777 :: u64))" by (simp_all add: demo_roomy)
  from oversize_request_exhausts_reserve [OF demo_reach h, of 0] show ?thesis by auto
qed

section \<open>Wrap-around\<close>

text \<open>The bump pointer wraps around: after \<open>malloc(3145728)\<close>, two requests near \<open>2^63\<close> that both
  fail bring it back to where it started, and the next \<open>malloc(3145728)\<close> maps fresh zero pages over the
  live first block and returns its address a second time.\<close>

theorem bump_wrap_hands_out_live_block:
  "\<exists>s1 s2 s3 s4. malloc demo_os 0 3145728 demo_start = Some (17592186044440, s1) \<and> live s1 17592186044440 3145728 \<and>
     malloc demo_os 0 9223372036854775784 s1 = Some (0, s2) \<and>
     malloc demo_os 0 9223372036851613672 s2 = Some (0, s3) \<and> live s3 17592186044440 3145728 \<and>
     malloc demo_os 0 3145728 s3 = Some (17592186044440, s4)"
proof -
  define s1 where "s1 = snd (the (malloc demo_os 0 3145728 demo_start))"
  define s2 where "s2 = snd (the (malloc demo_os 0 9223372036854775784 s1))"
  define s3 where "s3 = snd (the (malloc demo_os 0 9223372036851613672 s2))"
  define s4 where "s4 = snd (the (malloc demo_os 0 3145728 s3))"
  note d = s1_def s2_def s3_def s4_def demo_start_def
  have fst: "m = Some (p, snd (the m))" if "map_option fst m = Some p" for m :: "(u64 \<times> alloc) option" and p
    using that by (auto simp: map_option_eq_Some)
  have m1: "malloc demo_os 0 3145728 demo_start = Some (17592186044440, s1)"
    unfolding s1_def by (rule fst, unfold demo_start_def, code_simp)
  have m2: "malloc demo_os 0 9223372036854775784 s1 = Some (0, s2)"
    unfolding s2_def by (rule fst, unfold d, code_simp)
  have m3: "malloc demo_os 0 9223372036851613672 s2 = Some (0, s3)"
    unfolding s3_def by (rule fst, unfold d, code_simp)
  have m4: "malloc demo_os 0 3145728 s3 = Some (17592186044440, s4)"
    unfolding s4_def by (rule fst, unfold d, code_simp)
  have h1: "map_option l_user (g_larges s1 17592186044416) = Some 3145728" unfolding d by code_simp
  have h3: "map_option l_user (g_larges s3 17592186044416) = Some 3145728" unfolding d by code_simp
  have l: "live s 17592186044440 3145728" if "map_option l_user (g_larges s 17592186044416) = Some 3145728" for s
    using that unfolding live_def by (intro disjI2 exI [of _ 17592186044416]) (auto simp: sizeof_LargeHdr_def)
  show ?thesis using m1 m2 m3 m4 l [OF h1] l [OF h3] by blast
qed

text \<open>A request of \<open>SIZE_MAX - 22\<close> bytes or more is not refused: the size of the mapping wraps to
  one page, and when the page is granted the block returned is recorded with the full request.\<close>

theorem huge_request_gets_one_page:
  assumes "heap_reach os s" "2 ^ 64 - 23 \<le> unat n" "unat (g_res_bump s) + 8192 < 2 ^ 64"
  shows "\<exists>p s'. malloc os tid n s = Some (p, s') \<and>
    (p \<noteq> 0 \<longrightarrow> (\<exists>h. g_larges s' (p - sizeof_LargeHdr) = Some h \<and> l_user h = n \<and> l_map_size h = 4096))"
proof -
  note r = heap_reachD [OF assms(1)]
  have big: "kLargeMin \<le> n" "n \<noteq> 0" using assms(2) by (auto simp: kLargeMin_def word_le_nat_alt)
  define d where "d = unat n - (2 ^ 64 - 23)"
  have d: "d < 23" "unat n = 2 ^ 64 - 23 + d" using assms(2) unsigned_less [of n, where ?'a = nat] by (simp_all add: d_def)
  have "unat (n + 4119) = (unat n + 4119) mod 2 ^ 64" by (simp add: unat_word_ariths)
  also have "unat n + 4119 = (d + 4096) + 2 ^ 64" using d(2) by simp
  also have "\<dots> mod 2 ^ 64 = d + 4096" using d(1) by (simp only: mod_add_self2) simp
  finally have u: "unat (n + 4119) = d + 4096" .
  have "sizeof_LargeHdr + n + 4095 = n + 4119" by (simp add: sizeof_LargeHdr_def)
  then have "unat (large_msize n) = (d + 4096) div 4096 * 4096"
    unfolding large_msize_def unat_page_floor using u by (simp only:)
  also have "\<dots> = 4096" using d(1) by simp
  finally have ms: "large_msize n = 4096" by (simp add: word_unat_eq_iff)
  obtain a s1 where rm: "reserve_map os 4096 (2 ^ 12) s = (a, s1)" by fastforce
  have nw: "no_wrap s 4096 (2 ^ 12)" using assms(3) by (simp add: no_wrap_def)
  note m = reserve_map_ok [OF r(1) nw _ _ rm, simplified]
  have unf: "malloc_large os n s = (if a = 0 then Some (0, s1) else if \<not> g_acc s1 a then None
     else let s2 = put_large a \<lparr>l_magic = kMagicLarge, l_pad = 0, l_map_size = 4096, l_user = n\<rparr> s1;
              s3 = s2\<lparr>g_mapped := g_mapped s2 + 4096\<rparr>
          in Some (a + sizeof_LargeHdr, s3))"
    using rm reserve_start_nz [OF r(1)] ms
    unfolding malloc_large_def Let_def large_msize_def [symmetric] two_pow_12 by simp
  have mal: "malloc os tid n s = malloc_large os n s" using big r(2) by (simp add: malloc_def malloc_ready_def)
  show ?thesis
  proof (cases "a = 0")
    case True
    then show ?thesis using unf mal by simp
  next
    case False
    then have "g_acc s1 a" using m(13) [OF False, of 0] by simp
    then show ?thesis using unf mal False by (simp add: Let_def put_large_def)
  qed
qed

theorem huge_request_gets_one_page_witness:
  "map_option fst (malloc demo_os 0 18446744073709551600 demo_start) = Some 17592186044440 \<and>
   (\<exists>p s'. malloc demo_os 0 18446744073709551600 demo_start = Some (p, s') \<and>
     (\<exists>h. g_larges s' (p - sizeof_LargeHdr) = Some h \<and> l_user h = 18446744073709551600 \<and> l_map_size h = 4096))"
proof -
  have v: "map_option fst (malloc demo_os 0 18446744073709551600 demo_start) = Some 17592186044440"
    unfolding demo_start_def by code_simp
  have u: "unat (18446744073709551600 :: u64) = 18446744073709551600" 
  proof -
    have "(18446744073709551600 :: nat) < 2 ^ LENGTH(64)" by simp
    from unat_of_nat_small [OF this] show ?thesis by (simp only: of_nat_numeral)
  qed
  have h: "2 ^ 64 - 23 \<le> unat (18446744073709551600 :: u64)" "unat (g_res_bump demo_start) + 8192 < 2 ^ 64"
    unfolding u by (simp_all add: demo_bump)
  from huge_request_gets_one_page [OF demo_reach h, of 0] obtain p s' where
    "malloc demo_os 0 18446744073709551600 demo_start = Some (p, s')"
    "p \<noteq> 0 \<longrightarrow> (\<exists>h. g_larges s' (p - sizeof_LargeHdr) = Some h \<and> l_user h = 18446744073709551600 \<and> l_map_size h = 4096)" by blast
  with v show ?thesis by auto
qed

section \<open>Without a reserve\<close>

text \<open>When the reserve could not be mapped the allocator still hands out memory, but never takes
  any back: \<open>free\<close> does nothing for any pointer, and \<open>realloc\<close> of a live block is passed to the
  libc function, or fails when there is none.\<close>

theorem no_reserve_never_frees:
  assumes "g_res_start s = 0" "g_res_end s = 0"
  shows "free os tid p s = Some s \<and>
    (p \<noteq> 0 \<longrightarrow> n \<noteq> 0 \<longrightarrow> realloc os tid p n s =
       (case libc_realloc os of None \<Rightarrow> Some (0, s)
        | Some f \<Rightarrow> Some (f (calls s), s\<lparr>calls := calls s + 1, libc_log := libc_log s @ [LibcRealloc p n]\<rparr>)))"
  using assms by (simp add: free_def realloc_def realloc_lookup_def in_reserve_def)

definition plain_os :: os where
  "plain_os = demo_os\<lparr>mmap_reserve := None, mmap_anywhere := (\<lambda>_ _. Some 139637976727552)\<rparr>"

theorem no_reserve_never_frees_witness:
  "\<exists>s. malloc plain_os 0 100 alloc_initial = Some (139637976731648, s) \<and>
     free plain_os 0 139637976731648 s = Some s \<and> realloc plain_os 0 139637976731648 200 s = Some (0, s)"
proof -
  define s where "s = snd (the (malloc plain_os 0 100 alloc_initial))"
  have "map_option fst (malloc plain_os 0 100 alloc_initial) = Some 139637976731648" by code_simp
  then have m: "malloc plain_os 0 100 alloc_initial = Some (139637976731648, s)" by (auto simp: s_def map_option_eq_Some)
  have r: "g_res_start s = 0" "g_res_end s = 0" unfolding s_def by code_simp+
  have "libc_realloc plain_os = None" by code_simp
  with no_reserve_never_frees [OF r, of plain_os 0 139637976731648 200] m show ?thesis by auto
qed

section \<open>Pages under a live block\<close>

lemma purge_pages_zero:
  "g_bytes s x = 0 \<Longrightarrow> g_bytes (purge_pages r d len off s) x = 0"
proof (induction r d len off s rule: purge_pages.induct)
  case (1 r d len off s)
  show ?case
  proof (cases "off + 4096 \<le> len")
    case False
    then show ?thesis using "1.prems" by (subst purge_pages.simps) simp
  next
    case True
    define b0 where "b0 = (off div unat (r_elem r)) mod 2 ^ 32"
    define b1' where "b1' = ((off + 4096) div unat (r_elem r)) mod 2 ^ 32"
    define b1 where "b1 = (if b1' > unat (r_elems r) then unat (r_elems r) else b1')"
    define s1 where "s1 = (if list_all (blk_free (r_bits r)) [b0..<b1]
                          then (let z = zero_range (d + of_nat off) 4096 s in z\<lparr>g_purged := g_purged z + 4096\<rparr>)
                          else s)"
    have eq: "purge_pages r d len off s = (if b1 \<le> b0 then s else purge_pages r d len (off + 4096) s1)"
      using True by (subst purge_pages.simps) (simp add: Let_def b0_def b1'_def b1_def s1_def)
    have "g_bytes s1 x = 0" using "1.prems" by (simp add: s1_def zero_range_def Let_def)
    then show ?thesis using "1.prems" "1.IH" [OF True b0_def b1'_def b1_def _ s1_def] unfolding eq by simp
  qed
qed

text \<open>C39. The trim thread destroys live data: in a run of 24-byte blocks whose blocks 0 to 169 are free,
  purging clears the first 16 bytes of block 170 even when that block is in use, because the test
  of the page's blocks stops at \<open>4096 / 24 = 170\<close> and leaves out the block that straddles its end.\<close>

theorem purge_clears_live_block:
  assumes "g_runs s a = Some r" "run_static 3 r" "room a" "r_used r \<noteq> 0"
    "env_dirty_idle_ms s \<le> t - r_last_touch_ms r" "\<forall>b<170. blk_free (r_bits r) b" "used_blk r 170" "i < 16"
  shows "\<exists>s'. purge_run a t s = Some s' \<and> used_blk (the (g_runs s' a)) 170 \<and> g_bytes s' (blk_addr 3 a 170 + of_nat i) = 0"
proof -
  note d = run_staticD [OF assms(2)]
  have e: "elem_n 3 = 24" by (simp add: elem_n_def kSizes_def)
  have n: "elems_n 3 = 65536" by (simp add: elems_n_def e)
  have df: "doff_n 3 = 12288" by (simp add: doff_n_def words_n_def n)
  have re: "r_elem r = 24" using d(9) by (simp add: kSizes_def)
  define r' where "r' = r\<lparr>r_last_touch_ms := t\<rparr>"
  define x where "x = blk_addr 3 a 170 + of_nat i"
  define z where "z = (let y = zero_range (run_data r' a + of_nat 0) 4096 (put_run a r' s) in y\<lparr>g_purged := g_purged y + 4096\<rparr>)"
  define s' where "s' = purge_pages r' (run_data r' a) (unat (r_elems r') * unat (r_elem r')) 0 (put_run a r' s)"
  have "\<not> t - r_last_touch_ms r < env_dirty_idle_ms s" using assms(5) by simp
  then have run: "purge_run a t s = Some s'"
    using assms(1,4) re by (simp add: purge_run_def s'_def r'_def Let_def)
  have f: "unat (r_elem r') = 24" "unat (r_elems r') = 65536" "r_bits r' = r_bits r"
    using d(4,5) e n by (simp_all add: r'_def)
  have all: "list_all (blk_free (r_bits r')) [0..<170]" using assms(6) f(3) by (simp add: list_all_iff)
  have "s' = purge_pages r' (run_data r' a) (unat (r_elems r') * unat (r_elem r')) 4096 z"
    unfolding s'_def by (subst purge_pages.simps) (simp add: f all [simplified f] Let_def z_def)
  moreover have "g_bytes z x = 0"
  proof -
    have ud: "unat (run_data r' a) = unat a + 12288"
      using assms(3) d(7) df unfolding run_data_def room_def r'_def by (subst unat_add_no_wrap) simp_all
    have "170 < elems_n 3" using n by simp
    then have "unat (blk_addr 3 a 170) = unat a + 12288 + 170 * 24"
      using unat_blk_addr [of 3 170 a] assms(3) df e by simp
    then have ux: "unat x = unat a + 12288 + 4080 + i"
      using assms(3,8) unfolding x_def by (subst unat_add_of_nat) (simp_all add: room_def)
    have "in_range (run_data r' a) 4096 x"
      using in_range_iff [of "run_data r' a" 4096 x] ud ux assms(3,8) by (simp add: room_def)
    then show ?thesis by (simp add: z_def zero_range_def Let_def)
  qed
  ultimately have "g_bytes s' x = 0" using purge_pages_zero by metis
  moreover have "g_runs s' a = Some r'"
    using purge_pages_same [of r' "run_data r' a" "unat (r_elems r') * unat (r_elem r')" 0 "put_run a r' s"]
    by (auto simp: s'_def put_run_def)
  moreover have "used_blk r' 170" using assms(7) by (simp add: used_blk_def free_set_def r'_def)
  ultimately show ?thesis using run unfolding x_def by simp
qed

text \<open>A run of 24-byte blocks in which only block 170 is in use, its bytes all 255.\<close>

definition straddle_run :: run where
  "straddle_run = (new_run 3 0)\<lparr>r_used := 1, r_bits := (initial_bits 65536)[2 := unset_bit 42 (- 1)]\<rparr>"

definition straddle_state :: alloc where
  "straddle_state = (put_run 4194304 straddle_run alloc_initial)\<lparr>g_bytes := (\<lambda>_. 255)\<rparr>"

theorem purge_clears_live_block_witness:
  "\<exists>s'. purge_run 4194304 10000 straddle_state = Some s' \<and> g_bytes straddle_state (blk_addr 3 4194304 170) = 255 \<and>
     used_blk (the (g_runs s' 4194304)) 170 \<and> g_bytes s' (blk_addr 3 4194304 170 + of_nat 0) = 0"
proof -
  have c: "class_ok 3" by simp
  have el: "run_elems 3 = 65536" by code_simp
  have st: "run_static 3 straddle_run"
    using new_run_ok(1) [OF c, of 0] by (simp add: straddle_run_def run_static_def new_run_def el)
  have l: "length (initial_bits 65536) = 1024" using initial_bits_ok(1) [of 65536] by simp
  have b: "blk_free (r_bits straddle_run) i \<longleftrightarrow> i \<noteq> 170" if "i < 171" for i
  proof -
    have ib: "blk_free (initial_bits 65536) i" using initial_bits_ok(2) [of 65536 i] l that by simp
    have "i div 64 = 2 \<Longrightarrow> i = 170 \<longleftrightarrow> i mod 64 = 42" using div_mult_mod_eq [of i 64] by linarith
    moreover have "170 div (64::nat) = 2" by simp
    ultimately show ?thesis using ib l that
      by (simp add: straddle_run_def blk_free_update) (auto simp: bit_simps)
  qed
  have h: "g_runs straddle_state 4194304 = Some straddle_run" "room 4194304" "r_used straddle_run \<noteq> 0"
    "env_dirty_idle_ms straddle_state \<le> 10000 - r_last_touch_ms straddle_run"
    by (simp_all add: straddle_state_def put_run_def room_def straddle_run_def new_run_def alloc_initial_def)
  have f: "\<forall>j<170. blk_free (r_bits straddle_run) j" using b by simp
  have u: "used_blk straddle_run 170"
    using b [of 170] by (simp add: used_blk_def free_set_def) (simp add: straddle_run_def new_run_def el)
  have "(0::nat) < 16" by simp
  from purge_clears_live_block [OF h(1) st h(2,3,4) f u this] show ?thesis by (simp add: straddle_state_def)
qed

end
