(* ===== verification/Doubles.thy ===== *)
theory Doubles
  imports CStrings
begin

text \<open>
  IEEE binary64 as the daemon uses it: the finite values as rationals, rounded to nearest, ties to
  even, with overflow to infinity and gradual underflow; infinities and NaN. The signs of zero and of
  NaN are not kept: only the digits printed for a zero score under a negative weight show them.
  Everything computes.
\<close>

section \<open>Values\<close>

datatype dbl = Fin rat | PInf | NInf | NaN

definition pow2 :: "int \<Rightarrow> rat" where
  "pow2 t = (if 0 \<le> t then 2 ^ nat t else 1 / 2 ^ nat (- t))"

function ilog2 :: "int \<Rightarrow> nat" where
  "ilog2 n = (if n \<le> 1 then 0 else ilog2 (n div 2) + 1)"
  by auto
termination by (relation "measure nat") auto

declare ilog2.simps [simp del]

text \<open>\<open>floor (log2 q)\<close> for positive \<open>q\<close>, from the lengths of numerator and denominator.\<close>

definition rat_ilog2 :: "rat \<Rightarrow> int" where
  "rat_ilog2 q = (case quotient_of q of (n, d) \<Rightarrow>
     (let e = int (ilog2 n) - int (ilog2 d) in if q < pow2 e then e - 1 else e))"

definition round_even :: "rat \<Rightarrow> int" where
  "round_even x = (let f = \<lfloor>x\<rfloor>; r = x - of_int f
     in if r < 1 / 2 then f else if 1 / 2 < r then f + 1 else if even f then f else f + 1)"

text \<open>Rounding a positive rational: a 53-bit significand, exponent at least \<open>-1074\<close>.\<close>

definition ulp_exp :: "rat \<Rightarrow> int" where
  "ulp_exp q = max (rat_ilog2 q - 52) (- 1074)"

definition round_pos :: "rat \<Rightarrow> rat" where
  "round_pos q = of_int (round_even (q / pow2 (ulp_exp q))) * pow2 (ulp_exp q)"

definition overflows :: "rat \<Rightarrow> bool" where
  "overflows r \<longleftrightarrow> 2 ^ 1024 \<le> r"

definition round_dbl :: "rat \<Rightarrow> dbl" where
  "round_dbl q =
     (if q = 0 then Fin 0
      else if 0 < q then (let r = round_pos q in if overflows r then PInf else Fin r)
      else (let r = round_pos (- q) in if overflows r then NInf else Fin (- r)))"

definition dbl_of_u64 :: "u64 \<Rightarrow> dbl" where
  "dbl_of_u64 w = round_dbl (of_nat (unat w))"

text \<open>Evaluation computes the powers in the integers.\<close>

lemma overflows_code [code]: "overflows r \<longleftrightarrow> 2 ^ 1024 \<le> \<lfloor>r\<rfloor>"
  by (simp add: overflows_def le_floor_iff)

lemma pow2_code [code]: "pow2 t = (if 0 \<le> t then of_int (2 ^ nat t) else 1 / of_int (2 ^ nat (- t)))"
  by (simp add: pow2_def)

section \<open>Operations\<close>

fun dneg :: "dbl \<Rightarrow> dbl" where
  "dneg (Fin x) = Fin (- x)" | "dneg PInf = NInf" | "dneg NInf = PInf" | "dneg NaN = NaN"

fun dadd :: "dbl \<Rightarrow> dbl \<Rightarrow> dbl" where
  "dadd (Fin x) (Fin y) = round_dbl (x + y)"
| "dadd NaN _ = NaN" | "dadd _ NaN = NaN"
| "dadd PInf NInf = NaN" | "dadd NInf PInf = NaN"
| "dadd PInf _ = PInf" | "dadd _ PInf = PInf"
| "dadd NInf _ = NInf" | "dadd _ NInf = NInf"

definition dsub :: "dbl \<Rightarrow> dbl \<Rightarrow> dbl" where
  "dsub x y = dadd x (dneg y)"

fun dsign :: "dbl \<Rightarrow> int" where
  "dsign (Fin x) = (if x = 0 then 0 else if 0 < x then 1 else - 1)"
| "dsign PInf = 1" | "dsign NInf = - 1" | "dsign NaN = 0"

definition dinf :: "int \<Rightarrow> dbl" where
  "dinf s = (if s = 0 then NaN else if 0 < s then PInf else NInf)"

fun dmul :: "dbl \<Rightarrow> dbl \<Rightarrow> dbl" where
  "dmul (Fin x) (Fin y) = round_dbl (x * y)"
| "dmul NaN _ = NaN" | "dmul _ NaN = NaN"
| "dmul x y = dinf (dsign x * dsign y)"

text \<open>Division by a zero keeps the sign of the dividend (the divisor's zero counts as positive).\<close>

fun ddiv :: "dbl \<Rightarrow> dbl \<Rightarrow> dbl" where
  "ddiv (Fin x) (Fin y) = (if y = 0 then dinf (dsign (Fin x)) else round_dbl (x / y))"
| "ddiv NaN _ = NaN" | "ddiv _ NaN = NaN"
| "ddiv (Fin x) _ = Fin 0"
| "ddiv x (Fin y) = dinf (dsign x * (if y < 0 then - 1 else 1))"
| "ddiv _ _ = NaN"

text \<open>Comparisons are false when an operand is NaN.\<close>

fun dless :: "dbl \<Rightarrow> dbl \<Rightarrow> bool" where
  "dless (Fin x) (Fin y) \<longleftrightarrow> x < y"
| "dless NaN _ \<longleftrightarrow> False" | "dless _ NaN \<longleftrightarrow> False"
| "dless NInf y \<longleftrightarrow> y \<noteq> NInf"
| "dless x PInf \<longleftrightarrow> x \<noteq> PInf"
| "dless _ _ \<longleftrightarrow> False"

definition dle :: "dbl \<Rightarrow> dbl \<Rightarrow> bool" where
  "dle x y \<longleftrightarrow> dless x y \<or> (x = y \<and> x \<noteq> NaN)"

text \<open>\<open>std::min(a, b)\<close> is \<open>b < a ? b : a\<close>.\<close>

definition dmin :: "dbl \<Rightarrow> dbl \<Rightarrow> dbl" where
  "dmin a b = (if dless b a then b else a)"

text \<open>A decimal literal \<open>n / 10^k\<close> of the source.\<close>

definition dlit :: "int \<Rightarrow> nat \<Rightarrow> dbl" where
  "dlit n k = round_dbl (of_int n / 10 ^ k)"

section \<open>Rounding is monotone\<close>

lemma pow2_pos [simp]: "0 < pow2 t" "0 \<le> pow2 t" "pow2 t \<noteq> 0"
proof -
  show p: "0 < pow2 t" by (simp add: pow2_def)
  then show "0 \<le> pow2 t" "pow2 t \<noteq> 0" by simp_all
qed

lemma pow2_Suc: "pow2 (t + 1) = 2 * pow2 t"
proof (cases "0 \<le> t")
  case True
  then have "nat (t + 1) = Suc (nat t)" by simp
  then show ?thesis using True by (simp add: pow2_def)
next
  case False
  show ?thesis
  proof (cases "t = -1")
    case True
    then show ?thesis by (simp add: pow2_def)
  next
    case f: False
    then have "nat (- t) = Suc (nat (- (t + 1)))" using False by simp
    then show ?thesis using f False by (simp add: pow2_def)
  qed
qed

lemma pow2_add_nat: "pow2 (t + int k) = 2 ^ k * pow2 t"
proof (induction k)
  case 0
  then show ?case by simp
next
  case (Suc k)
  have "pow2 (t + int (Suc k)) = pow2 ((t + int k) + 1)" by (simp add: algebra_simps)
  also have "\<dots> = 2 * (2 ^ k * pow2 t)" unfolding pow2_Suc Suc.IH ..
  finally show ?case by simp
qed

lemma pow2_mono: "s \<le> t \<Longrightarrow> pow2 s \<le> pow2 t"
proof -
  assume "s \<le> t"
  then obtain k where t: "t = s + int k" by (metis zle_iff_zadd)
  have "1 * pow2 s \<le> 2 ^ k * pow2 s" by (rule mult_right_mono) simp_all
  then show ?thesis by (simp add: t pow2_add_nat)
qed

lemma pow2_0 [simp]: "pow2 0 = 1"
  by (simp add: pow2_def)

lemma ilog2_bounds: "0 < n \<Longrightarrow> 2 ^ ilog2 n \<le> n \<and> n < 2 ^ (ilog2 n + 1)"
proof (induction n rule: ilog2.induct)
  case (1 n)
  show ?case
  proof (cases "n \<le> 1")
    case True
    then have "n = 1" using "1.prems" by simp
    then show ?thesis by (simp add: ilog2.simps [of 1])
  next
    case False
    then have ih: "2 ^ ilog2 (n div 2) \<le> n div 2 \<and> n div 2 < 2 ^ (ilog2 (n div 2) + 1)"
      using "1.IH" by simp
    have "ilog2 n = ilog2 (n div 2) + 1" using False by (subst ilog2.simps) simp
    moreover have "2 ^ (ilog2 (n div 2) + 1) \<le> n" "n < 2 ^ (ilog2 (n div 2) + 1 + 1)"
      using ih unfolding power_add power_one_right by linarith+
    ultimately show ?thesis by metis
  qed
qed

lemma rat_ilog2_bounds:
  assumes "0 < q"
  shows "pow2 (rat_ilog2 q) \<le> q" "q < pow2 (rat_ilog2 q + 1)"
proof -
  obtain n d where nd: "quotient_of q = (n, d)" by fastforce
  have d: "0 < d" using quotient_of_denom_pos [OF nd] .
  have q: "q = of_int n / of_int d" using quotient_of_div [OF nd] .
  then have n: "0 < n" using assms d by (simp add: zero_less_divide_iff)
  define a b where "a = ilog2 n" and "b = ilog2 d"
  have an: "2 ^ a \<le> n" "n < 2 ^ (a + 1)" "2 ^ b \<le> d" "d < 2 ^ (b + 1)"
    using ilog2_bounds [of n] ilog2_bounds [of d] n d by (simp_all add: a_def b_def)
  have ri: "(2 :: rat) ^ a \<le> of_int n" "(of_int n :: rat) < 2 ^ (a + 1)"
    "(2 :: rat) ^ b \<le> of_int d" "(of_int d :: rat) < 2 ^ (b + 1)"
    using an by (metis of_int_le_iff of_int_less_iff of_int_numeral of_int_power)+
  define e where "e = int a - int b"
  have dp: "(0 :: rat) < of_int d" using d by simp
  have pa: "pow2 (e + int b) = 2 ^ a" unfolding e_def by (simp add: pow2_def)
  have "q < pow2 (e + 1)"
  proof -
    have "2 ^ (a + 1) = pow2 (e + 1) * 2 ^ b"
      using pow2_add_nat [of "e + 1" b] pow2_Suc [of "e + int b"] pa by (simp add: algebra_simps power_add)
    also have "\<dots> \<le> pow2 (e + 1) * of_int d" by (intro mult_left_mono ri(3)) simp
    finally have "of_int n < pow2 (e + 1) * of_int d" using ri(2) by linarith
    then show ?thesis using dp by (simp add: q pos_divide_less_eq)
  qed
  moreover have "pow2 (e - 1) \<le> q"
  proof -
    have "pow2 (e - 1) * of_int d \<le> pow2 (e - 1) * 2 ^ (b + 1)" using ri(4) by (intro mult_left_mono) simp_all
    also have "\<dots> = 2 ^ a" using pow2_add_nat [of "e - 1" "b + 1"] pa by (simp add: algebra_simps power_add)
    finally have "pow2 (e - 1) * of_int d \<le> of_int n" using ri(1) by linarith
    then show ?thesis using dp by (simp add: q pos_le_divide_eq)
  qed
  moreover have "rat_ilog2 q = (if q < pow2 e then e - 1 else e)"
    by (simp add: rat_ilog2_def nd Let_def e_def a_def b_def)
  ultimately show "pow2 (rat_ilog2 q) \<le> q" "q < pow2 (rat_ilog2 q + 1)" by (auto split: if_splits)
qed

lemma rat_ilog2_mono:
  assumes "0 < p" "p \<le> q" shows "rat_ilog2 p \<le> rat_ilog2 q"
proof (rule ccontr)
  assume "\<not> rat_ilog2 p \<le> rat_ilog2 q"
  then have "pow2 (rat_ilog2 q + 1) \<le> pow2 (rat_ilog2 p)" by (intro pow2_mono) simp
  with rat_ilog2_bounds(1) [of p] rat_ilog2_bounds(2) [of q] assms show False by simp
qed

lemma round_even_floor: "\<lfloor>x\<rfloor> \<le> round_even x" "round_even x \<le> \<lfloor>x\<rfloor> + 1"
  by (simp_all add: round_even_def Let_def)

lemma round_even_mono: assumes "x \<le> y" shows "round_even x \<le> round_even y"
proof (cases "\<lfloor>x\<rfloor> = \<lfloor>y\<rfloor>")
  case True
  then show ?thesis using assms by (auto simp: round_even_def Let_def)
next
  case False
  then have "\<lfloor>x\<rfloor> + 1 \<le> \<lfloor>y\<rfloor>" using floor_mono [OF assms] by simp
  then show ?thesis using round_even_floor(2) [of x] round_even_floor(1) [of y] by simp
qed

lemma round_even_int [simp]: "round_even (of_int n) = n"
  by (simp add: round_even_def)

lemma round_pos_bounds:
  assumes "0 < q" "pow2 (ulp_exp q) * of_int a \<le> q" "q \<le> pow2 (ulp_exp q) * of_int b"
  shows "pow2 (ulp_exp q) * of_int a \<le> round_pos q" "round_pos q \<le> pow2 (ulp_exp q) * of_int b"
proof -
  let ?u = "pow2 (ulp_exp q)"
  have "of_int a \<le> q / ?u" "q / ?u \<le> of_int b"
    using assms(2,3) by (simp_all add: pos_le_divide_eq pos_divide_le_eq mult.commute)
  then have "a \<le> round_even (q / ?u)" "round_even (q / ?u) \<le> b"
    using round_even_mono [of "of_int a" "q / ?u"] round_even_mono [of "q / ?u" "of_int b"] by simp_all
  then show "?u * of_int a \<le> round_pos q" "round_pos q \<le> ?u * of_int b"
    by (simp_all add: round_pos_def mult.commute)
qed

lemma ulp_exp_mono: "0 < p \<Longrightarrow> p \<le> q \<Longrightarrow> ulp_exp p \<le> ulp_exp q"
  using rat_ilog2_mono [of p q] by (simp add: ulp_exp_def)

text \<open>\<open>2 ^ (ulp_exp q + 53)\<close> is the next power of two above \<open>q\<close>: rounding does not pass it.\<close>

lemma round_pos_le_pow2:
  assumes "0 < q" "rat_ilog2 q + 1 \<le> t" "- 1074 \<le> t" shows "round_pos q \<le> pow2 t"
proof -
  have ut: "ulp_exp q \<le> t" using assms(2,3) by (simp add: ulp_exp_def)
  then obtain k where t: "t = ulp_exp q + int k" by (metis zle_iff_zadd)
  have "q \<le> pow2 t"
    using rat_ilog2_bounds(2) [OF assms(1)] pow2_mono [OF assms(2)] by simp
  then have "q \<le> pow2 (ulp_exp q) * of_int (2 ^ k)" by (simp add: t pow2_add_nat mult.commute)
  then show ?thesis using round_pos_bounds(2) [of q 0 "2 ^ k"] assms(1) by (simp add: t pow2_add_nat mult.commute)
qed

lemma round_pos_ge_pow2:
  assumes "0 < q" "ulp_exp q \<le> rat_ilog2 q" shows "pow2 (rat_ilog2 q) \<le> round_pos q"
proof -
  obtain k where r: "rat_ilog2 q = ulp_exp q + int k" using assms(2) by (metis zle_iff_zadd)
  have "pow2 (ulp_exp q) * of_int (2 ^ k) \<le> q"
    using rat_ilog2_bounds(1) [OF assms(1)] by (simp add: r pow2_add_nat mult.commute)
  moreover have "q \<le> pow2 (ulp_exp q) * of_int (2 ^ (k + 1))"
  proof -
    have "pow2 (rat_ilog2 q + 1) = pow2 (ulp_exp q) * of_int (2 ^ (k + 1))"
      by (simp add: pow2_Suc r pow2_add_nat power_add)
    then show ?thesis using rat_ilog2_bounds(2) [OF assms(1)] by simp
  qed
  ultimately have "pow2 (ulp_exp q) * of_int (2 ^ k) \<le> round_pos q"
    using round_pos_bounds(1) [OF assms(1)] by blast
  then show ?thesis by (simp add: r pow2_add_nat mult.commute)
qed

lemma round_pos_mono:
  assumes "0 < p" "p \<le> q" shows "round_pos p \<le> round_pos q"
proof (cases "ulp_exp p = ulp_exp q")
  case True
  have "round_even (p / pow2 (ulp_exp q)) \<le> round_even (q / pow2 (ulp_exp q))"
    by (intro round_even_mono divide_right_mono assms(2)) simp
  then show ?thesis by (simp add: round_pos_def True mult_right_mono)
next
  case False
  then have lt: "ulp_exp p < ulp_exp q" using ulp_exp_mono [OF assms] by simp
  then have q: "ulp_exp q = rat_ilog2 q - 52" "- 1074 < rat_ilog2 q - 52"
    by (auto simp: ulp_exp_def max_def split: if_splits)
  then have r: "rat_ilog2 p + 1 \<le> rat_ilog2 q" using lt by (simp add: ulp_exp_def)
  have "round_pos p \<le> pow2 (rat_ilog2 q)" using r q by (intro round_pos_le_pow2 assms) simp_all
  also have "\<dots> \<le> round_pos q" using assms q by (intro round_pos_ge_pow2) simp_all
  finally show ?thesis .
qed

lemma round_pos_nonneg: assumes "0 < q" shows "0 \<le> round_pos q"
proof -
  have "0 \<le> round_even (q / pow2 (ulp_exp q))"
    using round_even_mono [of "of_int 0" "q / pow2 (ulp_exp q)"] round_even_int [of 0] assms by simp
  then show ?thesis by (simp add: round_pos_def)
qed

lemma round_pos_1 [simp]: "round_pos 1 = 1" by code_simp

section \<open>Order on rounded values\<close>

text \<open>The value read as an extended number: what \<open>dless\<close> compares.\<close>

fun dkey :: "dbl \<Rightarrow> int \<times> rat" where
  "dkey (Fin x) = (0, x)" | "dkey PInf = (1, 0)" | "dkey NInf = (- 1, 0)" | "dkey NaN = (2, 0)"

lemma round_dbl_not_nan [simp]: "round_dbl q \<noteq> NaN"
  by (simp add: round_dbl_def Let_def)

lemma round_dbl_0 [simp]: "round_dbl 0 = Fin 0" and round_dbl_1 [simp]: "round_dbl 1 = Fin 1"
  by (simp_all add: round_dbl_def overflows_def)

lemma dle_refl [simp]: "x \<noteq> NaN \<Longrightarrow> dle x x"
  by (simp add: dle_def)

lemma dle_Fin [simp]: "dle (Fin x) (Fin y) \<longleftrightarrow> x \<le> y"
  by (auto simp: dle_def)

lemma round_dbl_mono: assumes "p \<le> q" shows "dle (round_dbl p) (round_dbl q)"
proof -
  consider "0 < p" | "p = 0" "q = 0" | "p = 0" "0 < q" | "p < 0" "q = 0" | "p < 0" "0 < q" | "q < 0"
    using assms by linarith
  then show ?thesis
  proof cases
    case 1
    then have "round_pos p \<le> round_pos q" by (rule round_pos_mono [OF _ assms])
    then show ?thesis using 1 assms by (auto simp: round_dbl_def Let_def dle_def overflows_def)
  next
    case 3
    then show ?thesis using round_pos_nonneg [of q] by (auto simp: round_dbl_def Let_def dle_def overflows_def)
  next
    case 4
    then show ?thesis using round_pos_nonneg [of "- p"] by (auto simp: round_dbl_def Let_def dle_def overflows_def)
  next
    case 5
    then show ?thesis using round_pos_nonneg [of "- p"] round_pos_nonneg [of q]
      by (auto simp: round_dbl_def Let_def dle_def overflows_def)
  next
    case 6
    then have "round_pos (- q) \<le> round_pos (- p)" using assms by (intro round_pos_mono) simp_all
    then show ?thesis using 6 assms by (auto simp: round_dbl_def Let_def dle_def overflows_def)
  qed simp
qed

lemma dle_trans: "dle x y \<Longrightarrow> dle y z \<Longrightarrow> dle x z"
  by (cases x; cases y; cases z; auto simp: dle_def)

lemma dless_iff_not_dle: "x \<noteq> NaN \<Longrightarrow> y \<noteq> NaN \<Longrightarrow> dless x y \<longleftrightarrow> \<not> dle y x"
  by (cases x; cases y; auto simp: dle_def)

lemma dless_irrefl [simp]: "\<not> dless x x"
  by (cases x) simp_all

lemma dless_le_trans: "dless x y \<Longrightarrow> dle y z \<Longrightarrow> dless x z"
  by (cases x; cases y; cases z; auto simp: dle_def)

lemma dle_less_trans: "dle x y \<Longrightarrow> dless y z \<Longrightarrow> dless x z"
  by (cases x; cases y; cases z; auto simp: dle_def)

text \<open>Small integers are exact: the significand has 53 bits.\<close>

lemma round_dbl_nat: assumes "n < 2 ^ 53" shows "round_dbl (of_nat n) = Fin (of_nat n)"
proof (cases "n = 0")
  case False
  have "rat_ilog2 (of_nat n) < 53"
  proof (rule ccontr)
    assume "\<not> ?thesis"
    then have "pow2 53 \<le> pow2 (rat_ilog2 (of_nat n))" by (intro pow2_mono) simp
    then have "pow2 53 \<le> of_nat n" using rat_ilog2_bounds(1) [of "of_nat n"] False by simp
    then have "(2 :: rat) ^ 53 \<le> of_nat n" by (simp add: pow2_def)
    then show False using assms by (metis not_less of_nat_le_iff of_nat_numeral of_nat_power)
  qed
  then have u: "ulp_exp (of_nat n) \<le> 0" by (simp add: ulp_exp_def)
  then obtain k where k: "0 = ulp_exp (of_nat n) + int k" by (metis zle_iff_zadd)
  have "pow2 (ulp_exp (of_nat n)) * 2 ^ k = 1"
    using pow2_add_nat [of "ulp_exp (of_nat n)" k] k by (simp add: mult.commute)
  then have d: "of_nat n / pow2 (ulp_exp (of_nat n)) = (of_int (int n * 2 ^ k) :: rat)"
    by (simp add: field_simps)
  have "round_pos (of_nat n) = of_nat n"
    unfolding round_pos_def d round_even_int unfolding d [symmetric] by simp
  moreover have "(of_nat n :: rat) < 2 ^ 1024"
  proof -
    have "n < 2 ^ 1024" using assms by (rule less_le_trans) (rule power_increasing, simp_all)
    then show ?thesis by (metis of_nat_less_iff of_nat_numeral of_nat_power)
  qed
  ultimately show ?thesis using False by (simp add: round_dbl_def overflows_def)
qed simp

lemma dbl_of_u64_small: "unat w < 2 ^ 53 \<Longrightarrow> dbl_of_u64 w = Fin (of_nat (unat w))"
  unfolding dbl_of_u64_def by (rule round_dbl_nat) simp

lemma round_dbl_2_64: "round_dbl (2 ^ 64) = Fin (2 ^ 64)"
  by code_simp

lemma rat_of_u64: "(of_nat (unat (w :: u64)) :: rat) \<le> 2 ^ 64"
proof -
  have "unat w \<le> 2 ^ 64" using unsigned_less [of w, where ?'a = nat] by simp
  then have "(of_nat (unat w) :: rat) \<le> of_nat (2 ^ 64)" by (rule of_nat_mono)
  then show ?thesis by simp
qed

lemma dbl_of_u64_bounds: "dle (Fin 0) (dbl_of_u64 w) \<and> dle (dbl_of_u64 w) (Fin (2 ^ 64))"
  using round_dbl_mono [OF rat_of_u64 [of w]] round_dbl_mono [OF of_nat_0_le_iff [of "unat w"]]
  unfolding dbl_of_u64_def round_dbl_2_64 round_dbl_0 by simp

lemma dbl_of_u64_finite: obtains x where "dbl_of_u64 w = Fin x" "0 \<le> x" "x \<le> 2 ^ 64"
  using dbl_of_u64_bounds [of w] that by (cases "dbl_of_u64 w") (auto simp: dle_def)

end
