(* ===== verification/CScan.thy ===== *)
theory CScan
  imports Doubles
begin

text \<open>
  The text input the daemon reads kernel files with: \<open>fgets\<close> with a fixed buffer, \<open>std::getline\<close>,
  C strings cut at the first NUL, \<open>strchr\<close>/\<open>strrchr\<close>, the conversions \<open>%s\<close>, \<open>%llu\<close>, \<open>%lx\<close>
  and \<open>%lf\<close> of the \<open>scanf\<close> family, and \<open>std::stod\<close>, \<open>operator>>(uint64_t)\<close>.
\<close>

section \<open>Lines\<close>

abbreviation newline :: char where
  "newline \<equiv> CHR 0x0A"

text \<open>\<open>fgets(buf, n + 1, f)\<close>: at most \<open>n\<close> characters, through the first newline.\<close>

fun fgets_take :: "nat \<Rightarrow> string \<Rightarrow> string" where
  "fgets_take n [] = []"
| "fgets_take 0 cs = []"
| "fgets_take (Suc n) (c # cs) = c # (if c = newline then [] else fgets_take n cs)"

fun fgets_rest :: "nat \<Rightarrow> string \<Rightarrow> string" where
  "fgets_rest n [] = []"
| "fgets_rest 0 cs = cs"
| "fgets_rest (Suc n) (c # cs) = (if c = newline then cs else fgets_rest n cs)"

lemma fgets_take_rest: "fgets_take n s @ fgets_rest n s = s"
  by (induction n s rule: fgets_take.induct) auto

lemma length_fgets_rest: "length (fgets_rest n s) \<le> length s"
  by (induction n s rule: fgets_rest.induct) auto

text \<open>The buffers \<open>while(fgets(line, n + 2, f))\<close> sees, one after the other.\<close>

function fgets_lines :: "nat \<Rightarrow> string \<Rightarrow> string list" where
  "fgets_lines n s = (if s = [] then [] else fgets_take (Suc n) s # fgets_lines n (fgets_rest (Suc n) s))"
  by auto
termination
proof (relation "measure (length \<circ> snd)")
  fix n and s :: string
  assume "s \<noteq> []"
  then show "((n, fgets_rest (Suc n) s), n, s) \<in> measure (length \<circ> snd)"
    using length_fgets_rest [of n "tl s"] by (cases s) auto
qed simp

declare fgets_lines.simps [simp del]

text \<open>\<open>std::getline\<close> without the newline; a last line without newline counts if it has text.\<close>

fun getlines_aux :: "string \<Rightarrow> string \<Rightarrow> string list" where
  "getlines_aux acc [] = (if acc = [] then [] else [rev acc])"
| "getlines_aux acc (c # cs) =
     (if c = newline then rev acc # getlines_aux [] cs else getlines_aux (c # acc) cs)"

definition getlines :: "string \<Rightarrow> string list" where
  "getlines s = getlines_aux [] s"

lemma getlines_aux_line:
  "newline \<notin> set l \<Longrightarrow> getlines_aux acc (l @ newline # rest) = (rev acc @ l) # getlines_aux [] rest"
  by (induction l arbitrary: acc) auto

lemma getlines_line [simp]: "newline \<notin> set l \<Longrightarrow> getlines (l @ newline # rest) = l # getlines rest"
  by (simp add: getlines_def getlines_aux_line)

lemma getlines_Nil [simp]: "getlines [] = []"
  by (simp add: getlines_def)

section \<open>Characters in strings\<close>

text \<open>A buffer read as a C string stops at the first NUL.\<close>

definition cstr :: "string \<Rightarrow> string" where
  "cstr s = takeWhile (\<lambda>c. c \<noteq> CHR 0x00) s"

definition strrchr_after :: "char \<Rightarrow> string \<Rightarrow> string option" where
  "strrchr_after c s = (if c \<in> set s then Some (rev (takeWhile (\<lambda>x. x \<noteq> c) (rev s))) else None)"

definition cut_newline :: "string \<Rightarrow> string" where
  "cut_newline s = takeWhile (\<lambda>c. c \<noteq> newline) s"

lemma strrchr_after_last:
  "c \<notin> set t \<Longrightarrow> strrchr_after c (s @ c # t) = Some t"
  by (simp add: strrchr_after_def takeWhile_append)

lemma cut_newline_id [simp]: "newline \<notin> set s \<Longrightarrow> cut_newline (s @ newline # t) = s"
  by (induction s) (auto simp: cut_newline_def)

section \<open>Conversions of \<open>scanf\<close>\<close>

text \<open>A white space directive skips any white space; a literal must match exactly.\<close>

definition scan_ws :: "string \<Rightarrow> string" where
  "scan_ws s = dropWhile is_space s"

definition scan_lit :: "string \<Rightarrow> string \<Rightarrow> string option" where
  "scan_lit p s = (if take (length p) s = p then Some (drop (length p) s) else None)"

text \<open>\<open>%<n>s\<close>: skip white space, then at most \<open>n\<close> other characters, at least one.\<close>

definition scan_word :: "nat \<Rightarrow> string \<Rightarrow> (string \<times> string) option" where
  "scan_word n s = (let t = scan_ws s; w = take n (takeWhile (\<lambda>c. \<not> is_space c) t)
     in if w = [] then None else Some (w, drop (length w) t))"

text \<open>\<open>%llu\<close> is \<open>strtoull\<close>: saturation at \<open>2^64 - 1\<close>, a minus sign negates in the unsigned type.\<close>

definition scan_ull :: "string \<Rightarrow> (u64 \<times> string) option" where
  "scan_ull s = (case scan_int s of
     None \<Rightarrow> None
   | Some (neg, v, rest) \<Rightarrow>
       Some (if v \<ge> 2 ^ 64 then - 1 else if neg then - word_of_int v else word_of_int v, rest))"

definition is_xdigit :: "char \<Rightarrow> bool" where
  "is_xdigit c \<longleftrightarrow> is_digit c \<or> (97 \<le> char_code (tolower c) \<and> char_code (tolower c) \<le> 102)"

definition xdigit_val :: "char \<Rightarrow> nat" where
  "xdigit_val c = (if is_digit c then digit_val c else char_code (tolower c) - 87)"

definition xdigits_val :: "string \<Rightarrow> int" where
  "xdigits_val ds = foldl (\<lambda>n c. 16 * n + int (xdigit_val c)) 0 ds"

text \<open>\<open>%lx\<close> is \<open>strtoul\<close> in base 16, with an optional \<open>0x\<close>.\<close>

definition scan_hex :: "string \<Rightarrow> (u64 \<times> string) option" where
  "scan_hex s =
     (let t = scan_ws s;
          neg = (t \<noteq> [] \<and> hd t = CHR ''-'');
          u = (if t \<noteq> [] \<and> (hd t = CHR ''-'' \<or> hd t = CHR ''+'') then tl t else t);
          x = (if map tolower (take 2 u) = ''0x'' then drop 2 u else u);
          ds = takeWhile is_xdigit x; v = xdigits_val ds
      in if ds = [] then None
         else Some (if v \<ge> 2 ^ 64 then - 1 else if neg then - word_of_int v else word_of_int v,
                    dropWhile is_xdigit x))"

text \<open>
  \<open>stream >> v\<close> for a \<open>uint64_t\<close>, in the default decimal format: whether it succeeds, and the
  value of \<open>v\<close> after it. Nothing but white space leaves \<open>v\<close> alone; otherwise a failure
  stores 0 (no number) or the maximum (overflow).
\<close>

definition istream_u64 :: "string \<Rightarrow> u64 \<Rightarrow> bool \<times> u64" where
  "istream_u64 s old =
     (if scan_ws s = [] then (False, old)
      else (case scan_int s of
        None \<Rightarrow> (False, 0)
      | Some (neg, v, rest) \<Rightarrow>
          if v \<ge> 2 ^ 64 then (False, - 1) else (True, if neg then - word_of_int v else word_of_int v)))"

section \<open>Floating point text\<close>

text \<open>
  \<open>strtod\<close>: white space, a sign, then \<open>inf\<close>, \<open>infinity\<close>, \<open>nan\<close>, a hexadecimal or a decimal
  number. The result is the exact value before rounding, or a special value, and the rest.
\<close>

datatype num = Exact rat | Inf | Nan

definition frac_digits :: "(char \<Rightarrow> bool) \<Rightarrow> string \<Rightarrow> string \<times> string \<times> string" where
  "frac_digits p s =
     (let ip = takeWhile p s; r = dropWhile p s
      in if r \<noteq> [] \<and> hd r = CHR ''.'' then (ip, takeWhile p (tl r), dropWhile p (tl r)) else (ip, [], r))"

definition exponent :: "char \<Rightarrow> string \<Rightarrow> int \<times> string" where
  "exponent e s =
     (if s \<noteq> [] \<and> tolower (hd s) = e then
        (let u = tl s;
             neg = (u \<noteq> [] \<and> hd u = CHR ''-'');
             v = (if u \<noteq> [] \<and> (hd u = CHR ''-'' \<or> hd u = CHR ''+'') then tl u else u);
             ds = takeWhile is_digit v
         in if ds = [] then (0, s)
            else ((if neg then - digits_val ds else digits_val ds), dropWhile is_digit v))
      else (0, s))"

definition scale :: "nat \<Rightarrow> int \<Rightarrow> rat" where
  "scale b e = (if 0 \<le> e then of_nat b ^ nat e else 1 / of_nat b ^ nat (- e))"

lemma scale_code [code]:
  "scale b e = (if 0 \<le> e then of_int (int b ^ nat e) else 1 / of_int (int b ^ nat (- e)))"
  by (simp add: scale_def)

definition scan_dec :: "string \<Rightarrow> (rat \<times> string) option" where
  "scan_dec u = (case frac_digits is_digit u of (ip, fp, r) \<Rightarrow>
     if ip @ fp = [] then None
     else (case exponent (CHR ''e'') r of (e, r') \<Rightarrow>
       Some (of_int (digits_val (ip @ fp)) * scale 10 (e - int (length fp)), r')))"

definition scan_hexfloat :: "string \<Rightarrow> (rat \<times> string) option" where
  "scan_hexfloat u =
     (if map tolower (take 2 u) = ''0x'' then
        (case frac_digits is_xdigit (drop 2 u) of (ip, fp, r) \<Rightarrow>
           if ip @ fp = [] then None
           else (case exponent (CHR ''p'') r of (e, r') \<Rightarrow>
             Some (of_int (xdigits_val (ip @ fp)) * scale 2 (e - 4 * int (length fp)), r')))
      else None)"

definition scan_num :: "string \<Rightarrow> (bool \<times> num \<times> string) option" where
  "scan_num s =
     (let t = scan_ws s;
          neg = (t \<noteq> [] \<and> hd t = CHR ''-'');
          u = (if t \<noteq> [] \<and> (hd t = CHR ''-'' \<or> hd t = CHR ''+'') then tl t else t);
          l = map tolower u
      in if take 8 l = ''infinity'' then Some (neg, Inf, drop 8 u)
         else if take 3 l = ''inf'' then Some (neg, Inf, drop 3 u)
         else if take 3 l = ''nan'' then Some (neg, Nan, drop 3 u)
         else (case scan_hexfloat u of
             Some (v, r) \<Rightarrow> Some (neg, Exact v, r)
           | None \<Rightarrow> (case scan_dec u of Some (v, r) \<Rightarrow> Some (neg, Exact v, r) | None \<Rightarrow> None)))"

definition num_dbl :: "bool \<Rightarrow> num \<Rightarrow> dbl" where
  "num_dbl neg n = (case n of
     Nan \<Rightarrow> NaN
   | Inf \<Rightarrow> (if neg then NInf else PInf)
   | Exact v \<Rightarrow> round_dbl (if neg then - v else v))"

definition scan_lf :: "string \<Rightarrow> (dbl \<times> string) option" where
  "scan_lf s = (case scan_num s of None \<Rightarrow> None | Some (neg, n, r) \<Rightarrow> Some (num_dbl neg n, r))"

text \<open>
  \<open>std::stod\<close> throws when nothing converts and when \<open>strtod\<close> reports \<open>ERANGE\<close>: overflow, or a
  result that is inexact and, rounded to 53 bits with any exponent, below \<open>2^-1022\<close>.
\<close>

definition erange :: "rat \<Rightarrow> bool" where
  "erange v \<longleftrightarrow> v \<noteq> 0 \<and>
     (let u = rat_ilog2 v - 52; r = round_even (v / pow2 u)
      in round_dbl v = PInf \<or> (of_int r * pow2 u < pow2 (- 1022) \<and> round_dbl v \<noteq> Fin v))"

definition stod :: "string \<Rightarrow> dbl option" where
  "stod s = (case scan_num s of
     None \<Rightarrow> None
   | Some (neg, n, r) \<Rightarrow>
       (case n of Exact v \<Rightarrow> if erange v then None else Some (num_dbl neg n) | _ \<Rightarrow> Some (num_dbl neg n)))"

lemma scan_ull_show_nat:
  assumes "rest = [] \<or> \<not> is_digit (hd rest)"
  shows "scan_ull (show_nat (unat w) @ rest) = Some (w, rest)"
proof -
  have "\<not> 2 ^ 64 \<le> uint w" using unsigned_less [of w, where ?'a = int] by simp
  then show ?thesis by (simp add: scan_ull_def scan_int_show_nat [OF assms])
qed

lemma stoull_show_nat [simp]: "stoull (show_nat (unat w)) = Some w"
proof -
  have "\<not> 2 ^ 64 \<le> uint w" using unsigned_less [of w, where ?'a = int] by simp
  then show ?thesis using scan_int_show_nat [of "[]" "unat w"] by (simp add: stoull_def)
qed

end
