(* ===== verification/Config.thy ===== *)
theory Config
  imports CScan
begin

text \<open>
  The configuration of the daemon (\<open>src/core/log.cpp\<close> from line 64, \<open>common.hpp\<close> lines 63 to
  96): trimming, the tolerant value parsers, the records with their defaults, and the INI reader
  \<open>Config::reload\<close> as a fold over the lines of the file with the current section as state.
  \<open>None\<close> stands for leaving the function by \<open>std::length_error\<close> or by an access outside
  \<open>groups\<close>; the vector may take any size up to \<open>max_size\<close>.
\<close>

section \<open>Values\<close>

definition blank :: "char \<Rightarrow> bool" where
  "blank c \<longleftrightarrow> c = CHR '' '' \<or> c = CHR 0x09 \<or> c = CHR 0x0D \<or> c = CHR 0x0A"

definition trim :: "string \<Rightarrow> string" where
  "trim s = rev (dropWhile blank (rev (dropWhile blank s)))"

definition lower :: "string \<Rightarrow> string" where
  "lower s = map tolower s"

definition parse_bool :: "string \<Rightarrow> bool \<Rightarrow> bool" where
  "parse_bool v dflt =
     (let t = lower (trim v)
      in if t \<in> {''1'', ''true'', ''yes'', ''on''} then True
         else if t \<in> {''0'', ''false'', ''no'', ''off''} then False
         else dflt)"

definition parse_u64 :: "string \<Rightarrow> u64 \<Rightarrow> u64" where
  "parse_u64 v dflt = (case stoull (trim v) of Some n \<Rightarrow> n | None \<Rightarrow> dflt)"

definition parse_dbl :: "string \<Rightarrow> dbl \<Rightarrow> dbl" where
  "parse_dbl v dflt = (case stod (trim v) of Some x \<Rightarrow> x | None \<Rightarrow> dflt)"

section \<open>Records\<close>

datatype log_level = Debug | Info | Warn | Error

record preload_cfg =
  trim_after_mb :: u64
  free_bytes :: u64

record group_policy =
  g_prefix :: string
  g_weight :: dbl
  g_mode :: int

record config =
  c_interval_ms :: u32
  c_psi_threshold :: dbl
  c_psi_low :: dbl
  c_min_score :: dbl
  c_min_reclaimable_mb :: u64
  c_max_targets :: u32
  c_max_reclaim_mb :: u64
  c_anon_ratio_cap :: dbl
  c_heap_trim :: bool
  c_cgroup_reclaim :: bool
  c_ksm :: bool
  c_damon :: bool
  c_default_mode :: string
  c_groups :: "group_policy list"
  c_dry_run :: bool
  c_preload :: preload_cfg
  c_log_level :: log_level

definition group_default :: group_policy where
  "group_default = \<lparr>g_prefix = '''', g_weight = Fin 1, g_mode = 0\<rparr>"

definition config_default :: config where
  "config_default =
     \<lparr>c_interval_ms = 1000, c_psi_threshold = dlit 20 2, c_psi_low = dlit 5 2,
      c_min_score = Fin 3, c_min_reclaimable_mb = 64, c_max_targets = 3, c_max_reclaim_mb = 512,
      c_anon_ratio_cap = dlit 60 2, c_heap_trim = True, c_cgroup_reclaim = True, c_ksm = True,
      c_damon = True, c_default_mode = ''pageout'', c_groups = [], c_dry_run = False,
      c_preload = \<lparr>trim_after_mb = 512, free_bytes = push_bit 20 256\<rparr>, c_log_level = Info\<rparr>"

text \<open>The three fractions, evaluated once.\<close>

lemma config_literals:
  "dlit 20 2 = Fin (3602879701896397 / 18014398509481984)"
  "dlit 5 2 = Fin (3602879701896397 / 72057594037927936)"
  "dlit 60 2 = Fin (5404319552844595 / 9007199254740992)"
  by code_simp+

lemmas config_default_code [code] = config_default_def [unfolded config_literals]

section \<open>The reader\<close>

text \<open>One \<open>key = value\<close> line of each section.\<close>

definition set_engine :: "string \<Rightarrow> string \<Rightarrow> config \<Rightarrow> config" where
  "set_engine k v c =
     (if k = ''interval_ms'' then c\<lparr>c_interval_ms := ucast (parse_u64 v (ucast (c_interval_ms c)))\<rparr>
      else if k = ''psi_threshold'' then c\<lparr>c_psi_threshold := parse_dbl v (c_psi_threshold c)\<rparr>
      else if k = ''psi_low'' then c\<lparr>c_psi_low := parse_dbl v (c_psi_low c)\<rparr>
      else if k = ''min_score'' then c\<lparr>c_min_score := parse_dbl v (c_min_score c)\<rparr>
      else if k = ''min_reclaimable_mb'' then
        c\<lparr>c_min_reclaimable_mb := parse_u64 v (c_min_reclaimable_mb c)\<rparr>
      else if k = ''max_targets'' then c\<lparr>c_max_targets := ucast (parse_u64 v (ucast (c_max_targets c)))\<rparr>
      else if k = ''max_reclaim_mb_per_cycle'' then
        c\<lparr>c_max_reclaim_mb := parse_u64 v (c_max_reclaim_mb c)\<rparr>
      else if k = ''anon_ratio_cap'' then c\<lparr>c_anon_ratio_cap := parse_dbl v (c_anon_ratio_cap c)\<rparr>
      else if k = ''enable_heap_trim'' then c\<lparr>c_heap_trim := parse_bool v (c_heap_trim c)\<rparr>
      else if k = ''enable_cgroup_reclaim'' then
        c\<lparr>c_cgroup_reclaim := parse_bool v (c_cgroup_reclaim c)\<rparr>
      else if k = ''enable_ksm'' then c\<lparr>c_ksm := parse_bool v (c_ksm c)\<rparr>
      else if k = ''enable_damon'' then c\<lparr>c_damon := parse_bool v (c_damon c)\<rparr>
      else if k = ''default_mode'' then
        c\<lparr>c_default_mode := (if lower v = ''cold'' \<or> lower v = ''coldonly'' then ''cold'' else ''pageout'')\<rparr>
      else if k = ''dry_run'' then c\<lparr>c_dry_run := parse_bool v (c_dry_run c)\<rparr>
      else c)"

text \<open>
  \<open>groups.resize(idx + 1)\<close> and \<open>groups[idx]\<close>: \<open>idx + 1\<close> wraps around to 0 for the
  largest index, and more than \<open>max_size\<close> elements of 48 bytes raise \<open>length_error\<close>.
\<close>

definition groups_max_size :: int where
  "groups_max_size = (2 ^ 63 - 1) div 48"

definition grow_groups :: "u64 \<Rightarrow> group_policy list \<Rightarrow> group_policy list option" where
  "grow_groups idx gs =
     (if length gs \<le> unat idx then
        (let n = unat (idx + 1)
         in if uint (idx + 1) > groups_max_size then None
            else Some (take n gs @ replicate (n - length gs) group_default))
      else Some gs)"

definition set_group_field :: "string \<Rightarrow> string \<Rightarrow> group_policy \<Rightarrow> group_policy" where
  "set_group_field field v g =
     (if field = ''cgroup'' \<or> field = ''prefix'' then g\<lparr>g_prefix := trim v\<rparr>
      else if field = ''weight'' then g\<lparr>g_weight := parse_dbl v (Fin 1)\<rparr>
      else if field = ''mode'' then g\<lparr>g_mode := (if lower v = ''cold'' then 1 else 0)\<rparr>
      else g)"

definition known_field :: "string \<Rightarrow> bool" where
  "known_field f \<longleftrightarrow> f \<in> {''cgroup'', ''prefix'', ''weight'', ''mode''}"

text \<open>
  \<open>k.find('.')\<close> and \<open>k.find('.', dot1 + 1)\<close>: the key is cut at its first two dots. When there is
  no dot, \<open>dot1 + 1\<close> wraps around to 0 and the second search finds none either.
\<close>

definition split_dot :: "string \<Rightarrow> (string \<times> string) option" where
  "split_dot k = (if CHR ''.'' \<in> set k
     then Some (takeWhile (\<lambda>c. c \<noteq> CHR ''.'') k, tl (dropWhile (\<lambda>c. c \<noteq> CHR ''.'') k)) else None)"

definition set_group :: "string \<Rightarrow> string \<Rightarrow> config \<Rightarrow> config option" where
  "set_group k v c =
     (if take 5 k = ''group'' then
        (case split_dot k of
           None \<Rightarrow> Some c
         | Some (_, r) \<Rightarrow>
             (case split_dot r of
                None \<Rightarrow> Some c
              | Some (idxs, field) \<Rightarrow> do {
                  let idx = parse_u64 idxs 0;
                  gs \<leftarrow> grow_groups idx (c_groups c);
                  if known_field field then
                    (if unat idx < length gs
                     then Some (c\<lparr>c_groups := gs[unat idx := set_group_field field v (gs ! unat idx)]\<rparr>)
                     else None)
                  else Some (c\<lparr>c_groups := gs\<rparr>)
                }))
      else Some c)"

definition set_preload :: "string \<Rightarrow> string \<Rightarrow> config \<Rightarrow> config" where
  "set_preload k v c =
     (if k = ''trim_after_mb'' then
        c\<lparr>c_preload := (c_preload c)\<lparr>trim_after_mb := parse_u64 v (trim_after_mb (c_preload c))\<rparr>\<rparr>
      else if k = ''free_bytes'' then
        c\<lparr>c_preload := (c_preload c)\<lparr>free_bytes := parse_u64 v (free_bytes (c_preload c))\<rparr>\<rparr>
      else c)"

definition set_log :: "string \<Rightarrow> string \<Rightarrow> config \<Rightarrow> config" where
  "set_log k v c =
     (if k = ''level'' then
        (let t = lower v
         in if t = ''debug'' then c\<lparr>c_log_level := Debug\<rparr>
            else if t = ''info'' then c\<lparr>c_log_level := Info\<rparr>
            else if t = ''warn'' \<or> t = ''warning'' then c\<lparr>c_log_level := Warn\<rparr>
            else if t = ''error'' then c\<lparr>c_log_level := Error\<rparr>
            else c)
      else c)"

definition set_key :: "string \<Rightarrow> string \<Rightarrow> string \<Rightarrow> config \<Rightarrow> config option" where
  "set_key section k v c =
     (if section = ''engine'' then Some (set_engine k v c)
      else if section = ''groups'' then set_group k v c
      else if section = ''ksm'' then Some c
      else if section = ''preload'' then Some (set_preload k v c)
      else if section = ''log'' then Some (set_log k v c)
      else Some c)"

text \<open>One line: a comment, a section header, an assignment, or nothing.\<close>

definition reload_line :: "string \<Rightarrow> string \<times> config \<Rightarrow> (string \<times> config) option" where
  "reload_line line = (\<lambda>(section, c).
     (let h = trim line
      in if h = [] \<or> hd h = CHR ''#'' \<or> hd h = CHR '';'' then Some (section, c)
         else if hd h = CHR ''['' \<and> last h = CHR '']'' then
           Some (trim (take (length h - 2) (tl h)), c)
         else if CHR ''='' \<in> set h then
           (let k = trim (takeWhile (\<lambda>x. x \<noteq> CHR ''='') h);
                v = trim (tl (dropWhile (\<lambda>x. x \<noteq> CHR ''='') h))
            in map_option (Pair section) (set_key section k v c))
         else Some (section, c)))"

fun reload_lines :: "string list \<Rightarrow> string \<times> config \<Rightarrow> (string \<times> config) option" where
  "reload_lines [] sc = Some sc"
| "reload_lines (l # ls) sc = do { sc' \<leftarrow> reload_line l sc; reload_lines ls sc' }"

text \<open>\<open>Config::reload\<close> on the text of the file (\<open>None\<close>: it cannot be opened), and \<open>Config::load\<close>.\<close>

definition reload :: "string option \<Rightarrow> config \<Rightarrow> config option" where
  "reload file c = (case file of
     None \<Rightarrow> Some c
   | Some text \<Rightarrow> map_option snd (reload_lines (getlines text) ('''', c)))"

definition load :: "string option \<Rightarrow> config option" where
  "load file = reload file config_default"

end
