(* ===== verification/System.thy ===== *)
theory System
  imports Config
begin

text \<open>
  The kernel as the daemon uses it. What the kernel answers is a parameter: a record of functions
  of the number of calls made so far (so that answers may change over time) and of the arguments.
  Every call is recorded, newest first. \<open>kern.hpp\<close>'s \<open>PidFd\<close>, \<open>pidfd_open\<close> and
  \<open>pageout_pages\<close> (\<open>src/kern/process.cpp\<close> lines 19 to 40) and the small file readers and
  writers of \<open>src/kern/sysctl.cpp\<close> and \<open>src/kern/damon.cpp\<close> are here.
\<close>

section \<open>Calls\<close>

type_synonym pid = int

datatype advice = MADV_COLD | MADV_PAGEOUT

datatype sys_call =
    Read_File string
  | Stat string
  | Write_File string string
  | List_Proc
  | Pidfd_Open pid
  | Madvise int u64 u64 advice
  | Seek string u64
  | Pread string u64 u64
  | Bpf string

text \<open>Writing a file: it cannot be opened, the write fails with an \<open>errno\<close>, or it succeeds.\<close>

datatype write_result = No_File | Failed int | Written

text \<open>
  \<open>k_pread\<close> answers with the return value and the entries read; \<open>k_proc\<close> with the entries of
  \<open>/proc\<close>, each with its \<open>d_type == DT_DIR\<close>; \<open>k_bpf\<close> with the success of a libbpf call and
  \<open>k_faults\<close> with the pairs a drain of the fault map meets, in order.
\<close>

record kernel =
  k_read :: "nat \<Rightarrow> string \<Rightarrow> string option"
  k_stat :: "nat \<Rightarrow> string \<Rightarrow> bool"
  k_write :: "nat \<Rightarrow> string \<Rightarrow> string \<Rightarrow> write_result"
  k_proc :: "nat \<Rightarrow> (string \<times> bool) list option"
  k_pidfd :: "nat \<Rightarrow> pid \<Rightarrow> int"
  k_madvise :: "nat \<Rightarrow> int \<Rightarrow> u64 \<Rightarrow> u64 \<Rightarrow> advice \<Rightarrow> int"
  k_open :: "nat \<Rightarrow> string \<Rightarrow> bool"
  k_seek :: "nat \<Rightarrow> string \<Rightarrow> u64 \<Rightarrow> bool"
  k_pread :: "nat \<Rightarrow> string \<Rightarrow> u64 \<Rightarrow> u64 \<Rightarrow> int \<times> u64 list"
  k_self :: pid
  k_bpf :: "nat \<Rightarrow> string \<Rightarrow> bool"
  k_faults :: "nat \<Rightarrow> (u32 \<times> u64) list"

record sys =
  s_now :: nat
  s_calls :: "sys_call list"

definition emit :: "sys_call \<Rightarrow> 'a sys_scheme \<Rightarrow> 'a sys_scheme" where
  "emit e s = s\<lparr>s_now := s_now s + 1, s_calls := e # s_calls s\<rparr>"

definition read_file :: "kernel \<Rightarrow> string \<Rightarrow> 'a sys_scheme \<Rightarrow> string option \<times> 'a sys_scheme" where
  "read_file K p s = (k_read K (s_now s) p, emit (Read_File p) s)"

definition stat_ok :: "kernel \<Rightarrow> string \<Rightarrow> 'a sys_scheme \<Rightarrow> bool \<times> 'a sys_scheme" where
  "stat_ok K p s = (k_stat K (s_now s) p, emit (Stat p) s)"

definition write_file :: "kernel \<Rightarrow> string \<Rightarrow> string \<Rightarrow> 'a sys_scheme \<Rightarrow> write_result \<times> 'a sys_scheme" where
  "write_file K p v s = (k_write K (s_now s) p v, emit (Write_File p v) s)"

definition pidfd_open :: "kernel \<Rightarrow> pid \<Rightarrow> 'a sys_scheme \<Rightarrow> int \<times> 'a sys_scheme" where
  "pidfd_open K p s = (k_pidfd K (s_now s) p, emit (Pidfd_Open p) s)"

text \<open>\<open>pageout_pages\<close>: no call for a negative descriptor.\<close>

definition pageout_pages :: "kernel \<Rightarrow> int \<Rightarrow> u64 \<Rightarrow> u64 \<Rightarrow> bool \<Rightarrow> 'a sys_scheme \<Rightarrow> int \<times> 'a sys_scheme" where
  "pageout_pages K fd addr len cold_only s =
     (if fd < 0 then (- 1, s)
      else (let advice = (if cold_only then MADV_COLD else MADV_PAGEOUT)
            in (k_madvise K (s_now s) fd addr len advice, emit (Madvise fd addr len advice) s)))"

section \<open>Which calls an operation makes\<close>

text \<open>
  \<open>only P s s'\<close>: going from \<open>s\<close> to \<open>s'\<close> prepends calls that all satisfy \<open>P\<close>. \<open>runs P s s'\<close>:
  moreover nothing else of the state changes. Both are reflexive and transitive, so they compose
  along the code.
\<close>

named_theorems runs_intros "which calls each operation on the kernel makes"

definition only :: "(sys_call \<Rightarrow> bool) \<Rightarrow> 'a sys_scheme \<Rightarrow> 'b sys_scheme \<Rightarrow> bool" where
  "only P s s' \<longleftrightarrow> (\<exists>es. s_calls s' = es @ s_calls s \<and> list_all P es)"

definition runs :: "(sys_call \<Rightarrow> bool) \<Rightarrow> 'a sys_scheme \<Rightarrow> 'a sys_scheme \<Rightarrow> bool" where
  "runs P s s' \<longleftrightarrow> (\<exists>n es. s' = s\<lparr>s_now := n, s_calls := es @ s_calls s\<rparr> \<and> list_all P es)"

lemma only_refl [simp]: "only P s s"
  by (simp add: only_def)

lemma only_trans: "only P s t \<Longrightarrow> only P t u \<Longrightarrow> only P s u"
  by (auto simp: only_def)

lemma only_cong: "s_calls t = s_calls t' \<Longrightarrow> only P s t \<longleftrightarrow> only P s t'" "s_calls s = s_calls s' \<Longrightarrow> only P s t \<longleftrightarrow> only P s' t"
  by (simp_all add: only_def)

lemma only_weaken: "only P s t \<Longrightarrow> (\<And>e. P e \<Longrightarrow> Q e) \<Longrightarrow> only Q s t"
  by (auto simp: only_def list.pred_set)

lemma runs_only: "runs P s s' \<Longrightarrow> only P s s'"
  by (auto simp: runs_def only_def)

lemma runs_refl [simp, runs_intros]: "runs P s s"
  unfolding runs_def by (rule exI [of _ "s_now s"], rule exI [of _ "[]"]) simp

lemma runs_trans: assumes "runs P s t" "runs P t u" shows "runs P s u"
proof -
  obtain n es where t: "t = s\<lparr>s_now := n, s_calls := es @ s_calls s\<rparr>" "list_all P es" using assms(1) by (auto simp: runs_def)
  obtain m fs where u: "u = t\<lparr>s_now := m, s_calls := fs @ s_calls t\<rparr>" "list_all P fs" using assms(2) by (auto simp: runs_def)
  have "u = s\<lparr>s_now := m, s_calls := (fs @ es) @ s_calls s\<rparr>" by (simp add: t(1) u(1))
  then show ?thesis unfolding runs_def using t(2) u(2) by (metis list_all_append)
qed

lemma runs_emit: "P e \<Longrightarrow> runs P s (emit e s)"
  unfolding runs_def by (rule exI [of _ "s_now s + 1"], rule exI [of _ "[e]"]) (simp add: emit_def)

lemma runs_weaken: "runs P s t \<Longrightarrow> (\<And>e. P e \<Longrightarrow> Q e) \<Longrightarrow> runs Q s t"
  by (auto simp: runs_def list.pred_set)

lemma runs_fst: "(\<And>r s'. f s = (r, s') \<Longrightarrow> runs P s s') \<Longrightarrow> runs P s (snd (f s))"
  by (cases "f s") simp

lemma runs_snd: "runs P s (snd (f s)) \<Longrightarrow> f s = (r, s') \<Longrightarrow> runs P s s'"
  by simp

text \<open>The calls that read and nothing else.\<close>

definition is_read :: "sys_call \<Rightarrow> bool" where
  "is_read e \<longleftrightarrow> (case e of Read_File _ \<Rightarrow> True | Stat _ \<Rightarrow> True | List_Proc \<Rightarrow> True
     | Seek _ _ \<Rightarrow> True | Pread _ _ _ \<Rightarrow> True | _ \<Rightarrow> False)"

definition is_madvise :: "sys_call \<Rightarrow> bool" where
  "is_madvise e \<longleftrightarrow> (case e of Madvise _ _ _ _ \<Rightarrow> True | _ \<Rightarrow> False)"

lemma is_read_simps [simp]:
  "is_read (Read_File p)" "is_read (Stat p)" "is_read List_Proc" "is_read (Seek p o')" "is_read (Pread p o' l)"
  "\<not> is_read (Write_File p v)" "\<not> is_read (Pidfd_Open i)" "\<not> is_read (Madvise i a l d)" "\<not> is_read (Bpf n)"
  by (simp_all add: is_read_def)

lemma is_madvise_simps [simp]:
  "is_madvise (Madvise i a l d)" "\<not> is_madvise (Read_File p)" "\<not> is_madvise (Stat p)" "\<not> is_madvise List_Proc"
  "\<not> is_madvise (Seek p o')" "\<not> is_madvise (Pread p o' l)" "\<not> is_madvise (Write_File p v)"
  "\<not> is_madvise (Pidfd_Open i)" "\<not> is_madvise (Bpf n)"
  by (simp_all add: is_madvise_def)

section \<open>The small readers and writers\<close>

text \<open>
  \<open>sysctl.cpp\<close>: \<open>write_sys\<close>, \<open>read_sys\<close>. \<open>fwrite\<close> to a stdio stream only fills the
  4096-byte buffer; the bytes reach the kernel when \<open>fclose\<close> flushes, whose result is not
  looked at. So a shorter value reports success as soon as the file opens.
\<close>

definition write_sys :: "kernel \<Rightarrow> string \<Rightarrow> string \<Rightarrow> 'a sys_scheme \<Rightarrow> bool \<times> 'a sys_scheme" where
  "write_sys K p v s = (let (r, s') = write_file K p v s in (r = Written \<or> r \<noteq> No_File \<and> length v < 4096, s'))"

definition strip_end :: "string \<Rightarrow> string" where
  "strip_end s = rev (dropWhile (\<lambda>c. c = newline \<or> c = CHR '' '') (rev s))"

definition read_sys :: "kernel \<Rightarrow> string \<Rightarrow> 'a sys_scheme \<Rightarrow> string \<times> 'a sys_scheme" where
  "read_sys K p s = (let (r, s') = read_file K p s in
     (case r of None \<Rightarrow> [] | Some t \<Rightarrow> strip_end (take 127 t), s'))"

text \<open>
  \<open>damon.cpp\<close>: \<open>w_num\<close>, \<open>w_str\<close>, \<open>r_num\<close>; \<open>v\<close> is the variable's value before. \<open>f.fail()\<close>
  is read before the stream buffer is flushed by the destructor: it is false once the file is open.
\<close>

definition w_str :: "kernel \<Rightarrow> string \<Rightarrow> string \<Rightarrow> 'a sys_scheme \<Rightarrow> bool \<times> 'a sys_scheme" where
  "w_str K p v s = (let (r, s') = write_file K p v s in (r \<noteq> No_File, s'))"

definition w_num :: "kernel \<Rightarrow> string \<Rightarrow> u64 \<Rightarrow> 'a sys_scheme \<Rightarrow> bool \<times> 'a sys_scheme" where
  "w_num K p v s = w_str K p (show_nat (unat v)) s"

definition r_num :: "kernel \<Rightarrow> string \<Rightarrow> u64 \<Rightarrow> 'a sys_scheme \<Rightarrow> (bool \<times> u64) \<times> 'a sys_scheme" where
  "r_num K p v s = (let (r, s') = read_file K p s in
     (case r of None \<Rightarrow> (False, v) | Some t \<Rightarrow> istream_u64 t v, s'))"

lemma sys_runs [runs_intros]:
  "P (Read_File p) \<Longrightarrow> runs P s (snd (read_file K p s))"
  "P (Stat p) \<Longrightarrow> runs P s (snd (stat_ok K p s))"
  "P (Write_File p v) \<Longrightarrow> runs P s (snd (write_file K p v s))"
  "P (Pidfd_Open i) \<Longrightarrow> runs P s (snd (pidfd_open K i s))"
  "P (Write_File p v) \<Longrightarrow> runs P s (snd (write_sys K p v s))"
  "P (Read_File p) \<Longrightarrow> runs P s (snd (read_sys K p s))"
  "P (Write_File p v) \<Longrightarrow> runs P s (snd (w_str K p v s))"
  "P (Write_File p (show_nat (unat n))) \<Longrightarrow> runs P s (snd (w_num K p n s))"
  "P (Read_File p) \<Longrightarrow> runs P s (snd (r_num K p n s))"
  by (simp_all add: read_file_def stat_ok_def write_file_def pidfd_open_def write_sys_def read_sys_def
      w_str_def w_num_def r_num_def runs_emit)

lemma pageout_pages_runs [runs_intros]:
  "P (Madvise fd addr len (if c then MADV_COLD else MADV_PAGEOUT)) \<Longrightarrow> runs P s (snd (pageout_pages K fd addr len c s))"
  by (simp add: pageout_pages_def Let_def runs_emit)

end
