(* ===== verification/ProcText.thy ===== *)
theory ProcText
  imports System
begin

text \<open>
  The readers of \<open>/proc\<close> (\<open>src/kern/process.cpp\<close> from line 43, \<open>read_maps\<close> of
  \<open>src/core/workingset.cpp\<close>): pressure, memory totals, the per-process statistics and the list
  of mappings, each as a function of the text the file holds, then as an operation on the kernel.
\<close>

section \<open>Pressure\<close>

record psi_snapshot =
  some_avg10 :: dbl
  full_avg10 :: dbl
  psi_ok :: bool

definition psi_none :: psi_snapshot where
  "psi_none = \<lparr>some_avg10 = Fin 0, full_avg10 = Fin 0, psi_ok = False\<rparr>"

text \<open>\<open>sscanf(line, "<word> avg10=%lf")\<close>: the literal, white space, the literal, a number.\<close>

definition scan_avg10 :: "string \<Rightarrow> string \<Rightarrow> dbl option" where
  "scan_avg10 w line = do {
     r \<leftarrow> scan_lit w line;
     r \<leftarrow> scan_lit ''avg10='' (scan_ws r);
     (v, _) \<leftarrow> scan_lf r;
     Some v }"

definition psi_line :: "string \<Rightarrow> psi_snapshot \<Rightarrow> psi_snapshot" where
  "psi_line line s = (case scan_avg10 ''some'' (cstr line) of
     Some v \<Rightarrow> s\<lparr>some_avg10 := ddiv v (Fin 100), psi_ok := True\<rparr>
   | None \<Rightarrow> (case scan_avg10 ''full'' (cstr line) of
       Some v \<Rightarrow> s\<lparr>full_avg10 := ddiv v (Fin 100), psi_ok := True\<rparr>
     | None \<Rightarrow> s))"

definition psi_text :: "string \<Rightarrow> psi_snapshot" where
  "psi_text t = fold psi_line (fgets_lines 254 t) psi_none"

definition psi_memory :: "kernel \<Rightarrow> 'a sys_scheme \<Rightarrow> psi_snapshot \<times> 'a sys_scheme" where
  "psi_memory K s = (let (r, s') = read_file K ''/proc/pressure/memory'' s in
     (case r of None \<Rightarrow> psi_none | Some t \<Rightarrow> psi_text t, s'))"

section \<open>Memory totals\<close>

record mem_info =
  m_total_kb :: u64
  m_free_kb :: u64
  m_available_kb :: u64
  m_anon_kb :: u64
  m_file_kb :: u64
  m_slab_kb :: u64
  m_shmem_kb :: u64
  m_swap_total_kb :: u64
  m_swap_free_kb :: u64

definition mem_none :: mem_info where
  "mem_none = \<lparr>m_total_kb = 0, m_free_kb = 0, m_available_kb = 0, m_anon_kb = 0, m_file_kb = 0,
     m_slab_kb = 0, m_shmem_kb = 0, m_swap_total_kb = 0, m_swap_free_kb = 0\<rparr>"

definition mem_key :: "string \<Rightarrow> u64 \<Rightarrow> mem_info \<Rightarrow> mem_info" where
  "mem_key key v m =
     (if key = ''MemTotal:'' then m\<lparr>m_total_kb := v\<rparr>
      else if key = ''MemFree:'' then m\<lparr>m_free_kb := v\<rparr>
      else if key = ''MemAvailable:'' then m\<lparr>m_available_kb := v\<rparr>
      else if key = ''Anonymous:'' then m\<lparr>m_anon_kb := v\<rparr>
      else if key = ''Mapped:'' then m\<lparr>m_file_kb := v\<rparr>
      else if key = ''Slab:'' then m\<lparr>m_slab_kb := v\<rparr>
      else if key = ''Shmem:'' then m\<lparr>m_shmem_kb := v\<rparr>
      else if key = ''SwapTotal:'' then m\<lparr>m_swap_total_kb := v\<rparr>
      else if key = ''SwapFree:'' then m\<lparr>m_swap_free_kb := v\<rparr>
      else m)"

text \<open>One \<open>fscanf(f, "%63s %llu %15s")\<close>: \<open>None\<close> when it converts fewer than three.\<close>

definition mem_entry :: "string \<Rightarrow> (string \<times> u64 \<times> string) option" where
  "mem_entry t = do {
     (key, r) \<leftarrow> scan_word 63 t;
     (v, r) \<leftarrow> scan_ull r;
     (unit, r) \<leftarrow> scan_word 15 r;
     Some (key, v, r) }"

lemma scan_word_shorter: "scan_word n s = Some (w, r) \<Longrightarrow> length r < length s"
proof -
  assume a: "scan_word n s = Some (w, r)"
  then have "w \<noteq> []" "r = drop (length w) (scan_ws s)" "w = take n (takeWhile (\<lambda>c. \<not> is_space c) (scan_ws s))"
    by (auto simp: scan_word_def Let_def split: if_splits)
  then have "length r < length (scan_ws s)" by (cases "scan_ws s") auto
  then show ?thesis using length_dropWhile_le [of is_space s] by (simp add: scan_ws_def)
qed

lemma scan_int_shorter: "scan_int s = Some (b, v, r) \<Longrightarrow> length r \<le> length s"
proof -
  assume "scan_int s = Some (b, v, r)"
  then have "r = dropWhile is_digit (dropWhile is_space s) \<or> r = dropWhile is_digit (tl (dropWhile is_space s))"
    by (auto simp: scan_int_def Let_def split: if_splits)
  moreover have "length (tl (dropWhile is_space s)) \<le> length (dropWhile is_space s)" by simp
  ultimately show ?thesis
    using length_dropWhile_le [of is_space s] length_dropWhile_le [of is_digit "dropWhile is_space s"]
      length_dropWhile_le [of is_digit "tl (dropWhile is_space s)"] by (elim disjE; hypsubst; linarith)
qed

lemma scan_ull_shorter: "scan_ull s = Some (v, r) \<Longrightarrow> length r \<le> length s"
  by (auto simp: scan_ull_def dest: scan_int_shorter split: option.splits)

lemma mem_entry_shorter: "mem_entry t = Some (k, v, r) \<Longrightarrow> length r < length t"
  by (fastforce simp: mem_entry_def dest: scan_word_shorter scan_ull_shorter split: bind_splits prod.splits)

text \<open>The loop: an entry, its key, then one more character unless the input has ended.\<close>

function mem_loop :: "string \<Rightarrow> mem_info \<Rightarrow> mem_info" where
  "mem_loop t m = (case mem_entry t of
     None \<Rightarrow> m
   | Some (key, v, r) \<Rightarrow> (if r = [] then mem_key key v m else mem_loop (tl r) (mem_key key v m)))"
  by auto
termination
  by (relation "measure (length \<circ> fst)") (auto dest!: mem_entry_shorter)

declare mem_loop.simps [simp del]

definition meminfo :: "kernel \<Rightarrow> 'a sys_scheme \<Rightarrow> mem_info \<times> 'a sys_scheme" where
  "meminfo K s = (let (r, s') = read_file K ''/proc/meminfo'' s in
     (case r of None \<Rightarrow> mem_none | Some t \<Rightarrow> mem_loop t mem_none, s'))"

section \<open>One process\<close>

record proc_stat =
  p_rss_kb :: u64
  p_anon_rss_kb :: u64
  p_file_rss_kb :: u64
  p_swap_kb :: u64
  p_vss_kb :: u64
  p_minflt :: u64
  p_majflt :: u64
  p_comm :: string
  p_cgroup :: string
  p_ok :: bool

definition proc_none :: proc_stat where
  "proc_none = \<lparr>p_rss_kb = 0, p_anon_rss_kb = 0, p_file_rss_kb = 0, p_swap_kb = 0, p_vss_kb = 0,
     p_minflt = 0, p_majflt = 0, p_comm = '''', p_cgroup = '''', p_ok = False\<rparr>"

text \<open>
  The loop over the fields after the command name: skip spaces, then \<open>nums[idx++] = strtoll(p, &p, 10)\<close>,
  at most 64 times. \<open>fuel\<close> counts the free places of the array.
\<close>

fun stat_nums :: "nat \<Rightarrow> string \<Rightarrow> int list" where
  "stat_nums 0 p = []"
| "stat_nums (Suc fuel) p =
     (let q = dropWhile (\<lambda>c. c = CHR '' '') p
      in if q = [] then [] else (case strtoll q of (n, r) \<Rightarrow> n # stat_nums fuel r))"

text \<open>The part of \<open>/proc/<pid>/stat\<close>, read into 4095 bytes: \<open>None\<close> for the early returns.\<close>

definition stat_text :: "string \<Rightarrow> proc_stat option" where
  "stat_text t = do {
     st \<leftarrow> strrchr_after (CHR '')'') (cstr (take 4095 t));
     let nums = stat_nums 64 st;
     if length nums < 24 then None
     else Some (proc_none\<lparr>
       p_minflt := word_of_int (nums ! 7), p_majflt := word_of_int (nums ! 9),
       p_vss_kb := drop_bit 10 (word_of_int (nums ! 20)),
       p_rss_kb := push_bit 2 (word_of_int (nums ! 21)), p_ok := True\<rparr>) }"

definition scan_kb :: "string \<Rightarrow> u64 \<Rightarrow> u64" where
  "scan_kb t old = (case scan_ull t of Some (v, _) \<Rightarrow> v | None \<Rightarrow> old)"

definition status_line :: "string \<Rightarrow> proc_stat \<Rightarrow> proc_stat" where
  "status_line l s =
     (let line = cstr l
      in if take 6 line = ''VmRSS:'' then s\<lparr>p_rss_kb := scan_kb (drop 6 line) (p_rss_kb s)\<rparr>
         else if take 8 line = ''RssAnon:'' then s\<lparr>p_anon_rss_kb := scan_kb (drop 8 line) (p_anon_rss_kb s)\<rparr>
         else if take 8 line = ''RssFile:'' then s\<lparr>p_file_rss_kb := scan_kb (drop 8 line) (p_file_rss_kb s)\<rparr>
         else if take 7 line = ''VmSwap:'' then s\<lparr>p_swap_kb := scan_kb (drop 7 line) (p_swap_kb s)\<rparr>
         else if take 5 line = ''Name:'' then
           s\<lparr>p_comm := cut_newline (dropWhile (\<lambda>c. c = CHR '' '' \<or> c = CHR 0x09) (drop 5 line))\<rparr>
         else s)"

definition status_text :: "string \<Rightarrow> proc_stat \<Rightarrow> proc_stat" where
  "status_text t s = fold status_line (fgets_lines 254 t) s"

definition cgroup_text :: "string \<Rightarrow> proc_stat \<Rightarrow> proc_stat" where
  "cgroup_text t s = (case fgets_lines 510 t of
     [] \<Rightarrow> s
   | l # _ \<Rightarrow> (case strrchr_after (CHR '':'') (cstr l) of
       None \<Rightarrow> s
     | Some c \<Rightarrow> s\<lparr>p_cgroup := cut_newline c\<rparr>))"

definition proc_path :: "pid \<Rightarrow> string \<Rightarrow> string" where
  "proc_path p f = ''/proc/'' @ show_int p @ ''/'' @ f"

text \<open>\<open>read_proc_stat(pid)\<close> as the engine calls it, without \<open>prev_majflt\<close>.\<close>

definition read_proc_stat :: "kernel \<Rightarrow> pid \<Rightarrow> 'a sys_scheme \<Rightarrow> proc_stat \<times> 'a sys_scheme" where
  "read_proc_stat K p s =
     (let (st, s1) = read_file K (proc_path p ''stat'') s
      in case Option.bind st stat_text of
           None \<Rightarrow> (proc_none, s1)
         | Some a \<Rightarrow>
             (let (status, s2) = read_file K (proc_path p ''status'') s1;
                  b = (case status of None \<Rightarrow> a | Some t \<Rightarrow> status_text t a);
                  (cg, s3) = read_file K (proc_path p ''cgroup'') s2
              in (case cg of None \<Rightarrow> b | Some t \<Rightarrow> cgroup_text t b, s3)))"

section \<open>Mappings\<close>

record vma_range =
  v_start :: u64
  v_end :: u64
  v_readable :: bool
  v_writable :: bool
  v_priv_anon :: bool

text \<open>One line of \<open>/proc/<pid>/maps\<close>: \<open>sscanf(line, "%lx-%lx %7s")\<close>.\<close>

definition maps_line :: "string \<Rightarrow> vma_range option" where
  "maps_line l = do {
     let line = cstr l;
     (a, r) \<leftarrow> scan_hex line;
     r \<leftarrow> scan_lit ''-'' r;
     (b, r) \<leftarrow> scan_hex r;
     (perms, _) \<leftarrow> scan_word 7 r;
     let w = (length perms > 1 \<and> perms ! 1 = CHR ''w'');
     Some \<lparr>v_start = a, v_end = b, v_readable = (perms ! 0 = CHR ''r''), v_writable = w,
           v_priv_anon = (w \<and> CHR ''/'' \<notin> set line)\<rparr> }"

definition maps_text :: "string \<Rightarrow> vma_range list" where
  "maps_text t = List.map_filter maps_line (fgets_lines 510 t)"

definition read_maps :: "kernel \<Rightarrow> pid \<Rightarrow> 'a sys_scheme \<Rightarrow> vma_range list \<times> 'a sys_scheme" where
  "read_maps K p s = (let (r, s') = read_file K (proc_path p ''maps'') s in
     (case r of None \<Rightarrow> [] | Some t \<Rightarrow> maps_text t, s'))"

lemma proc_runs [runs_intros]:
  "(\<And>f. P (Read_File f)) \<Longrightarrow> runs P s (snd (psi_memory K s))"
  "(\<And>f. P (Read_File f)) \<Longrightarrow> runs P s (snd (meminfo K s))"
  "(\<And>f. P (Read_File f)) \<Longrightarrow> runs P s (snd (read_maps K p s))"
  by (simp_all add: psi_memory_def meminfo_def read_maps_def read_file_def runs_emit)

lemma read_proc_stat_runs [runs_intros]:
  fixes s :: "'a sys_scheme"
  assumes "\<And>f. P (Read_File f)" shows "runs P s (snd (read_proc_stat K p s))"
proof -
  have r: "runs P s (snd (read_file K f s))" for f and s :: "'a sys_scheme" using assms by (rule sys_runs)
  obtain st s1 where 1: "read_file K (proc_path p ''stat'') s = (st, s1)" by fastforce
  obtain status s2 where 2: "read_file K (proc_path p ''status'') s1 = (status, s2)" by fastforce
  obtain cg s3 where 3: "read_file K (proc_path p ''cgroup'') s2 = (cg, s3)" by fastforce
  have "runs P s s1" "runs P s1 s2" "runs P s2 s3" using r 1 2 3 by (metis snd_conv)+
  then show ?thesis
    by (simp add: read_proc_stat_def 1 2 3 Let_def split: option.split) (blast intro: runs_trans)
qed

end
