(* ===== verification/ConfigProps.thy ===== *)
theory ConfigProps
  imports Config
begin

text \<open>
  What the configuration reader guarantees: which lines make it fail, that a list of group
  policies written in the file's syntax is read back, and what happens to text after a value.
\<close>

section \<open>Trimming and splitting\<close>

definition edge_free :: "string \<Rightarrow> bool" where
  "edge_free s \<longleftrightarrow> s = [] \<or> (\<not> blank (hd s) \<and> \<not> blank (last s))"

lemma trim_edge_free [simp]: assumes "edge_free s" shows "trim s = s"
proof (cases s)
  case (Cons c cs)
  then have "dropWhile blank s = s" "dropWhile blank (rev s) = rev s"
    using assms unfolding dropWhile_eq_self_iff hd_rev by (simp_all add: edge_free_def)
  then show ?thesis by (simp add: trim_def)
qed (simp add: trim_def)

lemma trim_blank [simp]: "blank c \<Longrightarrow> trim (c # s) = trim s"
  by (simp add: trim_def)

lemma trim_snoc_blank: "blank c \<Longrightarrow> edge_free s \<Longrightarrow> trim (s @ [c]) = s"
proof (cases "s = []")
  case False
  assume "blank c" "edge_free s"
  then have "dropWhile blank (s @ [c]) = s @ [c]" "dropWhile blank (rev s) = rev s"
    using False unfolding dropWhile_eq_self_iff hd_rev by (simp_all add: edge_free_def)
  then show ?thesis using \<open>blank c\<close> by (simp add: trim_def)
qed (simp add: trim_def)

lemma blank_space [simp]: "blank (CHR '' '')"
  by (simp add: blank_def)

lemma digit_not_blank: "is_digit c \<Longrightarrow> \<not> blank c \<and> c \<noteq> CHR ''.'' \<and> c \<noteq> CHR ''=''"
  by (auto simp: is_digit_def blank_def char_code_def)

lemma edge_free_show_nat [simp]: "edge_free (show_nat n)"
  using show_nat_digits [of n] digit_not_blank by (auto simp: edge_free_def)

lemma split_dot_app [simp]: "CHR ''.'' \<notin> set a \<Longrightarrow> split_dot (a @ CHR ''.'' # b) = Some (a, b)"
  by (simp add: split_dot_def takeWhile_append dropWhile_append)

lemma parse_u64_show_nat [simp]: "n < 2 ^ 64 \<Longrightarrow> parse_u64 (show_nat n) d = of_nat n"
  using stoull_show_nat [of "of_nat n"] by (simp add: parse_u64_def unat_of_nat)

section \<open>Assignments\<close>

text \<open>A line \<open>key = value\<close>, whatever the value holds, calls \<open>set_key\<close> with the two sides.\<close>

lemma reload_line_assign:
  assumes k: "edge_free k" "k \<noteq> []" "CHR ''='' \<notin> set k" "hd k \<notin> {CHR ''#'', CHR '';'', CHR ''[''}"
    and v: "edge_free v" "v \<noteq> []"
  shows "reload_line (k @ '' = '' @ v) (sec, c) = map_option (Pair sec) (set_key sec k v c)"
proof -
  define h where "h = k @ '' = '' @ v"
  have h: "trim h = h" unfolding h_def using k v by (intro trim_edge_free) (auto simp: edge_free_def)
  have "takeWhile (\<lambda>x. x \<noteq> CHR ''='') h = k @ '' ''"
    "dropWhile (\<lambda>x. x \<noteq> CHR ''='') h = CHR ''='' # CHR '' '' # v"
    using k(3) by (simp_all add: h_def takeWhile_append dropWhile_append)
  moreover have "hd h = hd k" "h \<noteq> []" "CHR ''='' \<in> set h" using k(2) by (simp_all add: h_def)
  ultimately show ?thesis
    unfolding h_def [symmetric] using k v by (simp add: reload_line_def h Let_def trim_snoc_blank)
qed

lemma reload_lines_append:
  "reload_lines (a @ b) sc = (case reload_lines a sc of None \<Rightarrow> None | Some sc' \<Rightarrow> reload_lines b sc')"
  by (induction a arbitrary: sc) (auto split: option.splits bind_splits)

section \<open>Which lines fail\<close>

lemma grow_groups_None: "grow_groups idx gs = None \<longleftrightarrow> length gs \<le> unat idx \<and> uint (idx + 1) > groups_max_size"
  by (simp add: grow_groups_def Let_def)

lemma unat_Suc: "unat (w + 1) = (if w = - 1 then 0 else unat w + 1)" for w :: u64
proof (cases "w = - 1")
  case False
  then have "1 + w \<noteq> 0" by (metis add.commute add_eq_0_iff)
  then show ?thesis using unatSuc [of w] False by (simp add: add.commute One_nat_def)
qed simp

lemma grow_groups_length:
  assumes "grow_groups idx gs = Some hs"
  shows "unat idx < length hs \<longleftrightarrow> \<not> (length gs \<le> unat idx \<and> idx = - 1)"
  using assms by (auto simp: grow_groups_def Let_def unat_Suc split: if_splits)

text \<open>The configuration reader fails on a line exactly when it is a \<open>[groups]\<close> entry
  \<open>group.<index>.<field>\<close> whose index is not yet present and either exceeds what
  \<open>std::vector\<close> can hold or is \<open>2^64 - 1\<close> (which \<open>-1\<close> is read as) with a known field: then
  \<open>resize(idx + 1)\<close> throws, or empties the vector and \<open>groups[idx]\<close> is out of range.\<close>

theorem config_line_fails:
  "set_key sec k v c = None \<longleftrightarrow>
     sec = ''groups'' \<and> take 5 k = ''group'' \<and>
     (\<exists>pre r idxs field. split_dot k = Some (pre, r) \<and> split_dot r = Some (idxs, field) \<and>
        length (c_groups c) \<le> unat (parse_u64 idxs 0) \<and>
        (uint (parse_u64 idxs 0 + 1) > groups_max_size \<or> parse_u64 idxs 0 = - 1 \<and> known_field field))"
proof (cases "sec = ''groups'' \<and> take 5 k = ''group''")
  case True
  show ?thesis
  proof (cases "split_dot k")
    case None
    then show ?thesis using True by (simp add: set_key_def set_group_def)
  next
    case k: (Some kr)
    obtain pre r where kr: "kr = (pre, r)" by (cases kr)
    show ?thesis
    proof (cases "split_dot r")
      case None
      then show ?thesis using True k kr by (simp add: set_key_def set_group_def)
    next
      case r: (Some f)
      obtain idxs field where f: "f = (idxs, field)" by (cases f)
      define idx where "idx = parse_u64 idxs 0"
      have "set_key sec k v c = None \<longleftrightarrow> grow_groups idx (c_groups c) = None \<or>
          (\<exists>gs. grow_groups idx (c_groups c) = Some gs \<and> known_field field \<and> \<not> unat idx < length gs)"
        using True k kr r f by (auto simp: set_key_def set_group_def idx_def Let_def split: bind_splits if_splits)
      also have "\<dots> \<longleftrightarrow> length (c_groups c) \<le> unat idx \<and>
          (uint (idx + 1) > groups_max_size \<or> idx = - 1 \<and> known_field field)"
        using grow_groups_None [of idx "c_groups c"] grow_groups_length [of idx "c_groups c"]
        by (cases "grow_groups idx (c_groups c)") auto
      finally show ?thesis using True k kr r f by (simp add: idx_def)
    qed
  qed
next
  case False
  then show ?thesis by (auto simp: set_key_def set_group_def)
qed

section \<open>Writing policies and reading them back\<close>

text \<open>The three lines that describe policy number \<open>i\<close> in the syntax of the shipped file.\<close>

type_synonym policy_text = "string \<times> string \<times> bool"

definition policy_lines :: "nat \<Rightarrow> policy_text \<Rightarrow> string list" where
  "policy_lines i = (\<lambda>(p, w, cold).
     [(''group.'' @ show_nat i @ ''.prefix'') @ '' = '' @ p,
      (''group.'' @ show_nat i @ ''.weight'') @ '' = '' @ w,
      (''group.'' @ show_nat i @ ''.mode'') @ '' = '' @ (if cold then ''cold'' else ''pageout'')])"

fun policies_lines :: "nat \<Rightarrow> policy_text list \<Rightarrow> string list" where
  "policies_lines i [] = []"
| "policies_lines i (q # qs) = policy_lines i q @ policies_lines (i + 1) qs"

definition policy_of :: "policy_text \<Rightarrow> group_policy" where
  "policy_of = (\<lambda>(p, w, cold). \<lparr>g_prefix = p, g_weight = parse_dbl w (Fin 1), g_mode = (if cold then 1 else 0)\<rparr>)"

definition policy_text_ok :: "policy_text \<Rightarrow> bool" where
  "policy_text_ok = (\<lambda>(p, w, cold). p \<noteq> [] \<and> edge_free p \<and> w \<noteq> [] \<and> edge_free w)"

lemma dot_notin_show_nat [simp]: "CHR ''.'' \<notin> set (show_nat n)" "CHR ''='' \<notin> set (show_nat n)"
  using show_nat_digits [of n] digit_not_blank by auto

lemma split_dot_group [simp]: "split_dot (''group.'' @ r) = Some (''group'', r)"
  using split_dot_app [of "''group''" r] by simp

lemma set_group_entry:
  assumes "i < 2 ^ 64"
  shows "set_key ''groups'' (''group.'' @ show_nat i @ ''.'' @ field) v c = do {
      gs \<leftarrow> grow_groups (of_nat i) (c_groups c);
      if known_field field then
        (if i < length gs then Some (c\<lparr>c_groups := gs[i := set_group_field field v (gs ! i)]\<rparr>) else None)
      else Some (c\<lparr>c_groups := gs\<rparr>) }"
proof -
  have "unat (of_nat i :: u64) = i" using assms by (simp add: unat_of_nat)
  moreover have "parse_u64 (show_nat i) 0 = of_nat i" using assms by simp
  moreover have "split_dot (show_nat i @ ''.'' @ field) = Some (show_nat i, field)"
    using split_dot_app [of "show_nat i" field] by simp
  ultimately show ?thesis
    using split_dot_group [of "show_nat i @ ''.'' @ field"]
    by (cases "grow_groups (of_nat i) (c_groups c)") (simp_all add: set_key_def set_group_def Let_def)
qed

lemma grow_groups_next:
  assumes "int (length gs) < groups_max_size"
  shows "grow_groups (of_nat (length gs)) gs = Some (gs @ [group_default])"
proof -
  have l: "length gs < 2 ^ 59" using assms by (simp add: groups_max_size_def)
  then have u: "unat (of_nat (length gs) :: u64) = length gs" by (simp add: unat_of_nat)
  have "(of_nat (length gs) :: u64) \<noteq> - 1"
  proof
    assume "(of_nat (length gs) :: u64) = - 1"
    then have "length gs = unat (- 1 :: u64)" using u by simp
    then show False using l by (simp add: unsigned_minus_1_eq_mask mask_eq_exp_minus_1)
  qed
  then have n: "unat (of_nat (length gs) + 1 :: u64) = length gs + 1" by (simp add: unat_Suc u)
  then have "uint (of_nat (length gs) + 1 :: u64) = int (length gs) + 1"
    by (metis uint_nat of_nat_add of_nat_1)
  then show ?thesis using assms u n by (simp add: grow_groups_def Let_def One_nat_def)
qed

lemma grow_groups_present: "i < length gs \<Longrightarrow> i < 2 ^ 64 \<Longrightarrow> grow_groups (of_nat i) gs = Some gs"
  by (simp add: grow_groups_def unat_of_nat)

lemma group_key_ok:
  assumes "f \<in> {''prefix'', ''weight'', ''mode''}"
  shows "edge_free (''group.'' @ show_nat i @ ''.'' @ f)" "CHR ''='' \<notin> set (''group.'' @ show_nat i @ ''.'' @ f)"
  using assms by (auto simp: edge_free_def blank_def)

lemma reload_group_line:
  assumes "f \<in> {''prefix'', ''weight'', ''mode''}" "edge_free v" "v \<noteq> []"
  shows "reload_line ((''group.'' @ show_nat i @ ''.'' @ f) @ '' = '' @ v) (''groups'', c) =
     map_option (Pair ''groups'') (set_key ''groups'' (''group.'' @ show_nat i @ ''.'' @ f) v c)"
  using group_key_ok [OF assms(1)] assms(2,3) by (intro reload_line_assign) simp_all

lemma reload_policy:
  assumes "int (length (c_groups c)) < groups_max_size" "policy_text_ok q"
  shows "reload_lines (policy_lines (length (c_groups c)) q) (''groups'', c) =
     Some (''groups'', c\<lparr>c_groups := c_groups c @ [policy_of q]\<rparr>)"
proof -
  obtain p w m where q: "q = (p, w, m)" by (cases q)
  let ?i = "length (c_groups c)"
  have i: "?i < 2 ^ 64" using assms(1) by (simp add: groups_max_size_def)
  have e: "edge_free (if m then ''cold'' else ''pageout'')" "(if m then ''cold'' else ''pageout'') \<noteq> []"
    by (simp_all add: edge_free_def blank_def)
  have l: "lower (if m then ''cold'' else ''pageout'') = ''cold'' \<longleftrightarrow> m"
    by (cases m; simp; code_simp)
  note rl = reload_group_line [of "''prefix''", simplified] reload_group_line [of "''weight''", simplified]
    reload_group_line [of "''mode''", simplified]
  note sg = set_group_entry [OF i, of "''prefix''", simplified] set_group_entry [OF i, of "''weight''", simplified]
    set_group_entry [OF i, of "''mode''", simplified]
  show ?thesis
    using assms e l i
    by (simp add: q policy_lines_def policy_text_ok_def rl sg grow_groups_next grow_groups_present
        known_field_def set_group_field_def group_default_def policy_of_def)
qed

text \<open>C27. Every list of group policies (prefix, weight text, mode) written one after the other in
  the syntax of the \<open>[groups]\<close> section is read back as exactly that list, appended to what the
  configuration holds, and changes nothing else; a prefix may contain spaces, \<open>#\<close> and \<open>=\<close>.\<close>

theorem config_groups_roundtrip:
  assumes "\<forall>q \<in> set qs. policy_text_ok q" "int (length (c_groups c) + length qs) \<le> groups_max_size"
  shows "reload_lines (policies_lines (length (c_groups c)) qs) (''groups'', c) =
     Some (''groups'', c\<lparr>c_groups := c_groups c @ map policy_of qs\<rparr>)"
  using assms
proof (induction qs arbitrary: c)
  case Nil
  then show ?case by simp
next
  case (Cons q qs)
  define c' where "c' = c\<lparr>c_groups := c_groups c @ [policy_of q]\<rparr>"
  have "reload_lines (policy_lines (length (c_groups c)) q) (''groups'', c) = Some (''groups'', c')"
    unfolding c'_def using Cons.prems by (intro reload_policy) simp_all
  moreover have "length (c_groups c) + 1 = length (c_groups c')" by (simp add: c'_def)
  moreover have "reload_lines (policies_lines (length (c_groups c')) qs) (''groups'', c') =
      Some (''groups'', c'\<lparr>c_groups := c_groups c' @ map policy_of qs\<rparr>)"
    using Cons.prems by (intro Cons.IH) (simp_all add: c'_def)
  ultimately show ?case by (simp add: reload_lines_append c'_def One_nat_def)
qed

text \<open>Two policies appended to the defaults, the first prefix with a comment sign in it.\<close>

theorem config_groups_roundtrip_witness:
  "reload_lines (policies_lines 0 [(''/a #b=c'', ''1.5'', True), (''/d'', ''x'', False)]) (''groups'', config_default) =
     Some (''groups'', config_default\<lparr>c_groups := map policy_of [(''/a #b=c'', ''1.5'', True), (''/d'', ''x'', False)]\<rparr>)"
  using config_groups_roundtrip [of "[(''/a #b=c'', ''1.5'', True), (''/d'', ''x'', False)]" config_default]
  by (simp add: policy_text_ok_def edge_free_def blank_def config_default_def groups_max_size_def)

end
