(* ===== verification/ProcProps.thy ===== *)
theory ProcProps
  imports ProcText ConfigProps
begin

text \<open>
  What the readers of \<open>/proc\<close> return on the texts the kernel writes: the fields of
  \<open>/proc/<pid>/stat\<close>, \<open>/proc/meminfo\<close>, the cgroup path and the mappings.
\<close>

section \<open>The statistics line\<close>

lemma strtoll_stuck: "\<not> is_space c \<Longrightarrow> \<not> is_digit c \<Longrightarrow> c \<noteq> CHR ''-'' \<Longrightarrow> c \<noteq> CHR ''+'' \<Longrightarrow> strtoll (c # s) = (0, c # s)"
  by (simp add: strtoll_def scan_int_def Let_def)

lemma stat_nums_stuck:
  assumes "\<not> is_space c" "\<not> is_digit c" "c \<noteq> CHR ''-''" "c \<noteq> CHR ''+''"
  shows "stat_nums n (c # s) = replicate n 0"
proof (induction n)
  case (Suc n)
  have "c \<noteq> CHR '' ''" using assms(1) by (auto simp: is_space_def char_code_def)
  then show ?case using Suc strtoll_stuck [OF assms, of s] by simp
qed simp

text \<open>On every \<open>/proc/<pid>/stat\<close> the kernel writes, the process state letter follows the
  command name; \<open>strtoll\<close> cannot read it and does not advance, so all 64 numbers are 0: fault
  counts and sizes are reported as 0 whatever the line says.\<close>

theorem stat_fields_always_zero:
  assumes "CHR '')'' \<notin> set rest" "CHR 0x00 \<notin> set (pre @ rest)" "length pre + length rest \<le> 4092"
    and "\<not> is_space c" "\<not> is_digit c" "c \<notin> {CHR ''-'', CHR ''+'', CHR '')'', CHR 0x00}"
  shows "stat_text (pre @ '') '' @ c # rest) = Some (proc_none\<lparr>p_ok := True\<rparr>)"
proof -
  let ?t = "pre @ '') '' @ c # rest"
  have "cstr (take 4095 ?t) = ?t"
    using assms by (auto simp: cstr_def takeWhile_eq_all_conv)
  moreover have "strrchr_after (CHR '')'') ?t = Some ('' '' @ c # rest)"
    using strrchr_after_last [of "CHR '')''" "'' '' @ c # rest" pre] assms by auto
  moreover have "stat_nums 64 ('' '' @ c # rest) = replicate 64 0"
  proof -
    have "c \<noteq> CHR '' ''" using assms(4) by (auto simp: is_space_def char_code_def)
    then have "stat_nums (Suc n) ('' '' @ c # rest) = stat_nums (Suc n) (c # rest)" for n by simp
    then have "stat_nums 64 ('' '' @ c # rest) = stat_nums 64 (c # rest)"
      by (metis numeral_eq_Suc)
    then show ?thesis using stat_nums_stuck [of c 64 rest] assms by simp
  qed
  ultimately show ?thesis by (simp add: stat_text_def proc_none_def)
qed

theorem stat_fields_always_zero_witness:
  "stat_text (''42 (cat) S 1 42 42 0 -1 4194304 977 0 3 0'') = Some (proc_none\<lparr>p_ok := True\<rparr>)"
  using stat_fields_always_zero [of "'' 1 42 42 0 -1 4194304 977 0 3 0''" "''42 (cat''" "CHR ''S''"]
  by (simp add: is_space_def is_digit_def char_code_def)

section \<open>Memory totals\<close>

text \<open>The file as the kernel prints it: \<open>Key:\<close>, spaces, the number, \<open> kB\<close>.\<close>

definition mem_line :: "string \<times> nat \<times> u64 \<Rightarrow> string" where
  "mem_line = (\<lambda>(key, pad, v). key @ replicate (pad + 1) (CHR '' '') @ show_nat (unat v) @ '' kB'' @ [newline])"

definition key_ok :: "string \<times> nat \<times> u64 \<Rightarrow> bool" where
  "key_ok = (\<lambda>(key, pad, v). key \<noteq> [] \<and> length key \<le> 63 \<and> list_all (\<lambda>c. \<not> is_space c) key)"

lemma scan_ws_space [simp]: "is_space c \<Longrightarrow> scan_ws (c # s) = scan_ws s"
  by (simp add: scan_ws_def)

lemma space_chars [simp]: "is_space (CHR '' '')" "is_space newline"
  by (simp_all add: is_space_def char_code_def)

lemma scan_ws_spaces [simp]: "scan_ws (replicate n (CHR '' '') @ s) = scan_ws s"
  by (induction n) simp_all

lemma scan_word_key:
  assumes "key \<noteq> []" "length key \<le> n" "list_all (\<lambda>c. \<not> is_space c) key" "is_space c"
  shows "scan_word n (key @ c # s) = Some (key, c # s)"
proof -
  have "scan_ws (key @ c # s) = key @ c # s"
    using assms(1,3) by (cases key) (auto simp: scan_ws_def)
  moreover have "takeWhile (\<lambda>c. \<not> is_space c) (key @ c # s) = key"
    using assms(3,4) by (simp add: takeWhile_append list.pred_set)
  moreover have "n \<noteq> 0" using assms(1,2) by (cases key) auto
  ultimately show ?thesis using assms(1,2) by (simp add: scan_word_def)
qed

lemma scan_int_spaces: "is_space c \<Longrightarrow> scan_int (c # s) = scan_int s"
  by (simp add: scan_int_def)

lemma scan_int_pad: "scan_int (replicate n (CHR '' '') @ s) = scan_int s"
  by (induction n) (simp_all add: scan_int_spaces)

lemma mem_entry_line:
  assumes "key_ok (key, pad, v)"
  shows "mem_entry (mem_line (key, pad, v) @ t) = Some (key, v, newline # t)"
proof -
  let ?r = "show_nat (unat v) @ '' kB'' @ newline # t"
  have l: "mem_line (key, pad, v) @ t = key @ CHR '' '' # replicate pad (CHR '' '') @ ?r"
    by (simp add: mem_line_def One_nat_def)
  have k: "scan_word 63 (mem_line (key, pad, v) @ t) = Some (key, CHR '' '' # replicate pad (CHR '' '') @ ?r)"
    unfolding l using assms by (intro scan_word_key) (auto simp: key_ok_def)
  have "scan_ull (CHR '' '' # replicate pad (CHR '' '') @ ?r) = scan_ull ?r"
    by (simp add: scan_ull_def scan_int_spaces scan_int_pad)
  also have "\<dots> = Some (v, '' kB'' @ newline # t)"
    by (rule scan_ull_show_nat) (simp add: is_digit_def char_code_def)
  finally have v: "scan_ull (CHR '' '' # replicate pad (CHR '' '') @ ?r) = Some (v, '' kB'' @ newline # t)" .
  have "scan_word 15 ('' kB'' @ newline # t) = scan_word 15 (''kB'' @ newline # t)"
    by (simp add: scan_word_def)
  also have "\<dots> = Some (''kB'', newline # t)"
    by (rule scan_word_key) (simp_all add: is_space_def char_code_def)
  finally have u: "scan_word 15 ('' kB'' @ newline # t) = Some (''kB'', newline # t)" .
  show ?thesis unfolding mem_entry_def k using v u by simp
qed

lemma mem_loop_lines:
  assumes "list_all key_ok es"
  shows "mem_loop (concat (map mem_line es)) m = fold (\<lambda>(key, pad, v). mem_key key v) es m"
  using assms
proof (induction es arbitrary: m)
  case Nil
  have "mem_entry [] = None" by (simp add: mem_entry_def scan_word_def scan_ws_def)
  then show ?case by (subst mem_loop.simps) simp
next
  case (Cons e es)
  obtain key pad v where e: "e = (key, pad, v)" by (cases e)
  have "mem_entry (mem_line e @ concat (map mem_line es)) = Some (key, v, newline # concat (map mem_line es))"
    unfolding e using Cons.prems by (intro mem_entry_line) (simp add: e)
  then have "mem_loop (concat (map mem_line (e # es))) m = mem_loop (concat (map mem_line es)) (mem_key key v m)"
    by (subst mem_loop.simps) simp
  then show ?case using Cons by (simp add: e)
qed

lemma mem_keys_anon:
  "''Anonymous:'' \<notin> fst ` set es \<Longrightarrow> m_anon_kb (fold (\<lambda>(key, pad, v). mem_key key v) es m) = m_anon_kb m"
proof (induction es arbitrary: m)
  case (Cons e es)
  obtain key pad v where e: "e = (key, pad, v)" by (cases e)
  then have "m_anon_kb (mem_key key v m) = m_anon_kb m" using Cons.prems by (auto simp: mem_key_def)
  then show ?case using Cons by (simp add: e)
qed simp

text \<open>On a file of \<open>Key: <spaces> value kB\<close> lines \<open>meminfo\<close> applies each key in order,
  for all 64-bit values. The anonymous total is taken from a key \<open>Anonymous:\<close> only; the kernel
  prints \<open>AnonPages:\<close>, so it keeps its initial 0 and \<open>memfluxctl status\<close> shows \<open>anon_mb=0\<close>.\<close>

theorem meminfo_reads_lines:
  assumes "list_all key_ok es" "''Anonymous:'' \<notin> fst ` set es"
  shows "mem_loop (concat (map mem_line es)) mem_none = fold (\<lambda>(key, pad, v). mem_key key v) es mem_none
    \<and> m_anon_kb (mem_loop (concat (map mem_line es)) mem_none) = 0"
  using mem_loop_lines [OF assms(1)] mem_keys_anon [OF assms(2)] by (simp add: mem_none_def)

definition demo_mem :: "(string \<times> nat \<times> u64) list" where
  "demo_mem = [(''MemTotal:'', 7, 16384), (''MemAvailable:'', 2, 8192), (''AnonPages:'', 2, 4096)]"

theorem meminfo_reads_lines_witness:
  "m_available_kb (mem_loop (concat (map mem_line demo_mem)) mem_none) = 8192 \<and>
   m_anon_kb (mem_loop (concat (map mem_line demo_mem)) mem_none) = 0"
proof -
  have "list_all key_ok demo_mem" "''Anonymous:'' \<notin> fst ` set demo_mem"
    by (simp_all add: demo_mem_def key_ok_def is_space_def char_code_def)
  note meminfo_reads_lines [OF this]
  then show ?thesis by (simp add: demo_mem_def mem_key_def mem_none_def)
qed

section \<open>The cgroup of a process\<close>

lemma fgets_take_line: "length l \<le> n \<Longrightarrow> newline \<notin> set l \<Longrightarrow> fgets_take (Suc n) (l @ newline # r) = l @ [newline]"
proof (induction l arbitrary: n)
  case (Cons c l)
  then show ?case by (cases n) auto
qed simp

lemma fgets_rest_line: "length l \<le> n \<Longrightarrow> newline \<notin> set l \<Longrightarrow> fgets_rest (Suc n) (l @ newline # r) = r"
proof (induction l arbitrary: n)
  case (Cons c l)
  then show ?case by (cases n) auto
qed simp

lemma fgets_lines_line:
  "length l \<le> n \<Longrightarrow> newline \<notin> set l \<Longrightarrow> fgets_lines n (l @ newline # r) = (l @ [newline]) # fgets_lines n r"
  using fgets_take_line [of l n r] fgets_rest_line [of l n r]
  by (subst fgets_lines.simps) (simp del: fgets_take.simps fgets_rest.simps)

lemma cstr_id [simp]: "CHR 0x00 \<notin> set s \<Longrightarrow> cstr s = s"
  by (auto simp: cstr_def takeWhile_eq_all_conv)

text \<open>For the line \<open>0::<path>\<close> of a cgroup v2 system the path is read back whole, unless it
  holds a colon itself: then everything up to its last colon is lost, and with it every policy
  prefix of the configuration.\<close>

lemma cgroup_after_last_colon:
  assumes "length pre + length path \<le> 509" "newline \<notin> set (pre @ path)" "CHR 0x00 \<notin> set (pre @ path)"
    and "CHR '':'' \<notin> set path"
  shows "p_cgroup (cgroup_text (pre @ '':'' @ path @ [newline] @ rest) s) = path"
proof -
  have "fgets_lines 510 ((pre @ '':'' @ path) @ newline # rest) = ((pre @ '':'' @ path) @ [newline]) # fgets_lines 510 rest"
    using assms by (intro fgets_lines_line) simp_all
  moreover have "cstr (pre @ '':'' @ path @ [newline]) = pre @ '':'' @ path @ [newline]"
    using assms by (intro cstr_id) simp
  moreover have "strrchr_after (CHR '':'') (pre @ CHR '':'' # (path @ [newline])) = Some (path @ [newline])"
    using assms by (intro strrchr_after_last) simp
  ultimately show ?thesis using assms by (simp add: cgroup_text_def)
qed

section \<open>Mappings\<close>

definition hex_digit :: "nat \<Rightarrow> char" where
  "hex_digit n = (if n < 10 then char_of (48 + n) else char_of (87 + n))"

fun show_hex :: "nat \<Rightarrow> string" where
  "show_hex n = (if n < 16 then [hex_digit n] else show_hex (n div 16) @ [hex_digit (n mod 16)])"

declare show_hex.simps [simp del]

lemma hex_digit_all: "\<forall>n \<in> {0..<16}. is_xdigit (hex_digit n) \<and> xdigit_val (hex_digit n) = n \<and>
    \<not> is_space (hex_digit n) \<and> hex_digit n \<notin> {CHR ''-'', CHR ''+'', CHR ''x'', CHR ''X'', CHR ''/'', newline, CHR 0x00}"
  by code_simp

lemma hex_digit [simp]: assumes "n < 16" shows "is_xdigit (hex_digit n)" "xdigit_val (hex_digit n) = n"
  using bspec [OF hex_digit_all, of n] assms by auto

lemma xdigits_val_snoc: "xdigits_val (ds @ [c]) = 16 * xdigits_val ds + int (xdigit_val c)"
  by (simp add: xdigits_val_def)

lemma show_hex_induct [case_names digit more]:
  assumes "\<And>n. n < 16 \<Longrightarrow> P n [hex_digit n]"
    and "\<And>n. \<not> n < 16 \<Longrightarrow> P (n div 16) (show_hex (n div 16)) \<Longrightarrow> P n (show_hex (n div 16) @ [hex_digit (n mod 16)])"
  shows "P n (show_hex n)"
proof (induction n rule: show_hex.induct)
  case (1 n)
  then show ?case using assms by (subst show_hex.simps) simp
qed

lemma show_hex_digits: "\<exists>ns. show_hex n = map hex_digit ns \<and> ns \<noteq> [] \<and> (\<forall>k \<in> set ns. k < 16)"
proof (induction n rule: show_hex_induct)
  case (digit n)
  then show ?case by (intro exI [of _ "[n]"]) simp
next
  case (more n)
  then obtain ns where "show_hex (n div 16) = map hex_digit ns" "ns \<noteq> []" "\<forall>k \<in> set ns. k < 16" by auto
  then show ?case by (intro exI [of _ "ns @ [n mod 16]"]) auto
qed

lemma show_hex_chars:
  "c \<in> set (show_hex n) \<Longrightarrow> is_xdigit c \<and> \<not> is_space c \<and> c \<notin> {CHR ''-'', CHR ''+'', CHR ''x'', CHR ''X'', CHR ''/'', newline, CHR 0x00}"
proof -
  assume c: "c \<in> set (show_hex n)"
  obtain ns where ns: "show_hex n = map hex_digit ns" "\<forall>k \<in> set ns. k < 16" using show_hex_digits by blast
  then obtain k where "c = hex_digit k" "k < 16" using c by auto
  then show ?thesis using bspec [OF hex_digit_all, of k] by simp
qed

lemma show_hex_nonempty [simp]: "show_hex n \<noteq> []"
  using show_hex_digits [of n] by auto

lemma xdigits_val_show_hex [simp]: "xdigits_val (show_hex n) = int n"
proof (induction n rule: show_hex_induct)
  case (digit n)
  then show ?case by (simp add: xdigits_val_def)
next
  case (more n)
  have "16 * int (n div 16) + int (n mod 16) = int n" by presburger
  then show ?case using more by (simp add: xdigits_val_snoc)
qed

lemma tolower_x: assumes "tolower c = CHR ''x''" shows "c = CHR ''x'' \<or> c = CHR ''X''"
proof (cases "65 \<le> char_code c \<and> char_code c \<le> 90")
  case True
  then have "(of_char (char_of (char_code c + 32) :: char) :: nat) = of_char (CHR ''x'')"
    using assms by (simp add: tolower_def)
  then have "char_code c = 88" using True by simp
  then have "of_char c = (of_char (CHR ''X'') :: nat)" by (simp add: char_code_def)
  then have "c = CHR ''X''" by (rule of_char_eqI)
  then show ?thesis by simp
qed (use assms in \<open>auto simp: tolower_def\<close>)

lemma scan_hex_show_hex:
  assumes "r = [] \<or> hd r = CHR ''-'' \<or> hd r = CHR '' ''"
  shows "scan_hex (show_hex (unat w) @ r) = Some (w, r)"
proof -
  have rx: "r = [] \<or> \<not> is_xdigit (hd r)" using assms by (auto simp: is_xdigit_def is_digit_def char_code_def tolower_def)
  let ?h = "show_hex (unat w)"
  have x: "list_all is_xdigit ?h" using show_hex_chars by (auto simp: list.pred_set)
  obtain c cs where h: "?h = c # cs" by (cases ?h) auto
  have c: "\<not> is_space c" "c \<noteq> CHR ''-''" "c \<noteq> CHR ''+''" using show_hex_chars [of c "unat w"] h by auto
  have ws: "scan_ws (?h @ r) = ?h @ r" using h c by (simp add: scan_ws_def)
  have tl: "takeWhile is_xdigit (?h @ r) = ?h" "dropWhile is_xdigit (?h @ r) = r"
    using x rx by (cases r; simp add: takeWhile_append dropWhile_append list.pred_set)+
  have no_x: "map tolower (take 2 (?h @ r)) \<noteq> ''0x''"
  proof
    assume a: "map tolower (take 2 (?h @ r)) = ''0x''"
    then obtain d where d: "tolower d = CHR ''x''" "d \<in> set cs \<or> (r \<noteq> [] \<and> d = hd r)"
      using h by (cases cs; cases r) auto
    then have "d = CHR ''x'' \<or> d = CHR ''X''" by (intro tolower_x)
    then show False using d(2) assms show_hex_chars [of d "unat w"] h by auto
  qed
  have "\<not> 2 ^ 64 \<le> uint w" using unsigned_less [of w, where ?'a = int] by simp
  moreover define u where "u = ?h @ r"
  moreover have "hd u = c" "u \<noteq> []" using h by (simp_all add: u_def)
  ultimately show ?thesis
    using c ws tl no_x unfolding u_def [symmetric] by (simp add: scan_hex_def Let_def)
qed

text \<open>A line of \<open>/proc/<pid>/maps\<close>: bounds, four permission letters, and the rest.\<close>

definition map_perms :: "bool \<Rightarrow> bool \<Rightarrow> string" where
  "map_perms rd wr = [if rd then CHR ''r'' else CHR ''-'', if wr then CHR ''w'' else CHR ''-'', CHR ''-'', CHR ''p'']"

definition map_line :: "u64 \<times> u64 \<times> bool \<times> bool \<times> string \<Rightarrow> string" where
  "map_line = (\<lambda>(a, b, rd, wr, rest).
     show_hex (unat a) @ ''-'' @ show_hex (unat b) @ '' '' @ map_perms rd wr @ '' '' @ rest)"

definition region_of :: "u64 \<times> u64 \<times> bool \<times> bool \<times> string \<Rightarrow> vma_range" where
  "region_of = (\<lambda>(a, b, rd, wr, rest).
     \<lparr>v_start = a, v_end = b, v_readable = rd, v_writable = wr, v_priv_anon = (wr \<and> CHR ''/'' \<notin> set rest)\<rparr>)"

definition map_entry_ok :: "u64 \<times> u64 \<times> bool \<times> bool \<times> string \<Rightarrow> bool" where
  "map_entry_ok e = (case e of (a, b, rd, wr, rest) \<Rightarrow>
     newline \<notin> set rest \<and> CHR 0x00 \<notin> set rest \<and> length (map_line e) \<le> 510)"

lemma map_perms_chars: "set (map_perms rd wr) \<inter> {newline, CHR 0x00, CHR ''/''} = {}"
  "list_all (\<lambda>c. \<not> is_space c) (map_perms rd wr)" "length (map_perms rd wr) = 4"
  "map_perms rd wr ! 0 = CHR ''r'' \<longleftrightarrow> rd" "map_perms rd wr ! 1 = CHR ''w'' \<longleftrightarrow> wr"
  by (cases rd; cases wr; simp add: map_perms_def is_space_def char_code_def)+

lemma map_line_chars:
  assumes "map_entry_ok e"
  shows "newline \<notin> set (map_line e)" "CHR 0x00 \<notin> set (map_line e)"
    "CHR ''/'' \<in> set (map_line e) \<longleftrightarrow> CHR ''/'' \<in> set (snd (snd (snd (snd e))))"
  using assms map_perms_chars(1) show_hex_chars
  by (cases e; fastforce simp: map_line_def map_entry_ok_def)+

lemma maps_line_region:
  assumes "map_entry_ok e" shows "maps_line (map_line e @ [newline]) = Some (region_of e)"
proof -
  obtain a b rd wr rest where e: "e = (a, b, rd, wr, rest)" by (cases e)
  let ?r = "map_perms rd wr @ '' '' @ rest @ [newline]"
  have l: "map_line e @ [newline] = show_hex (unat a) @ ''-'' @ show_hex (unat b) @ '' '' @ ?r"
    by (simp add: map_line_def e)
  have c: "cstr (map_line e @ [newline]) = map_line e @ [newline]"
    using map_line_chars [OF assms] by simp
  have s: "CHR ''/'' \<in> set (map_line e @ [newline]) \<longleftrightarrow> CHR ''/'' \<in> set rest"
    using map_line_chars(3) [OF assms] by (simp add: e)
  have 1: "scan_hex (map_line e @ [newline]) = Some (a, ''-'' @ show_hex (unat b) @ '' '' @ ?r)"
    unfolding l by (rule scan_hex_show_hex) simp
  have 2: "scan_lit ''-'' (''-'' @ x) = Some x" for x by (simp add: scan_lit_def One_nat_def)
  have 3: "scan_hex (show_hex (unat b) @ '' '' @ ?r) = Some (b, '' '' @ ?r)"
    by (rule scan_hex_show_hex) simp
  have "scan_word 7 ('' '' @ ?r) = scan_word 7 (map_perms rd wr @ CHR '' '' # rest @ [newline])"
    by (simp add: scan_word_def)
  also have "\<dots> = Some (map_perms rd wr, CHR '' '' # rest @ [newline])"
    using map_perms_chars [of rd wr] by (intro scan_word_key) auto
  finally have 4: "scan_word 7 ('' '' @ ?r) = Some (map_perms rd wr, CHR '' '' # rest @ [newline])" .
  show ?thesis
    unfolding maps_line_def c Let_def 1 s using 2 3 4 map_perms_chars [of rd wr]
    by (simp add: region_of_def e)
qed



end
