(* ===== verification/WorkingSet.thy ===== *)
theory WorkingSet
  imports ProcText
begin

text \<open>
  The working-set sampler (\<open>src/core/workingset.cpp\<close>): resetting the soft-dirty bits of a process
  and counting them in its private anonymous mappings, 4096 page-map entries at a time. The inner
  loop ends only if the kernel's answers make it end: \<open>None\<close> is a loop that does not.
\<close>

section \<open>Operations\<close>

record ws_sample =
  ws_anon_total_kb :: u64
  ws_touched_kb :: u64
  ws_regions :: u64
  ws_ok :: bool

definition ws_none :: ws_sample where
  "ws_none = \<lparr>ws_anon_total_kb = 0, ws_touched_kb = 0, ws_regions = 0, ws_ok = False\<rparr>"

text \<open>The two bytes stay in the stream's buffer until \<open>fclose\<close>: success once the file opens.\<close>

definition clear_soft_dirty :: "kernel \<Rightarrow> pid \<Rightarrow> 'a sys_scheme \<Rightarrow> bool \<times> 'a sys_scheme" where
  "clear_soft_dirty K p s =
     (let (r, s') = write_file K (proc_path p ''clear_refs'') (''4'' @ [newline]) s in (r \<noteq> No_File, s'))"

definition soft_dirty :: "u64 \<Rightarrow> bool" where
  "soft_dirty e \<longleftrightarrow> e AND push_bit 55 1 \<noteq> 0"

definition count_dirty :: "u64 list \<Rightarrow> u64" where
  "count_dirty es = of_nat (length (filter soft_dirty es))"

partial_function (option) ws_chunks ::
  "kernel \<Rightarrow> string \<Rightarrow> u64 \<Rightarrow> u64 \<Rightarrow> u64 \<Rightarrow> 'a sys_scheme \<Rightarrow> (u64 \<times> 'a sys_scheme) option" where
  "ws_chunks K path off remaining touched s =
     (if remaining = 0 then Some (touched, s)
      else (let want = (if remaining < 4096 then remaining else 4096);
                (got, es) = k_pread K (s_now s) path off (want * 8);
                s' = emit (Pread path off (want * 8)) s
            in if got \<le> 0 then Some (touched, s')
               else (let n = word_of_int got div 8
                     in ws_chunks K path (off + word_of_int got) (remaining - n)
                          (touched + count_dirty (take (unat n) es)) s')))"

declare ws_chunks.simps [code]

text \<open>The loop over the mappings; \<open>touched\<close> and \<open>pages\<close> count pages.\<close>

fun ws_regions_loop ::
  "kernel \<Rightarrow> string \<Rightarrow> vma_range list \<Rightarrow> u64 \<times> u64 \<Rightarrow> 'a sys_scheme \<Rightarrow> ((u64 \<times> u64) \<times> 'a sys_scheme) option" where
  "ws_regions_loop K path [] acc s = Some (acc, s)"
| "ws_regions_loop K path (v # vs) (touched, pages) s =
     (if \<not> v_priv_anon v \<or> \<not> v_readable v then ws_regions_loop K path vs (touched, pages) s
      else (let npages = (v_end v - v_start v) div 4096
            in if npages = 0 then ws_regions_loop K path vs (touched, pages) s
               else (let pages' = pages + npages;
                         off = (v_start v div 4096) * 8;
                         ok = k_seek K (s_now s) path off;
                         s1 = emit (Seek path off) s
                     in if \<not> ok then ws_regions_loop K path vs (touched, pages') s1
                        else do {
                          (touched', s2) \<leftarrow> ws_chunks K path off npages touched s1;
                          ws_regions_loop K path vs (touched', pages') s2
                        })))"

definition sample_working_set :: "kernel \<Rightarrow> pid \<Rightarrow> 'a sys_scheme \<Rightarrow> (ws_sample \<times> 'a sys_scheme) option" where
  "sample_working_set K p s =
     (let path = proc_path p ''pagemap''
      in if \<not> k_open K (s_now s) path then Some (ws_none, emit (Read_File path) s)
         else (let (vmas, s1) = read_maps K p (emit (Read_File path) s)
               in do {
                 ((touched, pages), s2) \<leftarrow> ws_regions_loop K path vmas (0, 0) s1;
                 Some (\<lparr>ws_anon_total_kb = pages * 4, ws_touched_kb = touched * 4,
                        ws_regions = of_nat (length vmas), ws_ok = True\<rparr>, s2)
               }))"

section \<open>What the kernel promises\<close>

text \<open>
  The documented behaviour of \<open>pread\<close> on \<open>/proc/<pid>/pagemap\<close>: never more than asked for, a
  multiple of the 8-byte entry size, and the entries it returned.
\<close>

definition pagemap_contract :: "kernel \<Rightarrow> bool" where
  "pagemap_contract K \<longleftrightarrow> (\<forall>t path off len. case k_pread K t path off len of (got, es) \<Rightarrow>
     got \<le> int (unat len) \<and> (0 < got \<longrightarrow> got mod 8 = 0 \<and> length es = nat got div 8))"

section \<open>The inner loop\<close>

lemma pages_word:
  assumes "0 < got" "got mod 8 = 0" "got \<le> int (unat (want * 8))" "unat want \<le> 4096"
  shows "0 < unat (word_of_int got div 8 :: u64)" "unat (word_of_int got div 8 :: u64) \<le> unat (want :: u64)"
    "unat (word_of_int got div 8 :: u64) = nat got div 8"
proof -
  have w8: "unat (want * 8) = unat want * 8"
  proof -
    have "unat want * unat (8 :: u64) < 2 ^ 64" using assms(4) by simp
    then show ?thesis by (simp add: unat_word_ariths)
  qed
  then have g: "got \<le> 32768" using assms(3,4) by linarith
  then have "unat (of_nat (nat got) :: u64) = nat got" by (simp add: unat_of_nat)
  then have "unat (word_of_int got :: u64) = nat got" using assms(1) by simp
  then show e: "unat (word_of_int got div 8 :: u64) = nat got div 8" by (simp add: unat_div)
  show "0 < unat (word_of_int got div 8 :: u64)" unfolding e
  proof -
    have "8 \<le> got" using assms(1,2) by presburger
    then show "0 < nat got div 8" by (simp add: div_greater_zero_iff)
  qed
  have "nat got \<le> unat want * 8" using assms(3) w8 by linarith
  then show "unat (word_of_int got div 8 :: u64) \<le> unat want" unfolding e by linarith
qed

lemma count_dirty_le: "length es < 2 ^ 64 \<Longrightarrow> unat (count_dirty es) \<le> length es"
  unfolding count_dirty_def using length_filter_le [of soft_dirty es]
  by (simp add: unat_of_nat order_trans [OF mod_less_eq_dividend])

text \<open>Under the contract the loop ends and adds at most one page per page of the mapping.\<close>

lemma ws_chunks_total:
  assumes K: "pagemap_contract K"
  shows "unat touched + unat remaining < 2 ^ 64 \<Longrightarrow>
    \<exists>t s'. ws_chunks K path off remaining touched s = Some (t, s') \<and> unat t \<le> unat touched + unat remaining"
proof (induction "unat remaining" arbitrary: remaining touched off s rule: less_induct)
  case less
  show ?case
  proof (cases "remaining = 0")
    case True
    then show ?thesis by (subst ws_chunks.simps) simp
  next
    case False
    define want where "want = (if remaining < 4096 then remaining else 4096)"
    have want: "unat want \<le> 4096" "unat want \<le> unat remaining"
      by (auto simp: want_def word_less_nat_alt)
    obtain got es where p: "k_pread K (s_now s) path off (want * 8) = (got, es)" by fastforce
    have c: "got \<le> int (unat (want * 8))" "0 < got \<Longrightarrow> got mod 8 = 0 \<and> length es = nat got div 8"
      using K p unfolding pagemap_contract_def by (metis (mono_tags, lifting) case_prod_conv)+
    show ?thesis
    proof (cases "got \<le> 0")
      case True
      then show ?thesis using False p by (subst ws_chunks.simps) (simp add: want_def Let_def)
    next
      case pos: False
      define n :: u64 where "n = word_of_int got div 8"
      have n: "0 < unat n" "unat n \<le> unat want" "unat n = nat got div 8"
        using pages_word [of got want] pos c want unfolding n_def by simp_all
      have r: "unat (remaining - n) = unat remaining - unat n"
        using n(2) want(2) by (intro unat_sub) (simp add: word_le_nat_alt)
      define d where "d = count_dirty (take (unat n) es)"
      have d: "unat d \<le> unat n"
        using count_dirty_le [of "take (unat n) es"] n(2) want(1) unfolding d_def by simp
      have td: "unat (touched + d) = unat touched + unat d"
        using d n want less.prems by (simp add: unat_plus_if')
      define s1 where "s1 = emit (Pread path off (want * 8)) s"
      have step: "ws_chunks K path off remaining touched s =
          ws_chunks K path (off + word_of_int got) (remaining - n) (touched + d) s1"
        unfolding d_def n_def s1_def using False pos p
        by (subst ws_chunks.simps) (simp add: want_def [symmetric] Let_def)
      have "\<exists>t s'. ws_chunks K path (off + word_of_int got) (remaining - n) (touched + d) s1 = Some (t, s')
          \<and> unat t \<le> unat (touched + d) + unat (remaining - n)"
      proof (rule less.hyps)
        show "unat (remaining - n) < unat remaining" using r n want by linarith
        show "unat (touched + d) + unat (remaining - n) < 2 ^ 64" using r td d n want less.prems by linarith
      qed
      then obtain t s' where t: "ws_chunks K path (off + word_of_int got) (remaining - n) (touched + d) s1 = Some (t, s')"
        "unat t \<le> unat (touched + d) + unat (remaining - n)" by blast
      have "unat t \<le> unat touched + unat remaining" using t(2) r td d n want by linarith
      then show ?thesis unfolding step using t(1) by blast
    qed
  qed
qed

text \<open>The whole sample: never more touched pages than pages.\<close>

definition vma_pages :: "vma_range \<Rightarrow> nat" where
  "vma_pages v = (if v_priv_anon v \<and> v_readable v then unat ((v_end v - v_start v) div 4096) else 0)"

definition anon_pages :: "vma_range list \<Rightarrow> nat" where
  "anon_pages vs = sum_list (map vma_pages vs)"

lemma ws_regions_total:
  fixes s :: "'a sys_scheme"
  assumes K: "pagemap_contract K"
  shows "unat t \<le> unat n \<Longrightarrow> unat n + anon_pages vs < 2 ^ 62 \<Longrightarrow>
    \<exists>t' n' s'. ws_regions_loop K path vs (t, n) s = Some ((t', n'), s') \<and>
      unat t' \<le> unat n' \<and> unat n' = unat n + anon_pages vs"
proof (induction vs arbitrary: t n s)
  case Nil
  then show ?case by (simp add: anon_pages_def)
next
  case (Cons v vs)
  define k where "k = (v_end v - v_start v) div 4096"
  define off where "off = (v_start v div 4096) * 8"
  have sum: "anon_pages (v # vs) = vma_pages v + anon_pages vs" by (simp add: anon_pages_def)
  show ?case
  proof (cases "v_priv_anon v \<and> v_readable v \<and> k \<noteq> 0")
    case False
    then have "vma_pages v = 0" by (auto simp: vma_pages_def k_def)
    then show ?thesis using False Cons by (auto simp: sum k_def [symmetric] Let_def)
  next
    case True
    then have vk: "vma_pages v = unat k" by (simp add: vma_pages_def k_def)
    have nk: "unat (n + k) = unat n + unat k" using Cons.prems(2) sum vk by (simp add: unat_plus_if')
    have rest: "\<exists>t' n' s'. ws_regions_loop K path vs (u, n + k) s1 = Some ((t', n'), s') \<and>
        unat t' \<le> unat n' \<and> unat n' = unat n + anon_pages (v # vs)" if "unat u \<le> unat (n + k)" for u and s1 :: "'a sys_scheme"
      using Cons.IH [OF that, of s1] Cons.prems(2) nk sum vk by (simp add: add.assoc)
    define s1 where "s1 = emit (Seek path off) s"
    show ?thesis
    proof (cases "k_seek K (s_now s) path off")
      case False
      then show ?thesis using True rest [of t s1] Cons.prems(1) nk
        by (simp add: k_def [symmetric] off_def [symmetric] s1_def Let_def)
    next
      case seek: True
      have "unat t + unat k < 2 ^ 64" using Cons.prems sum vk by simp
      from ws_chunks_total [OF K this, of path off s1]
      obtain u s2 where u: "ws_chunks K path off k t s1 = Some (u, s2)" "unat u \<le> unat t + unat k" by blast
      then have "unat u \<le> unat (n + k)" using Cons.prems(1) nk by linarith
      with u(1) show ?thesis using True seek rest [of u s2]
        by (simp add: k_def [symmetric] off_def [symmetric] s1_def Let_def)
    qed
  qed
qed

end
