(* ===== verification/Sysfs.thy ===== *)
theory Sysfs
  imports ProcText "HOL-Library.AList"
begin

text \<open>
  The kernel features the daemon drives through files: KSM (\<open>src/kern/sysctl.cpp\<close>), the
  multi-generation LRU (\<open>mglru.cpp\<close>), cgroup v2 reclaim (\<open>cgroup.cpp\<close>), DAMON (\<open>damon.cpp\<close>),
  and the eBPF fault tracer (\<open>ebpf.cpp\<close>, its kernel side \<open>ebpf_access.bpf.c\<close>, its stub). libbpf is
  not part of the sources: whether each of its calls succeeds is an answer of the kernel record.
\<close>

section \<open>KSM\<close>

definition ksm_supported :: "kernel \<Rightarrow> 'a sys_scheme \<Rightarrow> bool \<times> 'a sys_scheme" where
  "ksm_supported K s = (let (t, s') = read_sys K ''/sys/kernel/mm/ksm/run'' s in (t \<noteq> [], s'))"

definition ksm_enable :: "kernel \<Rightarrow> bool \<Rightarrow> 'a sys_scheme \<Rightarrow> bool \<times> 'a sys_scheme" where
  "ksm_enable K on s = write_sys K ''/sys/kernel/mm/ksm/run'' (if on then ''1'' else ''2'') s"

definition ksm_set :: "kernel \<Rightarrow> string \<Rightarrow> string \<Rightarrow> 'a sys_scheme \<Rightarrow> bool \<times> 'a sys_scheme" where
  "ksm_set K name v s = write_sys K (cstr (''/sys/kernel/mm/ksm/'' @ name)) v s"

definition ksm_get :: "kernel \<Rightarrow> string \<Rightarrow> 'a sys_scheme \<Rightarrow> string \<times> 'a sys_scheme" where
  "ksm_get K name s = read_sys K (cstr (''/sys/kernel/mm/ksm/'' @ name)) s"

section \<open>MGLRU\<close>

abbreviation lru_enabled_path :: string where
  "lru_enabled_path \<equiv> ''/sys/kernel/mm/lru_gen/enabled''"

abbreviation lru_ttl_path :: string where
  "lru_ttl_path \<equiv> ''/sys/kernel/mm/lru_gen/min_ttl_ms''"

definition mglru_available :: "kernel \<Rightarrow> 'a sys_scheme \<Rightarrow> bool \<times> 'a sys_scheme" where
  "mglru_available K s = (let (r, s') = read_file K lru_enabled_path s in (r \<noteq> None, s'))"

definition mglru_enabled :: "kernel \<Rightarrow> 'a sys_scheme \<Rightarrow> bool \<times> 'a sys_scheme" where
  "mglru_enabled K s = (let ((ok, v), s') = r_num K lru_enabled_path 0 s in (ok \<and> v AND 1 \<noteq> 0, s'))"

definition mglru_enable :: "kernel \<Rightarrow> bool \<Rightarrow> 'a sys_scheme \<Rightarrow> bool \<times> 'a sys_scheme" where
  "mglru_enable K on s = w_str K lru_enabled_path (if on then ''0x0007'' else ''0x0000'') s"

definition set_min_ttl_ms :: "kernel \<Rightarrow> u64 \<Rightarrow> 'a sys_scheme \<Rightarrow> bool \<times> 'a sys_scheme" where
  "set_min_ttl_ms K ms s = w_num K lru_ttl_path ms s"

definition get_min_ttl_ms :: "kernel \<Rightarrow> 'a sys_scheme \<Rightarrow> u64 \<times> 'a sys_scheme" where
  "get_min_ttl_ms K s = (let ((ok, v), s') = r_num K lru_ttl_path 0 s in (if ok then v else 0, s'))"

section \<open>Cgroups\<close>

definition cgroup_available :: "kernel \<Rightarrow> 'a sys_scheme \<Rightarrow> bool \<times> 'a sys_scheme" where
  "cgroup_available K s = stat_ok K ''/sys/fs/cgroup/cgroup.controllers'' s"

definition full_path :: "string \<Rightarrow> string" where
  "full_path p =
     (if p = [] \<or> p = ''/'' then ''/sys/fs/cgroup''
      else if hd p = CHR ''/'' then p
      else ''/sys/fs/cgroup/'' @ p)"

definition cgroup_current :: "kernel \<Rightarrow> string \<Rightarrow> 'a sys_scheme \<Rightarrow> u64 \<times> 'a sys_scheme" where
  "cgroup_current K p s =
     (let (r, s') = read_file K (cstr (full_path p @ ''/memory.current'')) s in
      (case r of None \<Rightarrow> 0 | Some t \<Rightarrow> (case scan_ull t of Some (v, _) \<Rightarrow> v | None \<Rightarrow> 0), s'))"

text \<open>
  \<open>reclaim\<close>: the number is printed into the stream's buffer, so \<open>ferror\<close> sees no error before
  \<open>fclose\<close> writes it to the kernel: the answer is \<open>bytes\<close> whenever the file opens.
\<close>

definition cgroup_reclaim :: "kernel \<Rightarrow> string \<Rightarrow> u64 \<Rightarrow> 'a sys_scheme \<Rightarrow> u64 \<times> 'a sys_scheme" where
  "cgroup_reclaim K p bytes s =
     (let (r, s') = write_file K (cstr (full_path p @ ''/memory.reclaim'')) (show_nat (unat bytes)) s
      in (if r = No_File then 0 else bytes, s'))"

section \<open>DAMON\<close>

record damon_config =
  d_sample_us :: u32
  d_aggr_us :: u32
  d_update_us :: u32
  d_min_regions :: u32
  d_max_regions :: u32
  d_refresh_ms :: u32
  d_min_age_ms :: u32
  d_quota_ms :: u32
  d_quota_reset_ms :: u32

definition damon_default :: damon_config where
  "damon_default = \<lparr>d_sample_us = 5000, d_aggr_us = 100000, d_update_us = 1000000, d_min_regions = 10,
     d_max_regions = 1000, d_refresh_ms = 1000, d_min_age_ms = 10000, d_quota_ms = 10, d_quota_reset_ms = 1000\<rparr>"

record region =
  r_start :: u64
  r_end :: u64
  r_nr_accesses :: u32
  r_age :: u32

record bpf_state =
  b_obj :: bool
  b_prog :: bool
  b_map :: bool
  b_link :: bool

text \<open>The globals of \<open>damon.cpp\<close> and \<open>ebpf.cpp\<close>, beside the record of calls.\<close>

record mods = sys +
  g_damon :: damon_config
  g_bpf :: bpf_state

definition damon_param :: "string \<Rightarrow> string" where
  "damon_param n = ''/sys/module/damon_reclaim/parameters/'' @ n"

definition damon_available :: "kernel \<Rightarrow> 'a sys_scheme \<Rightarrow> bool \<times> 'a sys_scheme" where
  "damon_available K s = stat_ok K (damon_param ''enabled'') s"

definition damon_enabled :: "kernel \<Rightarrow> 'a sys_scheme \<Rightarrow> bool \<times> 'a sys_scheme" where
  "damon_enabled K s = (let ((ok, v), s') = r_num K (damon_param ''enabled'') 0 s in (ok \<and> v \<noteq> 0, s'))"

definition damon_settings :: "damon_config \<Rightarrow> (string \<times> u64) list" where
  "damon_settings c =
     [(damon_param ''sample_interval'', ucast (d_sample_us c)),
      (damon_param ''aggr_interval'', ucast (d_aggr_us c)),
      (damon_param ''min_nr_regions'', 10),
      (damon_param ''max_nr_regions'', ucast (d_max_regions c)),
      (damon_param ''min_age'', ucast (d_min_age_ms c) * 1000),
      (damon_param ''quota_ms'', ucast (d_quota_ms c)),
      (damon_param ''quota_reset_interval_ms'', ucast (d_quota_reset_ms c))]"

definition damon_configure :: "kernel \<Rightarrow> damon_config \<Rightarrow> 'a mods_scheme \<Rightarrow> 'a mods_scheme" where
  "damon_configure K c s =
     (let s1 = s\<lparr>g_damon := c\<rparr>; (a, s2) = damon_available K s1
      in if a then fold (\<lambda>(p, v) s. snd (w_num K p v s)) (damon_settings c) s2 else s2)"

definition damon_enable :: "kernel \<Rightarrow> bool \<Rightarrow> 'a sys_scheme \<Rightarrow> bool \<times> 'a sys_scheme" where
  "damon_enable K on s =
     (let (a, s1) = damon_available K s
      in if \<not> a then (False, s1)
         else (let (e, s2) = damon_enabled K s1
               in if on = e then (True, s2)
                  else w_str K (damon_param ''enabled'') (if on then ''Y'' else ''N'') s2))"

text \<open>\<open>damon_reclaim\<close> watches physical memory: no targets, no per-process regions.\<close>

definition damon_set_targets :: "pid list \<Rightarrow> bool" where
  "damon_set_targets ps = False"

definition damon_snapshot :: "(pid \<times> region list) list" where
  "damon_snapshot = []"

record kernel_stats =
  k_nr_reclaimed :: u64
  k_bytes_reclaimed :: u64
  k_nr_tried :: u64
  k_bytes_tried :: u64
  k_kdamond_pid :: u64

text \<open>
  \<open>kernel_stats\<close>: the last number is read through a \<open>uint64_t&\<close> laid over the 32-bit \<open>kdamond_pid\<close>
  and the padding after it. Here it is kept at 64 bits; its value is its low half (\<open>- 1\<close> before).
\<close>

definition damon_kernel_stats :: "kernel \<Rightarrow> 'a sys_scheme \<Rightarrow> kernel_stats \<times> 'a sys_scheme" where
  "damon_kernel_stats K s =
     (let ((_, a), s1) = r_num K (damon_param ''nr_reclaimed_regions'') 0 s;
          ((_, b), s2) = r_num K (damon_param ''bytes_reclaimed_regions'') 0 s1;
          ((_, c), s3) = r_num K (damon_param ''nr_reclaim_tried_regions'') 0 s2;
          ((_, d), s4) = r_num K (damon_param ''bytes_reclaim_tried_regions'') 0 s3;
          ((_, e), s5) = r_num K (damon_param ''kdamond_pid'') (mask 32) s4
      in (\<lparr>k_nr_reclaimed = a, k_bytes_reclaimed = b, k_nr_tried = c, k_bytes_tried = d, k_kdamond_pid = e\<rparr>, s5))"

section \<open>The fault tracer\<close>

text \<open>The kernel side: a hash map of at most 8192 entries, keyed by the low half of
  \<open>bpf_get_current_pid_tgid()\<close>.\<close>

type_synonym fault_map = "u32 \<Rightarrow> u64 option"

definition on_page_fault_user :: "u64 \<Rightarrow> fault_map \<Rightarrow> fault_map" where
  "on_page_fault_user pid_tgid m =
     (let pid = ucast pid_tgid :: u32
      in case m pid of
           Some n \<Rightarrow> m(pid \<mapsto> n + 1)
         | None \<Rightarrow> if card (dom m) < 8192 then m(pid \<mapsto> 1) else m)"

text \<open>The loader. The path of the object is set by the build: empty without clang or libbpf.\<close>

definition bpf_call :: "kernel \<Rightarrow> string \<Rightarrow> 'a sys_scheme \<Rightarrow> bool \<times> 'a sys_scheme" where
  "bpf_call K n s = (k_bpf K (s_now s) n, emit (Bpf n) s)"

definition ebpf_available :: "kernel \<Rightarrow> string \<Rightarrow> 'a sys_scheme \<Rightarrow> bool \<times> 'a sys_scheme" where
  "ebpf_available K obj_path s =
     (let (a, s1) = stat_ok K obj_path s
      in if a then stat_ok K ''/sys/kernel/tracing/events/exceptions/page_fault_user'' s1 else (False, s1))"

definition ebpf_close :: "kernel \<Rightarrow> 'a mods_scheme \<Rightarrow> 'a mods_scheme" where
  "ebpf_close K s = (let (_, s') = bpf_call K ''bpf_object__close'' s in s'\<lparr>g_bpf := (g_bpf s')\<lparr>b_obj := False\<rparr>\<rparr>)"

definition ebpf_load :: "kernel \<Rightarrow> 'a mods_scheme \<Rightarrow> bool \<times> 'a mods_scheme" where
  "ebpf_load K s0 =
     (if b_obj (g_bpf s0) then (True, s0)
      else (let (ok, s) = bpf_call K ''bpf_object__open'' s0; s = s\<lparr>g_bpf := (g_bpf s)\<lparr>b_obj := ok\<rparr>\<rparr>
        in if \<not> ok then (False, s)
      else (let (ok, s) = bpf_call K ''bpf_object__load'' s
        in if \<not> ok then (False, ebpf_close K s)
      else (let (p, s) = bpf_call K ''bpf_object__find_program_by_name'' s;
                (m, s) = bpf_call K ''bpf_object__find_map_by_name'' s;
                s = s\<lparr>g_bpf := (g_bpf s)\<lparr>b_prog := p, b_map := m\<rparr>\<rparr>
        in if \<not> p \<or> \<not> m then (False, ebpf_close K s)
      else (let (l, s) = bpf_call K ''bpf_program__attach_tracepoint'' s;
                s = s\<lparr>g_bpf := (g_bpf s)\<lparr>b_link := l\<rparr>\<rparr>
        in if \<not> l then (False, ebpf_close K s) else (True, s))))))"

definition ebpf_unload :: "kernel \<Rightarrow> 'a mods_scheme \<Rightarrow> 'a mods_scheme" where
  "ebpf_unload K s =
     (let s1 = (if b_link (g_bpf s)
                then (let (_, s') = bpf_call K ''bpf_link__destroy'' s in s'\<lparr>g_bpf := (g_bpf s')\<lparr>b_link := False\<rparr>\<rparr>)
                else s)
      in if b_obj (g_bpf s1) then ebpf_close K s1 else s1)"

definition ebpf_loaded :: "'a mods_scheme \<Rightarrow> bool" where
  "ebpf_loaded s \<longleftrightarrow> b_obj (g_bpf s)"

text \<open>\<open>drain_faults\<close>: a \<open>std::map\<close> is its entries in key order; each drained entry is reset.\<close>

definition map_put :: "pid \<Rightarrow> u64 \<Rightarrow> (pid \<times> u64) list \<Rightarrow> (pid \<times> u64) list" where
  "map_put p v m = sort_key fst (AList.update p v m)"

definition drain_faults :: "kernel \<Rightarrow> 'a mods_scheme \<Rightarrow> (pid \<times> u64) list \<times> 'a mods_scheme" where
  "drain_faults K s =
     (if b_map (g_bpf s) then
        (let es = filter (\<lambda>(p, v). v \<noteq> 0) (k_faults K (s_now s))
         in (fold (\<lambda>(p, v). map_put (sint p) v) es [],
             fold (\<lambda>e. emit (Bpf ''bpf_map__update_elem'')) es s))
      else ([], s))"

text \<open>The stub built when libbpf is missing.\<close>

definition stub_available :: bool where "stub_available = False"
definition stub_load :: bool where "stub_load = False"
definition stub_loaded :: bool where "stub_loaded = False"
definition stub_drain :: "(pid \<times> u64) list" where "stub_drain = []"

end
