(* ===== verification/Engine.thy ===== *)
theory Engine
  imports WorkingSet Sysfs
begin

text \<open>
  The optimisation engine (\<open>src/core/engine.cpp\<close>, \<open>engine.hpp\<close>): policies, the process scan,
  DAMON and soft-dirty scoring, the actions, and the two kinds of cycle. The state extends the
  module globals by the members of \<open>class Engine\<close>, the configuration it refers to and the global
  statistics. Log lines are not modelled. \<open>None\<close> is a cycle whose page-map loop does not end.
\<close>

section \<open>State\<close>

datatype reclaim_mode = Pageout | ColdOnly

record proc_snap =
  q_pid :: pid
  q_comm :: string
  q_cgroup :: string
  q_rss_kb :: u64
  q_anon_kb :: u64
  q_file_kb :: u64
  q_swap_kb :: u64
  q_ws_prev_kb :: u64
  q_ws_ratio :: dbl
  q_score :: dbl
  q_reclaimed_recent :: bool

text \<open>\<open>Engine::Track\<close>; the two \<open>int\<close> counters are only compared with 0 and stay small.\<close>

record track =
  t_prev_majflt :: u64
  t_ws_touched_kb :: u64
  t_prev_anon_kb :: u64
  t_cooldown :: int
  t_samples :: int
  t_damon_age_max :: u32
  t_damon_cold_kb :: u32

definition track_new :: track where
  "track_new = \<lparr>t_prev_majflt = 0, t_ws_touched_kb = 0, t_prev_anon_kb = 0, t_cooldown = 0, t_samples = 0,
     t_damon_age_max = 0, t_damon_cold_kb = 0\<rparr>"

record global_stats =
  st_cycles :: u64
  st_pageouts_kb :: u64
  st_heap_trimmed_kb :: u64
  st_cgroup_kb :: u64
  st_errors :: u64

record eng = mods +
  e_cfg :: config
  e_tracked :: "pid \<Rightarrow> track option"
  e_snapshot :: "proc_snap list"
  e_damon_on :: bool
  e_damon_targets :: "pid list"
  e_ebpf_on :: bool
  e_stats :: global_stats

section \<open>Policies\<close>

definition has_prefix :: "string \<Rightarrow> string \<Rightarrow> bool" where
  "has_prefix p s \<longleftrightarrow> take (length p) s = p"

text \<open>\<open>parse_mode\<close> is defined in the source and not called.\<close>

definition parse_mode :: "string \<Rightarrow> reclaim_mode" where
  "parse_mode s = (if lower s \<in> {''cold'', ''coldonly'', ''cold_only''} then ColdOnly else Pageout)"

text \<open>The loop both functions share: the first of the longest matching prefixes.\<close>

fun best_policy :: "string \<Rightarrow> group_policy option \<Rightarrow> group_policy list \<Rightarrow> group_policy option" where
  "best_policy cg best [] = best"
| "best_policy cg best (g # gs) =
     (if has_prefix (g_prefix g) cg then
        (case best of
           None \<Rightarrow> best_policy cg (Some g) gs
         | Some b \<Rightarrow> best_policy cg (if length (g_prefix g) > length (g_prefix b) then Some g else Some b) gs)
      else best_policy cg best gs)"

definition mode_for :: "config \<Rightarrow> proc_snap \<Rightarrow> reclaim_mode" where
  "mode_for c ps = (case best_policy (q_cgroup ps) None (c_groups c) of
     Some b \<Rightarrow> (if g_mode b = 1 then ColdOnly else Pageout)
   | None \<Rightarrow> (if c_default_mode c = ''cold'' then ColdOnly else Pageout))"

definition weight_for :: "config \<Rightarrow> proc_snap \<Rightarrow> dbl" where
  "weight_for c ps = (case best_policy (q_cgroup ps) None (c_groups c) of
     Some b \<Rightarrow> g_weight b
   | None \<Rightarrow> Fin 1)"

section \<open>The scan\<close>

text \<open>\<open>strtol\<close> on a directory name: a whole number above 1, cut to \<open>pid_t\<close>.\<close>

definition pid_of_name :: "string \<Rightarrow> pid option" where
  "pid_of_name name = (case strtoll name of (n, rest) \<Rightarrow>
     if rest \<noteq> [] \<or> n \<le> 1 then None else Some (sint (word_of_int n :: u32)))"

definition get_track :: "pid \<Rightarrow> 'a eng_scheme \<Rightarrow> track" where
  "get_track p s = (case e_tracked s p of Some t \<Rightarrow> t | None \<Rightarrow> track_new)"

definition set_track :: "pid \<Rightarrow> track \<Rightarrow> 'a eng_scheme \<Rightarrow> 'a eng_scheme" where
  "set_track p t s = s\<lparr>e_tracked := (e_tracked s)(p \<mapsto> t)\<rparr>"

definition snap_of :: "pid \<Rightarrow> proc_stat \<Rightarrow> proc_snap" where
  "snap_of p st =
     \<lparr>q_pid = p, q_comm = p_comm st, q_cgroup = p_cgroup st, q_rss_kb = p_rss_kb st,
      q_anon_kb = p_anon_rss_kb st, q_file_kb = p_file_rss_kb st, q_swap_kb = p_swap_kb st,
      q_ws_prev_kb = 0, q_ws_ratio = Fin 1, q_score = Fin 0, q_reclaimed_recent = False\<rparr>"

definition scan_entry ::
  "kernel \<Rightarrow> string \<times> bool \<Rightarrow> proc_snap list \<times> 'a eng_scheme \<Rightarrow> proc_snap list \<times> 'a eng_scheme" where
  "scan_entry K e acc = (case (e, acc) of ((name, is_dir), (out, s)) \<Rightarrow>
     if \<not> is_dir then (out, s)
     else (case pid_of_name name of
       None \<Rightarrow> (out, s)
     | Some p \<Rightarrow>
         (let (st, s1) = read_proc_stat K p s
          in if \<not> p_ok st \<or> p_rss_kb st = 0 then (out, s1)
             else if p_comm st \<noteq> [] \<and> hd (p_comm st) = CHR ''['' then (out, s1)
             else if p = k_self K then (out, s1)
             else (let tr = get_track p s1
                   in (out @ [snap_of p st], set_track p (tr\<lparr>t_prev_majflt := p_majflt st\<rparr>) s1)))))"

definition scan_processes :: "kernel \<Rightarrow> 'a eng_scheme \<Rightarrow> proc_snap list \<times> 'a eng_scheme" where
  "scan_processes K s =
     (let s1 = emit List_Proc s
      in case k_proc K (s_now s) of None \<Rightarrow> ([], s1) | Some es \<Rightarrow> fold (scan_entry K) es ([], s1))"

section \<open>Scoring\<close>

definition half_min :: "config \<Rightarrow> u64" where
  "half_min c = push_bit 10 (c_min_reclaimable_mb c) div 2"

text \<open>\<open>damon_sample\<close>: the target list, then (never reached, see \<open>damon_set_targets\<close>) the regions.\<close>

definition damon_track :: "region list \<Rightarrow> track \<Rightarrow> track" where
  "damon_track regs t =
     (let cold = fold (\<lambda>r acc. if r_nr_accesses r = 0
                         then acc + ucast (min ((r_end r - r_start r) div 1024) (mask 32) :: u64) else acc) regs (0 :: u32);
          age = fold (\<lambda>r acc. max acc (r_age r)) regs 0
      in t\<lparr>t_damon_cold_kb := cold, t_damon_age_max := age\<rparr>)"

definition damon_ratio :: "track \<Rightarrow> proc_snap \<Rightarrow> proc_snap" where
  "damon_ratio t ps =
     (if q_anon_kb ps \<noteq> 0 then
        (let d = ddiv (dbl_of_u64 (min (ucast (t_damon_cold_kb t)) (q_anon_kb ps))) (dbl_of_u64 (q_anon_kb ps))
         in if dless (Fin 0) d \<and> dle d (Fin 1)
            then ps\<lparr>q_ws_ratio := dmin (q_ws_ratio ps) (dsub (Fin 1) d)\<rparr> else ps)
      else ps)"

definition damon_sample :: "'a eng_scheme \<Rightarrow> 'a eng_scheme" where
  "damon_sample s =
     (let big = map q_pid (filter (\<lambda>ps. q_anon_kb ps \<ge> half_min (e_cfg s)) (e_snapshot s));
          ts = take 64 (sorted_list_of_set (set (e_damon_targets s @ big)));
          s1 = s\<lparr>e_damon_targets := ts\<rparr>
      in if damon_set_targets ts then
           (let tr = fold (\<lambda>(p, regs) m. case m p of None \<Rightarrow> m | Some t \<Rightarrow> m(p \<mapsto> damon_track regs t))
                       damon_snapshot (e_tracked s1)
            in s1\<lparr>e_tracked := tr,
                  e_snapshot := map (\<lambda>ps. case tr (q_pid ps) of None \<Rightarrow> ps | Some t \<Rightarrow> damon_ratio t ps) (e_snapshot s1)\<rparr>)
         else s1)"

text \<open>The score of one process from its ratio, size, swap and weight.\<close>

definition cold_part :: "dbl \<Rightarrow> dbl" where
  "cold_part ratio = dsub (Fin 1) (dmin (Fin 1) (dmul ratio (Fin 4)))"

definition score_of :: "config \<Rightarrow> proc_snap \<Rightarrow> dbl" where
  "score_of c ps =
     (let mb = ddiv (dbl_of_u64 (q_anon_kb ps)) (Fin 1024);
          swap_press = (if q_swap_kb ps \<noteq> 0 then dlit 13 1 else Fin 1)
      in dmul (dmul (dmul mb (cold_part (q_ws_ratio ps))) swap_press) (weight_for c ps))"

text \<open>The sampler part of the loop body: the updated process and tracking entry.\<close>

definition sample_step ::
  "kernel \<Rightarrow> bool \<Rightarrow> config \<Rightarrow> proc_snap \<Rightarrow> track \<Rightarrow> 'a sys_scheme \<Rightarrow> ((proc_snap \<times> track) \<times> 'a sys_scheme) option" where
  "sample_step K damon c ps tr s =
     (if \<not> damon \<and> q_anon_kb ps > half_min c then
        (if t_samples tr = 0 then
           (let (_, s1) = clear_soft_dirty K (q_pid ps) s
            in Some ((ps, tr\<lparr>t_samples := t_samples tr + 1\<rparr>), s1))
         else do {
           (ws, s1) \<leftarrow> sample_working_set K (q_pid ps) s;
           if ws_ok ws \<and> ws_anon_total_kb ws \<noteq> 0 then
             Some ((ps\<lparr>q_ws_prev_kb := t_ws_touched_kb tr,
                       q_ws_ratio := ddiv (dbl_of_u64 (ws_touched_kb ws)) (dbl_of_u64 (max (ws_anon_total_kb ws) 1)),
                       q_anon_kb := max (q_anon_kb ps) (ws_anon_total_kb ws)\<rparr>,
                    tr\<lparr>t_ws_touched_kb := ws_touched_kb ws, t_samples := t_samples tr + 1\<rparr>), s1)
           else Some ((ps, tr\<lparr>t_samples := t_samples tr + 1\<rparr>), s1) })
      else if \<not> damon then Some ((ps\<lparr>q_ws_ratio := Fin 1\<rparr>, tr), s)
      else Some ((ps, tr), s))"

definition score_step :: "config \<Rightarrow> proc_snap \<Rightarrow> track \<Rightarrow> proc_snap \<times> track" where
  "score_step c ps tr =
     (if t_cooldown tr > 0 then (ps\<lparr>q_score := Fin 0\<rparr>, tr\<lparr>t_cooldown := t_cooldown tr - 1\<rparr>)
      else (ps\<lparr>q_score := score_of c ps\<rparr>, tr))"

definition score_one :: "kernel \<Rightarrow> proc_snap \<Rightarrow> 'a eng_scheme \<Rightarrow> (proc_snap \<times> 'a eng_scheme) option" where
  "score_one K ps s = (case e_tracked s (q_pid ps) of
     None \<Rightarrow> Some (ps, s)
   | Some tr \<Rightarrow> do {
       ((ps1, tr1), s1) \<leftarrow> sample_step K (e_damon_on s) (e_cfg s) ps tr s;
       let (ps2, tr2) = score_step (e_cfg s1) ps1 tr1;
       Some (ps2, set_track (q_pid ps) tr2 s1) })"

fun score_all :: "kernel \<Rightarrow> proc_snap list \<Rightarrow> 'a eng_scheme \<Rightarrow> (proc_snap list \<times> 'a eng_scheme) option" where
  "score_all K [] s = Some ([], s)"
| "score_all K (ps # rest) s = do {
     (ps', s1) \<leftarrow> score_one K ps s;
     (rest', s2) \<leftarrow> score_all K rest s1;
     Some (ps' # rest', s2) }"

definition compute_scores :: "kernel \<Rightarrow> 'a eng_scheme \<Rightarrow> 'a eng_scheme option" where
  "compute_scores K s = do {
     let s1 = (if e_damon_on s then damon_sample s else s);
     (snap, s2) \<leftarrow> score_all K (e_snapshot s1) s1;
     Some (s2\<lparr>e_snapshot := snap\<rparr>) }"

section \<open>Actions\<close>

fun trim_vmas :: "kernel \<Rightarrow> int \<Rightarrow> bool \<Rightarrow> vma_range list \<Rightarrow> u64 \<Rightarrow> 'a sys_scheme \<Rightarrow> u64 \<times> 'a sys_scheme" where
  "trim_vmas K fd cold [] freed s = (freed, s)"
| "trim_vmas K fd cold (v # vs) freed s =
     (if \<not> v_priv_anon v \<or> \<not> v_readable v then trim_vmas K fd cold vs freed s
      else (let len = v_end v - v_start v
            in if len < 8388608 then trim_vmas K fd cold vs freed s
               else (let (r, s1) = pageout_pages K fd (v_start v) len cold s
                     in trim_vmas K fd cold vs (if r > 0 then freed + word_of_int r else freed) s1)))"

definition heap_trim :: "kernel \<Rightarrow> proc_snap \<Rightarrow> int \<Rightarrow> reclaim_mode \<Rightarrow> 'a eng_scheme \<Rightarrow> u64 \<times> 'a eng_scheme" where
  "heap_trim K ps fd mode s =
     (if \<not> c_heap_trim (e_cfg s) \<or> c_dry_run (e_cfg s) then (0, s)
      else (let (vmas, s1) = read_maps K (q_pid ps) s
            in trim_vmas K fd (mode = ColdOnly) vmas 0 s1))"

definition act_on :: "kernel \<Rightarrow> proc_snap \<Rightarrow> int \<Rightarrow> reclaim_mode \<Rightarrow> 'a eng_scheme \<Rightarrow> u64 \<times> 'a eng_scheme" where
  "act_on K ps fd mode s =
     (let (st, s1) = read_proc_stat K (q_pid ps) s; before = p_anon_rss_kb st
      in if before = 0 then (0, s1)
         else (let (bytes, s2) = heap_trim K ps fd mode s1;
                   (st', s3) = read_proc_stat K (q_pid ps) s2; after = p_anon_rss_kb st';
                   delta = (if before > after then before - after else 0)
               in (if bytes \<noteq> 0 then bytes else delta, s3)))"

text \<open>
  The loop over the candidates, with the two counters. \<open>acted\<close> is a \<open>uint32_t\<close>.
\<close>

fun act_loop :: "kernel \<Rightarrow> proc_snap list \<Rightarrow> u64 \<Rightarrow> u32 \<Rightarrow> 'a eng_scheme \<Rightarrow> u64 \<times> 'a eng_scheme" where
  "act_loop K [] reclaimed acted s = (reclaimed, s)"
| "act_loop K (ps # rest) reclaimed acted s =
     (if acted \<ge> c_max_targets (e_cfg s) then (reclaimed, s)
      else if reclaimed \<ge> push_bit 10 (c_max_reclaim_mb (e_cfg s)) then (reclaimed, s)
      else (let (fd, s1) = pidfd_open K (q_pid ps) s
            in if fd < 0 then
                 act_loop K rest reclaimed acted (s1\<lparr>e_stats := (e_stats s1)\<lparr>st_errors := st_errors (e_stats s1) + 1\<rparr>\<rparr>)
               else (let mode = mode_for (e_cfg s1) ps; (got, s2) = act_on K ps fd mode s1
                     in if got \<noteq> 0 then
                          act_loop K rest (reclaimed + got) (acted + 1)
                            (set_track (q_pid ps) ((get_track (q_pid ps) s2)\<lparr>t_cooldown := 5\<rparr>) s2)
                        else act_loop K rest reclaimed acted s2)))"

definition candidate :: "config \<Rightarrow> proc_snap \<Rightarrow> bool" where
  "candidate c ps \<longleftrightarrow> \<not> dless (q_score ps) (c_min_score c) \<and> \<not> q_anon_kb ps < push_bit 10 (c_min_reclaimable_mb c)"

text \<open>The part after the loop: cgroup reclaim under persisting pressure.\<close>

definition cgroup_step :: "kernel \<Rightarrow> u64 \<Rightarrow> 'a eng_scheme \<Rightarrow> 'a eng_scheme" where
  "cgroup_step K reclaimed s =
     (let (psi2, s1) = psi_memory K s
      in if c_cgroup_reclaim (e_cfg s1) \<and> psi_ok psi2
            \<and> dle (dmul (c_psi_threshold (e_cfg s1)) (dlit 15 1)) (some_avg10 psi2) then
           (let (av, s2) = cgroup_available K s1
            in if av then
                 (let want = push_bit 10 (c_max_reclaim_mb (e_cfg s2)) - reclaimed
                  in if want > 65536 then
                       (let (got, s3) = cgroup_reclaim K ''/'' want s2
                        in if got \<noteq> 0 then
                             s3\<lparr>e_stats := (e_stats s3)\<lparr>st_cgroup_kb := st_cgroup_kb (e_stats s3) + got div 1024\<rparr>\<rparr>
                           else s3)
                     else s2)
               else s2)
         else s1)"

text \<open>
  \<open>run_actions\<close>. \<open>srt\<close> is \<open>std::sort\<close>, a function of the comparator and the range: the standard leaves the order of
  equal elements open, so it is an argument. \<open>score_above\<close> is the comparator of the code.
\<close>

type_synonym std_sort_fun = "(proc_snap \<Rightarrow> proc_snap \<Rightarrow> bool) \<Rightarrow> proc_snap list \<Rightarrow> proc_snap list"

definition score_above :: "proc_snap \<Rightarrow> proc_snap \<Rightarrow> bool" where
  "score_above a b = dless (q_score b) (q_score a)"

definition run_actions :: "kernel \<Rightarrow> std_sort_fun \<Rightarrow> 'a eng_scheme \<Rightarrow> u64 \<times> 'a eng_scheme" where
  "run_actions K srt s =
     (let cands = srt score_above (filter (candidate (e_cfg s)) (e_snapshot s));
          (reclaimed, s1) = act_loop K cands 0 0 s;
          s2 = cgroup_step K reclaimed s1
      in (reclaimed div 1024,
          s2\<lparr>e_stats := (e_stats s2)\<lparr>st_pageouts_kb := st_pageouts_kb (e_stats s2) + reclaimed div 1024\<rparr>\<rparr>))"

section \<open>Cycles\<close>

definition count_cycle :: "'a eng_scheme \<Rightarrow> 'a eng_scheme" where
  "count_cycle s = s\<lparr>e_stats := (e_stats s)\<lparr>st_cycles := st_cycles (e_stats s) + 1\<rparr>\<rparr>"

text \<open>Starting DAMON: \<open>run_cycle\<close> derives the intervals from the configuration (32-bit products)
  and reads the statistics for its log line; \<open>force_cycle\<close> takes the defaults.\<close>

definition damon_init :: "kernel \<Rightarrow> damon_config \<Rightarrow> bool \<Rightarrow> 'a eng_scheme \<Rightarrow> 'a eng_scheme" where
  "damon_init K dc log_stats s =
     (if e_damon_on s \<or> \<not> c_damon (e_cfg s) then s
      else (let (av, s1) = damon_available K s
            in if \<not> av then s1
               else (let (en, s2) = damon_enabled K s1
                     in if en then s2
                        else (let s3 = damon_configure K dc s2;
                                  (on, s4) = damon_enable K True s3;
                                  s5 = s4\<lparr>e_damon_on := on\<rparr>
                              in if on \<and> log_stats then snd (damon_kernel_stats K s5) else s5))))"

definition cycle_damon_config :: "config \<Rightarrow> damon_config" where
  "cycle_damon_config c = damon_default\<lparr>d_aggr_us := c_interval_ms c * 1000, d_update_us := c_interval_ms c * 1000,
     d_refresh_ms := c_interval_ms c\<rparr>"

definition ebpf_init :: "kernel \<Rightarrow> string \<Rightarrow> 'a eng_scheme \<Rightarrow> 'a eng_scheme" where
  "ebpf_init K obj s =
     (if e_ebpf_on s then s
      else (let (av, s1) = ebpf_available K obj s
            in if av then (let (ok, s2) = ebpf_load K s1 in s2\<lparr>e_ebpf_on := ok\<rparr>) else s1))"

definition avail_ratio :: "mem_info \<Rightarrow> dbl" where
  "avail_ratio m = (if m_total_kb m \<noteq> 0 \<and> m_available_kb m \<noteq> 0
     then ddiv (dbl_of_u64 (m_available_kb m)) (dbl_of_u64 (m_total_kb m)) else Fin 1)"

definition crisis :: "psi_snapshot \<Rightarrow> mem_info \<Rightarrow> bool" where
  "crisis psi m \<longleftrightarrow> (psi_ok psi \<and> dle (dlit 25 2) (full_avg10 psi)) \<or>
     (m_total_kb m \<noteq> 0 \<and> m_available_kb m \<noteq> 0 \<and> dless (avail_ratio m) (dlit 5 2))"

definition pressure :: "config \<Rightarrow> psi_snapshot \<Rightarrow> mem_info \<Rightarrow> bool" where
  "pressure c psi m \<longleftrightarrow> (psi_ok psi \<and> dle (c_psi_threshold c) (some_avg10 psi)) \<or>
     (m_total_kb m \<noteq> 0 \<and> m_available_kb m \<noteq> 0 \<and>
      (dless (avail_ratio m) (dlit 10 2) \<or>
       (dless (avail_ratio m) (dlit 15 2) \<and> dle (c_psi_low c) (some_avg10 psi))))"

definition thrash_guard :: "(pid \<times> u64) list \<Rightarrow> 'a eng_scheme \<Rightarrow> 'a eng_scheme" where
  "thrash_guard faults s = fold (\<lambda>(p, n) s. case e_tracked s p of
       None \<Rightarrow> s
     | Some t \<Rightarrow> if n > 20000 \<and> t_cooldown t > 0 then set_track p (t\<lparr>t_cooldown := max (t_cooldown t) 20\<rparr>) s else s) faults s"

definition ebpf_guard :: "kernel \<Rightarrow> 'a eng_scheme \<Rightarrow> 'a eng_scheme" where
  "ebpf_guard K s =
     (if e_ebpf_on s \<and> ebpf_loaded s
      then (let (faults, s1) = drain_faults K s in thrash_guard faults s1) else s)"

definition run_cycle ::
  "kernel \<Rightarrow> std_sort_fun \<Rightarrow> string \<Rightarrow> 'a eng_scheme \<Rightarrow> (u64 \<times> 'a eng_scheme) option" where
  "run_cycle K srt obj s0 = do {
     let (snap, s1) = scan_processes K (count_cycle s0);
     let s2 = s1\<lparr>e_snapshot := snap\<rparr>;
     let s3 = damon_init K (cycle_damon_config (e_cfg s2)) True s2;
     let s4 = ebpf_init K obj s3;
     let (psi, s5) = psi_memory K s4;
     let (mem, s6) = meminfo K s5;
     if crisis psi mem then Some (0, s6)
     else do {
       s7 \<leftarrow> compute_scores K (ebpf_guard K s6);
       if \<not> pressure (e_cfg s6) psi mem \<and> \<not> c_dry_run (e_cfg s7) then Some (0, s7)
       else Some (run_actions K srt s7) } }"

definition force_cycle ::
  "kernel \<Rightarrow> std_sort_fun \<Rightarrow> 'a eng_scheme \<Rightarrow> (u64 \<times> 'a eng_scheme) option" where
  "force_cycle K srt s0 = do {
     let (snap, s1) = scan_processes K (count_cycle s0);
     let s2 = s1\<lparr>e_snapshot := snap\<rparr>;
     let s3 = damon_init K damon_default False s2;
     s4 \<leftarrow> compute_scores K s3;
     let (mem, s5) = meminfo K s4;
     Some (run_actions K srt s5) }"

end
