(* ===== verification/SysfsProps.thy ===== *)
theory SysfsProps
  imports Sysfs
begin

text \<open>
  The feature files: what the daemon makes of the text the kernel prints for a flag, a contract of
  an on/off switch that KSM, MGLRU and DAMON all meet, and the fault counts of the tracer.
\<close>

section \<open>Switches\<close>

lemma sysfs_runs [runs_intros]:
  "P (Stat ''/sys/fs/cgroup/cgroup.controllers'') \<Longrightarrow> runs P s (snd (cgroup_available K s))"
  "P (Write_File (cstr (full_path p @ ''/memory.reclaim'')) (show_nat (unat b))) \<Longrightarrow> runs P s (snd (cgroup_reclaim K p b s))"
  "P (Stat (damon_param ''enabled'')) \<Longrightarrow> runs P s (snd (damon_available K s))"
  "P (Read_File (damon_param ''enabled'')) \<Longrightarrow> runs P s (snd (damon_enabled K s))"
  "P (Bpf n) \<Longrightarrow> runs P s (snd (bpf_call K n s))"
  by (simp_all add: cgroup_available_def cgroup_reclaim_def damon_available_def damon_enabled_def r_num_def
      bpf_call_def stat_ok_def read_file_def write_file_def runs_emit Let_def split: prod.splits)

text \<open>
  The contract: switching writes at most the two values to the flag's own file, and changes nothing
  but the record of calls. The client lemma is what the daemon's startup needs.
\<close>

locale feature_switch =
  fixes switch :: "kernel \<Rightarrow> bool \<Rightarrow> 'b sys_scheme \<Rightarrow> bool \<times> 'b sys_scheme"
    and path v_on v_off :: string
  assumes on_runs: "runs (\<lambda>e. is_read e \<or> e = Write_File path v_on) s (snd (switch K True s))"
    and off_runs: "runs (\<lambda>e. is_read e \<or> e = Write_File path v_off) s (snd (switch K False s))"
begin

lemma switch_runs:
  assumes "\<And>e. is_read e \<Longrightarrow> P e" "P (Write_File path (if on then v_on else v_off))"
  shows "runs P s (snd (switch K on s))"
proof (cases on)
  case True
  show ?thesis using assms True by (auto intro!: runs_weaken [OF on_runs [of s K]])
next
  case False
  show ?thesis using assms False by (auto intro!: runs_weaken [OF off_runs [of s K]])
qed

lemma switch_other_files:
  assumes "p \<noteq> path"
  shows "only (\<lambda>e. \<nexists>v. e = Write_File p v) s (snd (switch K on s))"
  by (rule runs_only, rule switch_runs) (use assms in \<open>auto simp: is_read_def\<close>)

end

interpretation ksm: feature_switch ksm_enable "''/sys/kernel/mm/ksm/run''" "''1''" "''2''"
  by unfold_locales (simp_all add: ksm_enable_def sys_runs)

interpretation mglru: feature_switch mglru_enable lru_enabled_path "''0x0007''" "''0x0000''"
  by unfold_locales (simp_all add: mglru_enable_def sys_runs)

lemma damon_enable_runs:
  "runs (\<lambda>e. is_read e \<or> e = Write_File (damon_param ''enabled'') (if on then ''Y'' else ''N'')) s (snd (damon_enable K on s))"
proof -
  let ?P = "\<lambda>e. is_read e \<or> e = Write_File (damon_param ''enabled'') (if on then ''Y'' else ''N'')"
  obtain a s1 where 1: "damon_available K s = (a, s1)" by fastforce
  obtain e s2 where 2: "damon_enabled K s1 = (e, s2)" by fastforce
  have r1: "runs ?P s s1" using sysfs_runs(3) [of ?P s K] 1 by simp
  have "runs ?P s1 s2" using sysfs_runs(4) [of ?P s1 K] 2 by simp
  then have r2: "runs ?P s s2" by (rule runs_trans [OF r1])
  have "runs ?P s2 (snd (w_str K (damon_param ''enabled'') (if on then ''Y'' else ''N'') s2))" by (rule sys_runs) simp
  then have "runs ?P s (snd (w_str K (damon_param ''enabled'') (if on then ''Y'' else ''N'') s2))" by (rule runs_trans [OF r2])
  then show ?thesis
    using r1 r2 unfolding damon_enable_def 1 2 Let_def prod.case by (cases a; cases "on = e") simp_all
qed

interpretation damon: feature_switch damon_enable "damon_param ''enabled''" "''Y''" "''N''"
  by unfold_locales (use damon_enable_runs [where on = True] damon_enable_runs [where on = False] in simp_all)

section \<open>What the flags say\<close>

lemma istream_letter: "istream_u64 (''Y'' @ [newline]) 0 = (False, 0)" "istream_u64 (''N'' @ [newline]) 0 = (False, 0)"
  by code_simp+

lemma istream_hex: "istream_u64 (''0x'' @ h) 0 = (True, 0)"
proof -
  have "\<not> is_space (CHR ''0'')" "is_digit (CHR ''0'')" "\<not> is_digit (CHR ''x'')" "digits_val ''0'' = 0" by code_simp+
  then show ?thesis by (simp add: istream_u64_def scan_ws_def scan_int_def Let_def)
qed

text \<open>The kernel prints the flag of \<open>damon_reclaim\<close> as \<open>Y\<close> or \<open>N\<close>, which the number reader refuses:
  the daemon takes DAMON for disabled either way. Switching it off reports success and writes
  nothing, even while DAMON runs; switching it on writes the flag even when it is set.\<close>

theorem damon_switch_off_ignored:
  assumes "k_stat K (s_now s) (damon_param ''enabled'')"
    and "k_read K (s_now s + 1) (damon_param ''enabled'') \<in> {Some (''Y'' @ [newline]), Some (''N'' @ [newline])}"
  shows "fst (damon_enable K False s) \<and> only is_read s (snd (damon_enable K False s)) \<and>
     Write_File (damon_param ''enabled'') ''Y'' \<in> set (s_calls (snd (damon_enable K True s)))"
proof -
  obtain s1 where 1: "damon_available K s = (True, s1)" "s_now s1 = s_now s + 1" "only is_read s s1"
    using assms(1) by (auto simp: damon_available_def stat_ok_def only_def emit_def)
  obtain s2 where 2: "damon_enabled K s1 = (False, s2)" "only is_read s1 s2"
    using assms(2) 1(2) istream_letter
    by (auto simp: damon_enabled_def r_num_def read_file_def only_def emit_def)
  show ?thesis
    using only_trans [OF 1(3) 2(2)] by (simp add: damon_enable_def 1 2 w_str_def write_file_def emit_def)
qed

definition damon_on_kernel :: kernel where
  "damon_on_kernel = \<lparr>k_read = (\<lambda>t p. Some (''Y'' @ [newline])), k_stat = (\<lambda>t p. True), k_write = (\<lambda>t p v. Written),
     k_proc = (\<lambda>t. None), k_pidfd = (\<lambda>t p. - 1), k_madvise = (\<lambda>t f a l d. - 1), k_open = (\<lambda>t p. False),
     k_seek = (\<lambda>t p o'. False), k_pread = (\<lambda>t p o' l. (0, [])), k_self = 1, k_bpf = (\<lambda>t n. False), k_faults = (\<lambda>t. [])\<rparr>"

theorem damon_switch_off_ignored_witness:
  "fst (damon_enable damon_on_kernel False \<lparr>s_now = 0, s_calls = []\<rparr>) \<and>
   only is_read \<lparr>s_now = 0, s_calls = []\<rparr> (snd (damon_enable damon_on_kernel False \<lparr>s_now = 0, s_calls = []\<rparr>)) \<and>
   Write_File (damon_param ''enabled'') ''Y'' \<in> set (s_calls (snd (damon_enable damon_on_kernel True \<lparr>s_now = 0, s_calls = []\<rparr>)))"
  by (rule damon_switch_off_ignored) (simp_all add: damon_on_kernel_def)

text \<open>The same for MGLRU, whose mask is printed in hexadecimal: only the \<open>0\<close> before the \<open>x\<close> is read.\<close>

lemma mglru_enabled_hex:
  "k_read K (s_now s) lru_enabled_path = Some (''0x'' @ h) \<Longrightarrow> fst (mglru_enabled K s) = False"
  using istream_hex [of h] by (simp add: mglru_enabled_def r_num_def read_file_def)

section \<open>Fault counts\<close>

lemma on_page_fault_dom:
  "dom (on_page_fault_user x m) \<subseteq> insert (ucast x) (dom m)"
  by (auto simp: on_page_fault_user_def Let_def split: option.splits if_splits)

lemma fault_map_bounded:
  assumes "finite (dom m)" "card (dom m) \<le> 8192"
  shows "finite (dom (fold on_page_fault_user xs m)) \<and> card (dom (fold on_page_fault_user xs m)) \<le> 8192"
  using assms
proof (induction xs arbitrary: m)
  case (Cons x xs)
  have "finite (dom (on_page_fault_user x m))"
    using finite_subset [OF on_page_fault_dom] Cons.prems(1) by blast
  moreover have "card (dom (on_page_fault_user x m)) \<le> 8192"
    using Cons.prems by (auto simp: on_page_fault_user_def Let_def card_insert_if split: option.splits)
  ultimately show ?case using Cons.IH by simp
qed simp

text \<open>While at most 8192 threads fault, the tracer counts exactly the faults of each thread id. It
  counts by the low half of \<open>pid_tgid\<close>, which is the thread: the entry the daemon looks up under a
  process id holds the faults of that process's main thread only.\<close>

theorem fault_counts_per_thread:
  assumes "card (set (map ucast xs :: u32 list)) \<le> 8192"
  shows "fold on_page_fault_user xs Map.empty p =
     (if p \<in> set (map ucast xs) then Some (of_nat (count_list (map ucast xs) p)) else None)"
  using assms
proof (induction xs arbitrary: p rule: rev_induct)
  case (snoc x xs)
  define m where "m = fold on_page_fault_user xs Map.empty"
  have "set (map ucast xs :: u32 list) \<subseteq> set (map ucast (xs @ [x]))" by auto
  then have "card (set (map ucast xs :: u32 list)) \<le> card (set (map ucast (xs @ [x]) :: u32 list))"
    by (intro card_mono) auto
  then have m: "m = (\<lambda>p. if p \<in> set (map ucast xs) then Some (of_nat (count_list (map ucast xs) p)) else None)"
    using snoc by (auto simp: m_def)
  then have "dom m = set (map ucast xs)" by (auto split: if_splits)
  moreover have "(ucast x :: u32) \<notin> set (map ucast xs) \<Longrightarrow> card (set (map ucast xs :: u32 list)) < 8192"
    using snoc.prems by simp
  ultimately have "(ucast x :: u32) \<notin> set (map ucast xs) \<Longrightarrow> card (dom m) < 8192" by simp
  then have "on_page_fault_user x m p =
     (if p \<in> set (map ucast (xs @ [x])) then Some (of_nat (count_list (map ucast (xs @ [x])) p)) else None)"
    using count_notin [of "ucast x :: u32" "map ucast xs"]
    by (auto simp: on_page_fault_user_def Let_def m One_nat_def)
  then show ?case by (simp add: m_def)
qed simp

text \<open>Process 7, whose threads 8 and 9 fault.\<close>

theorem fault_counts_per_thread_witness:
  "fold on_page_fault_user [push_bit 32 7 + 8, push_bit 32 7 + 9, push_bit 32 7 + 8] Map.empty 7 = None"
  using fault_counts_per_thread [of "[push_bit 32 7 + 8, push_bit 32 7 + 9, push_bit 32 7 + 8]" 7]
  by (simp add: card_insert_if)

end
