(* ===== verification/EngineFrame.thy ===== *)
theory EngineFrame
  imports Engine SysfsProps
begin

text \<open>
  What each operation of the engine leaves alone: the calls it may make (\<open>runs\<close>, \<open>only\<close>) and the
  parts of the state it changes.
\<close>

section \<open>Kernel operations\<close>

lemma clear_soft_dirty_runs [runs_intros]:
  "P (Write_File (proc_path i ''clear_refs'') (''4'' @ [newline])) \<Longrightarrow> runs P s (snd (clear_soft_dirty K i s))"
  by (simp add: clear_soft_dirty_def write_file_def runs_emit Let_def)

lemma ws_chunks_runs:
  assumes P: "\<And>p o' n. P (Pread p o' n)" and r: "ws_chunks K path off remaining touched s = Some ts"
  shows "runs P s (snd ts)"
proof (rule ws_chunks.raw_induct [where P = "\<lambda>K path off rem touched s ts. runs P s (snd ts)", OF _ r])
  fix f K path off remaining touched and s :: "'a sys_scheme" and ts
  assume IH: "\<And>K path off remaining touched s ts. f K path off remaining touched s = Some ts \<Longrightarrow> runs P s (snd ts)"
    and eq: "(if remaining = 0 then Some (touched, s)
      else (let want = (if remaining < 4096 then remaining else 4096);
                (got, es) = k_pread K (s_now s) path off (want * 8);
                s' = emit (Pread path off (want * 8)) s
            in if got \<le> 0 then Some (touched, s')
               else (let n = word_of_int got div 8
                     in f K path (off + word_of_int got) (remaining - n)
                          (touched + count_dirty (take (unat n) es)) s'))) = Some ts"
  have e: "runs P s (emit (Pread p o' n) s)" for p o' n
    by (rule runs_emit) (rule P)
  show "runs P s (snd ts)"
    using eq by (auto simp: Let_def intro: e runs_trans [OF e IH] split: if_splits prod.splits)
qed

lemma ws_regions_runs:
  fixes s :: "'a sys_scheme"
  assumes P: "\<And>p o' n. P (Pread p o' n)" "\<And>p o'. P (Seek p o')"
  shows "ws_regions_loop K path vs acc s = Some r \<Longrightarrow> runs P s (snd r)"
proof (induction vs arbitrary: acc s r)
  case (Cons v vs)
  obtain t n where acc: "acc = (t, n)" by (cases acc)
  define k where "k = (v_end v - v_start v) div 4096"
  define off where "off = (v_start v div 4096) * 8"
  define s1 where "s1 = emit (Seek path off) s"
  have e: "runs P s s1" unfolding s1_def by (rule runs_emit) (rule P)
  show ?case
  proof (cases "v_priv_anon v \<and> v_readable v \<and> k \<noteq> 0")
    case False
    then have "ws_regions_loop K path vs (t, n) s = Some r"
      using Cons.prems by (auto simp: acc k_def [symmetric] Let_def split: if_splits)
    then show ?thesis by (rule Cons.IH)
  next
    case True
    show ?thesis
    proof (cases "k_seek K (s_now s) path off")
      case False
      then have "ws_regions_loop K path vs (t, n + k) s1 = Some r"
        using Cons.prems True by (simp add: acc k_def [symmetric] off_def [symmetric] s1_def Let_def)
      then have "runs P s1 (snd r)" by (rule Cons.IH)
      with e show ?thesis by (rule runs_trans)
    next
      case seek: True
      then have "do { (t', s2) \<leftarrow> ws_chunks K path off k t s1; ws_regions_loop K path vs (t', n + k) s2 } = Some r"
        using Cons.prems True by (simp add: acc k_def [symmetric] off_def [symmetric] s1_def Let_def)
      then obtain t' s2 where c: "ws_chunks K path off k t s1 = Some (t', s2)"
        and l: "ws_regions_loop K path vs (t', n + k) s2 = Some r"
        by (auto split: bind_splits)
      have "runs P s1 (snd (t', s2))" using P(1) c by (rule ws_chunks_runs)
      moreover have "runs P s2 (snd r)" using l by (rule Cons.IH)
      ultimately show ?thesis using e by (auto intro: runs_trans)
    qed
  qed
qed simp

lemma sample_ws_runs:
  assumes P: "\<And>p o' n. P (Pread p o' n)" "\<And>p o'. P (Seek p o')" "\<And>f. P (Read_File f)"
    and r: "sample_working_set K p s = Some (w, s')"
  shows "runs P s s'"
proof (cases "k_open K (s_now s) (proc_path p ''pagemap'')")
  case False
  then show ?thesis using r by (auto simp: sample_working_set_def Let_def intro: runs_emit P)
next
  case True
  define s0 where "s0 = emit (Read_File (proc_path p ''pagemap'')) s"
  obtain vmas s1 where m: "read_maps K p s0 = (vmas, s1)" by fastforce
  obtain t n where l: "ws_regions_loop K (proc_path p ''pagemap'') vmas (0, 0) s1 = Some ((t, n), s')"
    using r True m by (auto simp: sample_working_set_def Let_def s0_def split: bind_splits)
  have "runs P s s0" unfolding s0_def by (rule runs_emit) (rule P)
  moreover have "runs P s0 s1" using proc_runs(3) [of P s0 K p] P(3) m by simp
  moreover have "runs P s1 s'" using ws_regions_runs [OF P(1,2) l] by simp
  ultimately show ?thesis by (blast intro: runs_trans)
qed

section \<open>The engine's own fields\<close>

text \<open>\<open>same_eng\<close>: nothing but the kernel record and the statistics may differ.\<close>

definition eng_core :: "'a eng_scheme \<Rightarrow> 'a eng_scheme \<Rightarrow> bool" where
  "eng_core s s' \<longleftrightarrow> e_cfg s' = e_cfg s \<and> e_snapshot s' = e_snapshot s \<and> e_damon_on s' = e_damon_on s
     \<and> e_ebpf_on s' = e_ebpf_on s \<and> e_damon_targets s' = e_damon_targets s \<and> g_bpf s' = g_bpf s \<and> g_damon s' = g_damon s
     \<and> eng.more s' = eng.more s"

lemma eng_core_refl [simp]: "eng_core s s"
  by (simp add: eng_core_def)

lemma eng_core_trans: "eng_core s t \<Longrightarrow> eng_core t u \<Longrightarrow> eng_core s u"
  by (simp add: eng_core_def)

lemma runs_eng:
  assumes "runs P s s'"
  shows "eng_core s s'" "e_tracked s' = e_tracked s" "e_stats s' = e_stats s"
  using assms by (auto simp: runs_def eng_core_def)

lemma emit_eng [simp]:
  "e_cfg (emit e s) = e_cfg s" "e_tracked (emit e s) = e_tracked s" "e_snapshot (emit e s) = e_snapshot s"
  "e_damon_on (emit e s) = e_damon_on s" "e_stats (emit e s) = e_stats s" "e_ebpf_on (emit e s) = e_ebpf_on s"
  "g_bpf (emit e s) = g_bpf s" "s_calls (emit e s) = e # s_calls s" "eng.more (emit e s) = eng.more s"
  by (simp_all add: emit_def)

lemma set_track_fields [simp]:
  "eng_core s (set_track p t s)" "e_stats (set_track p t s) = e_stats s" "s_calls (set_track p t s) = s_calls s"
  "e_tracked (set_track p t s) = (e_tracked s)(p \<mapsto> t)" "e_cfg (set_track p t s) = e_cfg s"
  "e_damon_on (set_track p t s) = e_damon_on s" "e_snapshot (set_track p t s) = e_snapshot s"
  "e_ebpf_on (set_track p t s) = e_ebpf_on s" "e_damon_targets (set_track p t s) = e_damon_targets s"
  "g_bpf (set_track p t s) = g_bpf s" "g_damon (set_track p t s) = g_damon s" "eng.more (set_track p t s) = eng.more s"
  by (simp_all add: set_track_def eng_core_def)

section \<open>Acting on one process\<close>

lemma trim_vmas_runs:
  assumes "\<And>a l. 8388608 \<le> l \<Longrightarrow> P (Madvise fd a l (if cold then MADV_COLD else MADV_PAGEOUT))"
  shows "runs P s (snd (trim_vmas K fd cold vs freed s))"
proof (induction vs arbitrary: freed s)
  case (Cons v vs)
  obtain r s1 where p: "pageout_pages K fd (v_start v) (v_end v - v_start v) cold s = (r, s1)" by fastforce
  show ?case
  proof (cases "v_priv_anon v \<and> v_readable v \<and> 8388608 \<le> v_end v - v_start v")
    case True
    then have "runs P s (snd (pageout_pages K fd (v_start v) (v_end v - v_start v) cold s))"
      by (intro pageout_pages_runs assms) simp
    then have "runs P s s1" using p by simp
    then show ?thesis using True Cons p by (auto simp: Let_def intro: runs_trans)
  qed (use Cons in \<open>auto simp: Let_def not_le\<close>)
qed simp

lemma heap_trim_runs:
  assumes "\<And>f. P (Read_File f)" "\<And>a l. 8388608 \<le> l \<Longrightarrow> P (Madvise fd a l (if mode = ColdOnly then MADV_COLD else MADV_PAGEOUT))"
  shows "runs P s (snd (heap_trim K ps fd mode s))"
proof -
  obtain vs s1 where m: "read_maps K (q_pid ps) s = (vs, s1)" by fastforce
  have "runs P s s1" using proc_runs(3) [of P s K "q_pid ps"] assms(1) m by simp
  moreover have "runs P s1 (snd (trim_vmas K fd (mode = ColdOnly) vs 0 s1))" using assms(2) by (rule trim_vmas_runs)
  ultimately show ?thesis by (simp add: heap_trim_def m) (blast intro: runs_trans)
qed

lemma heap_trim_dry: "c_dry_run (e_cfg s) \<Longrightarrow> heap_trim K ps fd mode s = (0, s)"
  by (simp add: heap_trim_def)

lemma act_on_runs:
  fixes s :: "'a eng_scheme"
  assumes P: "\<And>f. P (Read_File f)"
    and M: "\<not> c_dry_run (e_cfg s) \<Longrightarrow> \<forall>a l. 8388608 \<le> l \<longrightarrow> P (Madvise fd a l (if mode = ColdOnly then MADV_COLD else MADV_PAGEOUT))"
  shows "runs P s (snd (act_on K ps fd mode s))"
proof -
  obtain st s1 where 1: "read_proc_stat K (q_pid ps) s = (st, s1)" by fastforce
  obtain b s2 where 2: "heap_trim K ps fd mode s1 = (b, s2)" by fastforce
  obtain st' s3 where 3: "read_proc_stat K (q_pid ps) s2 = (st', s3)" by fastforce
  have r: "runs P s (snd (read_proc_stat K p s))" for p and s :: "'a eng_scheme"
    using P by (rule read_proc_stat_runs)
  have "runs P s s1" using r [of s "q_pid ps"] 1 by simp
  moreover have "e_cfg s1 = e_cfg s" using runs_eng(1) [OF \<open>runs P s s1\<close>] by (simp add: eng_core_def)
  moreover have "runs P s1 s2"
  proof (cases "c_dry_run (e_cfg s)")
    case True
    then show ?thesis using heap_trim_dry [of s1] 2 \<open>e_cfg s1 = e_cfg s\<close> by simp
  next
    case False
    then have "runs P s1 (snd (heap_trim K ps fd mode s1))" using M by (intro heap_trim_runs P) simp
    then show ?thesis using 2 by simp
  qed
  moreover have "runs P s2 s3" using r [of s2 "q_pid ps"] 3 by simp
  ultimately show ?thesis by (simp add: act_on_def 1 2 3 Let_def) (blast intro: runs_trans)
qed

end
