(* ===== verification/EngineActions.thy ===== *)
theory EngineActions
  imports EngineFrame "HOL-Library.Multiset"
begin

text \<open>
  The action phase: which processes a cycle touches and how, for every kernel behaviour.
\<close>

section \<open>The loop over the candidates\<close>

text \<open>The calls the loop may make.\<close>

definition act_call :: "config \<Rightarrow> pid set \<Rightarrow> sys_call \<Rightarrow> bool" where
  "act_call c ps e \<longleftrightarrow> (case e of
     Read_File _ \<Rightarrow> True
   | Pidfd_Open p \<Rightarrow> p \<in> ps
   | Madvise fd _ len _ \<Rightarrow> \<not> c_dry_run c \<and> 0 \<le> fd \<and> 8388608 \<le> len
   | _ \<Rightarrow> False)"

lemma act_call_simps [simp]:
  "act_call c ps (Read_File f)" "act_call c ps (Pidfd_Open p) \<longleftrightarrow> p \<in> ps"
  "act_call c ps (Madvise fd a len adv) \<longleftrightarrow> \<not> c_dry_run c \<and> 0 \<le> fd \<and> 8388608 \<le> len"
  "\<not> act_call c ps (Write_File f v)" "\<not> act_call c ps (Bpf n)"
  by (simp_all add: act_call_def)

text \<open>\<open>acted_on A s s'\<close>: exactly the processes of \<open>A\<close> get a new tracking entry, with cooldown 5.\<close>

definition acted_on :: "pid set \<Rightarrow> 'a eng_scheme \<Rightarrow> 'a eng_scheme \<Rightarrow> bool" where
  "acted_on A s s' \<longleftrightarrow> eng_core s s' \<and> (\<forall>p. p \<notin> A \<longrightarrow> e_tracked s' p = e_tracked s p) \<and>
     (\<forall>p \<in> A. \<exists>t. e_tracked s' p = Some t \<and> t_cooldown t = 5) \<and> st_cycles (e_stats s') = st_cycles (e_stats s)"

lemma acted_on_trans: "acted_on A s t \<Longrightarrow> acted_on B t u \<Longrightarrow> acted_on (A \<union> B) s u"
  unfolding acted_on_def by (auto intro: eng_core_trans)

lemma acted_on_none:
  "eng_core s s' \<Longrightarrow> e_tracked s' = e_tracked s \<Longrightarrow> st_cycles (e_stats s') = st_cycles (e_stats s) \<Longrightarrow> acted_on {} s s'"
  by (simp add: acted_on_def)

lemma acted_on_cfg: "acted_on A s s' \<Longrightarrow> e_cfg s' = e_cfg s"
  by (simp add: acted_on_def eng_core_def)

lemma act_loop_spec:
  fixes s :: "'a eng_scheme"
  assumes "q_pid ` set cands \<subseteq> pids" "act_loop K cands r a s = (r', s')"
  shows "\<exists>A. A \<subseteq> pids \<and> finite A \<and> card A \<le> unat (c_max_targets (e_cfg s)) - unat a \<and> acted_on A s s'
     \<and> only (act_call (e_cfg s) pids) s s'"
  using assms
proof (induction cands arbitrary: r a s)
  case Nil
  then show ?case by (intro exI [of _ "{}"]) (simp add: acted_on_none)
next
  case (Cons ps rest)
  let ?P = "act_call (e_cfg s) pids"
  show ?case
  proof (cases "a \<ge> c_max_targets (e_cfg s) \<or> r \<ge> push_bit 10 (c_max_reclaim_mb (e_cfg s))")
    case True
    then have "s' = s" using Cons.prems by (auto split: if_splits)
    then show ?thesis by (intro exI [of _ "{}"]) (simp add: acted_on_none)
  next
    case False
    obtain fd s1 where 1: "pidfd_open K (q_pid ps) s = (fd, s1)" by fastforce
    have "runs ?P s (snd (pidfd_open K (q_pid ps) s))" using Cons.prems by (intro sys_runs) simp
    then have r1: "runs ?P s s1" using 1 by simp
    note e1 = runs_eng [OF r1]
    have cfg1: "e_cfg s1 = e_cfg s" using e1(1) by (simp add: eng_core_def)
    show ?thesis
    proof (cases "fd < 0")
      case True
      define s2 where "s2 = s1\<lparr>e_stats := (e_stats s1)\<lparr>st_errors := st_errors (e_stats s1) + 1\<rparr>\<rparr>"
      have a2: "acted_on {} s s2" using e1 by (intro acted_on_none) (auto simp: s2_def eng_core_def)
      have o2: "only ?P s s2" using runs_only [OF r1] by (simp add: s2_def only_def)
      have "act_loop K rest r a s2 = (r', s')" using Cons.prems False True 1 by (auto simp: s2_def)
      from Cons.IH [OF _ this] Cons.prems(1) obtain A where A: "A \<subseteq> pids" "finite A"
        "card A \<le> unat (c_max_targets (e_cfg s2)) - unat a" "acted_on A s2 s'" "only (act_call (e_cfg s2) pids) s2 s'"
        by auto
      have c2: "e_cfg s2 = e_cfg s" using acted_on_cfg [OF a2] .
      show ?thesis
        using A acted_on_trans [OF a2 A(4)] only_trans [OF o2] c2 by (intro exI [of _ A]) simp
    next
      case fd: False
      obtain got s2 where 2: "act_on K ps fd (mode_for (e_cfg s1) ps) s1 = (got, s2)" by fastforce
      have "runs ?P s1 (snd (act_on K ps fd (mode_for (e_cfg s1) ps) s1))"
        using fd cfg1 by (intro act_on_runs) simp_all
      then have r2: "runs ?P s s2" using r1 2 by (auto intro: runs_trans)
      note e2 = runs_eng [OF r2]
      have cfg2: "e_cfg s2 = e_cfg s" using e2(1) by (simp add: eng_core_def)
      show ?thesis
      proof (cases "got = 0")
        case True
        have "act_loop K rest r a s2 = (r', s')" using Cons.prems False True fd 1 2 by (simp add: Let_def)
        from Cons.IH [OF _ this] Cons.prems(1) obtain A where A: "A \<subseteq> pids" "finite A"
          "card A \<le> unat (c_max_targets (e_cfg s)) - unat a" "acted_on A s2 s'" "only ?P s2 s'"
          by (auto simp: cfg2)
        show ?thesis using A acted_on_trans [OF acted_on_none [OF e2(1,2) arg_cong [OF e2(3)]] A(4)] only_trans [OF runs_only [OF r2]]
          by (intro exI [of _ A]) simp
      next
        case got: False
        define s3 where "s3 = set_track (q_pid ps) ((get_track (q_pid ps) s2)\<lparr>t_cooldown := 5\<rparr>) s2"
        have a3: "acted_on {q_pid ps} s s3"
          using e2 eng_core_trans [OF e2(1) set_track_fields(1)] by (simp add: acted_on_def s3_def)
        have o3: "only ?P s s3" using runs_only [OF r2] by (simp add: s3_def only_def)
        have cfg3: "e_cfg s3 = e_cfg s" using acted_on_cfg [OF a3] .
        have lt: "unat (a + 1) = unat a + 1" "unat a < unat (c_max_targets (e_cfg s))"
        proof -
          show l: "unat a < unat (c_max_targets (e_cfg s))" using False by (simp add: word_le_nat_alt)
          then have "unat a + 1 < 2 ^ 32" using unsigned_less [of "c_max_targets (e_cfg s)", where ?'a = nat] by simp
          then show "unat (a + 1) = unat a + 1" by (simp add: unat_plus_if')
        qed
        have "act_loop K rest (r + got) (a + 1) s3 = (r', s')"
          using Cons.prems False got fd 1 2 by (simp add: Let_def s3_def)
        from Cons.IH [OF _ this] Cons.prems(1) obtain A where A: "A \<subseteq> pids" "finite A"
          "card A \<le> unat (c_max_targets (e_cfg s)) - unat (a + 1)" "acted_on A s3 s'" "only ?P s3 s'"
          by (auto simp: cfg3)
        have "card (insert (q_pid ps) A) \<le> card A + 1" using A(2) by (simp add: card_insert_if)
        then have "card (insert (q_pid ps) A) \<le> unat (c_max_targets (e_cfg s)) - unat a"
          using A(3) lt by linarith
        then show ?thesis
          using A acted_on_trans [OF a3 A(4)] only_trans [OF o3 A(5)] Cons.prems(1)
          by (intro exI [of _ "insert (q_pid ps) A"]) simp
      qed
    qed
  qed
qed

section \<open>The order of the candidates\<close>

text \<open>The processes opened by a list of calls, oldest first.\<close>

definition opened :: "sys_call list \<Rightarrow> pid list" where
  "opened es = List.map_filter (\<lambda>e. case e of Pidfd_Open p \<Rightarrow> Some p | _ \<Rightarrow> None) (rev es)"

lemma opened_append [simp]: "opened (es @ fs) = opened fs @ opened es"
  by (simp add: opened_def map_filter_def)

lemma opened_none: "list_all (\<lambda>e. \<forall>p. e \<noteq> Pidfd_Open p) es \<Longrightarrow> opened es = []"
  by (induction es) (auto simp: opened_def map_filter_def split: sys_call.splits)

lemma opened_pidfd [simp]: "opened (Pidfd_Open p # es) = opened es @ [p]"
  by (simp add: opened_def map_filter_def)

text \<open>What the loop got from each process it visited: 0 when the handle could not be opened or nothing was given back.\<close>

definition successes :: "u64 list \<Rightarrow> nat" where
  "successes gots = length (filter (\<lambda>g. g \<noteq> 0) gots)"

definition hit_pids :: "proc_snap list \<Rightarrow> u64 list \<Rightarrow> pid set" where
  "hit_pids cands gots = {q_pid ps | ps g. (ps, g) \<in> set (zip cands gots) \<and> g \<noteq> 0}"

lemma successes_simps [simp]:
  "successes [] = 0" "successes (g # gs) = (if g = 0 then 0 else 1) + successes gs"
  by (simp_all add: successes_def)

lemma hit_pids_simps [simp]:
  "hit_pids cs [] = {}" "hit_pids [] gs = {}" "hit_pids (c # cs) (g # gs) = (if g = 0 then {} else {q_pid c}) \<union> hit_pids cs gs"
  by (auto simp: hit_pids_def)

text \<open>\<open>loop_log K cands r a s r' s' gots\<close>: the loop visits a prefix of the candidates, one result for each; it goes on
  only below both limits and stops before the end only at one of them; \<open>a\<close> counts the processes that gave
  something back, and only those. Each result is that of an attempt in a state in which the candidates before it have
  been visited.\<close>

definition attempt :: "kernel \<Rightarrow> proc_snap \<Rightarrow> 'a eng_scheme \<Rightarrow> u64" where
  "attempt K ps s =
     (let (fd, s1) = pidfd_open K (q_pid ps) s
      in if fd < 0 then 0 else fst (act_on K ps fd (mode_for (e_cfg s) ps) s1))"

definition loop_log ::
  "kernel \<Rightarrow> proc_snap list \<Rightarrow> u64 \<Rightarrow> nat \<Rightarrow> 'a eng_scheme \<Rightarrow> u64 \<Rightarrow> 'a eng_scheme \<Rightarrow> u64 list \<Rightarrow> bool" where
  "loop_log K cands r a s r' s' gots \<longleftrightarrow> (let c = e_cfg s in
     length gots \<le> length cands \<and> opened (s_calls s') = opened (s_calls s) @ map q_pid (take (length gots) cands) \<and>
     r' = r + sum_list gots \<and> acted_on (hit_pids cands gots) s s' \<and>
     (\<forall>i<length gots. a + successes (take i gots) < unat (c_max_targets c) \<and> r + sum_list (take i gots) < push_bit 10 (c_max_reclaim_mb c)) \<and>
     (length gots < length cands \<longrightarrow>
        unat (c_max_targets c) \<le> a + successes gots \<or> push_bit 10 (c_max_reclaim_mb c) \<le> r + sum_list gots) \<and>
     (\<forall>i<length gots. \<exists>t. opened (s_calls t) = opened (s_calls s) @ map q_pid (take i cands) \<and>
        acted_on (hit_pids cands (take i gots)) s t \<and> gots ! i = attempt K (cands ! i) t))"

lemma loop_log_acted: "loop_log K cands r a s r' s' gots \<Longrightarrow> acted_on (hit_pids cands gots) s s'"
  by (simp add: loop_log_def Let_def)

text \<open>Calls and changes after the loop that open nothing and touch no tracking entry do not show in the log.\<close>

lemma loop_log_later:
  assumes "loop_log K cands r a s r' s1 gots" "acted_on {} s1 s'" "opened (s_calls s') = opened (s_calls s1)"
  shows "loop_log K cands r a s r' s' gots"
proof -
  have "acted_on (hit_pids cands gots) s s'" using acted_on_trans [OF loop_log_acted [OF assms(1)] assms(2)] by simp
  then show ?thesis using assms(1) unfolding loop_log_def Let_def assms(3) by blast
qed

lemma loop_log_stop:
  "c_max_targets (e_cfg s) \<le> a \<or> push_bit 10 (c_max_reclaim_mb (e_cfg s)) \<le> r \<Longrightarrow> loop_log K cands r (unat a) s r s []"
  by (auto simp: loop_log_def acted_on_none word_le_nat_alt)

lemma loop_log_end: "loop_log K [] r a s r s []"
  by (simp add: loop_log_def acted_on_none)

lemma loop_log_visit:
  assumes "loop_log K rest (r + g) (a + (if g = 0 then 0 else 1)) t r' s' gots"
    and "acted_on (if g = 0 then {} else {q_pid ps}) s t" "opened (s_calls t) = opened (s_calls s) @ [q_pid ps]"
    and "a < unat (c_max_targets (e_cfg s))" "r < push_bit 10 (c_max_reclaim_mb (e_cfg s))" "g = attempt K ps s"
  shows "loop_log K (ps # rest) r a s r' s' (g # gots)"
proof -
  have c: "e_cfg t = e_cfg s" using acted_on_cfg [OF assms(2)] .
  note l = assms(1) [unfolded loop_log_def Let_def c]
  have "a + successes (take i (g # gots)) < unat (c_max_targets (e_cfg s)) \<and>
      r + sum_list (take i (g # gots)) < push_bit 10 (c_max_reclaim_mb (e_cfg s))"
    if "i < length (g # gots)" for i
    using l assms(4,5) that by (cases i) (simp_all add: add.assoc)
  moreover have "acted_on (hit_pids (ps # rest) (g # gots)) s s'"
    using acted_on_trans [OF assms(2)] l by simp
  moreover have "\<exists>u. opened (s_calls u) = opened (s_calls s) @ map q_pid (take i (ps # rest)) \<and>
        acted_on (hit_pids (ps # rest) (take i (g # gots))) s u \<and> (g # gots) ! i = attempt K ((ps # rest) ! i) u"
    if "i < length (g # gots)" for i
  proof (cases i)
    case 0
    then show ?thesis using assms(6) by (intro exI [of _ s]) (simp add: acted_on_none)
  next
    case (Suc j)
    then have "j < length gots" using that by simp
    then obtain u where u: "opened (s_calls u) = opened (s_calls t) @ map q_pid (take j rest)"
      "acted_on (hit_pids rest (take j gots)) t u" "gots ! j = attempt K (rest ! j) u" using l by blast
    then show ?thesis using Suc assms(3) acted_on_trans [OF assms(2) u(2)] by (intro exI [of _ u]) simp
  qed
  ultimately show ?thesis using l assms(3) by (simp add: loop_log_def add.assoc)
qed

lemma act_loop_log:
  fixes s :: "'a eng_scheme"
  assumes "act_loop K cands r a s = (r', s')"
  shows "\<exists>gots. loop_log K cands r (unat a) s r' s' gots"
  using assms
proof (induction cands arbitrary: r a s)
  case Nil
  then have "r' = r" "s' = s" by simp_all
  then show ?case using loop_log_end [of K r "unat a" s] by blast
next
  case (Cons ps rest)
  show ?case
  proof (cases "a \<ge> c_max_targets (e_cfg s) \<or> r \<ge> push_bit 10 (c_max_reclaim_mb (e_cfg s))")
    case True
    then show ?thesis using Cons.prems loop_log_stop [OF True] by (auto split: if_splits)
  next
    case False
    then have lim: "unat a < unat (c_max_targets (e_cfg s))" "r < push_bit 10 (c_max_reclaim_mb (e_cfg s))"
      by (simp_all add: word_le_nat_alt word_less_nat_alt not_le)
    have inc: "unat (a + 1) = unat a + 1"
      using lim(1) unsigned_less [of "c_max_targets (e_cfg s)", where ?'a = nat] by (simp add: unat_plus_if')
    obtain fd s1 where 1: "pidfd_open K (q_pid ps) s = (fd, s1)" by fastforce
    have s1: "s1 = emit (Pidfd_Open (q_pid ps)) s" using 1 by (simp add: pidfd_open_def)
    have visit: ?thesis if t: "act_loop K rest (r + g) (if g = 0 then a else a + 1) t = (r', s')"
      "acted_on (if g = 0 then {} else {q_pid ps}) s t" "opened (s_calls t) = opened (s_calls s) @ [q_pid ps]"
      "g = attempt K ps s" for g and t :: "'a eng_scheme"
    proof -
      obtain gots where "loop_log K rest (r + g) (unat (if g = 0 then a else a + 1)) t r' s' gots"
        using Cons.IH [OF t(1)] by auto
      then have "loop_log K rest (r + g) (unat a + (if g = 0 then 0 else 1)) t r' s' gots" using inc by (simp split: if_splits)
      from loop_log_visit [OF this t(2,3) lim t(4)] show ?thesis by blast
    qed
    show ?thesis
    proof (cases "fd < 0")
      case True
      show ?thesis using Cons.prems False True 1
        by (intro visit [of 0 "s1\<lparr>e_stats := (e_stats s1)\<lparr>st_errors := st_errors (e_stats s1) + 1\<rparr>\<rparr>"])
          (simp_all add: s1 acted_on_def eng_core_def attempt_def, simp_all add: emit_def s1)
    next
      case fd: False
      obtain got s2 where 2: "act_on K ps fd (mode_for (e_cfg s1) ps) s1 = (got, s2)" by fastforce
      let ?P = "\<lambda>e. \<forall>p. e \<noteq> Pidfd_Open p"
      have "runs ?P s1 (snd (act_on K ps fd (mode_for (e_cfg s1) ps) s1))" by (rule act_on_runs) simp_all
      then have r2: "runs ?P s1 s2" using 2 by simp
      note e2 = runs_eng [OF r2]
      have "acted_on {} s s2" using e2 by (intro acted_on_none) (simp_all add: s1 eng_core_def, simp_all add: emit_def)
      obtain es where "s_calls s2 = es @ s_calls s1" "list_all ?P es" using r2 by (auto simp: runs_def)
      then have o2: "opened (s_calls s2) = opened (s_calls s) @ [q_pid ps]" by (simp add: opened_none s1)
      have at: "got = attempt K ps s" using 1 2 fd by (simp add: attempt_def s1 emit_def)
      show ?thesis
      proof (cases "got = 0")
        case True
        show ?thesis using Cons.prems False fd 1 2 True o2 \<open>acted_on {} s s2\<close>
          by (intro visit [of 0 s2]) (use at in \<open>simp_all add: Let_def\<close>)
      next
        case got: False
        define s3 where "s3 = set_track (q_pid ps) ((get_track (q_pid ps) s2)\<lparr>t_cooldown := 5\<rparr>) s2"
        have "acted_on {q_pid ps} s s3"
          using \<open>acted_on {} s s2\<close> by (auto simp: s3_def acted_on_def eng_core_def)
        moreover have "act_loop K rest (r + got) (a + 1) s3 = (r', s')"
          using Cons.prems False got fd 1 2 by (simp add: Let_def s3_def)
        ultimately show ?thesis using got o2 at by (intro visit [of got s3]) (simp_all add: s3_def)
      qed
    qed
  qed
qed

section \<open>Sorting\<close>

text \<open>What \<open>std::sort\<close> requires of its comparator, and what it then promises: a permutation in which no element
  comes before one that the comparator puts first.\<close>

definition strict_weak :: "('b \<Rightarrow> 'b \<Rightarrow> bool) \<Rightarrow> 'b set \<Rightarrow> bool" where
  "strict_weak lt A \<longleftrightarrow> (\<forall>a\<in>A. \<not> lt a a) \<and> (\<forall>a\<in>A. \<forall>b\<in>A. \<forall>c\<in>A. lt a b \<longrightarrow> lt b c \<longrightarrow> lt a c) \<and>
     (\<forall>a\<in>A. \<forall>b\<in>A. \<forall>c\<in>A. \<not> lt a b \<longrightarrow> \<not> lt b a \<longrightarrow> \<not> lt b c \<longrightarrow> \<not> lt c b \<longrightarrow> \<not> lt a c \<and> \<not> lt c a)"

lemma strict_weak_mono:
  assumes "strict_weak lt B" "A \<subseteq> B"
  shows "strict_weak lt A"
proof -
  have sub: "x \<in> B" if "x \<in> A" for x using assms(2) that by blast
  show ?thesis unfolding strict_weak_def
    by (intro conjI ballI) (use assms(1) [unfolded strict_weak_def] sub in meson)+
qed

lemma strict_weak_asym: "strict_weak lt A \<Longrightarrow> a \<in> A \<Longrightarrow> b \<in> A \<Longrightarrow> lt a b \<Longrightarrow> \<not> lt b a"
  unfolding strict_weak_def by meson

lemma strict_weak_trans: "strict_weak lt A \<Longrightarrow> a \<in> A \<Longrightarrow> b \<in> A \<Longrightarrow> c \<in> A \<Longrightarrow> lt a b \<Longrightarrow> lt b c \<Longrightarrow> lt a c"
  unfolding strict_weak_def by meson

definition std_sort :: "std_sort_fun \<Rightarrow> bool" where
  "std_sort srt \<longleftrightarrow> (\<forall>lt xs. strict_weak lt (set xs) \<longrightarrow>
     mset (srt lt xs) = mset xs \<and> sorted_wrt (\<lambda>a b. \<not> lt b a) (srt lt xs))"

text \<open>One such sort: insertion.\<close>

fun insert_by :: "('b \<Rightarrow> 'b \<Rightarrow> bool) \<Rightarrow> 'b \<Rightarrow> 'b list \<Rightarrow> 'b list" where
  "insert_by lt x [] = [x]"
| "insert_by lt x (y # ys) = (if lt x y then x # y # ys else y # insert_by lt x ys)"

definition sort_by :: "('b \<Rightarrow> 'b \<Rightarrow> bool) \<Rightarrow> 'b list \<Rightarrow> 'b list" where
  "sort_by lt xs = foldr (insert_by lt) xs []"

lemma insert_by_mset [simp]: "mset (insert_by lt x ys) = add_mset x (mset ys)"
  by (induction ys) auto

lemma sort_by_mset [simp]: "mset (sort_by lt xs) = mset xs"
  by (induction xs) (simp_all add: sort_by_def)

lemma set_insert_by [simp]: "set (insert_by lt x ys) = insert x (set ys)"
  by (metis insert_by_mset set_mset_add_mset_insert set_mset_mset)

lemma set_sort_by [simp]: "set (sort_by lt xs) = set xs"
  by (metis sort_by_mset set_mset_mset)

lemma sort_by_subset: "\<forall>lt xs. set (sort_by lt xs) \<subseteq> set xs"
  by simp

lemma insert_by_sorted:
  assumes "strict_weak lt (insert x (set ys))" "sorted_wrt (\<lambda>a b. \<not> lt b a) ys"
  shows "sorted_wrt (\<lambda>a b. \<not> lt b a) (insert_by lt x ys)"
  using assms
proof (induction ys)
  case (Cons y ys)
  note w = Cons.prems(1) and s = Cons.prems(2)
  have m: "x \<in> insert x (set (y # ys))" "y \<in> insert x (set (y # ys))" by simp_all
  show ?case
  proof (cases "lt x y")
    case True
    have "\<not> lt z x" if "z \<in> set ys" for z
    proof
      assume "lt z x"
      then have "lt z y" using strict_weak_trans [OF w _ m _ True] that by simp
      then show False using s that by simp
    qed
    then show ?thesis using True s strict_weak_asym [OF w m True] by simp
  next
    case False
    have "strict_weak lt (insert x (set ys))" by (rule strict_weak_mono [OF w]) auto
    then have "sorted_wrt (\<lambda>a b. \<not> lt b a) (insert_by lt x ys)" using Cons.IH s by simp
    then show ?thesis using False s by simp
  qed
qed simp

lemma sort_by_sorts: "std_sort sort_by"
proof -
  have "strict_weak lt (set xs) \<Longrightarrow> sorted_wrt (\<lambda>a b. \<not> lt b a) (sort_by lt xs)" for lt and xs :: "proc_snap list"
  proof (induction xs)
    case (Cons x xs)
    have "strict_weak lt (set xs)" by (rule strict_weak_mono [OF Cons.prems]) auto
    then have "sorted_wrt (\<lambda>a b. \<not> lt b a) (insert_by lt x (sort_by lt xs))"
      using Cons.prems by (intro insert_by_sorted Cons.IH) simp_all
    then show ?case by (simp add: sort_by_def)
  qed (simp add: sort_by_def)
  then show ?thesis by (simp add: std_sort_def)
qed

text \<open>The comparator of the code is a strict weak order as long as no score is NaN.\<close>

lemma dless_asym: "dless x y \<Longrightarrow> \<not> dless y x"
  by (cases x; cases y) auto

lemma score_above_weak:
  assumes "\<forall>x\<in>A. q_score x \<noteq> NaN"
  shows "strict_weak score_above A"
proof -
  have n: "\<not> dless (q_score y) (q_score x) \<longleftrightarrow> dle (q_score x) (q_score y)" if "x \<in> A" "y \<in> A" for x y
    using that assms dless_iff_not_dle by metis
  show ?thesis unfolding strict_weak_def score_above_def
  proof (intro conjI ballI impI)
    fix a b c assume A: "a \<in> A" "b \<in> A" "c \<in> A"
    show "dless (q_score c) (q_score a)" if "dless (q_score b) (q_score a)" "dless (q_score c) (q_score b)"
      using that by (metis dle_less_trans dle_def)
    assume e: "\<not> dless (q_score b) (q_score a)" "\<not> dless (q_score a) (q_score b)"
      "\<not> dless (q_score c) (q_score b)" "\<not> dless (q_score b) (q_score c)"
    show "\<not> dless (q_score c) (q_score a)" "\<not> dless (q_score a) (q_score c)"
      using e n A dle_trans by blast+
  qed simp
qed

lemma std_sort_score:
  assumes "std_sort srt" "\<forall>x\<in>set xs. q_score x \<noteq> NaN"
  shows "mset (srt score_above xs) = mset xs" "sorted_wrt (\<lambda>a b. \<not> dless (q_score a) (q_score b)) (srt score_above xs)"
  using assms(1) [unfolded std_sort_def, rule_format, OF score_above_weak [OF assms(2)]]
  unfolding score_above_def by simp_all

section \<open>The whole phase\<close>

lemma cgroup_path [simp]: "cstr (full_path ''/'' @ ''/memory.reclaim'') = ''/sys/fs/cgroup/memory.reclaim''"
  by code_simp

text \<open>The calls of \<open>run_actions\<close>: those of the loop, and the cgroup step at its end.\<close>

definition tail_call :: "config \<Rightarrow> sys_call \<Rightarrow> bool" where
  "tail_call c e \<longleftrightarrow> is_read e \<or> (c_cgroup_reclaim c \<and> (\<exists>v. e = Write_File ''/sys/fs/cgroup/memory.reclaim'' v))"

definition action_call :: "config \<Rightarrow> pid set \<Rightarrow> sys_call \<Rightarrow> bool" where
  "action_call c ps e \<longleftrightarrow> act_call c ps e \<or> tail_call c e"

lemma cgroup_step_spec:
  fixes s :: "'a eng_scheme"
  shows "acted_on {} s (cgroup_step K r s) \<and> only (tail_call (e_cfg s)) s (cgroup_step K r s)"
proof -
  let ?P = "tail_call (e_cfg s)"
  obtain psi s1 where 1: "psi_memory K s = (psi, s1)" by fastforce
  obtain av s2 where 2: "cgroup_available K s1 = (av, s2)" by fastforce
  define want where "want = push_bit 10 (c_max_reclaim_mb (e_cfg s2)) - r"
  obtain got s3 where 3: "cgroup_reclaim K ''/'' want s2 = (got, s3)" by fastforce
  have "runs ?P s (snd (psi_memory K s))" by (rule proc_runs) (simp add: tail_call_def)
  then have r1: "runs ?P s s1" using 1 by simp
  have "runs ?P s1 (snd (cgroup_available K s1))" by (rule sysfs_runs) (simp add: tail_call_def)
  then have r2: "runs ?P s s2" using r1 2 by (auto intro: runs_trans)
  have c: "e_cfg s1 = e_cfg s" "e_cfg s2 = e_cfg s" using runs_eng(1) [OF r1] runs_eng(1) [OF r2] by (simp_all add: eng_core_def)
  have r3: "runs ?P s s3" if "c_cgroup_reclaim (e_cfg s)"
  proof -
    have "runs ?P s2 (snd (cgroup_reclaim K ''/'' want s2))"
      by (rule sysfs_runs) (use that in \<open>simp add: tail_call_def\<close>)
    then show ?thesis using r2 3 by (auto intro: runs_trans)
  qed
  have k: "acted_on {} s t \<and> only ?P s t" if "runs ?P s t" for t
    using runs_eng [OF that] runs_only [OF that] by (simp add: acted_on_none)
  have k': "acted_on {} s (t\<lparr>e_stats := x\<rparr>) \<and> only ?P s (t\<lparr>e_stats := x\<rparr>)"
    if "runs ?P s t" "st_cycles x = st_cycles (e_stats t)" for t x
    using runs_eng [OF that(1)] runs_only [OF that(1)] that(2) by (simp add: acted_on_def eng_core_def only_def)
  show ?thesis
    unfolding cgroup_step_def 1 Let_def prod.case 2 want_def [symmetric] 3
    using k [OF r1] k [OF r2] k [OF r3] k' [OF r3] c by auto
qed

lemma run_actions_spec:
  fixes s :: "'a eng_scheme"
  assumes "set (srt score_above (filter (candidate (e_cfg s)) (e_snapshot s))) \<subseteq> set (filter (candidate (e_cfg s)) (e_snapshot s))"
    and "run_actions K srt s = (kb, s')"
    and pids: "pids = q_pid ` set (filter (candidate (e_cfg s)) (e_snapshot s))"
  shows "\<exists>A. A \<subseteq> pids \<and> finite A \<and> card A \<le> unat (c_max_targets (e_cfg s)) \<and> acted_on A s s' \<and>
     only (action_call (e_cfg s) pids) s s'"
proof -
  define cands where "cands = srt score_above (filter (candidate (e_cfg s)) (e_snapshot s))"
  obtain r s1 where l: "act_loop K cands 0 0 s = (r, s1)" by fastforce
  have "q_pid ` set cands \<subseteq> pids" using assms(1) pids by (auto simp: cands_def)
  from act_loop_spec [OF this l] obtain A where A: "A \<subseteq> pids" "finite A"
    "card A \<le> unat (c_max_targets (e_cfg s))" "acted_on A s s1" "only (act_call (e_cfg s) pids) s s1" by auto
  note c = cgroup_step_spec [of s1 K r]
  have cfg: "e_cfg s1 = e_cfg s" using acted_on_cfg [OF A(4)] .
  have s': "s' = (cgroup_step K r s1)\<lparr>e_stats := e_stats s'\<rparr>"
    using assms(2) l by (auto simp: run_actions_def Let_def cands_def)
  have "acted_on A s (cgroup_step K r s1)" using acted_on_trans [OF A(4) conjunct1 [OF c]] by simp
  moreover have "st_cycles (e_stats s') = st_cycles (e_stats (cgroup_step K r s1))"
    using assms(2) l by (auto simp: run_actions_def Let_def cands_def)
  ultimately have "acted_on A s s'" by (subst s') (simp add: acted_on_def eng_core_def)
  moreover have "only (action_call (e_cfg s) pids) s (cgroup_step K r s1)"
    using only_trans [OF only_weaken [OF A(5)] only_weaken [OF conjunct2 [OF c]]] cfg
    by (simp add: action_call_def)
  then have "only (action_call (e_cfg s) pids) s s'" by (subst s') (simp add: only_def)
  ultimately show ?thesis using A by blast
qed

text \<open>The log of the whole phase: the cgroup step opens no handle and changes no tracking entry.\<close>

lemma run_actions_log:
  fixes s :: "'a eng_scheme"
  assumes "run_actions K srt s = (kb, s')"
  defines "cands \<equiv> srt score_above (filter (candidate (e_cfg s)) (e_snapshot s))"
  shows "\<exists>gots r. loop_log K cands 0 0 s r s' gots \<and> kb = r div 1024"
proof -
  obtain r s1 where l: "act_loop K cands 0 0 s = (r, s1)" by fastforce
  obtain gots where g: "loop_log K cands 0 0 s r s1 gots" using act_loop_log [OF l] by auto
  note c = cgroup_step_spec [of s1 K r]
  have s': "kb = r div 1024" "s' = (cgroup_step K r s1)\<lparr>e_stats := e_stats s'\<rparr>"
    "st_cycles (e_stats s') = st_cycles (e_stats (cgroup_step K r s1))"
    using assms(1) l by (auto simp: run_actions_def Let_def cands_def)
  have "acted_on {} (cgroup_step K r s1) s'"
    by (subst s'(2)) (simp add: acted_on_def eng_core_def s'(3))
  from acted_on_trans [OF conjunct1 [OF c] this] have a: "acted_on {} s1 s'" by simp
  obtain es where es: "s_calls (cgroup_step K r s1) = es @ s_calls s1" "list_all (tail_call (e_cfg s1)) es"
    using c by (auto simp: only_def)
  have "list_all (\<lambda>e. \<forall>p. e \<noteq> Pidfd_Open p) es"
    using es(2) by (auto simp: list.pred_set tail_call_def is_read_def split: sys_call.splits)
  then have "opened (s_calls (cgroup_step K r s1)) = opened (s_calls s1)" by (simp add: es(1) opened_none)
  moreover have "s_calls s' = s_calls (cgroup_step K r s1)" by (subst s'(2)) simp
  ultimately have "loop_log K cands 0 0 s r s' gots" by (intro loop_log_later [OF g a]) simp
  then show ?thesis using s'(1) by blast
qed

text \<open>The counts stay within the limit.\<close>

lemma successes_take: "i \<le> length gs \<Longrightarrow> successes (take i gs) \<le> successes gs"
  by (metis append_take_drop_id filter_append le_add1 length_append successes_def)

lemma successes_bound:
  assumes "\<forall>i<length gs. successes (take i gs) < M"
  shows "successes gs \<le> M"
proof (cases gs rule: rev_cases)
  case (snoc xs x)
  have "successes (take (length xs) gs) < M" using assms [rule_format, of "length xs"] snoc by simp
  then have "successes xs < M" by (simp add: snoc)
  then show ?thesis by (simp add: snoc successes_def)
qed simp

lemma card_hit_pids: "card (hit_pids cs gs) \<le> successes gs \<and> finite (hit_pids cs gs)"
proof (induction gs arbitrary: cs)
  case Nil
  then show ?case by (simp add: hit_pids_def)
next
  case (Cons g gs)
  show ?case
  proof (cases cs)
    case (Cons c cs')
    then show ?thesis using Cons.IH [of cs'] by (auto simp: card_insert_if)
  qed simp
qed

end
