(* ===== verification/EngineScores.thy ===== *)
theory EngineScores
  imports EngineActions
begin

text \<open>
  The observation phase: the scan, the scores and their frames, when the sampler returns, and what
  the score of a process can be.
\<close>

section \<open>The score\<close>

lemma quarter_or_more:
  assumes "1 / 4 \<le> x" shows "cold_part (Fin x) = Fin 0"
proof -
  have "dle (round_dbl 1) (round_dbl (x * 4))" using assms by (intro round_dbl_mono) simp
  then have "dle (Fin 1) (dmul (Fin x) (Fin 4))" by simp
  then have "\<not> dless (dmul (Fin x) (Fin 4)) (Fin 1)"
    by (cases "dmul (Fin x) (Fin 4)") (auto simp: dle_def)
  then show ?thesis by (simp add: cold_part_def dmin_def dsub_def)
qed

definition finite_weights :: "config \<Rightarrow> bool" where
  "finite_weights c \<longleftrightarrow> (\<forall>g \<in> set (c_groups c). \<exists>w. g_weight g = Fin w)"

lemma best_policy_in: "best_policy cg b gs = Some g \<Longrightarrow> b = Some g \<or> g \<in> set gs"
  by (induction cg b gs rule: best_policy.induct) (auto split: if_splits option.splits)

lemma weight_finite: "finite_weights c \<Longrightarrow> \<exists>w. weight_for c ps = Fin w"
  by (auto simp: weight_for_def finite_weights_def split: option.splits dest: best_policy_in)

text \<open>A process a quarter of whose pages was touched scores 0, whatever its size and swap.\<close>

lemma mb_finite: "\<exists>m. ddiv (dbl_of_u64 w) (Fin 1024) = Fin m"
proof -
  obtain x where x: "dbl_of_u64 w = Fin x" "0 \<le> x" "x \<le> 2 ^ 64" by (rule dbl_of_u64_finite)
  have "dle (round_dbl (x / 1024)) (round_dbl (2 ^ 64))" using x by (intro round_dbl_mono) simp
  moreover have "dle (round_dbl 0) (round_dbl (x / 1024))" using x by (intro round_dbl_mono) simp
  ultimately show ?thesis unfolding x round_dbl_2_64
    by (cases "round_dbl (x / 1024)") (auto simp: dle_def)
qed

lemma swap_factor: "\<exists>f. (if q_swap_kb ps \<noteq> 0 then dlit 13 1 else Fin 1) = Fin f"
proof -
  have "dlit 13 1 = Fin (5854679515581645 / 4503599627370496)" by code_simp
  then show ?thesis by (metis (full_types))
qed

lemma warm_score:
  assumes "q_ws_ratio ps = Fin x" "1 / 4 \<le> x" "finite_weights c"
  shows "score_of c ps = Fin 0"
proof -
  obtain m where "ddiv (dbl_of_u64 (q_anon_kb ps)) (Fin 1024) = Fin m" using mb_finite by blast
  moreover obtain f where "(if q_swap_kb ps \<noteq> 0 then dlit 13 1 else Fin 1) = Fin f" using swap_factor by blast
  moreover obtain w where "weight_for c ps = Fin w" using weight_finite [OF assms(3)] by blast
  ultimately show ?thesis using quarter_or_more [OF assms(2)] by (simp add: score_of_def assms(1))
qed

definition scored :: "config \<Rightarrow> proc_snap \<Rightarrow> bool" where
  "scored c ps \<longleftrightarrow> q_score ps = Fin 0 \<or> q_score ps = score_of c ps"

lemma scored_warm: "scored c ps \<Longrightarrow> q_ws_ratio ps = Fin x \<Longrightarrow> 1 / 4 \<le> x \<Longrightarrow> finite_weights c \<Longrightarrow> q_score ps = Fin 0"
  by (auto simp: scored_def warm_score)

section \<open>One process\<close>

text \<open>The calls of the observation phase.\<close>

definition observe_call :: "sys_call \<Rightarrow> bool" where
  "observe_call e \<longleftrightarrow> is_read e \<or> (\<exists>p v. e = Write_File (proc_path p ''clear_refs'') v)"

lemma sample_step_spec:
  assumes "sample_step K damon c ps tr s = Some ((ps', tr'), s')"
  shows "runs observe_call s s'" "q_pid ps' = q_pid ps" "q_score ps' = q_score ps"
    "damon \<Longrightarrow> ps' = ps" "t_cooldown tr' = t_cooldown tr" "q_anon_kb ps \<le> q_anon_kb ps'"
proof -
  have P: "observe_call (Pread p o' n)" "observe_call (Seek p o')" "observe_call (Read_File f)" for p o' n f
    by (simp_all add: observe_call_def)
  have c: "runs observe_call s (snd (clear_soft_dirty K (q_pid ps) s))"
    by (rule clear_soft_dirty_runs) (auto simp: observe_call_def)
  show "runs observe_call s s'"
    using assms c sample_ws_runs [of observe_call K "q_pid ps" s, OF P]
    by (auto simp: sample_step_def split: if_splits bind_splits prod.splits)
  show "q_pid ps' = q_pid ps" "q_score ps' = q_score ps" "damon \<Longrightarrow> ps' = ps" "t_cooldown tr' = t_cooldown tr"
    "q_anon_kb ps \<le> q_anon_kb ps'"
    using assms by (auto simp: sample_step_def split: if_splits bind_splits prod.splits)
qed

lemma score_of_score [simp]: "score_of c (ps\<lparr>q_score := x\<rparr>) = score_of c ps"
  by (simp add: score_of_def weight_for_def)

lemma score_step_spec:
  assumes "score_step c ps tr = (ps', tr')"
  shows "scored c ps'" "q_pid ps' = q_pid ps" "q_ws_ratio ps' = q_ws_ratio ps" "q_anon_kb ps' = q_anon_kb ps"
    "t_cooldown tr > 0 \<Longrightarrow> q_score ps' = Fin 0"
  using assms by (auto simp: score_step_def scored_def split: if_splits)

lemma score_one_spec:
  fixes s :: "'a eng_scheme"
  assumes "score_one K ps s = Some (ps', s')" "scored (e_cfg s) ps"
  shows "eng_core s s'" "e_stats s' = e_stats s" "only observe_call s s'" "dom (e_tracked s') = dom (e_tracked s)"
    "q_pid ps' = q_pid ps" "scored (e_cfg s) ps'" "e_damon_on s \<Longrightarrow> q_ws_ratio ps' = q_ws_ratio ps"
proof -
  have "eng_core s s' \<and> e_stats s' = e_stats s \<and> only observe_call s s' \<and> dom (e_tracked s') = dom (e_tracked s) \<and>
    q_pid ps' = q_pid ps \<and> scored (e_cfg s) ps' \<and> (e_damon_on s \<longrightarrow> q_ws_ratio ps' = q_ws_ratio ps)"
  proof (cases "e_tracked s (q_pid ps)")
    case None
    then show ?thesis using assms by (simp add: score_one_def)
  next
    case (Some tr)
    then obtain ps1 tr1 s1 where 1: "sample_step K (e_damon_on s) (e_cfg s) ps tr s = Some ((ps1, tr1), s1)"
      using assms by (auto simp: score_one_def split: bind_splits)
    obtain ps2 tr2 where 2: "score_step (e_cfg s1) ps1 tr1 = (ps2, tr2)" by fastforce
    have r: "ps' = ps2" "s' = set_track (q_pid ps) tr2 s1" using assms Some 1 2 by (simp_all add: score_one_def)
    note s1 = sample_step_spec [OF 1] and s2 = score_step_spec [OF 2]
    note e = runs_eng [OF s1(1)]
    have cfg: "e_cfg s1 = e_cfg s" using e(1) by (simp add: eng_core_def)
    have "only observe_call s s'" using runs_only [OF s1(1)] by (simp add: r only_def)
    moreover have "eng_core s s'" unfolding r using e(1) set_track_fields(1) by (rule eng_core_trans)
    ultimately show ?thesis using s1 s2 e Some by (auto simp: r cfg)
  qed
  then show "eng_core s s'" "e_stats s' = e_stats s" "only observe_call s s'" "dom (e_tracked s') = dom (e_tracked s)"
    "q_pid ps' = q_pid ps" "scored (e_cfg s) ps'" "e_damon_on s \<Longrightarrow> q_ws_ratio ps' = q_ws_ratio ps" by blast+
qed

lemma score_all_spec:
  fixes s :: "'a eng_scheme"
  assumes "score_all K pss s = Some (pss', s')" "\<forall>ps \<in> set pss. scored (e_cfg s) ps"
  shows "eng_core s s' \<and> e_stats s' = e_stats s \<and> only observe_call s s' \<and> dom (e_tracked s') = dom (e_tracked s) \<and>
    map q_pid pss' = map q_pid pss \<and> (\<forall>ps \<in> set pss'. scored (e_cfg s) ps) \<and>
    (e_damon_on s \<longrightarrow> map q_ws_ratio pss' = map q_ws_ratio pss)"
  using assms
proof (induction pss arbitrary: s pss')
  case (Cons ps pss)
  obtain ps1 s1 where 1: "score_one K ps s = Some (ps1, s1)" using Cons.prems by (auto split: bind_splits)
  obtain pss1 where 2: "score_all K pss s1 = Some (pss1, s')" "pss' = ps1 # pss1"
    using Cons.prems 1 by (auto split: bind_splits)
  note s1 = score_one_spec [OF 1]
  have sc: "scored (e_cfg s) ps" using Cons.prems by simp
  have cfg: "e_cfg s1 = e_cfg s" "e_damon_on s1 = e_damon_on s" using s1(1) [OF sc] by (simp_all add: eng_core_def)
  have "\<forall>ps \<in> set pss. scored (e_cfg s1) ps" using Cons.prems cfg by simp
  note IH = Cons.IH [OF 2(1) this]
  show ?case
    using IH s1 [OF sc] 2(2) cfg by (auto intro: eng_core_trans only_trans)
qed simp

section \<open>All processes\<close>

lemma damon_sample_spec:
  "eng_core (s\<lparr>e_damon_targets := e_damon_targets (damon_sample s)\<rparr>) (damon_sample s) \<and> e_tracked (damon_sample s) = e_tracked s \<and>
   e_stats (damon_sample s) = e_stats s \<and> s_calls (damon_sample s) = s_calls s"
  by (simp add: damon_sample_def damon_set_targets_def Let_def eng_core_def)

lemma damon_sample_fields [simp]:
  "e_cfg (damon_sample s) = e_cfg s" "e_snapshot (damon_sample s) = e_snapshot s" "e_damon_on (damon_sample s) = e_damon_on s"
  "e_tracked (damon_sample s) = e_tracked s" "e_stats (damon_sample s) = e_stats s" "s_calls (damon_sample s) = s_calls s"
  "e_ebpf_on (damon_sample s) = e_ebpf_on s" "eng.more (damon_sample s) = eng.more s"
  using damon_sample_spec [of s] by (simp_all add: eng_core_def)

lemma compute_scores_spec:
  fixes s :: "'a eng_scheme"
  assumes "compute_scores K s = Some s'" "\<forall>ps \<in> set (e_snapshot s). scored (e_cfg s) ps"
  shows "e_cfg s' = e_cfg s" "e_damon_on s' = e_damon_on s" "e_stats s' = e_stats s" "only observe_call s s'"
    "dom (e_tracked s') = dom (e_tracked s)" "map q_pid (e_snapshot s') = map q_pid (e_snapshot s)"
    "\<forall>ps \<in> set (e_snapshot s'). scored (e_cfg s) ps"
    "e_damon_on s \<Longrightarrow> map q_ws_ratio (e_snapshot s') = map q_ws_ratio (e_snapshot s)" "eng.more s' = eng.more s"
proof -
  define s1 where "s1 = (if e_damon_on s then damon_sample s else s)"
  have s1: "e_cfg s1 = e_cfg s" "e_snapshot s1 = e_snapshot s" "e_damon_on s1 = e_damon_on s"
    "e_tracked s1 = e_tracked s" "e_stats s1 = e_stats s" "s_calls s1 = s_calls s" "eng.more s1 = eng.more s"
    by (simp_all add: s1_def)
  obtain snap s2 where 2: "score_all K (e_snapshot s1) s1 = Some (snap, s2)" "s' = s2\<lparr>e_snapshot := snap\<rparr>"
    using assms(1) by (auto simp: compute_scores_def s1_def [symmetric] Let_def split: bind_splits)
  have "\<forall>ps \<in> set (e_snapshot s1). scored (e_cfg s1) ps" using assms(2) s1 by simp
  note a = score_all_spec [OF 2(1) this]
  have o: "only observe_call s s2" using a s1(6) by (metis only_cong(2))
  show "e_cfg s' = e_cfg s" "e_damon_on s' = e_damon_on s" "e_stats s' = e_stats s" "only observe_call s s'"
    "dom (e_tracked s') = dom (e_tracked s)" "map q_pid (e_snapshot s') = map q_pid (e_snapshot s)"
    "\<forall>ps \<in> set (e_snapshot s'). scored (e_cfg s) ps"
    "e_damon_on s \<Longrightarrow> map q_ws_ratio (e_snapshot s') = map q_ws_ratio (e_snapshot s)" "eng.more s' = eng.more s"
    using a o s1 by (simp_all add: 2(2) eng_core_def only_def)
qed

section \<open>When the sampler returns\<close>

text \<open>Every text the kernel gives for a list of mappings describes fewer than \<open>2^62\<close> pages.\<close>

definition maps_contract :: "kernel \<Rightarrow> bool" where
  "maps_contract K \<longleftrightarrow> (\<forall>t p x. k_read K t (proc_path p ''maps'') = Some x \<longrightarrow> anon_pages (maps_text x) < 2 ^ 62)"

lemma sample_returns:
  assumes "pagemap_contract K" "maps_contract K"
  shows "\<exists>w s'. sample_working_set K p s = Some (w, s') \<and> ws_touched_kb w \<le> ws_anon_total_kb w"
proof (cases "k_open K (s_now s) (proc_path p ''pagemap'')")
  case False
  then show ?thesis by (simp add: sample_working_set_def Let_def ws_none_def)
next
  case True
  define s0 where "s0 = emit (Read_File (proc_path p ''pagemap'')) s"
  obtain vmas s1 where m: "read_maps K p s0 = (vmas, s1)" by fastforce
  have "anon_pages vmas < 2 ^ 62"
  proof (cases "k_read K (s_now s0) (proc_path p ''maps'')")
    case None
    then have "vmas = []" using m by (simp add: read_maps_def read_file_def)
    then show ?thesis by (simp add: anon_pages_def)
  next
    case (Some x)
    then have "vmas = maps_text x" using m by (simp add: read_maps_def read_file_def)
    then show ?thesis using Some assms(2) by (auto simp: maps_contract_def)
  qed
  with ws_regions_total [OF assms(1), of 0 0 vmas "proc_path p ''pagemap''" s1]
  obtain t n s2 where l: "ws_regions_loop K (proc_path p ''pagemap'') vmas (0, 0) s1 = Some ((t, n), s2)"
    "unat t \<le> unat n" "unat n < 2 ^ 62" by auto
  have "unat (t * 4) = unat t * 4" "unat (n * 4) = unat n * 4"
    using l(2,3) by (simp_all add: unat_word_ariths)
  then have "t * 4 \<le> n * 4" using l(2) by (simp add: word_le_nat_alt)
  then show ?thesis using True m l(1) by (simp add: sample_working_set_def Let_def s0_def [symmetric])
qed

lemma sample_step_returns:
  assumes "pagemap_contract K" "maps_contract K"
  shows "sample_step K damon c ps tr s \<noteq> None"
proof -
  obtain w s' where "sample_working_set K (q_pid ps) s = Some (w, s')" using sample_returns [OF assms] by blast
  then show ?thesis by (simp add: sample_step_def split: prod.split)
qed

lemma score_one_returns:
  assumes "pagemap_contract K" "maps_contract K"
  shows "score_one K ps s \<noteq> None"
proof (cases "e_tracked s (q_pid ps)")
  case (Some tr)
  obtain r where "sample_step K (e_damon_on s) (e_cfg s) ps tr s = Some r"
    using sample_step_returns [OF assms] by blast
  then show ?thesis using Some by (cases r) (simp add: score_one_def split: prod.split)
qed (simp add: score_one_def)

lemma score_all_returns:
  assumes "pagemap_contract K" "maps_contract K"
  shows "score_all K pss s \<noteq> None"
proof (induction pss arbitrary: s)
  case (Cons ps pss)
  obtain r where "score_one K ps s = Some r" using score_one_returns [OF assms] by blast
  moreover obtain r' where "score_all K pss (snd r) = Some r'" using Cons.IH by blast
  ultimately show ?case by (cases r) (simp split: prod.split)
qed simp

lemma compute_scores_returns:
  assumes "pagemap_contract K" "maps_contract K"
  shows "compute_scores K s \<noteq> None"
proof -
  define s1 where "s1 = (if e_damon_on s then damon_sample s else s)"
  obtain r where "score_all K (e_snapshot s1) s1 = Some r" using score_all_returns [OF assms] by blast
  then show ?thesis by (cases r) (simp add: compute_scores_def s1_def [symmetric] Let_def)
qed

text \<open>With DAMON on nothing is sampled, so the scores always exist.\<close>

lemma compute_scores_damon:
  assumes "e_damon_on s" shows "compute_scores K s \<noteq> None"
proof -
  have "score_all K pss s \<noteq> None" if "e_damon_on s" for pss and s :: "'a eng_scheme"
    using that
  proof (induction pss arbitrary: s)
    case (Cons ps pss)
    have "\<exists>ps' s'. score_one K ps s = Some (ps', s') \<and> e_damon_on s'"
      using Cons.prems by (cases "e_tracked s (q_pid ps)") (auto simp: score_one_def sample_step_def split: prod.split)
    then obtain ps' s' where 1: "score_one K ps s = Some (ps', s')" "e_damon_on s'" by blast
    obtain r where "score_all K pss s' = Some r" using Cons.IH [OF 1(2)] by blast
    then show ?case using 1 by (cases r) simp
  qed simp
  then obtain r where "score_all K (e_snapshot s) (damon_sample s) = Some r" using assms by fastforce
  then show ?thesis using assms by (cases r) (simp add: compute_scores_def Let_def)
qed

section \<open>The scan\<close>

lemma scan_entry_spec:
  fixes s :: "'a eng_scheme"
  assumes "scan_entry K e (out, s) = (out', s')"
  shows "eng_core s s' \<and> e_stats s' = e_stats s \<and> only is_read s s' \<and> dom (e_tracked s) \<subseteq> dom (e_tracked s') \<and>
    (out' = out \<or> (\<exists>p st. out' = out @ [snap_of p st] \<and> p \<noteq> k_self K \<and> p_rss_kb st \<noteq> 0 \<and> p \<in> dom (e_tracked s')))"
proof -
  obtain name d where e: "e = (name, d)" by (cases e)
  show ?thesis
  proof (cases "d \<and> pid_of_name name \<noteq> None")
    case False
    then show ?thesis using assms by (auto simp: scan_entry_def e split: option.splits)
  next
    case True
    then obtain p where p: "pid_of_name name = Some p" by blast
    obtain st s1 where 1: "read_proc_stat K p s = (st, s1)" by fastforce
    have "runs is_read s (snd (read_proc_stat K p s))" by (rule read_proc_stat_runs) simp
    then have r: "runs is_read s s1" using 1 by simp
    define s2 where "s2 = set_track p ((get_track p s1)\<lparr>t_prev_majflt := p_majflt st\<rparr>) s1"
    have o2: "only is_read s s2" using runs_only [OF r] by (simp add: s2_def only_def)
    have c2: "eng_core s s2" unfolding s2_def using runs_eng(1) [OF r] set_track_fields(1) by (rule eng_core_trans)
    consider "out' = out" "s' = s1" | "out' = out @ [snap_of p st]" "s' = s2" "p \<noteq> k_self K" "p_rss_kb st \<noteq> 0"
      using assms True p 1 by (auto simp: scan_entry_def e Let_def s2_def split: if_splits)
    then show ?thesis
    proof cases
      case 1
      then show ?thesis using runs_eng [OF r] runs_only [OF r] by simp
    next
      case 2
      then show ?thesis using o2 c2 runs_eng [OF r] by (auto simp: s2_def)
    qed
  qed
qed

lemma scan_fold_spec:
  fixes s :: "'a eng_scheme"
  assumes "fold (scan_entry K) es (out, s) = (out', s')"
    and "\<forall>ps \<in> set out. q_ws_ratio ps = Fin 1 \<and> q_score ps = Fin 0 \<and> q_pid ps \<noteq> k_self K"
  shows "eng_core s s' \<and> e_stats s' = e_stats s \<and> only is_read s s' \<and> dom (e_tracked s) \<subseteq> dom (e_tracked s') \<and>
    (\<forall>ps \<in> set out'. q_ws_ratio ps = Fin 1 \<and> q_score ps = Fin 0 \<and> q_pid ps \<noteq> k_self K)"
  using assms
proof (induction es arbitrary: out s)
  case (Cons e es)
  obtain out1 s1 where 1: "scan_entry K e (out, s) = (out1, s1)" by fastforce
  note a = scan_entry_spec [OF 1]
  have "\<forall>ps \<in> set out1. q_ws_ratio ps = Fin 1 \<and> q_score ps = Fin 0 \<and> q_pid ps \<noteq> k_self K"
    using a Cons.prems(2) by (auto simp: snap_of_def)
  note b = Cons.IH [OF _ this, of s1]
  show ?case using a b Cons.prems(1) 1 by (auto intro: eng_core_trans only_trans)
qed simp

lemma scan_processes_spec:
  fixes s :: "'a eng_scheme"
  assumes "scan_processes K s = (snap, s')"
  shows "eng_core s s'" "e_stats s' = e_stats s" "only is_read s s'" "dom (e_tracked s) \<subseteq> dom (e_tracked s')"
    "\<forall>ps \<in> set snap. q_ws_ratio ps = Fin 1 \<and> q_score ps = Fin 0 \<and> q_pid ps \<noteq> k_self K"
proof -
  define s1 where "s1 = emit List_Proc s"
  have "runs is_read s s1" unfolding s1_def by (rule runs_emit) simp
  note r = runs_eng [OF this] runs_only [OF this]
  have "eng_core s s' \<and> e_stats s' = e_stats s \<and> only is_read s s' \<and> dom (e_tracked s) \<subseteq> dom (e_tracked s') \<and>
    (\<forall>ps \<in> set snap. q_ws_ratio ps = Fin 1 \<and> q_score ps = Fin 0 \<and> q_pid ps \<noteq> k_self K)"
  proof (cases "k_proc K (s_now s)")
    case None
    then show ?thesis using assms r by (auto simp: scan_processes_def Let_def s1_def)
  next
    case (Some es)
    then have "fold (scan_entry K) es ([], s1) = (snap, s')" using assms by (simp add: scan_processes_def Let_def s1_def)
    note b = scan_fold_spec [OF this]
    show ?thesis using b r by (auto intro: eng_core_trans only_trans)
  qed
  then show "eng_core s s'" "e_stats s' = e_stats s" "only is_read s s'" "dom (e_tracked s) \<subseteq> dom (e_tracked s')"
    "\<forall>ps \<in> set snap. q_ws_ratio ps = Fin 1 \<and> q_score ps = Fin 0 \<and> q_pid ps \<noteq> k_self K" by blast+
qed

end
