(* ===== verification/EngineCycle.thy ===== *)
theory EngineCycle
  imports EngineScores ConfigProps
begin

text \<open>
  The properties of whole cycles: what a cycle may do to the system, the crisis guard, the effect
  of DAMON on the scores, the bounds of the action phase, cooldowns, dry runs, the units of the
  reclaim cap, the policies, and that every cycle returns.
\<close>

section \<open>The parts of a cycle before the scores\<close>

definition setup_call :: "sys_call \<Rightarrow> bool" where
  "setup_call e \<longleftrightarrow> is_read e \<or> (\<exists>n. e = Bpf n) \<or> (\<exists>n v. e = Write_File (damon_param n) v)"

lemma setup_simps [simp]:
  "is_read e \<Longrightarrow> setup_call e" "setup_call (Bpf n)" "setup_call (Write_File (damon_param n) v)"
  "\<not> setup_call (Madvise fd a l d)" "\<not> setup_call (Pidfd_Open p)"
  by (auto simp: setup_call_def)

text \<open>\<open>setup_eq\<close>: the parts of the state the set-up of DAMON and eBPF leaves alone.\<close>

definition setup_eq :: "'a eng_scheme \<Rightarrow> 'a eng_scheme \<Rightarrow> bool" where
  "setup_eq s s' \<longleftrightarrow> e_cfg s' = e_cfg s \<and> e_snapshot s' = e_snapshot s \<and> e_tracked s' = e_tracked s \<and> e_stats s' = e_stats s
     \<and> (e_damon_on s \<longrightarrow> e_damon_on s') \<and> eng.more s' = eng.more s \<and> only setup_call s s'"

lemma setup_eq_refl [simp]: "setup_eq s s"
  by (simp add: setup_eq_def)

lemma setup_eq_trans: "setup_eq s t \<Longrightarrow> setup_eq t u \<Longrightarrow> setup_eq s u"
  by (auto simp: setup_eq_def intro: only_trans)

lemma setup_eq_runs: "runs setup_call s s' \<Longrightarrow> setup_eq s s'"
  using runs_eng [of setup_call s s'] runs_only [of setup_call s s'] by (simp add: setup_eq_def eng_core_def)

lemma setup_eq_bpf: "setup_eq s t \<Longrightarrow> setup_eq s (t\<lparr>g_bpf := b\<rparr>)" "setup_eq s t \<Longrightarrow> setup_eq s (t\<lparr>g_damon := d\<rparr>)"
  "setup_eq s t \<Longrightarrow> setup_eq s (t\<lparr>e_ebpf_on := x\<rparr>)"
  by (auto simp: setup_eq_def only_def)

lemma w_num_setup: "setup_eq s (snd (w_num K (damon_param n) v s))"
  by (intro setup_eq_runs sys_runs) simp

lemma damon_configure_setup: "setup_eq s (damon_configure K c s)"
proof -
  have a: "setup_eq s (snd (damon_available K s))" for s :: "'a eng_scheme"
    by (intro setup_eq_runs sysfs_runs) simp
  have f: "setup_eq s (fold (\<lambda>(p, v) s. snd (w_num K p v s)) xs s)"
    if "\<forall>x \<in> set xs. \<exists>n. fst x = damon_param n" for xs and s :: "'a eng_scheme"
    using that
  proof (induction xs arbitrary: s)
    case (Cons x xs)
    then obtain n v where "x = (damon_param n, v)" by (cases x) auto
    then show ?case using Cons setup_eq_trans [OF w_num_setup [of s K n v]] by simp
  qed simp
  obtain av s2 where 2: "damon_available K (s\<lparr>g_damon := c\<rparr>) = (av, s2)" by fastforce
  have "setup_eq (s\<lparr>g_damon := c\<rparr>) s2" using a [of "s\<lparr>g_damon := c\<rparr>"] 2 by simp
  then have s2: "setup_eq s s2" by (auto simp: setup_eq_def only_def)
  have "setup_eq s (fold (\<lambda>(p, v) s. snd (w_num K p v s)) (damon_settings c) s2)"
    using s2 by (rule setup_eq_trans) (rule f, auto simp: damon_settings_def)
  then show ?thesis using s2 by (simp add: damon_configure_def 2)
qed

lemma damon_enable_setup: "setup_eq s (snd (damon_enable K on s))"
proof -
  obtain av s1 where 1: "damon_available K s = (av, s1)" by fastforce
  obtain en s2 where 2: "damon_enabled K s1 = (en, s2)" by fastforce
  have "setup_eq s (snd (damon_available K s))" by (intro setup_eq_runs sysfs_runs) simp
  moreover have "setup_eq s1 (snd (damon_enabled K s1))" by (intro setup_eq_runs sysfs_runs) simp
  moreover have "setup_eq s2 (snd (w_str K (damon_param ''enabled'') v s2))" for v
    by (intro setup_eq_runs sys_runs) simp
  ultimately show ?thesis using 1 2 by (auto simp: damon_enable_def intro: setup_eq_trans)
qed

lemma r_num_setup: "setup_eq s (snd (r_num K p v s))"
  by (intro setup_eq_runs sys_runs) simp

lemma damon_kernel_stats_setup: "setup_eq s (snd (damon_kernel_stats K s))"
proof -
  have r: "setup_eq s t \<Longrightarrow> setup_eq s (snd (r_num K p v t))" for p v t
    by (rule setup_eq_trans [OF _ r_num_setup])
  show ?thesis
    unfolding damon_kernel_stats_def Let_def case_prod_beta snd_conv
    by (rule r)+ (rule setup_eq_refl)
qed

lemma damon_init_setup: "setup_eq s (damon_init K dc b s)"
proof -
  obtain av s1 where 1: "damon_available K s = (av, s1)" by fastforce
  obtain en s2 where 2: "damon_enabled K s1 = (en, s2)" by fastforce
  define s3 where "s3 = damon_configure K dc s2"
  obtain on s4 where 4: "damon_enable K True s3 = (on, s4)" by fastforce
  have "setup_eq s (snd (damon_available K s))" by (intro setup_eq_runs sysfs_runs) simp
  then have s1: "setup_eq s s1" using 1 by simp
  have "setup_eq s1 (snd (damon_enabled K s1))" by (intro setup_eq_runs sysfs_runs) simp
  then have s2: "setup_eq s s2" using s1 2 by (auto intro: setup_eq_trans)
  have "setup_eq s s3" unfolding s3_def using s2 damon_configure_setup by (rule setup_eq_trans)
  moreover have "setup_eq s3 s4" using damon_enable_setup [of s3 K True] 4 by simp
  ultimately have s4: "setup_eq s s4" by (rule setup_eq_trans)
  define s5 where "s5 = s4\<lparr>e_damon_on := on\<rparr>"
  show ?thesis
  proof (cases "e_damon_on s \<or> \<not> c_damon (e_cfg s) \<or> \<not> av \<or> en")
    case True
    then show ?thesis using s1 s2 by (auto simp: damon_init_def 1 2)
  next
    case False
    then have s5: "setup_eq s s5" using s4 by (auto simp: s5_def setup_eq_def only_def)
    have "damon_init K dc b s = (if on \<and> b then snd (damon_kernel_stats K s5) else s5)"
      using False by (simp add: damon_init_def 1 2 s3_def [symmetric] 4 s5_def Let_def)
    then show ?thesis using s5 setup_eq_trans [OF s5 damon_kernel_stats_setup] by simp
  qed
qed

lemma bpf_call_setup: "setup_eq s (snd (bpf_call K n s))"
  by (intro setup_eq_runs sysfs_runs) simp

lemma ebpf_close_setup: "setup_eq s (ebpf_close K s)"
  using bpf_call_setup [of s K] by (simp add: ebpf_close_def case_prod_beta Let_def setup_eq_bpf)

lemma ebpf_load_setup: "setup_eq s (snd (ebpf_load K s))"
proof -
  obtain o1 s1 where 1: "bpf_call K ''bpf_object__open'' s = (o1, s1)" by fastforce
  define t1 where "t1 = s1\<lparr>g_bpf := (g_bpf s1)\<lparr>b_obj := o1\<rparr>\<rparr>"
  obtain o2 s2 where 2: "bpf_call K ''bpf_object__load'' t1 = (o2, s2)" by fastforce
  obtain p s3 where 3: "bpf_call K ''bpf_object__find_program_by_name'' s2 = (p, s3)" by fastforce
  obtain m s4 where 4: "bpf_call K ''bpf_object__find_map_by_name'' s3 = (m, s4)" by fastforce
  define t4 where "t4 = s4\<lparr>g_bpf := (g_bpf s4)\<lparr>b_prog := p, b_map := m\<rparr>\<rparr>"
  obtain l s5 where 5: "bpf_call K ''bpf_program__attach_tracepoint'' t4 = (l, s5)" by fastforce
  define t5 where "t5 = s5\<lparr>g_bpf := (g_bpf s5)\<lparr>b_link := l\<rparr>\<rparr>"
  have e1: "setup_eq s t1" using bpf_call_setup [of s K] 1 unfolding t1_def by (metis setup_eq_bpf(1) snd_conv)
  have e2: "setup_eq s s2" using setup_eq_trans [OF e1 bpf_call_setup] 2 by (metis snd_conv)
  have e3: "setup_eq s s3" using setup_eq_trans [OF e2 bpf_call_setup] 3 by (metis snd_conv)
  have e4: "setup_eq s t4" using setup_eq_trans [OF e3 bpf_call_setup] 4 unfolding t4_def by (metis setup_eq_bpf(1) snd_conv)
  have e5: "setup_eq s t5" using setup_eq_trans [OF e4 bpf_call_setup] 5 unfolding t5_def by (metis setup_eq_bpf(1) snd_conv)
  show ?thesis
    unfolding ebpf_load_def 1 Let_def prod.case t1_def [symmetric] 2 3 4 t4_def [symmetric] 5 t5_def [symmetric]
    using e1 setup_eq_trans [OF e2 ebpf_close_setup] setup_eq_trans [OF e4 ebpf_close_setup] e5
      setup_eq_trans [OF e5 ebpf_close_setup]
    by simp
qed

lemma ebpf_init_setup: "setup_eq s (ebpf_init K obj s)"
proof -
  obtain a s1 where 1: "stat_ok K obj s = (a, s1)" by fastforce
  obtain av s2 where 2: "ebpf_available K obj s = (av, s2)" by fastforce
  obtain ok s3 where 3: "ebpf_load K s2 = (ok, s3)" by fastforce
  have st: "setup_eq s (snd (stat_ok K f s))" for f and s :: "'a eng_scheme" by (intro setup_eq_runs sys_runs) simp
  have "setup_eq s s2"
    using 2 1 st [of s obj] st [of s1 "''/sys/kernel/tracing/events/exceptions/page_fault_user''"]
    by (auto simp: ebpf_available_def split: if_splits intro: setup_eq_trans)
  moreover have "setup_eq s2 s3" using ebpf_load_setup [of s2 K] 3 by simp
  ultimately show ?thesis
    by (auto simp: ebpf_init_def 2 3 Let_def intro: setup_eq_bpf setup_eq_trans)
qed

text \<open>The thrash guard changes cooldowns of tracked processes and nothing else.\<close>

definition guard_eq :: "'a eng_scheme \<Rightarrow> 'a eng_scheme \<Rightarrow> bool" where
  "guard_eq s s' \<longleftrightarrow> e_cfg s' = e_cfg s \<and> e_snapshot s' = e_snapshot s \<and> e_stats s' = e_stats s
     \<and> e_damon_on s' = e_damon_on s \<and> dom (e_tracked s') = dom (e_tracked s)
     \<and> eng.more s' = eng.more s \<and> only setup_call s s'"

lemma guard_eq_refl [simp]: "guard_eq s s"
  by (simp add: guard_eq_def)

lemma guard_eq_trans: "guard_eq s t \<Longrightarrow> guard_eq t u \<Longrightarrow> guard_eq s u"
  by (auto simp: guard_eq_def intro: only_trans)

lemma thrash_guard_eq: "guard_eq s (thrash_guard fs s)"
proof (induction fs arbitrary: s)
  case (Cons f fs)
  obtain p n where f: "f = (p, n)" by (cases f)
  define s1 where "s1 = (case e_tracked s p of None \<Rightarrow> s
     | Some t \<Rightarrow> if n > 20000 \<and> t_cooldown t > 0 then set_track p (t\<lparr>t_cooldown := max (t_cooldown t) 20\<rparr>) s else s)"
  have "guard_eq s s1" by (auto simp: s1_def guard_eq_def only_def split: option.splits)
  moreover have "thrash_guard (f # fs) s = thrash_guard fs s1" by (simp add: thrash_guard_def f s1_def)
  ultimately show ?case using guard_eq_trans Cons.IH by metis
qed (simp add: thrash_guard_def)

lemma emits_guard_eq: "guard_eq s (fold (\<lambda>e. emit (Bpf n)) xs s)"
proof (induction xs arbitrary: s)
  case (Cons x xs)
  have "runs setup_call s (emit (Bpf n) s)" by (rule runs_emit) simp
  note r = runs_eng [OF this] runs_only [OF this]
  have "guard_eq s (emit (Bpf n) s)" using r by (simp add: guard_eq_def eng_core_def)
  then have "guard_eq s (fold (\<lambda>e. emit (Bpf n)) xs (emit (Bpf n) s))" using Cons.IH by (rule guard_eq_trans)
  then show ?case by simp
qed simp

lemma ebpf_guard_eq: "guard_eq s (ebpf_guard K s)"
proof (cases "e_ebpf_on s \<and> ebpf_loaded s")
  case True
  obtain fs s1 where d: "drain_faults K s = (fs, s1)" by fastforce
  have "s1 = s \<or> (\<exists>es. s1 = fold (\<lambda>e. emit (Bpf ''bpf_map__update_elem'')) (es :: (u32 \<times> u64) list) s)"
    using d unfolding drain_faults_def Let_def by (auto split: if_splits)
  then have "guard_eq s s1" using emits_guard_eq by fastforce
  then have "guard_eq s (thrash_guard fs s1)" using thrash_guard_eq by (rule guard_eq_trans)
  then show ?thesis using True d by (simp add: ebpf_guard_def)
next
  case False
  then have "ebpf_guard K s = s" by (auto simp: ebpf_guard_def)
  then show ?thesis by simp
qed

section \<open>The cycle in two halves\<close>

text \<open>Up to the decision on a crisis; the texts read are those of two kernel times.\<close>

definition psi_at :: "kernel \<Rightarrow> nat \<Rightarrow> psi_snapshot" where
  "psi_at K t = (case k_read K t ''/proc/pressure/memory'' of None \<Rightarrow> psi_none | Some x \<Rightarrow> psi_text x)"

definition mem_at :: "kernel \<Rightarrow> nat \<Rightarrow> mem_info" where
  "mem_at K t = (case k_read K t ''/proc/meminfo'' of None \<Rightarrow> mem_none | Some x \<Rightarrow> mem_loop x mem_none)"

definition fresh :: "pid \<Rightarrow> proc_snap \<Rightarrow> bool" where
  "fresh self ps \<longleftrightarrow> q_ws_ratio ps = Fin 1 \<and> q_score ps = Fin 0 \<and> q_pid ps \<noteq> self"

lemma scan_cycle:
  assumes "scan_processes K (count_cycle s0) = (snap, s1)"
  shows "e_cfg s1 = e_cfg s0" "e_stats s1 = e_stats (count_cycle s0)" "e_damon_on s1 = e_damon_on s0"
    "dom (e_tracked s0) \<subseteq> dom (e_tracked s1)" "only setup_call s0 s1" "\<forall>ps \<in> set snap. fresh (k_self K) ps"
    "eng.more s1 = eng.more s0"
proof -
  note a = scan_processes_spec [OF assms]
  show "e_cfg s1 = e_cfg s0" "e_stats s1 = e_stats (count_cycle s0)" "e_damon_on s1 = e_damon_on s0"
    "dom (e_tracked s0) \<subseteq> dom (e_tracked s1)" "\<forall>ps \<in> set snap. fresh (k_self K) ps" "eng.more s1 = eng.more s0"
    using a by (auto simp: eng_core_def count_cycle_def fresh_def)
  have "only is_read s0 s1" using a(3) by (simp add: only_def count_cycle_def)
  then show "only setup_call s0 s1" by (rule only_weaken) simp
qed

definition first_half :: "kernel \<Rightarrow> string \<Rightarrow> 'a eng_scheme \<Rightarrow> (psi_snapshot \<times> mem_info) \<times> 'a eng_scheme" where
  "first_half K obj s0 =
     (let (snap, s1) = scan_processes K (count_cycle s0); s2 = s1\<lparr>e_snapshot := snap\<rparr>;
          s4 = ebpf_init K obj (damon_init K (cycle_damon_config (e_cfg s2)) True s2);
          (psi, s5) = psi_memory K s4; (mem, s6) = meminfo K s5
      in ((psi, mem), s6))"

lemma run_cycle_halves:
  "run_cycle K srt obj s0 = (case first_half K obj s0 of ((psi, mem), s6) \<Rightarrow>
     if crisis psi mem then Some (0, s6)
     else do {
       s7 \<leftarrow> compute_scores K (ebpf_guard K s6);
       if \<not> pressure (e_cfg s6) psi mem \<and> \<not> c_dry_run (e_cfg s7) then Some (0, s7)
       else Some (run_actions K srt s7) })"
  by (simp add: run_cycle_def first_half_def Let_def case_prod_beta)

lemma first_half_spec:
  assumes "first_half K obj s0 = ((psi, mem), s6)"
  shows "e_cfg s6 = e_cfg s0" "e_stats s6 = e_stats (count_cycle s0)" "e_damon_on s0 \<Longrightarrow> e_damon_on s6"
    "dom (e_tracked s0) \<subseteq> dom (e_tracked s6)" "only setup_call s0 s6"
    "\<forall>ps \<in> set (e_snapshot s6). fresh (k_self K) ps" "\<exists>t u. psi = psi_at K t \<and> mem = mem_at K u"
    "eng.more s6 = eng.more s0"
proof -
  obtain snap s1 where 1: "scan_processes K (count_cycle s0) = (snap, s1)" by fastforce
  define s2 where "s2 = s1\<lparr>e_snapshot := snap\<rparr>"
  define s4 where "s4 = ebpf_init K obj (damon_init K (cycle_damon_config (e_cfg s2)) True s2)"
  obtain psi' s5 where 5: "psi_memory K s4 = (psi', s5)" by fastforce
  obtain mem' s6' where 6: "meminfo K s5 = (mem', s6')" by fastforce
  have e: "psi' = psi" "mem' = mem" "s6' = s6"
    using assms unfolding first_half_def 1 Let_def prod.case s2_def [symmetric] s4_def [symmetric] 5 6 by simp_all
  have "setup_eq s2 s4" unfolding s4_def using damon_init_setup ebpf_init_setup by (rule setup_eq_trans)
  moreover have "setup_eq s4 (snd (psi_memory K s4))" by (intro setup_eq_runs proc_runs) simp
  then have "setup_eq s4 s5" using 5 by simp
  moreover have "setup_eq s5 (snd (meminfo K s5))" by (intro setup_eq_runs proc_runs) simp
  then have "setup_eq s5 s6" using 6 e by simp
  ultimately have q: "setup_eq s2 s6" by (blast intro: setup_eq_trans)
  note a = scan_cycle [OF 1]
  have "only setup_call s1 s6" using q by (simp add: setup_eq_def s2_def only_def)
  then show "only setup_call s0 s6" using a(5) by (blast intro: only_trans)
  show "e_cfg s6 = e_cfg s0" "e_stats s6 = e_stats (count_cycle s0)" "e_damon_on s0 \<Longrightarrow> e_damon_on s6"
    "dom (e_tracked s0) \<subseteq> dom (e_tracked s6)" "\<forall>ps \<in> set (e_snapshot s6). fresh (k_self K) ps" "eng.more s6 = eng.more s0"
    using q a by (auto simp: setup_eq_def s2_def)
  show "\<exists>t u. psi = psi_at K t \<and> mem = mem_at K u"
    using 5 6 e by (auto simp: psi_memory_def meminfo_def read_file_def psi_at_def mem_at_def)
qed

end
