(* ===== verification/EngineProps.thy ===== *)
theory EngineProps
  imports EngineCycle
begin

text \<open>
  The properties of the engine: the crisis guard, what a cycle may touch, the bounds of the action
  phase, the order of the candidates, dry runs, cooldowns, the effect of DAMON and of the units of
  the reclaim cap, and that cycles return.
\<close>

section \<open>A small kernel for the concrete runs\<close>

text \<open>
  One process 42 with one private anonymous mapping of 16 MiB; \<open>process_madvise\<close> handles every
  range whole. The pressure and memory texts are parameters.
\<close>

definition nl :: string where "nl = [newline]"

definition demo_status :: string where
  "demo_status = ''Name:'' @ [CHR 0x09] @ ''app'' @ nl @ ''VmRSS:  204800 kB'' @ nl @ ''RssAnon:  102400 kB'' @ nl"

definition demo_file :: "string \<Rightarrow> string \<Rightarrow> string \<Rightarrow> string option" where
  "demo_file psi mem f =
     (if f = ''/proc/pressure/memory'' then Some psi
      else if f = ''/proc/meminfo'' then Some mem
      else if f = ''/proc/42/stat'' then Some ''42 (app) S 1''
      else if f = ''/proc/42/status'' then Some demo_status
      else if f = ''/proc/42/cgroup'' then Some (''0::/app.slice'' @ nl)
      else if f = ''/proc/42/maps'' then Some (''10000000-11000000 rw-p 0'' @ nl)
      else None)"

definition demo_kernel :: "string \<Rightarrow> string \<Rightarrow> kernel" where
  "demo_kernel psi mem =
     \<lparr>k_read = (\<lambda>t. demo_file psi mem), k_stat = (\<lambda>t f. f = ''/sys/fs/cgroup/cgroup.controllers''),
      k_write = (\<lambda>t f v. Written), k_proc = (\<lambda>t. Some [(''42'', True), (''self'', False)]),
      k_pidfd = (\<lambda>t p. 7), k_madvise = (\<lambda>t fd a len d. int (unat len)), k_open = (\<lambda>t f. True),
      k_seek = (\<lambda>t f off. True), k_pread = (\<lambda>t f off len. (0, [])), k_self = 99, k_bpf = (\<lambda>t n. False),
      k_faults = (\<lambda>t. [])\<rparr>"

definition demo_state :: "config \<Rightarrow> eng" where
  "demo_state c =
     \<lparr>s_now = 0, s_calls = [], g_damon = damon_default, g_bpf = \<lparr>b_obj = False, b_prog = False, b_map = False, b_link = False\<rparr>,
      e_cfg = c, e_tracked = (\<lambda>_. None), e_snapshot = [], e_damon_on = False, e_damon_targets = [], e_ebpf_on = False,
      e_stats = \<lparr>st_cycles = 0, st_pageouts_kb = 0, st_heap_trimmed_kb = 0, st_cgroup_kb = 0, st_errors = 0\<rparr>\<rparr>"

text \<open>A large cold process.\<close>

definition demo_snap :: "pid \<Rightarrow> proc_snap" where
  "demo_snap p = \<lparr>q_pid = p, q_comm = ''app'', q_cgroup = ''/app.slice'', q_rss_kb = 204800, q_anon_kb = 102400,
     q_file_kb = 0, q_swap_kb = 0, q_ws_prev_kb = 0, q_ws_ratio = Fin 0, q_score = Fin 100, q_reclaimed_recent = False\<rparr>"

text \<open>The contracts hold of it.\<close>

lemma proc_path_suffix: "proc_path p f = x \<Longrightarrow> suffix f x"
  by (auto simp: proc_path_def suffix_def)

lemma demo_contracts: "pagemap_contract (demo_kernel psi mem)" "maps_contract (demo_kernel psi mem)"
proof -
  show "pagemap_contract (demo_kernel psi mem)" by (simp add: pagemap_contract_def demo_kernel_def)
  have "anon_pages (maps_text (''10000000-11000000 rw-p 0'' @ nl)) = 4096" by code_simp
  moreover have "demo_file psi mem (proc_path p ''maps'') = Some x \<Longrightarrow> x = ''10000000-11000000 rw-p 0'' @ nl" for p x
    using proc_path_suffix [of p "''maps''"] by (auto simp: demo_file_def suffix_def split: if_splits)
  ultimately show "maps_contract (demo_kernel psi mem)"
    by (auto simp: maps_contract_def demo_kernel_def)
qed

lemma demo_cycle: "\<exists>kb s'. run_cycle (demo_kernel psi mem) srt obj s = Some (kb, s')"
proof -
  obtain a b s6 where 1: "first_half (demo_kernel psi mem) obj s = ((a, b), s6)" by (metis surj_pair)
  obtain s7 where "compute_scores (demo_kernel psi mem) (ebpf_guard (demo_kernel psi mem) s6) = Some s7"
    using compute_scores_returns [OF demo_contracts] by blast
  then show ?thesis by (cases "run_actions (demo_kernel psi mem) srt s7") (simp add: run_cycle_halves 1)
qed

section \<open>The crisis guard\<close>

text \<open>C16. While the kernel shows a memory crisis (PSI full at 25 percent or more, or less than 5
  percent available), whatever else it answers, a cycle returns 0 and only observes: no
  \<open>process_madvise\<close>, no process handle, no soft-dirty reset, no cgroup reclaim, and the totals
  stay as they are but for the count of cycles.\<close>

theorem crisis_guard:
  assumes "\<forall>t u. crisis (psi_at K t) (mem_at K u)"
  shows "\<exists>s'. run_cycle K srt obj s = Some (0, s') \<and> only setup_call s s' \<and> e_stats s' = e_stats (count_cycle s)
    \<and> e_cfg s' = e_cfg s"
proof -
  obtain psi mem s6 where 1: "first_half K obj s = ((psi, mem), s6)" by (metis surj_pair)
  note a = first_half_spec [OF 1]
  have "crisis psi mem" using a(7) assms by blast
  then show ?thesis using a by (simp add: run_cycle_halves 1)
qed

definition crisis_psi :: string where
  "crisis_psi = ''some avg10=60.00 avg60=0.00'' @ nl @ ''full avg10=40.00 avg60=0.00'' @ nl"

lemma crisis_demo: "crisis (psi_at (demo_kernel crisis_psi mem) t) m"
proof -
  have "psi_text crisis_psi = \<lparr>some_avg10 = dlit 60 2, full_avg10 = dlit 40 2, psi_ok = True\<rparr>" by code_simp
  moreover have "dle (dlit 25 2) (dlit 40 2)" by code_simp
  ultimately show ?thesis by (simp add: crisis_def psi_at_def demo_kernel_def demo_file_def)
qed

theorem crisis_guard_witness:
  "\<exists>s'. run_cycle (demo_kernel crisis_psi '''') sort_by '''' (demo_state config_default) = Some (0, s') \<and>
     only setup_call (demo_state config_default) s' \<and> e_stats s' = e_stats (count_cycle (demo_state config_default)) \<and>
     e_cfg s' = e_cfg (demo_state config_default)"
  using crisis_demo by (intro crisis_guard) blast

section \<open>What a cycle may touch\<close>

text \<open>The calls of a cycle of configuration \<open>c\<close> in process \<open>self\<close>.\<close>

definition cycle_call :: "config \<Rightarrow> pid \<Rightarrow> sys_call \<Rightarrow> bool" where
  "cycle_call c self e \<longleftrightarrow> (case e of
     Write_File f v \<Rightarrow> (\<exists>n. f = damon_param n) \<or> (\<exists>p. f = proc_path p ''clear_refs'') \<or>
       (c_cgroup_reclaim c \<and> f = ''/sys/fs/cgroup/memory.reclaim'')
   | Pidfd_Open p \<Rightarrow> p \<noteq> self
   | Madvise fd _ len _ \<Rightarrow> \<not> c_dry_run c \<and> 0 \<le> fd \<and> 8388608 \<le> len
   | _ \<Rightarrow> True)"

lemma cycle_call_weak:
  "setup_call e \<Longrightarrow> cycle_call c self e" "observe_call e \<Longrightarrow> cycle_call c self e"
  "action_call c ps e \<Longrightarrow> self \<notin> ps \<Longrightarrow> cycle_call c self e"
  by (auto simp: cycle_call_def setup_call_def observe_call_def action_call_def tail_call_def act_call_def is_read_def split: sys_call.splits)

lemma fresh_scored: "\<forall>ps \<in> set xs. fresh self ps \<Longrightarrow> \<forall>ps \<in> set xs. scored c ps"
  by (simp add: fresh_def scored_def)

text \<open>What every cycle leaves alone, of either kind.\<close>

definition cycle_frame :: "kernel \<Rightarrow> 'a eng_scheme \<Rightarrow> 'a eng_scheme \<Rightarrow> bool" where
  "cycle_frame K s s' \<longleftrightarrow> only (cycle_call (e_cfg s) (k_self K)) s s' \<and> dom (e_tracked s) \<subseteq> dom (e_tracked s') \<and>
     e_cfg s' = e_cfg s \<and> st_cycles (e_stats s') = st_cycles (e_stats s) + 1 \<and> eng.more s' = eng.more s"

lemma second_frame:
  assumes "compute_scores K s6 = Some s7" "\<forall>ps \<in> set (e_snapshot s6). fresh (k_self K) ps"
    and "\<forall>lt xs. set (srt lt xs) \<subseteq> set xs" "s8 = s7 \<or> (\<exists>t. runs setup_call s7 t \<and> s8 = snd (run_actions K srt t))"
    and "only (cycle_call (e_cfg s) (k_self K)) s s6" "dom (e_tracked s) \<subseteq> dom (e_tracked s6)" "e_cfg s6 = e_cfg s"
    and "st_cycles (e_stats s6) = st_cycles (e_stats s) + 1" "eng.more s6 = eng.more s"
  shows "cycle_frame K s s8"
proof -
  let ?P = "cycle_call (e_cfg s) (k_self K)"
  note c = compute_scores_spec [OF assms(1) fresh_scored [OF assms(2)]]
  have o7: "only ?P s s7"
    using only_trans [OF assms(5) only_weaken [OF c(4)]] cycle_call_weak(2) by blast
  from assms(4) show ?thesis
  proof (elim disjE exE conjE)
    assume "s8 = s7"
    then show ?thesis using o7 c assms by (simp add: cycle_frame_def)
  next
    fix t assume t: "runs setup_call s7 t" and s8: "s8 = snd (run_actions K srt t)"
    note e = runs_eng [OF t]
    have ot: "only ?P s t" using only_trans [OF o7 only_weaken [OF runs_only [OF t]]] cycle_call_weak(1) by blast
    have snap: "e_cfg t = e_cfg s" "e_snapshot t = e_snapshot s7" using e c assms(7) by (simp_all add: eng_core_def)
    have "q_pid ` set (e_snapshot s7) = q_pid ` set (e_snapshot s6)" using c(6) by (metis set_map)
    moreover have "k_self K \<notin> q_pid ` set (e_snapshot s6)" using assms(2) by (auto simp: fresh_def)
    ultimately have n: "k_self K \<notin> q_pid ` set (filter (candidate (e_cfg t)) (e_snapshot t))" by (auto simp: snap)
    obtain kb where r: "run_actions K srt t = (kb, s8)" using s8 by (cases "run_actions K srt t") simp
    have sub: "set (srt score_above (filter (candidate (e_cfg t)) (e_snapshot t))) \<subseteq> set (filter (candidate (e_cfg t)) (e_snapshot t))"
      using assms(3) by blast
    from run_actions_spec [OF sub r refl] obtain A where A: "acted_on A t s8"
      "only (action_call (e_cfg t) (q_pid ` set (filter (candidate (e_cfg t)) (e_snapshot t)))) t s8" by blast
    have "only ?P t s8" using A(2) unfolding snap(1) [symmetric] by (rule only_weaken) (rule cycle_call_weak(3) [OF _ n])
    then have "only ?P s s8" by (rule only_trans [OF ot])
    moreover have "e_cfg s8 = e_cfg s" "eng.more s8 = eng.more s" "st_cycles (e_stats s8) = st_cycles (e_stats s) + 1"
      using A(1) e c assms(7-9) by (auto simp: acted_on_def eng_core_def)
    moreover have "dom (e_tracked t) \<subseteq> dom (e_tracked s8)" using A(1) by (auto simp: acted_on_def)
    ultimately show ?thesis using c(5) e(2) assms(6) by (auto simp: cycle_frame_def)
  qed
qed

lemma run_cycle_frame:
  assumes "run_cycle K srt obj s = Some (kb, s')" "\<forall>lt xs. set (srt lt xs) \<subseteq> set xs"
  shows "cycle_frame K s s'"
proof -
  let ?P = "cycle_call (e_cfg s) (k_self K)"
  obtain psi mem s6 where 1: "first_half K obj s = ((psi, mem), s6)" by (metis surj_pair)
  note a = first_half_spec [OF 1]
  have o6: "only ?P s s6" using a(5) by (rule only_weaken) (rule cycle_call_weak)
  have st: "st_cycles (e_stats s6) = st_cycles (e_stats s) + 1" using a(2) by (simp add: count_cycle_def)
  show ?thesis
  proof (cases "crisis psi mem")
    case True
    then show ?thesis using assms(1) a o6 st by (simp add: run_cycle_halves 1 cycle_frame_def)
  next
    case False
    define g where "g = ebpf_guard K s6"
    have g: "guard_eq s6 g" unfolding g_def by (rule ebpf_guard_eq)
    obtain s7 where 7: "compute_scores K g = Some s7"
      using assms(1) False by (auto simp: run_cycle_halves 1 g_def split: bind_splits)
    have "only ?P s6 g" using g by (auto simp: guard_eq_def intro: only_weaken cycle_call_weak)
    with o6 have og: "only ?P s g" by (rule only_trans)
    have "s' = s7 \<or> (\<exists>t. runs setup_call s7 t \<and> s' = snd (run_actions K srt t))"
      using assms(1) False 7 by (auto simp: run_cycle_halves 1 g_def [symmetric] split: if_splits intro!: exI [of _ s7])
    then show ?thesis using g a og st by (intro second_frame [OF 7 _ assms(2)]) (auto simp: guard_eq_def)
  qed
qed

lemma force_cycle_frame:
  assumes "force_cycle K srt s = Some (kb, s')" "\<forall>lt xs. set (srt lt xs) \<subseteq> set xs"
  shows "cycle_frame K s s'"
proof -
  let ?P = "cycle_call (e_cfg s) (k_self K)"
  obtain snap s1 where 1: "scan_processes K (count_cycle s) = (snap, s1)" by fastforce
  define s2 where "s2 = s1\<lparr>e_snapshot := snap\<rparr>"
  define s3 where "s3 = damon_init K damon_default False s2"
  note a = scan_cycle [OF 1]
  have q: "setup_eq s2 s3" unfolding s3_def by (rule damon_init_setup)
  obtain s4 where 4: "compute_scores K s3 = Some s4"
    using assms(1) unfolding force_cycle_def 1 Let_def prod.case s2_def [symmetric] s3_def [symmetric] by (auto split: bind_splits)
  obtain m s5 where 5: "meminfo K s4 = (m, s5)" by fastforce
  have "runs setup_call s4 (snd (meminfo K s4))" by (intro proc_runs) simp
  then have r: "runs setup_call s4 s5" using 5 by simp
  have "s' = snd (run_actions K srt s5)"
    using assms(1) unfolding force_cycle_def 1 Let_def prod.case s2_def [symmetric] s3_def [symmetric] 4 bind.bind_lunit 5 by simp
  then have "s' = s4 \<or> (\<exists>t. runs setup_call s4 t \<and> s' = snd (run_actions K srt t))" using r by blast
  moreover have "only ?P s s1" using a(5) by (rule only_weaken) (rule cycle_call_weak)
  moreover have "only ?P s1 s3" using q by (auto simp: setup_eq_def s2_def only_def intro: cycle_call_weak elim!: list.pred_mono_strong)
  ultimately show ?thesis using q a only_trans [of ?P s s1 s3]
    by (intro second_frame [OF 4 _ assms(2)]) (auto simp: setup_eq_def s2_def count_cycle_def)
qed

text \<open>Whatever the kernel answers, a cycle only reads, uses libbpf, writes DAMON parameters,
  \<open>clear_refs\<close> of processes and (if enabled) the root \<open>memory.reclaim\<close>; it never opens a handle on
  the daemon itself, and advises pages only outside a dry run, through a valid handle, on ranges of
  at least 8 MiB. It forgets no process it ever tracked.\<close>

theorem cycle_confined:
  assumes "run_cycle K srt obj s = Some (kb, s')" "\<forall>lt xs. set (srt lt xs) \<subseteq> set xs"
  shows "only (cycle_call (e_cfg s) (k_self K)) s s' \<and> dom (e_tracked s) \<subseteq> dom (e_tracked s')"
  using run_cycle_frame [OF assms] by (simp add: cycle_frame_def)

theorem cycle_confined_witness:
  "\<exists>kb s'. run_cycle (demo_kernel '''' '''') sort_by '''' (demo_state config_default) = Some (kb, s') \<and>
     only (cycle_call config_default 99) (demo_state config_default) s'"
proof -
  obtain kb s' where r: "run_cycle (demo_kernel '''' '''') sort_by '''' (demo_state config_default) = Some (kb, s')"
    using demo_cycle by blast
  from cycle_confined [OF r sort_by_subset] r show ?thesis
    by (auto simp: demo_state_def demo_kernel_def)
qed

section \<open>Cycles return\<close>

lemma cycles_total:
  assumes "pagemap_contract K" "maps_contract K"
  shows "run_cycle K srt obj s \<noteq> None \<and> force_cycle K srt s' \<noteq> None"
proof -
  have c: "\<exists>s2. compute_scores K s1 = Some s2" for s1 :: "'a eng_scheme"
    using compute_scores_returns [OF assms] by blast
  have c': "\<exists>s2. compute_scores K s1 = Some s2" for s1 :: "'b eng_scheme"
    using compute_scores_returns [OF assms] by blast
  obtain psi mem s6 where 1: "first_half K obj s = ((psi, mem), s6)" by (metis surj_pair)
  have "run_cycle K srt obj s \<noteq> None"
    using c [of "ebpf_guard K s6"] by (auto simp: run_cycle_halves 1)
  moreover have "force_cycle K srt s' \<noteq> None"
    using c' by (auto simp: force_cycle_def Let_def case_prod_beta split: bind_splits)
  ultimately show ?thesis by blast
qed

text \<open>Both kinds of cycle return, if the kernel keeps its word on the page map (whole entries, no
  more than asked for) and on the size of address spaces: no loop of the daemon depends on
  anything else.\<close>

theorem cycles_return:
  assumes "pagemap_contract K" "maps_contract K"
  shows "run_cycle K srt obj s \<noteq> None \<and> force_cycle K srt s' \<noteq> None"
  using cycles_total [OF assms] .

theorem cycles_return_witness:
  "run_cycle (demo_kernel '''' '''') sort_by '''' (demo_state config_default) \<noteq> None \<and>
   force_cycle (demo_kernel '''' '''') sort_by (demo_state config_default) \<noteq> None"
  using cycles_return [OF demo_contracts] .

section \<open>DAMON and the scores\<close>

definition quiet_call :: "sys_call \<Rightarrow> bool" where
  "quiet_call e \<longleftrightarrow> \<not> is_madvise e \<and> (\<forall>p. e \<noteq> Pidfd_Open p)"

lemma quiet_weak:
  "setup_call e \<Longrightarrow> quiet_call e" "observe_call e \<Longrightarrow> quiet_call e" "tail_call c e \<Longrightarrow> quiet_call e"
  by (auto simp: quiet_call_def setup_call_def observe_call_def tail_call_def is_read_def split: sys_call.splits)

lemma no_candidates:
  assumes "filter (candidate (e_cfg s)) (e_snapshot s) = []" "srt score_above [] = []"
  shows "fst (run_actions K srt s) = 0 \<and> only quiet_call s (snd (run_actions K srt s)) \<and>
    st_pageouts_kb (e_stats (snd (run_actions K srt s))) = st_pageouts_kb (e_stats s)"
proof -
  have o: "only quiet_call s (cgroup_step K 0 s)"
    using conjunct2 [OF cgroup_step_spec [of s K 0]] by (rule only_weaken) (rule quiet_weak)
  have "st_pageouts_kb (e_stats (cgroup_step K 0 s)) = st_pageouts_kb (e_stats s)"
  proof -
    obtain psi s1 where 1: "psi_memory K s = (psi, s1)" by fastforce
    obtain av s2 where 2: "cgroup_available K s1 = (av, s2)" by fastforce
    have "runs (\<lambda>_. True) s (snd (psi_memory K s))" by (rule proc_runs) simp
    then have e1: "e_stats s1 = e_stats s" using runs_eng(3) 1 by fastforce
    have "runs (\<lambda>_. True) s1 (snd (cgroup_available K s1))" by (rule sysfs_runs) simp
    then have e2: "e_stats s2 = e_stats s" using runs_eng(3) 2 e1 by fastforce
    have "e_stats (snd (cgroup_reclaim K p b s2)) = e_stats s" for p b
      using runs_eng(3) [of "\<lambda>_. True" s2 "snd (cgroup_reclaim K p b s2)"] sysfs_runs(2) e2 by fastforce
    then show ?thesis using e1 e2
      by (simp add: cgroup_step_def 1 2 Let_def case_prod_beta)
  qed
  then show ?thesis using assms o by (simp add: run_actions_def Let_def only_def)
qed

text \<open>With DAMON on the second half of a cycle finds no candidate.\<close>

lemma damon_no_candidates:
  assumes "e_damon_on g" "finite_weights (e_cfg g)" "dless (Fin 0) (c_min_score (e_cfg g))"
    and "\<forall>ps \<in> set (e_snapshot g). fresh (k_self K) ps"
  shows "\<exists>s'. compute_scores K g = Some s' \<and> only quiet_call g s' \<and> e_stats s' = e_stats g \<and>
    filter (candidate (e_cfg s')) (e_snapshot s') = []"
proof -
  obtain s' where s': "compute_scores K g = Some s'" using compute_scores_damon [OF assms(1)] by blast
  note c = compute_scores_spec [OF s' fresh_scored [OF assms(4)]]
  have "q_ws_ratio ps = Fin 1" if "ps \<in> set (e_snapshot s')" for ps
  proof -
    have "q_ws_ratio ` set (e_snapshot s') = q_ws_ratio ` set (e_snapshot g)" using c(8) [OF assms(1)] by (metis set_map)
    then have "q_ws_ratio ps \<in> q_ws_ratio ` set (e_snapshot g)" using that by blast
    then show ?thesis using assms(4) by (auto simp: fresh_def)
  qed
  then have "q_score ps = Fin 0" if "ps \<in> set (e_snapshot s')" for ps
    using that c(7) assms(2) by (auto intro!: scored_warm [of "e_cfg g" ps 1])
  then have "filter (candidate (e_cfg s')) (e_snapshot s') = []"
    using assms(3) c(1) by (auto simp: filter_empty_conv candidate_def)
  moreover have "only quiet_call g s'" using c(4) by (rule only_weaken) (rule quiet_weak(2))
  ultimately show ?thesis using s' c(3) by blast
qed

text \<open>C32. Once DAMON runs, and if the weights are finite and the minimum score is above 0 (as by default), the daemon
  reclaims from no process any more: the DAMON backend gives no per-process data, the soft-dirty sampler is
  switched off, so every process keeps the ratio 1 and scores 0. Each cycle of the timer, and each one forced by the
  control tool, returns 0 without a handle or an advice, and the page-out total stays.\<close>

theorem damon_disables_reclaim:
  assumes "e_damon_on s" "finite_weights (e_cfg s)" "dless (Fin 0) (c_min_score (e_cfg s))" "srt score_above [] = []"
  shows "(\<exists>s'. run_cycle K srt obj s = Some (0, s') \<and> only quiet_call s s' \<and>
      st_pageouts_kb (e_stats s') = st_pageouts_kb (e_stats s)) \<and>
    (\<exists>s'. force_cycle K srt s = Some (0, s') \<and> only quiet_call s s' \<and>
      st_pageouts_kb (e_stats s') = st_pageouts_kb (e_stats s))"
proof
  obtain psi mem s6 where 1: "first_half K obj s = ((psi, mem), s6)" by (metis surj_pair)
  note a = first_half_spec [OF 1]
  have o6: "only quiet_call s s6" using a(5) by (rule only_weaken) (rule quiet_weak)
  have st: "st_pageouts_kb (e_stats s6) = st_pageouts_kb (e_stats s)" using a(2) by (simp add: count_cycle_def)
  show "\<exists>s'. run_cycle K srt obj s = Some (0, s') \<and> only quiet_call s s' \<and>
      st_pageouts_kb (e_stats s') = st_pageouts_kb (e_stats s)"
  proof (cases "crisis psi mem")
    case True
    then show ?thesis using o6 st by (simp add: run_cycle_halves 1)
  next
    case False
    define g where "g = ebpf_guard K s6"
    have g: "guard_eq s6 g" unfolding g_def by (rule ebpf_guard_eq)
    have og: "only quiet_call s g" using o6 only_weaken [of setup_call s6 g quiet_call] g quiet_weak(1)
      by (auto simp: guard_eq_def intro: only_trans)
    have dg: "e_damon_on g" "e_cfg g = e_cfg s" "e_stats g = e_stats s6" using g a assms(1) by (auto simp: guard_eq_def)
    have fr: "\<forall>ps \<in> set (e_snapshot g). fresh (k_self K) ps" using g a(6) by (simp add: guard_eq_def)
    from damon_no_candidates [OF dg(1) _ _ fr] obtain s7 where 7: "compute_scores K g = Some s7" "only quiet_call g s7"
      "e_stats s7 = e_stats g" "filter (candidate (e_cfg s7)) (e_snapshot s7) = []" using assms(2,3) dg(2) by auto
    note n = no_candidates [where srt = srt and K = K, OF 7(4) assms(4)]
    obtain kb s8 where r: "run_actions K srt s7 = (kb, s8)" by fastforce
    have "run_cycle K srt obj s = Some (0, s7) \<or> run_cycle K srt obj s = Some (0, s8)"
      using False 7(1) n r by (auto simp: run_cycle_halves 1 g_def [symmetric])
    then show ?thesis using n r 7(3) dg(3) st only_trans [OF og 7(2)] by (auto intro: only_trans)
  qed
next
  obtain snap s1 where 1: "scan_processes K (count_cycle s) = (snap, s1)" by fastforce
  define s2 where "s2 = s1\<lparr>e_snapshot := snap\<rparr>"
  define s3 where "s3 = damon_init K damon_default False s2"
  note a = scan_cycle [OF 1]
  have q: "setup_eq s2 s3" unfolding s3_def by (rule damon_init_setup)
  have "only quiet_call s s2" using only_weaken [OF a(5) quiet_weak(1)] by (simp add: s2_def only_def)
  moreover have "only quiet_call s2 s3" using q quiet_weak(1) by (auto simp: setup_eq_def intro: only_weaken)
  ultimately have o3: "only quiet_call s s3" by (rule only_trans)
  have d3: "e_damon_on s3" "e_cfg s3 = e_cfg s" "st_pageouts_kb (e_stats s3) = st_pageouts_kb (e_stats s)"
    using q a assms(1) by (auto simp: setup_eq_def s2_def count_cycle_def)
  have "\<forall>ps \<in> set (e_snapshot s3). fresh (k_self K) ps" using q a(6) by (simp add: setup_eq_def s2_def)
  from damon_no_candidates [OF d3(1) _ _ this] obtain s4 where 4: "compute_scores K s3 = Some s4" "only quiet_call s3 s4"
    "e_stats s4 = e_stats s3" "filter (candidate (e_cfg s4)) (e_snapshot s4) = []" using assms(2,3) d3(2) by auto
  obtain m s5 where 5: "meminfo K s4 = (m, s5)" by fastforce
  have "runs setup_call s4 (snd (meminfo K s4))" by (intro proc_runs) simp
  then have r: "runs setup_call s4 s5" using 5 by simp
  have c5: "e_cfg s5 = e_cfg s4" "e_snapshot s5 = e_snapshot s4" "e_stats s5 = e_stats s4" using runs_eng [OF r] by (simp_all add: eng_core_def)
  have o5: "only quiet_call s s5" using only_trans [OF only_trans [OF o3 4(2)] only_weaken [OF runs_only [OF r] quiet_weak(1)]] .
  have "filter (candidate (e_cfg s5)) (e_snapshot s5) = []" using 4(4) c5 by simp
  note n = no_candidates [where srt = srt and K = K, OF this assms(4)]
  have "force_cycle K srt s = Some (run_actions K srt s5)"
    unfolding force_cycle_def 1 Let_def prod.case s2_def [symmetric] s3_def [symmetric] 4(1) bind.bind_lunit 5 by simp
  then show "\<exists>s'. force_cycle K srt s = Some (0, s') \<and> only quiet_call s s' \<and>
      st_pageouts_kb (e_stats s') = st_pageouts_kb (e_stats s)"
    using n c5(3) 4(3) d3(3) only_trans [OF o5] by (cases "run_actions K srt s5") auto
qed

theorem damon_disables_reclaim_witness:
  "(\<exists>s'. run_cycle (demo_kernel '''' '''') sort_by '''' ((demo_state config_default)\<lparr>e_damon_on := True\<rparr>) = Some (0, s')) \<and>
   (\<exists>s'. force_cycle (demo_kernel '''' '''') sort_by ((demo_state config_default)\<lparr>e_damon_on := True\<rparr>) = Some (0, s'))"
proof -
  let ?s = "(demo_state config_default)\<lparr>e_damon_on := True\<rparr>"
  have "e_damon_on ?s" "finite_weights (e_cfg ?s)" "dless (Fin 0) (c_min_score (e_cfg ?s))" "sort_by score_above [] = []"
    by (simp_all add: demo_state_def config_default_def finite_weights_def sort_by_def)
  from damon_disables_reclaim [where srt = sort_by, OF this, of "demo_kernel '''' ''''" "''''"] show ?thesis by blast
qed

end
