(* ===== verification/EngineLimits.thy ===== *)
theory EngineLimits
  imports EngineProps
begin

text \<open>
  The limits of the action phase and the policies: how many processes, in which order, how long a
  process is left alone, what a dry run does, in which unit the reclaim cap counts, which policy
  applies, and what the shipped configuration file makes of it.
\<close>

section \<open>Bounds of the action phase\<close>

text \<open>C14. The action phase visits a prefix of the sorted candidates, opens a handle on each in turn, and gets a result from
  each. It goes on only while fewer than \<open>max_targets\<close> results were not zero and their sum is below the cap, and
  stops before the last candidate only at one of the two limits. So at most \<open>max_targets\<close> processes give something
  back: exactly these get a cooldown of 5 cycles, the tracking entries of all others (those tried in vain do not count
  against the limit) and the rest of the engine are unchanged, and the sum is what is reported. Every call is one the
  loop may make for a candidate or the cgroup step makes.\<close>

theorem run_actions_bounded:
  assumes "run_actions K srt s = (kb, s')" "\<forall>lt xs. set (srt lt xs) \<subseteq> set xs"
  defines "cands \<equiv> srt score_above (filter (candidate (e_cfg s)) (e_snapshot s))"
    and "cap \<equiv> push_bit 10 (c_max_reclaim_mb (e_cfg s))" and "targets \<equiv> unat (c_max_targets (e_cfg s))"
  shows "\<exists>gots. length gots \<le> length cands \<and>
     opened (s_calls s') = opened (s_calls s) @ map q_pid (take (length gots) cands) \<and>
     (\<forall>i<length gots. successes (take i gots) < targets \<and> sum_list (take i gots) < cap) \<and>
     (length gots < length cands \<longrightarrow> successes gots = targets \<or> cap \<le> sum_list gots) \<and>
     successes gots \<le> targets \<and> card (hit_pids cands gots) \<le> targets \<and>
     (\<forall>i<length gots. \<exists>t. opened (s_calls t) = opened (s_calls s) @ map q_pid (take i cands) \<and>
        acted_on (hit_pids cands (take i gots)) s t \<and> gots ! i = attempt K (cands ! i) t) \<and>
     acted_on (hit_pids cands gots) s s' \<and> kb = sum_list gots div 1024 \<and>
     only (action_call (e_cfg s) (q_pid ` set (filter (candidate (e_cfg s)) (e_snapshot s)))) s s'"
proof -
  obtain gots r where g: "loop_log K cands 0 0 s r s' gots" "kb = r div 1024"
    using run_actions_log [OF assms(1)] unfolding cands_def by blast
  note l = g(1) [unfolded loop_log_def Let_def add_0, folded cap_def targets_def]
  have "\<forall>i<length gots. successes (take i gots) < targets" using l by blast
  then have b: "successes gots \<le> targets" by (rule successes_bound)
  then have "card (hit_pids cands gots) \<le> targets" using card_hit_pids [of cands gots] by linarith
  moreover have "only (action_call (e_cfg s) (q_pid ` set (filter (candidate (e_cfg s)) (e_snapshot s)))) s s'"
    using run_actions_spec [OF _ assms(1) refl] assms(2) by blast
  ultimately show ?thesis using l g(2) b by (intro exI [of _ gots]) auto
qed

text \<open>Two candidates and room for one: the better one gives 16 MiB back and the other is not visited.\<close>

definition demo_two :: eng where
  "demo_two = (demo_state (config_default\<lparr>c_max_targets := 1\<rparr>))\<lparr>e_snapshot := [(demo_snap 43)\<lparr>q_score := Fin 50\<rparr>, demo_snap 42]\<rparr>"

lemma demo_two_sorted:
  "sort_by score_above (filter (candidate (e_cfg demo_two)) (e_snapshot demo_two)) = [demo_snap 42, (demo_snap 43)\<lparr>q_score := Fin 50\<rparr>]"
  by code_simp

theorem run_actions_bounded_witness:
  "\<exists>gots. length gots \<le> 2 \<and> successes gots \<le> 1 \<and>
     opened (s_calls (snd (run_actions (demo_kernel '''' '''') sort_by demo_two))) = take (length gots) [42, 43]"
proof -
  obtain kb s' where r: "run_actions (demo_kernel '''' '''') sort_by demo_two = (kb, s')" by fastforce
  have "unat (c_max_targets (e_cfg demo_two)) = 1" "opened (s_calls demo_two) = []"
    by (simp_all add: demo_two_def demo_state_def opened_def)
  moreover obtain gots where "length gots \<le> length [demo_snap 42, (demo_snap 43)\<lparr>q_score := Fin 50\<rparr>]" "successes gots \<le> unat (c_max_targets (e_cfg demo_two))"
    "opened (s_calls s') = opened (s_calls demo_two) @ map q_pid (take (length gots) [demo_snap 42, (demo_snap 43)\<lparr>q_score := Fin 50\<rparr>])"
    using run_actions_bounded [OF r sort_by_subset, unfolded demo_two_sorted]
    by (elim exE conjE) blast
  ultimately show ?thesis by (intro exI [of _ gots]) (simp add: r demo_snap_def take_map [symmetric])
qed

text \<open>C19. Candidates are visited in falling order of score, highest first: with any correct \<open>std::sort\<close> and the comparator of
  the code, and no score NaN, the handles are opened in an order in which no process scores above one opened
  before it, and no process left out scores above one that was opened.\<close>

theorem highest_score_first:
  assumes "std_sort srt" "\<forall>x \<in> set (e_snapshot s). q_score x \<noteq> NaN" "run_actions K srt s = (kb, s')"
  shows "\<exists>visited left. mset (visited @ left) = mset (filter (candidate (e_cfg s)) (e_snapshot s)) \<and>
     opened (s_calls s') = opened (s_calls s) @ map q_pid visited \<and>
     sorted_wrt (\<lambda>x y. \<not> dless (q_score x) (q_score y)) (visited @ left)"
proof -
  define cands where "cands = srt score_above (filter (candidate (e_cfg s)) (e_snapshot s))"
  have n: "\<forall>x \<in> set (filter (candidate (e_cfg s)) (e_snapshot s)). q_score x \<noteq> NaN" using assms(2) by simp
  obtain gots r where "loop_log K cands 0 0 s r s' gots"
    using run_actions_log [OF assms(3)] unfolding cands_def by blast
  then have "opened (s_calls s') = opened (s_calls s) @ map q_pid (take (length gots) cands)"
    unfolding loop_log_def Let_def by (elim conjE)
  then show ?thesis using std_sort_score [OF assms(1) n, folded cands_def]
    by (intro exI [of _ "take (length gots) cands"] exI [of _ "drop (length gots) cands"])
      (simp add: append_take_drop_id)
qed

theorem highest_score_first_witness:
  "\<forall>later. opened (s_calls (snd (run_actions (demo_kernel '''' '''') sort_by demo_two))) \<noteq> 43 # later"
proof (intro allI notI)
  let ?low = "(demo_snap 43)\<lparr>q_score := Fin 50\<rparr>"
  obtain kb s' where r: "run_actions (demo_kernel '''' '''') sort_by demo_two = (kb, s')" by fastforce
  fix later assume o: "opened (s_calls (snd (run_actions (demo_kernel '''' '''') sort_by demo_two))) = 43 # later"
  have nan: "\<forall>x \<in> set (e_snapshot demo_two). q_score x \<noteq> NaN" by (simp add: demo_two_def demo_snap_def)
  have c: "filter (candidate (e_cfg demo_two)) (e_snapshot demo_two) = [?low, demo_snap 42]" by code_simp
  obtain visited left where v: "mset (visited @ left) = mset [?low, demo_snap 42]"
    "opened (s_calls s') = opened (s_calls demo_two) @ map q_pid visited"
    "sorted_wrt (\<lambda>x y. \<not> dless (q_score x) (q_score y)) (visited @ left)"
    using highest_score_first [OF sort_by_sorts nan r] unfolding c by blast
  have m: "set (visited @ left) = {?low, demo_snap 42}"
    unfolding set_mset_mset [symmetric] v(1) by simp
  have n: "opened (s_calls demo_two) = []" by (simp add: demo_two_def demo_state_def opened_def map_filter_def)
  have "map q_pid visited = 43 # later" using o v(2) unfolding r snd_conv n by simp
  then obtain x xs where x: "visited = x # xs" "q_pid x = 43" by (cases visited) auto
  have d: "q_pid (demo_snap 42) = 42" "q_score (demo_snap 42) = Fin 100" "q_score ?low = Fin 50"
    by (simp_all add: demo_snap_def)
  have s: "set (x # xs @ left) = {?low, demo_snap 42}" using m unfolding x(1) by simp
  moreover have "x \<noteq> demo_snap 42" using x(2) d(1) by (intro notI) simp
  ultimately have low: "q_score x = Fin 50" and "x \<noteq> demo_snap 42" using d(3) by (metis insertE list.set_intros(1) singletonD)+
  then have "demo_snap 42 \<in> set (xs @ left)" using s by (metis insertCI set_ConsD)
  then have "\<not> dless (q_score x) (q_score (demo_snap 42))" using v(3) unfolding x(1) append_Cons sorted_wrt.simps by blast
  then show False unfolding low d(2) by simp
qed

section \<open>Dry runs\<close>

text \<open>In a dry run no page of any process is advised, whatever the kernel and the sort.\<close>

theorem dry_run_no_madvise:
  assumes "c_dry_run (e_cfg s)"
  shows "only (\<lambda>e. \<not> is_madvise e) s (snd (run_actions K srt s))"
proof -
  define cands where "cands = srt score_above (filter (candidate (e_cfg s)) (e_snapshot s))"
  obtain r s1 where 1: "act_loop K cands 0 0 s = (r, s1)" by fastforce
  obtain A where A: "acted_on A s s1" "only (act_call (e_cfg s) (q_pid ` set cands)) s s1"
    using act_loop_spec [OF subset_refl 1] by blast
  have "act_call (e_cfg s) (q_pid ` set cands) e \<Longrightarrow> \<not> is_madvise e" for e
    using assms by (cases e) simp_all
  with A(2) have "only (\<lambda>e. \<not> is_madvise e) s s1" by (rule only_weaken)
  moreover have "tail_call (e_cfg s1) e \<Longrightarrow> \<not> is_madvise e" for e
    by (cases e) (simp_all add: tail_call_def)
  with conjunct2 [OF cgroup_step_spec [of s1 K r]] have "only (\<lambda>e. \<not> is_madvise e) s1 (cgroup_step K r s1)"
    by (rule only_weaken)
  ultimately have "only (\<lambda>e. \<not> is_madvise e) s (cgroup_step K r s1)" by (rule only_trans)
  then show ?thesis using 1 by (simp add: run_actions_def Let_def cands_def only_def)
qed

theorem dry_run_no_madvise_witness:
  "only (\<lambda>e. \<not> is_madvise e) (demo_two\<lparr>e_cfg := config_default\<lparr>c_dry_run := True\<rparr>\<rparr>)
     (snd (run_actions (demo_kernel '''' '''') sort_by (demo_two\<lparr>e_cfg := config_default\<lparr>c_dry_run := True\<rparr>\<rparr>)))"
  by (rule dry_run_no_madvise) simp

section \<open>The cgroup step\<close>

definition high_psi :: string where
  "high_psi = ''some avg10=50.00 avg60=0.00'' @ nl"

lemma high_psi_text: "psi_text high_psi = \<lparr>some_avg10 = Fin (1 / 2), full_avg10 = Fin 0, psi_ok = True\<rparr>"
  by code_simp

lemma high_psi_at:
  "psi_at (demo_kernel high_psi '''') t = \<lparr>some_avg10 = Fin (1 / 2), full_avg10 = Fin 0, psi_ok = True\<rparr>"
  by (simp add: psi_at_def demo_kernel_def demo_file_def high_psi_text)

text \<open>Under a persisting pressure the step asks the root cgroup for what is left of the cap.\<close>

lemma cgroup_step_writes:
  assumes "c_cgroup_reclaim (e_cfg s)" "psi_ok (psi_at K (s_now s))"
    and "dle (dmul (c_psi_threshold (e_cfg s)) (dlit 15 1)) (some_avg10 (psi_at K (s_now s)))"
    and "k_stat K (s_now s + 1) ''/sys/fs/cgroup/cgroup.controllers''"
    and "push_bit 10 (c_max_reclaim_mb (e_cfg s)) - r > 65536"
  shows "Write_File ''/sys/fs/cgroup/memory.reclaim''
      (show_nat (unat (push_bit 10 (c_max_reclaim_mb (e_cfg s)) - r))) \<in> set (s_calls (cgroup_step K r s))"
proof -
  obtain psi s1 where 1: "psi_memory K s = (psi, s1)" by fastforce
  have s1: "psi = psi_at K (s_now s)" "e_cfg s1 = e_cfg s" "s_now s1 = s_now s + 1"
    using 1 by (auto simp: psi_memory_def read_file_def psi_at_def emit_def)
  obtain av s2 where 2: "cgroup_available K s1 = (av, s2)" by fastforce
  have s2: "av" "e_cfg s2 = e_cfg s" using 2 s1 assms(4) by (auto simp: cgroup_available_def stat_ok_def)
  define want where "want = push_bit 10 (c_max_reclaim_mb (e_cfg s)) - r"
  obtain got s3 where 3: "cgroup_reclaim K ''/'' want s2 = (got, s3)" by fastforce
  have "Write_File ''/sys/fs/cgroup/memory.reclaim'' (show_nat (unat want)) \<in> set (s_calls s3)"
    using 3 by (auto simp: cgroup_reclaim_def write_file_def)
  then show ?thesis
    using assms(1-3,5) s1 s2 by (auto simp: cgroup_step_def 1 2 3 Let_def want_def [symmetric])
qed

text \<open>The reclaim cap, in megabytes, is compared with and subtracted from a sum of bytes. When the
  loop reclaimed more than \<open>1024 * max_reclaim_mb\<close> bytes (half a megabyte by default) the difference
  wraps around: under pressure the step asks the root cgroup for almost \<open>2^64\<close> bytes.\<close>

theorem cgroup_request_wraps:
  assumes "c_cgroup_reclaim (e_cfg s)" "psi_ok (psi_at K (s_now s))"
    and "dle (dmul (c_psi_threshold (e_cfg s)) (dlit 15 1)) (some_avg10 (psi_at K (s_now s)))"
    and "k_stat K (s_now s + 1) ''/sys/fs/cgroup/cgroup.controllers''"
    and "unat (push_bit 10 (c_max_reclaim_mb (e_cfg s))) < unat r"
    and "unat r - unat (push_bit 10 (c_max_reclaim_mb (e_cfg s))) < 2 ^ 63"
  shows "Write_File ''/sys/fs/cgroup/memory.reclaim''
      (show_nat (2 ^ 64 - (unat r - unat (push_bit 10 (c_max_reclaim_mb (e_cfg s)))))) \<in> set (s_calls (cgroup_step K r s))"
proof -
  define cap where "cap = push_bit 10 (c_max_reclaim_mb (e_cfg s))"
  have u: "unat (cap - r) = 2 ^ 64 - (unat r - unat cap)"
    using assms(5) unsigned_less [of r, where ?'a = nat] by (simp add: unat_sub_if' cap_def)
  moreover have "cap - r > 65536"
    using u assms(6) by (simp add: word_less_nat_alt cap_def)
  ultimately show ?thesis
    using cgroup_step_writes [OF assms(1-4), of r] by (simp add: cap_def)
qed

text \<open>One 16 MiB mapping paged out and a persisting pressure of 50 percent, with the defaults.\<close>

theorem cgroup_request_wraps_witness:
  "Write_File ''/sys/fs/cgroup/memory.reclaim'' (show_nat 18446744073693298688)
     \<in> set (s_calls (cgroup_step (demo_kernel high_psi '''') 16777216 (demo_state config_default)))"
proof -
  have d: "dle (dmul (dlit 20 2) (dlit 15 1)) (Fin (1 / 2))" by code_simp
  have "2 ^ 64 - (unat (16777216 :: u64) - unat (push_bit 10 (512 :: u64))) = 18446744073693298688" by simp
  moreover have "Write_File ''/sys/fs/cgroup/memory.reclaim''
      (show_nat (2 ^ 64 - (unat (16777216 :: u64) - unat (push_bit 10 (c_max_reclaim_mb (e_cfg (demo_state config_default)))))))
      \<in> set (s_calls (cgroup_step (demo_kernel high_psi '''') 16777216 (demo_state config_default)))"
    using d by (intro cgroup_request_wraps) (simp_all add: high_psi_at demo_state_def config_default_def, simp add: demo_kernel_def)
  ultimately show ?thesis by (simp add: demo_state_def config_default_def)
qed

text \<open>A refused reclaim counts: the answer of the kernel is still in the stream's buffer when the
  error flag is read, so when every write fails the step adds the whole request to the statistics.\<close>

theorem failed_reclaim_counted:
  assumes "c_cgroup_reclaim (e_cfg s)" "psi_ok (psi_at K (s_now s))"
    and "dle (dmul (c_psi_threshold (e_cfg s)) (dlit 15 1)) (some_avg10 (psi_at K (s_now s)))"
    and "k_stat K (s_now s + 1) ''/sys/fs/cgroup/cgroup.controllers''"
    and "push_bit 10 (c_max_reclaim_mb (e_cfg s)) - r > 65536"
    and "\<forall>t p v. k_write K t p v = Failed 11"
  shows "st_cgroup_kb (e_stats (cgroup_step K r s)) =
     st_cgroup_kb (e_stats s) + (push_bit 10 (c_max_reclaim_mb (e_cfg s)) - r) div 1024"
proof -
  obtain psi s1 where 1: "psi_memory K s = (psi, s1)" by fastforce
  have s1: "psi = psi_at K (s_now s)" "e_cfg s1 = e_cfg s" "s_now s1 = s_now s + 1" "e_stats s1 = e_stats s"
    using 1 by (auto simp: psi_memory_def read_file_def psi_at_def emit_def)
  obtain av s2 where 2: "cgroup_available K s1 = (av, s2)" by fastforce
  have s2: "av" "e_cfg s2 = e_cfg s" "e_stats s2 = e_stats s"
    using 2 s1 assms(4) by (auto simp: cgroup_available_def stat_ok_def)
  define want where "want = push_bit 10 (c_max_reclaim_mb (e_cfg s)) - r"
  obtain got s3 where 3: "cgroup_reclaim K ''/'' want s2 = (got, s3)" by fastforce
  have "got = want" "e_stats s3 = e_stats s"
    using 3 s2 assms(6) by (auto simp: cgroup_reclaim_def write_file_def)
  moreover have "want \<noteq> 0" using assms(5) by (auto simp: want_def)
  ultimately show ?thesis
    using assms(1-3,5) s1 s2 by (simp add: cgroup_step_def 1 2 3 Let_def want_def [symmetric])
qed

theorem failed_reclaim_counted_witness:
  "st_cgroup_kb (e_stats (cgroup_step ((demo_kernel high_psi '''')\<lparr>k_write := \<lambda>t p v. Failed 11\<rparr>) 0 (demo_state config_default)))
     = st_cgroup_kb (e_stats (demo_state config_default)) + 512"
proof -
  have d: "dle (dmul (dlit 20 2) (dlit 15 1)) (Fin (1 / 2))" by code_simp
  have "st_cgroup_kb (e_stats (cgroup_step ((demo_kernel high_psi '''')\<lparr>k_write := \<lambda>t p v. Failed 11\<rparr>) 0 (demo_state config_default))) =
     st_cgroup_kb (e_stats (demo_state config_default)) +
       (push_bit 10 (c_max_reclaim_mb (e_cfg (demo_state config_default))) - 0) div 1024"
    using d high_psi_at by (intro failed_reclaim_counted)
      (simp_all add: psi_at_def demo_state_def config_default_def, simp add: demo_kernel_def)
  then show ?thesis by (simp add: demo_state_def config_default_def)
qed

lemma run_actions_idle:
  "e_snapshot s = [] \<Longrightarrow> srt score_above [] = [] \<Longrightarrow> s_calls (snd (run_actions K srt s)) = s_calls (cgroup_step K 0 s)"
  by (simp add: run_actions_def)

text \<open>A dry run still reclaims: with no candidate at all and a persisting pressure of 50 percent
  it writes a request to the root \<open>memory.reclaim\<close>; the 512 MB of the default cap are written as
  524288 bytes.\<close>

theorem dry_run_reclaims_cgroup:
  "Write_File ''/sys/fs/cgroup/memory.reclaim'' ''524288''
     \<in> set (s_calls (snd (run_actions (demo_kernel high_psi '''') sort_by
         (demo_state (config_default\<lparr>c_dry_run := True\<rparr>)))))"
proof -
  have d: "dle (dmul (dlit 20 2) (dlit 15 1)) (Fin (1 / 2))" by code_simp
  define s where "s = demo_state (config_default\<lparr>c_dry_run := True\<rparr>)"
  have "Write_File ''/sys/fs/cgroup/memory.reclaim'' (show_nat (unat (push_bit 10 (c_max_reclaim_mb (e_cfg s)) - 0)))
      \<in> set (s_calls (cgroup_step (demo_kernel high_psi '''') 0 s))"
    using d by (intro cgroup_step_writes)
      (simp_all add: high_psi_at demo_state_def config_default_def s_def, simp add: demo_kernel_def)
  moreover have "show_nat 524288 = ''524288''" by (simp add: show_nat_eval)
  moreover have "unat (push_bit 10 (c_max_reclaim_mb (e_cfg s)) - 0) = 524288"
    by (simp add: s_def demo_state_def config_default_def)
  moreover have "e_snapshot s = []" "sort_by score_above [] = []"
    by (simp_all add: s_def demo_state_def sort_by_def)
  ultimately show ?thesis by (simp add: run_actions_idle s_def [symmetric])
qed

section \<open>Policies\<close>

text \<open>The first of the longest prefixes, said without a loop.\<close>

definition longest_match :: "string \<Rightarrow> group_policy list \<Rightarrow> group_policy \<Rightarrow> bool" where
  "longest_match cg gs g \<longleftrightarrow> has_prefix (g_prefix g) cg \<and>
     (\<forall>h \<in> set gs. has_prefix (g_prefix h) cg \<longrightarrow> length (g_prefix h) \<le> length (g_prefix g))"

lemma find_cong': "(\<And>x. x \<in> set xs \<Longrightarrow> P x = Q x) \<Longrightarrow> find P xs = find Q xs"
  by (induction xs) auto

lemma best_policy_some:
  "has_prefix (g_prefix b) cg \<Longrightarrow> best_policy cg (Some b) gs = find (longest_match cg (b # gs)) (b # gs)"
proof (induction gs arbitrary: b)
  case (Cons g gs)
  show ?case
  proof (cases "has_prefix (g_prefix g) cg \<and> length (g_prefix g) > length (g_prefix b)")
    case True
    then have "best_policy cg (Some b) (g # gs) = find (longest_match cg (g # gs)) (g # gs)"
      using Cons.IH [of g] by simp
    also have "\<dots> = find (longest_match cg (b # g # gs)) (g # gs)"
      using True by (intro find_cong') (auto simp: longest_match_def)
    also have "\<dots> = find (longest_match cg (b # g # gs)) (b # g # gs)"
      using True by (simp add: longest_match_def)
    finally show ?thesis .
  next
    case False
    then have "best_policy cg (Some b) (g # gs) = find (longest_match cg (b # gs)) (b # gs)"
      using Cons by auto
    also have "\<dots> = find (longest_match cg (b # g # gs)) (b # g # gs)"
    proof (cases "longest_match cg (b # gs) b")
      case True
      then show ?thesis using False by (auto simp: longest_match_def)
    next
      case nb: False
      then have b: "\<not> longest_match cg (b # g # gs) b" by (auto simp: longest_match_def)
      have g: "\<not> longest_match cg (b # g # gs) g"
        using nb False Cons.prems by (auto simp: longest_match_def)
      have "find (longest_match cg (b # gs)) gs = find (longest_match cg (b # g # gs)) gs"
        using False Cons.prems by (intro find_cong') (auto simp: longest_match_def)
      then show ?thesis using nb b g by simp
    qed
    finally show ?thesis .
  qed
qed (simp add: longest_match_def)

lemma best_policy_find: "best_policy cg None gs = find (longest_match cg gs) gs"
proof (induction gs)
  case (Cons g gs)
  show ?case
  proof (cases "has_prefix (g_prefix g) cg")
    case True
    then show ?thesis using best_policy_some [OF True, of gs] by simp
  next
    case False
    then have "find (longest_match cg gs) gs = find (longest_match cg (g # gs)) gs"
      by (intro find_cong') (auto simp: longest_match_def)
    then show ?thesis using False Cons by (simp add: longest_match_def)
  qed
qed simp

text \<open>C30. Mode and weight of a process come from one and the same policy: the first of the policies
  with the longest prefix of its cgroup path, and from the defaults exactly when none matches.\<close>

theorem policy_longest_prefix:
  "weight_for c ps = (case find (longest_match (q_cgroup ps) (c_groups c)) (c_groups c) of
     None \<Rightarrow> Fin 1 | Some g \<Rightarrow> g_weight g) \<and>
   mode_for c ps = (case find (longest_match (q_cgroup ps) (c_groups c)) (c_groups c) of
     None \<Rightarrow> (if c_default_mode c = ''cold'' then ColdOnly else Pageout)
   | Some g \<Rightarrow> (if g_mode g = 1 then ColdOnly else Pageout))"
  by (simp add: weight_for_def mode_for_def best_policy_find split: option.split)

text \<open>The \<open>[groups]\<close> section of \<open>config/memflux.conf\<close>, comments at the line ends included (the
  accented letters of the comments are written without accent).\<close>

definition shipped_groups :: "string list" where
  "shipped_groups =
    [''group.0.prefix = /user.slice/user-0.slice    # root/system : tres protege'',
     ''group.0.weight = 0.1'', ''group.0.mode = cold'',
     ''group.1.prefix = /system.slice                # services systeme : proteges'',
     ''group.1.weight = 0.3'', ''group.1.mode = cold'']"

lemma shipped_prefixes:
  "map_option (\<lambda>(sec, c). (map g_prefix (c_groups c), c_default_mode c)) (reload_lines shipped_groups (''groups'', config_default)) =
     Some ([''/user.slice/user-0.slice    # root/system : tres protege'',
            ''/system.slice                # services systeme : proteges''], ''pageout'')"
  by code_simp

text \<open>The comments at the end of the shipped prefix lines become part of the prefixes, so no
  process matches them: with the shipped policies every process whose cgroup path has no \<open>#\<close> gets
  weight 1 and page-out, the system services and root's processes included.\<close>

theorem shipped_policies_inert:
  assumes "reload_lines shipped_groups (''groups'', config_default) = Some (sec, c)"
    and "CHR ''#'' \<notin> set (q_cgroup ps)"
  shows "weight_for c ps = Fin 1 \<and> mode_for c ps = Pageout"
proof -
  have p: "map g_prefix (c_groups c) = [''/user.slice/user-0.slice    # root/system : tres protege'',
      ''/system.slice                # services systeme : proteges'']" "c_default_mode c = ''pageout''"
    using shipped_prefixes assms(1) by simp_all
  have "\<not> has_prefix q (q_cgroup ps)" if "q \<in> set (map g_prefix (c_groups c))" for q
  proof
    assume "has_prefix q (q_cgroup ps)"
    then have "set q \<subseteq> set (q_cgroup ps)" unfolding has_prefix_def by (metis set_take_subset)
    moreover have "CHR ''#'' \<in> set q" using that p(1) by auto
    ultimately show False using assms(2) by blast
  qed
  then have "find (longest_match (q_cgroup ps) (c_groups c)) (c_groups c) = None"
    by (auto simp: find_None_iff longest_match_def)
  then show ?thesis using p(2) by (simp add: weight_for_def mode_for_def best_policy_find)
qed

theorem shipped_policies_inert_witness:
  "\<exists>sec c. reload_lines shipped_groups (''groups'', config_default) = Some (sec, c) \<and>
     weight_for c ((demo_snap 42)\<lparr>q_cgroup := ''/system.slice/sshd.service''\<rparr>) = Fin 1"
proof -
  obtain sec c where r: "reload_lines shipped_groups (''groups'', config_default) = Some (sec, c)"
    using shipped_prefixes by (cases "reload_lines shipped_groups (''groups'', config_default)") auto
  from shipped_policies_inert [OF r, of "(demo_snap 42)\<lparr>q_cgroup := ''/system.slice/sshd.service''\<rparr>"] r
  show ?thesis by auto
qed

end
