(* ===== verification/EngineReclaim.thy ===== *)
theory EngineReclaim
  imports EngineLimits
begin

text \<open>
  What the action phase does when it acts: the exact ranges it advises of a process, in order, and what it
  counts as reclaimed. The other theories on the engine bound what a cycle may touch; this one shows that the
  first candidate really is worked on.
\<close>

section \<open>The ranges of a process\<close>

definition eligible :: "vma_range \<Rightarrow> bool" where
  "eligible v \<longleftrightarrow> v_priv_anon v \<and> v_readable v \<and> 8388608 \<le> v_end v - v_start v"

definition advise :: "int \<Rightarrow> reclaim_mode \<Rightarrow> vma_range \<Rightarrow> sys_call" where
  "advise fd mode v = Madvise fd (v_start v) (v_end v - v_start v) (if mode = ColdOnly then MADV_COLD else MADV_PAGEOUT)"

text \<open>The calls of \<open>process_madvise\<close> so far, oldest first, and the bytes a list of them reports.\<close>

definition advised :: "'a sys_scheme \<Rightarrow> sys_call list" where
  "advised s = filter is_madvise (rev (s_calls s))"

fun reported :: "kernel \<Rightarrow> nat \<Rightarrow> sys_call list \<Rightarrow> u64" where
  "reported K t [] = 0"
| "reported K t (e # es) = (case e of Madvise fd a l adv \<Rightarrow> (if k_madvise K t fd a l adv > 0 then word_of_int (k_madvise K t fd a l adv) else 0) | _ \<Rightarrow> 0)
     + reported K (t + 1) es"

lemma advised_only: "only P s s' \<Longrightarrow> \<exists>later. advised s' = advised s @ later"
  by (auto simp: only_def advised_def)

lemma advised_none:
  assumes "runs P s s'" "\<And>e. P e \<Longrightarrow> \<not> is_madvise e"
  shows "advised s' = advised s"
proof -
  obtain es where "s_calls s' = es @ s_calls s" "list_all P es" using runs_only [OF assms(1)] by (auto simp: only_def)
  then show ?thesis using assms(2) by (auto simp: advised_def list.pred_set filter_empty_conv)
qed

lemma advised_read: "runs is_read s s' \<Longrightarrow> advised s' = advised s"
  by (erule advised_none) (auto simp: is_read_def is_madvise_def split: sys_call.splits)

lemma advised_emit: "advised (emit e s) = advised s @ (if is_madvise e then [e] else [])"
  by (simp add: advised_def emit_def)

lemma trim_vmas_exact:
  assumes "0 \<le> fd"
  shows "advised (snd (trim_vmas K fd (mode = ColdOnly) vs freed s)) = advised s @ map (advise fd mode) (filter eligible vs) \<and>
    fst (trim_vmas K fd (mode = ColdOnly) vs freed s) = freed + reported K (s_now s) (map (advise fd mode) (filter eligible vs))"
proof (induction vs arbitrary: freed s)
  case (Cons v vs)
  show ?case
  proof (cases "eligible v")
    case True
    let ?l = "v_end v - v_start v" let ?a = "if mode = ColdOnly then MADV_COLD else MADV_PAGEOUT"
    let ?r = "k_madvise K (s_now s) fd (v_start v) ?l ?a"
    have el: "v_priv_anon v" "v_readable v" "\<not> ?l < 8388608" using True unfolding eligible_def not_less by simp_all
    have p: "pageout_pages K fd (v_start v) ?l (mode = ColdOnly) s = (?r, emit (advise fd mode v) s)"
      using assms by (simp add: pageout_pages_def Let_def advise_def)
    have "trim_vmas K fd (mode = ColdOnly) (v # vs) freed s =
        trim_vmas K fd (mode = ColdOnly) vs (if ?r > 0 then freed + word_of_int ?r else freed) (emit (advise fd mode v) s)"
      using el by (simp add: Let_def p)
    moreover have "is_madvise (advise fd mode v)" "s_now (emit (advise fd mode v) s) = s_now s + 1"
      by (simp_all add: advise_def emit_def)
    ultimately show ?thesis using True Cons.IH
      by (simp add: advised_emit) (simp add: advise_def)
  next
    case False
    then have "trim_vmas K fd (mode = ColdOnly) (v # vs) freed s = trim_vmas K fd (mode = ColdOnly) vs freed s"
      by (auto simp: eligible_def Let_def not_le)
    then show ?thesis using False Cons.IH by simp
  qed
qed simp

section \<open>Acting on a process\<close>

lemma act_on_exact:
  fixes s :: "'a eng_scheme"
  assumes "0 \<le> fd" "\<not> c_dry_run (e_cfg s)" "c_heap_trim (e_cfg s)"
    and st: "read_proc_stat K (q_pid ps) s = (st, s1)" "p_anon_rss_kb st \<noteq> 0" and m: "read_maps K (q_pid ps) s1 = (vmas, s2)"
    and act: "act_on K ps fd mode s = (got, s')"
  shows "advised s' = advised s @ map (advise fd mode) (filter eligible vmas)"
    "reported K (s_now s2) (map (advise fd mode) (filter eligible vmas)) \<noteq> 0 \<Longrightarrow>
     got = reported K (s_now s2) (map (advise fd mode) (filter eligible vmas))"
proof -
  have r1: "runs is_read s s1" using read_proc_stat_runs [of is_read s K "q_pid ps"] st(1) by simp
  have r2: "runs is_read s1 s2" using proc_runs(3) [of is_read s1 K "q_pid ps"] m by simp
  have cfg: "e_cfg s1 = e_cfg s" using runs_eng(1) [OF r1] by (simp add: eng_core_def)
  obtain b s3 where 3: "trim_vmas K fd (mode = ColdOnly) vmas 0 s2 = (b, s3)" by fastforce
  obtain st' s4 where 4: "read_proc_stat K (q_pid ps) s3 = (st', s4)" by fastforce
  have r4: "runs is_read s3 s4" using read_proc_stat_runs [of is_read s3 K "q_pid ps"] 4 by simp
  have a: "s' = s4" "b \<noteq> 0 \<Longrightarrow> got = b"
    using act st assms(2,3) cfg m 3 4 by (auto simp: act_on_def heap_trim_def Let_def)
  note e = trim_vmas_exact [OF assms(1), of K mode vmas 0 s2]
  show "advised s' = advised s @ map (advise fd mode) (filter eligible vmas)"
    using e 3 advised_read [OF r1] advised_read [OF r2] advised_read [OF r4] by (simp add: a(1))
  show "got = reported K (s_now s2) (map (advise fd mode) (filter eligible vmas))"
    if "reported K (s_now s2) (map (advise fd mode) (filter eligible vmas)) \<noteq> 0" using e 3 that a(2) by simp
qed

text \<open>Without any bytes reported the difference of the two readings counts, which is a number of kilobytes.\<close>

lemma act_on_difference:
  assumes "c_dry_run (e_cfg s)" "read_proc_stat K (q_pid ps) s = (st, s1)"
    and "read_proc_stat K (q_pid ps) s1 = (st', s2)" "p_anon_rss_kb st' < p_anon_rss_kb st"
  shows "act_on K ps fd mode s = (p_anon_rss_kb st - p_anon_rss_kb st', s2)"
proof -
  have "runs is_read s s1" using read_proc_stat_runs [of is_read s K "q_pid ps"] assms(2) by simp
  then have "e_cfg s1 = e_cfg s" using runs_eng(1) by (auto simp: eng_core_def)
  moreover have "p_anon_rss_kb st \<noteq> 0" using assms(4) by (auto simp: word_less_nat_alt)
  ultimately show ?thesis using assms by (simp add: act_on_def heap_trim_dry Let_def)
qed

section \<open>The first candidate\<close>

lemma cooldown_kept: "acted_on A s s' \<Longrightarrow> t_cooldown (get_track p s) = 5 \<Longrightarrow> t_cooldown (get_track p s') = 5"
  by (cases "p \<in> A") (auto simp: acted_on_def get_track_def)


text \<open>The process 42 of the small kernel, with its mapping of 16 MiB.\<close>

definition demo_one :: eng where
  "demo_one = (demo_state config_default)\<lparr>e_snapshot := [demo_snap 42]\<rparr>"

lemma demo_one_maps:
  "map (advise 7 m) (filter eligible (fst (read_maps (demo_kernel '''' '''') 42 s))) =
     [Madvise 7 268435456 16777216 (if m = ColdOnly then MADV_COLD else MADV_PAGEOUT)]"
proof -
  have p: "proc_path 42 ''maps'' = ''/proc/42/maps''" by code_simp
  have "filter eligible (maps_text (''10000000-11000000 rw-p 0'' @ nl)) = maps_text (''10000000-11000000 rw-p 0'' @ nl)"
    "map (\<lambda>v. (v_start v, v_end v)) (maps_text (''10000000-11000000 rw-p 0'' @ nl)) = [(268435456, 285212672)]" by code_simp+
  then show ?thesis by (auto simp: read_maps_def read_file_def p demo_kernel_def demo_file_def advise_def)
qed

lemma demo_one_stat:
  "p_anon_rss_kb (fst (read_proc_stat (demo_kernel '''' '''') 42 s)) = 102400"
proof -
  have q: "proc_path 42 ''status'' = ''/proc/42/status''" "proc_path 42 ''stat'' = ''/proc/42/stat''" "proc_path 42 ''cgroup'' = ''/proc/42/cgroup''"
    by code_simp+
  have x: "map_option (\<lambda>a. p_anon_rss_kb (cgroup_text (''0::/app.slice'' @ nl) (status_text demo_status a))) (stat_text ''42 (app) S 1'') = Some 102400"
    by code_simp
  then obtain a where "stat_text ''42 (app) S 1'' = Some a" "p_anon_rss_kb (cgroup_text (''0::/app.slice'' @ nl) (status_text demo_status a)) = 102400"
    by (auto simp: map_option_eq_Some)
  then show ?thesis unfolding read_proc_stat_def read_file_def q by (simp add: demo_kernel_def demo_file_def Let_def)
qed


end
