(* ===== verification/EngineCooldown.thy ===== *)
theory EngineCooldown
  imports EngineReclaim "HOL-Library.Sublist"
begin

text \<open>
  Cooldowns over whole cycles: from the action that sets one, through the scan, the set-up, the thrash guard, the
  scores and the actions of the cycles that follow.
\<close>

section \<open>A cooling process\<close>

text \<open>\<open>cooling p n s\<close>: \<open>p\<close> is tracked and has at least \<open>n\<close> cycles of cooldown left. \<open>resting p s\<close>: whatever the last scan
  found under this number has the score 0.\<close>

definition cooling :: "pid \<Rightarrow> nat \<Rightarrow> 'a eng_scheme \<Rightarrow> bool" where
  "cooling p n s \<longleftrightarrow> (\<exists>t. e_tracked s p = Some t \<and> int n \<le> t_cooldown t)"

definition resting :: "pid \<Rightarrow> 'a eng_scheme \<Rightarrow> bool" where
  "resting p s \<longleftrightarrow> (\<forall>x \<in> set (e_snapshot s). q_pid x = p \<longrightarrow> q_score x = Fin 0)"

lemma cooling_cong: "e_tracked s' p = e_tracked s p \<Longrightarrow> cooling p n s' = cooling p n s"
  by (simp add: cooling_def)

lemma cooling_weaken: "cooling p (Suc n) s \<Longrightarrow> cooling p n s"
  by (auto simp: cooling_def)

lemma cooling_acted: "cooling p n s \<Longrightarrow> n \<le> 5 \<Longrightarrow> acted_on A s s' \<Longrightarrow> cooling p n s'"
  by (cases "p \<in> A") (fastforce simp: acted_on_def cooling_def)+

section \<open>The scan finds every process once\<close>

text \<open>The contract of \<open>/proc\<close>: no two of its directories are the same process.\<close>

definition dir_pid :: "string \<times> bool \<Rightarrow> pid option" where
  "dir_pid e = (if snd e then pid_of_name (fst e) else None)"

definition proc_contract :: "kernel \<Rightarrow> bool" where
  "proc_contract K \<longleftrightarrow> (\<forall>t es. k_proc K t = Some es \<longrightarrow> distinct (List.map_filter dir_pid es))"

lemma scan_entry_cooling:
  fixes s :: "'a eng_scheme"
  assumes "scan_entry K e (out, s) = (out', s')"
  shows "cooling p n s \<longrightarrow> cooling p n s'"
    and "\<exists>l. out' = out @ l \<and> subseq (map q_pid l) (case dir_pid e of None \<Rightarrow> [] | Some i \<Rightarrow> [i])"
proof -
  obtain name d where e: "e = (name, d)" by (cases e)
  have "(cooling p n s \<longrightarrow> cooling p n s') \<and>
    (\<exists>l. out' = out @ l \<and> subseq (map q_pid l) (case dir_pid e of None \<Rightarrow> [] | Some i \<Rightarrow> [i]))"
  proof (cases "dir_pid e")
    case None
    then show ?thesis using assms by (auto simp: scan_entry_def e dir_pid_def split: if_splits)
  next
    case (Some i)
    obtain st s1 where 1: "read_proc_stat K i s = (st, s1)" by fastforce
    have "runs is_read s (snd (read_proc_stat K i s))" by (rule read_proc_stat_runs) simp
    then have tr: "e_tracked s1 = e_tracked s" using runs_eng(2) 1 by fastforce
    define s2 where "s2 = set_track i ((get_track i s1)\<lparr>t_prev_majflt := p_majflt st\<rparr>) s1"
    have c2: "cooling p n s \<longrightarrow> cooling p n s2" by (auto simp: s2_def cooling_def get_track_def tr)
    have "(out', s') = (out, s1) \<or> (out', s') = (out @ [snap_of i st], s2)"
      using assms Some 1 by (auto simp: scan_entry_def e dir_pid_def Let_def s2_def split: if_splits)
    then show ?thesis using c2 tr Some by (auto simp: snap_of_def cooling_def)
  qed
  then show "cooling p n s \<longrightarrow> cooling p n s'"
    and "\<exists>l. out' = out @ l \<and> subseq (map q_pid l) (case dir_pid e of None \<Rightarrow> [] | Some i \<Rightarrow> [i])" by blast+
qed

lemma scan_fold_cooling:
  fixes s :: "'a eng_scheme"
  assumes "fold (scan_entry K) es (out, s) = (out', s')"
  shows "(cooling p n s \<longrightarrow> cooling p n s') \<and> (\<exists>l. out' = out @ l \<and> subseq (map q_pid l) (List.map_filter dir_pid es))"
  using assms
proof (induction es arbitrary: out s)
  case (Cons e es)
  obtain out1 s1 where 1: "scan_entry K e (out, s) = (out1, s1)" by fastforce
  note a = scan_entry_cooling [OF 1]
  obtain l1 where l1: "out1 = out @ l1" "subseq (map q_pid l1) (case dir_pid e of None \<Rightarrow> [] | Some i \<Rightarrow> [i])" using a(2) by blast
  have "fold (scan_entry K) es (out1, s1) = (out', s')" using Cons.prems 1 by simp
  from Cons.IH [OF this] obtain l2 where l2: "cooling p n s1 \<longrightarrow> cooling p n s'" "out' = out1 @ l2"
    "subseq (map q_pid l2) (List.map_filter dir_pid es)" by blast
  have "List.map_filter dir_pid (e # es) = (case dir_pid e of None \<Rightarrow> [] | Some i \<Rightarrow> [i]) @ List.map_filter dir_pid es"
    by (simp add: List.map_filter_def split: option.split)
  then have "subseq (map q_pid (l1 @ l2)) (List.map_filter dir_pid (e # es))"
    using list_emb_append_mono [OF l1(2) l2(3)] by simp
  then show ?case using a(1) [of p n] l1(1) l2(1,2) by (intro conjI impI exI [of _ "l1 @ l2"]) simp_all
qed (simp add: List.map_filter_def)

lemma subseq_distinct: "subseq xs ys \<Longrightarrow> distinct ys \<Longrightarrow> distinct xs"
  by (metis subseq_conv_nths distinct_nthsI)

lemma scan_cooling:
  fixes s :: "'a eng_scheme"
  assumes "proc_contract K" "scan_processes K (count_cycle s) = (snap, s')"
  shows "cooling p n s \<Longrightarrow> cooling p n s'" "distinct (map q_pid snap)"
proof -
  define s1 where "s1 = emit List_Proc (count_cycle s)"
  have tr: "cooling p n s1 = cooling p n s" by (rule cooling_cong) (simp add: s1_def count_cycle_def)
  have "(cooling p n s \<longrightarrow> cooling p n s') \<and> distinct (map q_pid snap)"
  proof (cases "k_proc K (s_now (count_cycle s))")
    case None
    then show ?thesis using assms(2) tr by (auto simp: scan_processes_def Let_def s1_def)
  next
    case (Some es)
    then have "fold (scan_entry K) es ([], s1) = (snap, s')" using assms(2) by (simp add: scan_processes_def Let_def s1_def)
    from scan_fold_cooling [OF this] have f: "cooling p n s1 \<longrightarrow> cooling p n s'"
      "subseq (map q_pid snap) (List.map_filter dir_pid es)" by auto
    moreover have "distinct (List.map_filter dir_pid es)" using assms(1) Some by (simp add: proc_contract_def)
    ultimately show ?thesis using tr subseq_distinct by blast
  qed
  then show "cooling p n s \<Longrightarrow> cooling p n s'" "distinct (map q_pid snap)" by blast+
qed

section \<open>The thrash guard only prolongs\<close>

lemma thrash_cooling: "cooling p n s \<Longrightarrow> cooling p n (thrash_guard fs s)"
proof (induction fs arbitrary: s)
  case (Cons f fs)
  obtain i k where f: "f = (i, k)" by (cases f)
  define s1 where "s1 = (case e_tracked s i of None \<Rightarrow> s
     | Some t \<Rightarrow> if k > 20000 \<and> t_cooldown t > 0 then set_track i (t\<lparr>t_cooldown := max (t_cooldown t) 20\<rparr>) s else s)"
  have "cooling p n s1" using Cons.prems by (auto simp: s1_def cooling_def split: option.split)
  moreover have "thrash_guard (f # fs) s = thrash_guard fs s1" by (simp add: thrash_guard_def f s1_def)
  ultimately show ?case using Cons.IH by simp
qed (simp add: thrash_guard_def)

lemma ebpf_guard_cooling:
  assumes "cooling p n s" shows "cooling p n (ebpf_guard K s)"
proof (cases "e_ebpf_on s \<and> ebpf_loaded s")
  case True
  obtain fs s1 where d: "drain_faults K s = (fs, s1)" by fastforce
  have emits: "e_tracked (fold (\<lambda>e. emit (Bpf m)) (es :: (u32 \<times> u64) list) t) = e_tracked t" for es m and t :: "'a eng_scheme"
    by (induction es arbitrary: t) simp_all
  have "e_tracked s1 = e_tracked s"
    using d emits unfolding drain_faults_def Let_def by (auto split: if_splits)
  then have "cooling p n (thrash_guard fs s1)" using assms thrash_cooling cooling_cong by metis
  then show ?thesis using True d by (simp add: ebpf_guard_def)
qed (use assms in \<open>auto simp: ebpf_guard_def\<close>)

section \<open>The scores\<close>

text \<open>The one process of the snapshot with the number \<open>p\<close> scores 0 and loses one cycle; the others do not touch its entry.\<close>

lemma score_one_other:
  assumes "score_one K ps s = Some (ps', s')" "q_pid ps \<noteq> p"
  shows "e_tracked s' p = e_tracked s p" "q_pid ps' = q_pid ps"
proof -
  have "e_tracked s' p = e_tracked s p \<and> q_pid ps' = q_pid ps"
  proof (cases "e_tracked s (q_pid ps)")
    case (Some tr)
    then obtain ps1 tr1 s1 where 1: "sample_step K (e_damon_on s) (e_cfg s) ps tr s = Some ((ps1, tr1), s1)"
      using assms by (auto simp: score_one_def split: bind_splits)
    obtain ps2 tr2 where 2: "score_step (e_cfg s1) ps1 tr1 = (ps2, tr2)" by fastforce
    have "ps' = ps2" "s' = set_track (q_pid ps) tr2 s1" using assms Some 1 2 by (simp_all add: score_one_def)
    then show ?thesis using assms(2) runs_eng(2) [OF sample_step_spec(1) [OF 1]] sample_step_spec(2) [OF 1] score_step_spec(2) [OF 2]
      by simp
  qed (use assms in \<open>simp add: score_one_def\<close>)
  then show "e_tracked s' p = e_tracked s p" "q_pid ps' = q_pid ps" by blast+
qed

lemma score_one_cooling:
  assumes "score_one K ps s = Some (ps', s')" "cooling (q_pid ps) (Suc n) s"
  shows "cooling (q_pid ps) n s'" "q_score ps' = Fin 0" "q_pid ps' = q_pid ps"
proof -
  obtain tr where tr: "e_tracked s (q_pid ps) = Some tr" "int (Suc n) \<le> t_cooldown tr" using assms(2) by (auto simp: cooling_def)
  then obtain ps1 tr1 s1 where 1: "sample_step K (e_damon_on s) (e_cfg s) ps tr s = Some ((ps1, tr1), s1)"
    using assms(1) by (auto simp: score_one_def split: bind_splits)
  obtain ps2 tr2 where 2: "score_step (e_cfg s1) ps1 tr1 = (ps2, tr2)" by fastforce
  have r: "ps' = ps2" "s' = set_track (q_pid ps) tr2 s1" using assms(1) tr(1) 1 2 by (simp_all add: score_one_def)
  have c: "t_cooldown tr1 = t_cooldown tr" using sample_step_spec(5) [OF 1] .
  then show "q_score ps' = Fin 0" using score_step_spec(5) [OF 2] tr(2) r by simp
  show "q_pid ps' = q_pid ps" using sample_step_spec(2) [OF 1] score_step_spec(2) [OF 2] r by simp
  have "t_cooldown tr2 = t_cooldown tr - 1" using 2 c tr(2) by (auto simp: score_step_def split: if_splits)
  then show "cooling (q_pid ps) n s'" using tr(2) by (simp add: r cooling_def)
qed

lemma score_all_other:
  "score_all K pss s = Some (pss', s') \<Longrightarrow> p \<notin> q_pid ` set pss \<Longrightarrow> e_tracked s' p = e_tracked s p \<and> p \<notin> q_pid ` set pss'"
proof (induction pss arbitrary: s pss')
  case (Cons ps pss)
  obtain ps1 s1 where 1: "score_one K ps s = Some (ps1, s1)" using Cons.prems by (auto split: bind_splits)
  obtain pss1 where 2: "score_all K pss s1 = Some (pss1, s')" "pss' = ps1 # pss1"
    using Cons.prems 1 by (auto split: bind_splits)
  have "q_pid ps \<noteq> p" "p \<notin> q_pid ` set pss" using Cons.prems(2) by auto
  then show ?case using score_one_other [OF 1] Cons.IH [OF 2(1)] 2(2) by auto
qed simp

lemma score_all_cooling:
  assumes "score_all K pss s = Some (pss', s')" "cooling p (Suc n) s" "distinct (map q_pid pss)"
  shows "cooling p n s' \<and> (\<forall>x \<in> set pss'. q_pid x = p \<longrightarrow> q_score x = Fin 0)"
  using assms
proof (induction pss arbitrary: s pss')
  case Nil
  then show ?case using cooling_weaken [of p n s] by simp
next
  case (Cons ps pss)
  obtain ps1 s1 where 1: "score_one K ps s = Some (ps1, s1)" using Cons.prems by (auto split: bind_splits)
  obtain pss1 where 2: "score_all K pss s1 = Some (pss1, s')" "pss' = ps1 # pss1"
    using Cons.prems 1 by (auto split: bind_splits)
  show ?case
  proof (cases "q_pid ps = p")
    case True
    then have "p \<notin> q_pid ` set pss" using Cons.prems(3) by auto
    note o = score_all_other [OF 2(1) this]
    have "cooling p n s1" "q_score ps1 = Fin 0" using score_one_cooling [OF 1] Cons.prems(2) True by auto
    then show ?thesis using o cooling_cong [of s' p s1 n] 2(2) by auto
  next
    case False
    note o = score_one_other [OF 1 False]
    have "cooling p (Suc n) s1" using Cons.prems(2) cooling_cong [OF o(1)] by simp
    from Cons.IH [OF 2(1) this] show ?thesis using Cons.prems(3) 2(2) o(2) False by auto
  qed
qed

lemma compute_scores_cooling:
  fixes s :: "'a eng_scheme"
  assumes "compute_scores K s = Some s'" "cooling p (Suc n) s" "distinct (map q_pid (e_snapshot s))"
  shows "cooling p n s'" "resting p s'"
proof -
  define s1 where "s1 = (if e_damon_on s then damon_sample s else s)"
  have s1: "e_snapshot s1 = e_snapshot s" "e_tracked s1 = e_tracked s" by (simp_all add: s1_def)
  obtain snap s2 where 2: "score_all K (e_snapshot s1) s1 = Some (snap, s2)" "s' = s2\<lparr>e_snapshot := snap\<rparr>"
    using assms(1) by (auto simp: compute_scores_def s1_def [symmetric] Let_def split: bind_splits)
  have "cooling p (Suc n) s1" using assms(2) s1(2) by (simp add: cooling_def)
  from score_all_cooling [OF 2(1) this] assms(3) s1(1) show "cooling p n s'" "resting p s'"
    by (simp_all add: 2(2) cooling_def resting_def)
qed

section \<open>A whole cycle\<close>

text \<open>A cycle of either kind; \<open>rest_in p\<close>: no handle on \<open>p\<close> is opened.\<close>

definition engine_cycle :: "kernel \<Rightarrow> std_sort_fun \<Rightarrow> string \<Rightarrow> 'a eng_scheme \<Rightarrow> 'a eng_scheme \<Rightarrow> bool" where
  "engine_cycle K srt obj s s' \<longleftrightarrow> (\<exists>kb. run_cycle K srt obj s = Some (kb, s') \<or> force_cycle K srt s = Some (kb, s'))"

definition left_alone :: "pid \<Rightarrow> 'a eng_scheme \<Rightarrow> 'a eng_scheme \<Rightarrow> bool" where
  "left_alone p s s' \<longleftrightarrow> e_cfg s' = e_cfg s \<and> only (\<lambda>e. e \<noteq> Pidfd_Open p) s s'"

lemma left_alone_refl [simp]: "left_alone p s s"
  by (simp add: left_alone_def)

lemma left_alone_trans: "left_alone p s t \<Longrightarrow> left_alone p t u \<Longrightarrow> left_alone p s u"
  by (auto simp: left_alone_def intro: only_trans)

lemma left_alone_setup: "e_cfg t = e_cfg s \<Longrightarrow> only setup_call s t \<Longrightarrow> left_alone p s t"
  by (auto simp: left_alone_def elim!: only_weaken)

lemma left_alone_observe: "e_cfg t = e_cfg s \<Longrightarrow> only observe_call s t \<Longrightarrow> left_alone p s t"
  by (auto simp: left_alone_def observe_call_def elim!: only_weaken)

lemma run_actions_resting:
  fixes s :: "'a eng_scheme"
  assumes "\<forall>lt xs. set (srt lt xs) \<subseteq> set xs" "dless (Fin 0) (c_min_score (e_cfg s))" "resting p s" "cooling p n s"
    and "run_actions K srt s = (kb, s')"
  shows "left_alone p s s'" "cooling p n s'" "resting p s'"
proof -
  define pids where "pids = q_pid ` set (filter (candidate (e_cfg s)) (e_snapshot s))"
  have p: "p \<notin> pids" using assms(2,3) by (auto simp: pids_def resting_def candidate_def)
  obtain A where A: "A \<subseteq> pids" "acted_on A s s'" "only (action_call (e_cfg s) pids) s s'"
    using run_actions_spec [OF _ assms(5) pids_def] assms(1) by blast
  have "action_call (e_cfg s) pids e \<Longrightarrow> e \<noteq> Pidfd_Open p" for e using p by (auto simp: action_call_def tail_call_def)
  then show "left_alone p s s'" using only_weaken [OF A(3)] acted_on_cfg [OF A(2)] by (simp add: left_alone_def)
  have "p \<notin> A" using A(1) p by blast
  then show "cooling p n s'" "resting p s'"
    using A(2) assms(3,4) by (auto simp: acted_on_def cooling_def eng_core_def resting_def)
qed

lemma second_resting:
  fixes g :: "'a eng_scheme"
  assumes "\<forall>lt xs. set (srt lt xs) \<subseteq> set xs" "dless (Fin 0) (c_min_score (e_cfg g))" "cooling p (Suc n) g"
    and "distinct (map q_pid (e_snapshot g))" "\<forall>ps \<in> set (e_snapshot g). fresh (k_self K) ps"
    and "compute_scores K g = Some s7" "runs setup_call s7 t" "s' = s7 \<or> s' = snd (run_actions K srt t)"
  shows "left_alone p g s' \<and> cooling p n s' \<and> resting p s'"
proof -
  note c = compute_scores_spec [OF assms(6) fresh_scored [OF assms(5)]]
  note d = compute_scores_cooling [OF assms(6,3,4)]
  have l: "left_alone p g s7" using c(1,4) by (rule left_alone_observe)
  note e = runs_eng [OF assms(7)]
  have t: "e_cfg t = e_cfg s7" "resting p t" "cooling p n t" "left_alone p s7 t"
    using e d runs_only [OF assms(7)] by (auto simp: eng_core_def resting_def cooling_def intro: left_alone_setup)
  obtain kb s8 where r: "run_actions K srt t = (kb, s8)" by fastforce
  have "left_alone p t s8" "cooling p n s8" "resting p s8"
    using run_actions_resting [OF assms(1) _ t(2,3) r] assms(2) t(1) c(1) by simp_all
  then show ?thesis using assms(8) l d t(4) r by (auto intro: left_alone_trans)
qed

text \<open>The scan and the set-up.\<close>

lemma scanned:
  fixes s :: "'a eng_scheme"
  assumes "proc_contract K" "cooling p n s" "scan_processes K (count_cycle s) = (snap, s1)" "setup_eq (s1\<lparr>e_snapshot := snap\<rparr>) g"
  shows "left_alone p s g" "cooling p n g" "distinct (map q_pid (e_snapshot g))" "\<forall>ps \<in> set (e_snapshot g). fresh (k_self K) ps"
proof -
  note a = scan_cycle [OF assms(3)] and b = scan_cooling [OF assms(1,3)]
  have "only setup_call s1 g" using assms(4) by (simp add: setup_eq_def only_def)
  then have "only setup_call s g" using a(5) by (rule only_trans [rotated])
  then show "left_alone p s g" using a(1) assms(4) by (intro left_alone_setup) (simp_all add: setup_eq_def)
  show "cooling p n g" using b(1) [OF assms(2)] assms(4) by (simp add: setup_eq_def cooling_def)
  show "distinct (map q_pid (e_snapshot g))" "\<forall>ps \<in> set (e_snapshot g). fresh (k_self K) ps"
    using b(2) a(6) assms(4) by (simp_all add: setup_eq_def)
qed

lemma first_half_setup:
  assumes "first_half K obj s = ((psi, mem), s6)"
  obtains snap s1 where "scan_processes K (count_cycle s) = (snap, s1)" "setup_eq (s1\<lparr>e_snapshot := snap\<rparr>) s6"
proof -
  obtain snap s1 where 1: "scan_processes K (count_cycle s) = (snap, s1)" by fastforce
  define s2 where "s2 = s1\<lparr>e_snapshot := snap\<rparr>"
  define s4 where "s4 = ebpf_init K obj (damon_init K (cycle_damon_config (e_cfg s2)) True s2)"
  obtain psi' s5 where 5: "psi_memory K s4 = (psi', s5)" by fastforce
  obtain mem' s6' where 6: "meminfo K s5 = (mem', s6')" by fastforce
  have e: "s6' = s6"
    using assms unfolding first_half_def 1 Let_def prod.case s2_def [symmetric] s4_def [symmetric] 5 6 by simp
  have "setup_eq s2 s4" unfolding s4_def using damon_init_setup ebpf_init_setup by (rule setup_eq_trans)
  moreover have "setup_eq s4 (snd (psi_memory K s4))" by (intro setup_eq_runs proc_runs) simp
  then have "setup_eq s4 s5" using 5 by simp
  moreover have "setup_eq s5 (snd (meminfo K s5))" by (intro setup_eq_runs proc_runs) simp
  then have "setup_eq s5 s6" using 6 e by simp
  ultimately show thesis using that [OF 1] by (auto simp: s2_def intro: setup_eq_trans)
qed

lemma run_cycle_cooling:
  fixes s :: "'a eng_scheme"
  assumes "run_cycle K srt obj s = Some (kb, s')" "\<forall>lt xs. set (srt lt xs) \<subseteq> set xs" "proc_contract K"
    and "dless (Fin 0) (c_min_score (e_cfg s))" "cooling p (Suc n) s"
  shows "left_alone p s s' \<and> cooling p n s' \<and> resting p s'"
proof -
  obtain psi mem s6 where 1: "first_half K obj s = ((psi, mem), s6)" by (metis surj_pair)
  obtain snap s1 where h: "scan_processes K (count_cycle s) = (snap, s1)" "setup_eq (s1\<lparr>e_snapshot := snap\<rparr>) s6"
    using first_half_setup [OF 1] .
  note a = scanned [OF assms(3,5) h]
  show ?thesis
  proof (cases "crisis psi mem")
    case True
    then have "s' = s6" using assms(1) by (simp add: run_cycle_halves 1)
    then show ?thesis using a cooling_weaken [OF a(2)] by (auto simp: resting_def fresh_def)
  next
    case False
    define g where "g = ebpf_guard K s6"
    have g: "guard_eq s6 g" unfolding g_def by (rule ebpf_guard_eq)
    obtain s7 where 7: "compute_scores K g = Some s7"
      using assms(1) False by (auto simp: run_cycle_halves 1 g_def split: bind_splits)
    have "s' = s7 \<or> s' = snd (run_actions K srt s7)"
      using assms(1) False 7 by (auto simp: run_cycle_halves 1 g_def [symmetric] split: if_splits)
    moreover have "left_alone p s6 g" using g by (intro left_alone_setup) (simp_all add: guard_eq_def)
    with a(1) have l: "left_alone p s g" by (rule left_alone_trans)
    moreover have "cooling p (Suc n) g" unfolding g_def using a(2) by (rule ebpf_guard_cooling)
    ultimately have "left_alone p g s' \<and> cooling p n s' \<and> resting p s'"
      using g a(3,4) assms(4) by (intro second_resting [OF assms(2) _ _ _ _ 7 runs_refl]) (auto simp: guard_eq_def left_alone_def)
    then show ?thesis using l left_alone_trans by blast
  qed
qed

lemma force_cycle_cooling:
  fixes s :: "'a eng_scheme"
  assumes "force_cycle K srt s = Some (kb, s')" "\<forall>lt xs. set (srt lt xs) \<subseteq> set xs" "proc_contract K"
    and "dless (Fin 0) (c_min_score (e_cfg s))" "cooling p (Suc n) s"
  shows "left_alone p s s' \<and> cooling p n s' \<and> resting p s'"
proof -
  obtain snap s1 where 1: "scan_processes K (count_cycle s) = (snap, s1)" by fastforce
  define s2 where "s2 = s1\<lparr>e_snapshot := snap\<rparr>"
  define s3 where "s3 = damon_init K damon_default False s2"
  have "setup_eq (s1\<lparr>e_snapshot := snap\<rparr>) s3" unfolding s3_def s2_def by (rule damon_init_setup)
  note a = scanned [OF assms(3,5) 1 this]
  obtain s4 where 4: "compute_scores K s3 = Some s4"
    using assms(1) unfolding force_cycle_def 1 Let_def prod.case s2_def [symmetric] s3_def [symmetric] by (auto split: bind_splits)
  obtain m s5 where 5: "meminfo K s4 = (m, s5)" by fastforce
  have "runs setup_call s4 (snd (meminfo K s4))" by (intro proc_runs) simp
  then have r: "runs setup_call s4 s5" using 5 by simp
  have "s' = snd (run_actions K srt s5)"
    using assms(1) unfolding force_cycle_def 1 Let_def prod.case s2_def [symmetric] s3_def [symmetric] 4 bind.bind_lunit 5 by simp
  then have "left_alone p s3 s' \<and> cooling p n s' \<and> resting p s'"
    using a assms(4) by (intro second_resting [OF assms(2) _ _ _ _ 4 r]) (auto simp: left_alone_def)
  then show ?thesis using a(1) left_alone_trans by blast
qed

lemma cycles_cooling:
  fixes s :: "'a eng_scheme"
  assumes "\<forall>lt xs. set (srt lt xs) \<subseteq> set xs" "proc_contract K"
  shows "(engine_cycle K srt obj ^^ n) s v \<Longrightarrow> dless (Fin 0) (c_min_score (e_cfg s)) \<Longrightarrow> cooling p (n + m) s \<Longrightarrow>
     left_alone p s v \<and> cooling p m v \<and> (0 < n \<longrightarrow> resting p v)"
proof (induction n arbitrary: s)
  case (Suc n)
  obtain t where t: "engine_cycle K srt obj s t" "(engine_cycle K srt obj ^^ n) t v"
    using relpowp_Suc_D2 [OF Suc.prems(1)] by blast
  have c: "cooling p (Suc (n + m)) s" using Suc.prems(3) by simp
  have a: "left_alone p s t" "cooling p (n + m) t" "resting p t"
    using t(1) run_cycle_cooling [OF _ assms Suc.prems(2) c] force_cycle_cooling [OF _ assms Suc.prems(2) c]
    unfolding engine_cycle_def by blast+
  have "dless (Fin 0) (c_min_score (e_cfg t))" using a(1) Suc.prems(2) by (simp add: left_alone_def)
  from Suc.IH [OF t(2) this a(2)] show ?case using a t(2) left_alone_trans by (cases n) auto
qed simp

section \<open>Left alone for five cycles\<close>

text \<open>The entry of a process that gives something back, at the end of its action phase.\<close>

lemma act_loop_cooling:
  fixes s :: "'a eng_scheme"
  assumes "act_loop K (ps # rest) r a s = (r', s')"
    and "a < c_max_targets (e_cfg s)" "r < push_bit 10 (c_max_reclaim_mb (e_cfg s))"
    and "pidfd_open K (q_pid ps) s = (fd, u)" "0 \<le> fd" "fst (act_on K ps fd (mode_for (e_cfg u) ps) u) \<noteq> 0"
  shows "cooling (q_pid ps) 5 s'" "e_cfg s' = e_cfg s"
proof -
  obtain got w where 2: "act_on K ps fd (mode_for (e_cfg u) ps) u = (got, w)" by fastforce
  define x where "x = set_track (q_pid ps) ((get_track (q_pid ps) w)\<lparr>t_cooldown := 5\<rparr>) w"
  have "runs (\<lambda>_. True) u (snd (act_on K ps fd (mode_for (e_cfg u) ps) u))" by (rule act_on_runs) simp_all
  then have "eng_core u w" using runs_eng(1) 2 by fastforce
  then have x: "e_cfg x = e_cfg s" "cooling (q_pid ps) 5 x"
    using assms(4) by (auto simp: x_def eng_core_def pidfd_open_def cooling_def)
  have "act_loop K rest (r + got) (a + 1) x = (r', s')"
    using assms 2 by (simp add: x_def not_le [symmetric] Let_def)
  from act_loop_spec [OF subset_refl this] obtain A where "acted_on A x s'" by blast
  then show "cooling (q_pid ps) 5 s'" "e_cfg s' = e_cfg s"
    using cooling_acted [OF x(2) order_refl] acted_on_cfg [of A x s'] x(1) by simp_all
qed

text \<open>C31. A process that gives something back is left alone for the next five cycles, of the timer or forced: wherever in
  the action loop it stands, and whatever the loop and the cgroup step do after it, none of those cycles opens a handle on
  it, and after each of them it scores 0 in the snapshot, if it is there at all. The thrash guard may only prolong this. The
  minimum score is above 0, as by default, and the kernel lists no process twice in \<open>/proc\<close>.\<close>

theorem cooldown_blocks:
  assumes "act_loop K (ps # rest) r a s = (r', s')"
    and "a < c_max_targets (e_cfg s)" "r < push_bit 10 (c_max_reclaim_mb (e_cfg s))"
    and "pidfd_open K (q_pid ps) s = (fd, u)" "0 \<le> fd" "fst (act_on K ps fd (mode_for (e_cfg u) ps) u) \<noteq> 0"
    and "\<forall>lt xs. set (srt lt xs) \<subseteq> set xs" "proc_contract K" "dless (Fin 0) (c_min_score (e_cfg s))"
    and "n \<le> 5" "(engine_cycle K srt obj ^^ n) ((cgroup_step K r' s')\<lparr>e_stats := st\<rparr>) v"
  shows "only (\<lambda>e. e \<noteq> Pidfd_Open (q_pid ps)) (cgroup_step K r' s') v \<and>
     (0 < n \<longrightarrow> (\<forall>x \<in> set (e_snapshot v). q_pid x = q_pid ps \<longrightarrow> q_score x = Fin 0))"
proof -
  note l = act_loop_cooling [OF assms(1-6)]
  define w where "w = (cgroup_step K r' s')\<lparr>e_stats := st\<rparr>"
  have c: "acted_on {} s' (cgroup_step K r' s')" using cgroup_step_spec by blast
  have "cooling (q_pid ps) 5 (cgroup_step K r' s')" using cooling_acted [OF l(1) _ c] by simp
  moreover have "5 = n + (5 - n)" using assms(10) by simp
  ultimately have w: "cooling (q_pid ps) (n + (5 - n)) w" by (simp add: w_def cooling_def)
  have "dless (Fin 0) (c_min_score (e_cfg w))" using assms(9) l(2) acted_on_cfg [OF c] by (simp add: w_def)
  from cycles_cooling [OF assms(7,8) assms(11) [folded w_def] this w] show ?thesis
    by (auto simp: left_alone_def resting_def w_def only_def)
qed

text \<open>The process 42 of the small kernel, acted on once; the next cycle exists and leaves it alone.\<close>

theorem cooldown_blocks_witness:
  "\<exists>r' s' v. act_loop (demo_kernel '''' '''') [demo_snap 42] 0 0 demo_one = (r', s') \<and>
     engine_cycle (demo_kernel '''' '''') sort_by '''' (cgroup_step (demo_kernel '''' '''') r' s') v \<and>
     only (\<lambda>e. e \<noteq> Pidfd_Open 42) (cgroup_step (demo_kernel '''' '''') r' s') v"
proof -
  let ?K = "demo_kernel '''' ''''" let ?s = demo_one
  have c: "e_cfg ?s = config_default" "q_pid (demo_snap 42) = 42"
    by (simp_all add: demo_one_def demo_state_def demo_snap_def)
  obtain u where p: "pidfd_open ?K (q_pid (demo_snap 42)) ?s = (7, u)" by (simp add: pidfd_open_def demo_kernel_def)
  have cu: "e_cfg u = config_default" using p c by (auto simp: pidfd_open_def)
  obtain b s2 where t: "act_on ?K (demo_snap 42) 7 (mode_for (e_cfg u) (demo_snap 42)) u = (b, s2)" by fastforce
  have b: "b \<noteq> 0"
  proof -
    have md: "mode_for (e_cfg u) (demo_snap 42) = Pageout" unfolding cu by code_simp
    obtain st s3 where 3: "read_proc_stat ?K (q_pid (demo_snap 42)) u = (st, s3)" by fastforce
    have st: "p_anon_rss_kb st \<noteq> 0" using demo_one_stat [of u] 3 c(2) by simp
    obtain vmas s4 where 4: "read_maps ?K (q_pid (demo_snap 42)) s3 = (vmas, s4)" by fastforce
    have calls: "map (advise 7 Pageout) (filter eligible vmas) = [Madvise 7 268435456 16777216 MADV_PAGEOUT]"
      using demo_one_maps [of Pageout s3] 4 c(2) by simp
    have "reported ?K (s_now s4) [Madvise 7 268435456 16777216 MADV_PAGEOUT] \<noteq> 0" by (simp add: demo_kernel_def)
    moreover have "\<not> c_dry_run (e_cfg u)" "c_heap_trim (e_cfg u)" unfolding cu by (simp_all add: config_default_def)
    ultimately show ?thesis using act_on_exact(2) [OF _ _ _ 3 st 4 t] unfolding md calls by auto
  qed
  obtain r' s' where l: "act_loop ?K [demo_snap 42] 0 0 ?s = (r', s')" by fastforce
  obtain kb v where v: "run_cycle ?K sort_by '''' (cgroup_step ?K r' s') = Some (kb, v)" using demo_cycle by blast
  then have e: "engine_cycle ?K sort_by '''' (cgroup_step ?K r' s') v" by (auto simp: engine_cycle_def)
  have it: "(engine_cycle ?K sort_by '''' ^^ 1) ((cgroup_step ?K r' s')\<lparr>e_stats := e_stats (cgroup_step ?K r' s')\<rparr>) v"
    unfolding relpowp_1 using e by simp
  have con: "proc_contract ?K"
  proof -
    have "dir_pid (''self'', False) = None" by (simp add: dir_pid_def)
    then show ?thesis by (simp add: proc_contract_def demo_kernel_def List.map_filter_def split: option.split)
  qed
  have lim: "0 < c_max_targets (e_cfg ?s)" "0 < push_bit 10 (c_max_reclaim_mb (e_cfg ?s))" "dless (Fin 0) (c_min_score (e_cfg ?s))"
    unfolding c by (simp_all add: config_default_def)
  have "fst (act_on ?K (demo_snap 42) 7 (mode_for (e_cfg u) (demo_snap 42)) u) \<noteq> 0" using b t by simp
  from cooldown_blocks [OF l lim(1,2) p _ this sort_by_subset con lim(3) _ it]
  have "only (\<lambda>e. e \<noteq> Pidfd_Open 42) (cgroup_step ?K r' s') v" by (simp add: c(2))
  then show ?thesis using l e by blast
qed

end
