(* ===== verification/ScoreOrder.thy ===== *)
theory ScoreOrder
  imports EngineScores
begin

text \<open>
  The score orders processes as intended, in spite of the rounding of every operation: a larger,
  colder, more swapped process of at least the same weight never scores lower.
\<close>

section \<open>Monotone operations\<close>

lemma round_bounded:
  assumes "0 \<le> q" "q \<le> 2 ^ 64"
  obtains r where "round_dbl q = Fin r" "0 \<le> r" "r \<le> 2 ^ 64"
proof -
  have "dle (round_dbl q) (Fin (2 ^ 64))" using round_dbl_mono [OF assms(2)] unfolding round_dbl_2_64 .
  moreover have "dle (Fin 0) (round_dbl q)" using round_dbl_mono [OF assms(1)] by simp
  ultimately show ?thesis using that by (cases "round_dbl q") (auto simp: dle_def)
qed

lemma round_le: "p \<le> q \<Longrightarrow> round_dbl p = Fin a \<Longrightarrow> round_dbl q = Fin b \<Longrightarrow> a \<le> b"
  using round_dbl_mono [of p q] by simp

text \<open>The cold part lies between 0 and 1 and falls as the ratio grows.\<close>

lemma round_le_1: "0 \<le> q \<Longrightarrow> q \<le> 1 \<Longrightarrow> round_dbl q = Fin r \<Longrightarrow> 0 \<le> r \<and> r \<le> 1"
  using round_le [of q 1 r 1] round_le [of 0 q 0 r] by simp

lemma warm_cap:
  assumes "0 \<le> x"
  shows "\<exists>m. dmin (Fin 1) (dmul (Fin x) (Fin 4)) = Fin m \<and> 0 \<le> m \<and> m \<le> 1 \<and>
    (\<forall>y\<ge>x. \<forall>m'. dmin (Fin 1) (dmul (Fin y) (Fin 4)) = Fin m' \<longrightarrow> m \<le> m')"
proof -
  have le: "dle (round_dbl (x * 4)) (round_dbl (y * 4))" if "x \<le> y" for y using that by (intro round_dbl_mono) simp
  have nn: "dle (Fin 0) (round_dbl (y * 4))" if "x \<le> y" for y using round_dbl_mono [of 0 "y * 4"] that assms by simp
  show ?thesis
  proof (cases "round_dbl (x * 4)")
    case (Fin a)
    have a: "0 \<le> a" using nn [of x] Fin by simp
    show ?thesis
    proof (cases "a < 1")
      case True
      have "a \<le> m'" if "x \<le> y" "dmin (Fin 1) (dmul (Fin y) (Fin 4)) = Fin m'" for y m'
        using le [OF that(1)] that(2) Fin True by (cases "round_dbl (y * 4)") (auto simp: dmin_def split: if_splits)
      then show ?thesis using a True Fin by (auto simp: dmin_def)
    next
      case False
      have "1 \<le> m'" if "x \<le> y" "dmin (Fin 1) (dmul (Fin y) (Fin 4)) = Fin m'" for y m'
        using le [OF that(1)] that(2) Fin False by (cases "round_dbl (y * 4)") (auto simp: dmin_def split: if_splits)
      then show ?thesis using False Fin by (auto simp: dmin_def)
    qed
  next
    case PInf
    have "1 \<le> m'" if "x \<le> y" "dmin (Fin 1) (dmul (Fin y) (Fin 4)) = Fin m'" for y m'
      using le [OF that(1)] that(2) PInf by (cases "round_dbl (y * 4)") (auto simp: dmin_def dle_def split: if_splits)
    then show ?thesis using PInf by (auto simp: dmin_def)
  next
    case NInf
    then show ?thesis using nn [of x] by (simp add: dle_def)
  next
    case NaN
    then show ?thesis by simp
  qed
qed

lemma cold_part_order:
  assumes "0 \<le> y" "y \<le> x"
  shows "\<exists>cx cy. cold_part (Fin x) = Fin cx \<and> cold_part (Fin y) = Fin cy \<and> 0 \<le> cx \<and> cx \<le> cy \<and> cy \<le> 1"
proof -
  obtain my where my: "dmin (Fin 1) (dmul (Fin y) (Fin 4)) = Fin my" "0 \<le> my" "my \<le> 1"
    "\<forall>x\<ge>y. \<forall>m'. dmin (Fin 1) (dmul (Fin x) (Fin 4)) = Fin m' \<longrightarrow> my \<le> m'" using warm_cap [OF assms(1)] by blast
  have "0 \<le> x" using assms by simp
  then obtain mx where mx: "dmin (Fin 1) (dmul (Fin x) (Fin 4)) = Fin mx" "0 \<le> mx" "mx \<le> 1" using warm_cap by blast
  have m: "my \<le> mx" using my(4) assms(2) mx(1) by blast
  obtain cx where cx: "round_dbl (1 - mx) = Fin cx" by (rule round_bounded [of "1 - mx"]) (use mx in simp_all)
  obtain cy where cy: "round_dbl (1 - my) = Fin cy" by (rule round_bounded [of "1 - my"]) (use my in simp_all)
  have "cold_part (Fin x) = Fin cx" "cold_part (Fin y) = Fin cy"
    unfolding cold_part_def mx(1) my(1) using cx cy by (simp_all add: dsub_def)
  moreover have "0 \<le> cx" using round_le_1 [OF _ _ cx] mx(2,3) by simp
  moreover have "cy \<le> 1" using round_le_1 [OF _ _ cy] my(2,3) by simp
  moreover have "cx \<le> cy" by (rule round_le [OF _ cx cy]) (use m in simp)
  ultimately show ?thesis by blast
qed

text \<open>A product of bounded nonnegative numbers.\<close>

lemma product_order:
  assumes "0 \<le> a" "a \<le> b" "0 \<le> c" "c \<le> d" "b * d \<le> 2 ^ 64"
  shows "\<exists>p q. dmul (Fin a) (Fin c) = Fin p \<and> dmul (Fin b) (Fin d) = Fin q \<and> 0 \<le> p \<and> p \<le> q"
proof -
  have le: "a * c \<le> b * d" using assms by (intro mult_mono) simp_all
  have nn: "0 \<le> a * c" using assms by simp
  obtain p where p: "round_dbl (a * c) = Fin p" "0 \<le> p" by (rule round_bounded [OF nn]) (use le assms(5) in linarith)
  obtain q where q: "round_dbl (b * d) = Fin q" by (rule round_bounded [of "b * d"]) (use nn le assms(5) in linarith)+
  show ?thesis using p q round_le [OF le p(1) q] by auto
qed

section \<open>The score\<close>

lemma size_order:
  assumes "v \<le> w"
  shows "\<exists>a b. ddiv (dbl_of_u64 v) (Fin 1024) = Fin a \<and> ddiv (dbl_of_u64 w) (Fin 1024) = Fin b \<and> 0 \<le> a \<and> a \<le> b \<and> b \<le> 2 ^ 54"
proof -
  obtain x where x: "dbl_of_u64 v = Fin x" "0 \<le> x" "x \<le> 2 ^ 64" by (rule dbl_of_u64_finite)
  obtain y where y: "dbl_of_u64 w = Fin y" "0 \<le> y" "y \<le> 2 ^ 64" by (rule dbl_of_u64_finite)
  have "(of_nat (unat v) :: rat) \<le> of_nat (unat w)" using assms by (simp only: of_nat_le_iff word_le_nat_alt)
  then have xy: "x \<le> y" using x(1) y(1) unfolding dbl_of_u64_def by (rule round_le)
  obtain a where a: "round_dbl (x / 1024) = Fin a" "0 \<le> a" by (rule round_bounded [of "x / 1024"]) (use x in simp_all)
  obtain b where b: "round_dbl (y / 1024) = Fin b" by (rule round_bounded [of "y / 1024"]) (use y in simp_all)
  have e: "round_dbl (2 ^ 54) = Fin (2 ^ 54)" by code_simp
  have "y / 1024 \<le> 2 ^ 54" using y(3) by simp
  then have "b \<le> 2 ^ 54" using b e by (rule round_le)
  moreover have "a \<le> b" by (rule round_le [OF _ a(1) b]) (use xy in simp)
  ultimately show ?thesis using a b by (simp add: x(1) y(1))
qed

lemma swap_order:
  assumes "q_swap_kb ps \<noteq> 0 \<longrightarrow> q_swap_kb qs \<noteq> 0"
  shows "\<exists>f g. (if q_swap_kb ps \<noteq> 0 then dlit 13 1 else Fin 1) = Fin f \<and> (if q_swap_kb qs \<noteq> 0 then dlit 13 1 else Fin 1) = Fin g \<and>
    1 \<le> f \<and> f \<le> g \<and> g \<le> 2"
proof -
  have "dlit 13 1 = Fin (5854679515581645 / 4503599627370496)" by code_simp
  moreover define h :: rat where "h = 5854679515581645 / 4503599627370496"
  ultimately have "dlit 13 1 = Fin h" by simp
  moreover have "1 \<le> h" "h \<le> 2" by (simp_all add: h_def)
  ultimately show ?thesis using assms by auto
qed

text \<open>C20. Under a policy weight that is finite and not negative the score of a process is never negative, and of two processes of the same such weight the one with at least as much anonymous memory, at most
  the ratio of touched pages, and swap if the other has swap never scores lower, although every
  operation rounds.\<close>

theorem score_orders:
  assumes "q_anon_kb ps \<le> q_anon_kb qs" "q_ws_ratio ps = Fin x" "q_ws_ratio qs = Fin y" "0 \<le> y" "y \<le> x"
    "q_swap_kb ps \<noteq> 0 \<longrightarrow> q_swap_kb qs \<noteq> 0" "weight_for c ps = Fin w" "weight_for c qs = Fin w" "0 \<le> w"
  shows "dle (score_of c ps) (score_of c qs) \<and> dle (Fin 0) (score_of c ps)"
proof -
  obtain a b where ab: "ddiv (dbl_of_u64 (q_anon_kb ps)) (Fin 1024) = Fin a" "ddiv (dbl_of_u64 (q_anon_kb qs)) (Fin 1024) = Fin b"
    "0 \<le> a" "a \<le> b" "b \<le> 2 ^ 54" using size_order [OF assms(1)] by blast
  obtain cx cy where c: "cold_part (Fin x) = Fin cx" "cold_part (Fin y) = Fin cy" "0 \<le> cx" "cx \<le> cy" "cy \<le> 1"
    using cold_part_order [OF assms(4,5)] by blast
  obtain f g where fg: "(if q_swap_kb ps \<noteq> 0 then dlit 13 1 else Fin 1) = Fin f" "(if q_swap_kb qs \<noteq> 0 then dlit 13 1 else Fin 1) = Fin g"
    "1 \<le> f" "f \<le> g" "g \<le> 2" using swap_order [OF assms(6)] by blast
  have "b * cy \<le> 2 ^ 54 * 1" using ab c by (intro mult_mono) simp_all
  then have b1: "b * cy \<le> 2 ^ 54" by simp
  then obtain p q where pq: "dmul (Fin a) (Fin cx) = Fin p" "dmul (Fin b) (Fin cy) = Fin q" "0 \<le> p" "p \<le> q"
    using product_order [OF ab(3,4) c(3,4)] by fastforce
  have "round_dbl (2 ^ 54) = Fin (2 ^ 54)" by code_simp
  then have "q \<le> 2 ^ 54" using round_le [OF b1] pq(2) by simp
  then have "q * g \<le> 2 ^ 54 * 2" using fg pq by (intro mult_mono) simp_all
  then obtain r t where rt: "dmul (Fin p) (Fin f) = Fin r" "dmul (Fin q) (Fin g) = Fin t" "0 \<le> r" "r \<le> t"
    using product_order [OF pq(3,4) _ fg(4)] fg(3) by fastforce
  have "score_of c ps = round_dbl (r * w)" "score_of c qs = round_dbl (t * w)"
    unfolding score_of_def Let_def assms(2,3,7,8) ab(1,2) c(1,2) fg(1,2) pq(1,2) rt(1,2) by simp_all
  moreover have "r * w \<le> t * w" "0 \<le> r * w" using rt(3,4) assms(9) by (simp_all add: mult_right_mono)
  ultimately show ?thesis using round_dbl_mono [of "r * w" "t * w"] round_dbl_mono [of 0 "r * w"] by simp
qed

text \<open>Two processes of 64 and 128 MB, of which an eighth and none was touched.\<close>

definition score_demo :: "u64 \<Rightarrow> dbl \<Rightarrow> proc_snap" where
  "score_demo kb ratio = \<lparr>q_pid = 100, q_comm = ''a'', q_cgroup = ''/'', q_rss_kb = kb, q_anon_kb = kb, q_file_kb = 0, q_swap_kb = 0,
     q_ws_prev_kb = 0, q_ws_ratio = ratio, q_score = Fin 0, q_reclaimed_recent = False\<rparr>"

theorem score_orders_witness:
  "dle (score_of config_default (score_demo 65536 (Fin (1 / 8)))) (score_of config_default (score_demo 131072 (Fin 0)))"
proof -
  let ?p = "score_demo 65536 (Fin (1 / 8))" and ?q = "score_demo 131072 (Fin 0)"
  have h: "q_anon_kb ?p \<le> q_anon_kb ?q" "q_ws_ratio ?p = Fin (1 / 8)" "q_ws_ratio ?q = Fin 0" "(0 :: rat) \<le> 0" "(0 :: rat) \<le> 1 / 8"
    "q_swap_kb ?p \<noteq> 0 \<longrightarrow> q_swap_kb ?q \<noteq> 0" "(0 :: rat) \<le> 1" by (simp_all add: score_demo_def)
  have "weight_for config_default ?p = Fin 1" "weight_for config_default ?q = Fin 1"
    by (simp_all add: weight_for_def config_default_def)
  from score_orders [OF h(1-6) this h(7)] show ?thesis by blast
qed

end
