(* ===== verification/Ipc.thy ===== *)
theory Ipc
  imports CScan
begin

text \<open>
  The control protocol: the request of two 32-bit words (\<open>include/memflux/ipc.hpp\<close>), the client
  side \<open>send_request\<close> (\<open>src/daemon/ipc.cpp\<close>) and the command line tool
  (\<open>src/tools/ctl.cpp\<close>). What the socket calls answer is an argument.
\<close>

section \<open>Requests\<close>

type_synonym byte = "8 word"

definition ipc_sock :: string where
  "ipc_sock = ''/run/memflux/memflux.sock''"

datatype ipc_cmd = C_STATUS | C_PAUSE | C_RESUME | C_KICK | C_ADJUST | C_TOP | C_FORCE

fun cmd_code :: "ipc_cmd \<Rightarrow> u32" where
  "cmd_code C_STATUS = 1" | "cmd_code C_PAUSE = 2" | "cmd_code C_RESUME = 3" | "cmd_code C_KICK = 4"
| "cmd_code C_ADJUST = 5" | "cmd_code C_TOP = 6" | "cmd_code C_FORCE = 7"

text \<open>\<open>uint32_t req[2]\<close> in memory, least significant byte first.\<close>

definition u32_bytes :: "u32 \<Rightarrow> byte list" where
  "u32_bytes w = [ucast w, ucast (drop_bit 8 w), ucast (drop_bit 16 w), ucast (drop_bit 24 w)]"

definition bytes_u32 :: "byte list \<Rightarrow> u32" where
  "bytes_u32 bs = foldr (\<lambda>b w. ucast b + push_bit 8 w) bs 0"

definition request_bytes :: "u32 \<Rightarrow> u32 \<Rightarrow> byte list" where
  "request_bytes cmd arg = u32_bytes cmd @ u32_bytes arg"

text \<open>What one \<open>read\<close> of 8 bytes makes of the bytes there are: a request only when it gets all 8.\<close>

definition parse_request :: "byte list \<Rightarrow> (u32 \<times> u32) option" where
  "parse_request bs = (let r = take 8 bs in if length r = 8 then Some (bytes_u32 (take 4 r), bytes_u32 (drop 4 r)) else None)"

lemma bytes_u32_bytes: "bytes_u32 (u32_bytes w) = w"
proof -
  have "ucast (ucast w :: byte) + push_bit 8 (ucast (ucast (drop_bit 8 w) :: byte) +
      push_bit 8 (ucast (ucast (drop_bit 16 w) :: byte) + push_bit 8 (ucast (ucast (drop_bit 24 w) :: byte)))) = w"
  proof -
    have s: "ucast (a :: byte) + push_bit 8 b = or (ucast a) (push_bit 8 b)" for a and b :: u32
      by (rule disjunctive_add) (auto simp: bit_simps dest: bit_imp_le_length)
    show ?thesis unfolding s
    proof (rule bit_word_eqI)
      fix n assume "n < LENGTH(32)"
      then show "bit (or (ucast (ucast w :: byte)) (push_bit 8 (or (ucast (ucast (drop_bit 8 w) :: byte))
          (push_bit 8 (or (ucast (ucast (drop_bit 16 w) :: byte)) (push_bit 8 (ucast (ucast (drop_bit 24 w) :: byte))))))) :: u32) n = bit w n"
        by (cases "n < 16"; cases "n < 24") (auto simp: bit_simps dest: bit_imp_le_length)
    qed
  qed
  then show ?thesis by (simp add: bytes_u32_def u32_bytes_def)
qed

text \<open>The daemon decodes every request the client encodes; fewer than 8 bytes are no request.\<close>

theorem request_roundtrip:
  "parse_request (request_bytes cmd arg @ rest) = Some (cmd, arg) \<and>
   (parse_request bs = None) = (length bs < 8)"
proof -
  have "length (u32_bytes w) = 4" for w by (simp add: u32_bytes_def)
  then show ?thesis by (simp add: parse_request_def request_bytes_def bytes_u32_bytes Let_def min_def)
qed

section \<open>The client\<close>

text \<open>
  What the calls of one exchange answer: the socket, \<open>connect\<close>, the result of \<open>write\<close>, the pieces
  the successful reads return, and \<open>errno\<close> after a failure.
\<close>

record peer =
  pr_socket :: bool
  pr_connect :: bool
  pr_write :: int
  pr_reads :: "string list"
  pr_errno :: int

text \<open>\<open>send_request\<close>: the text received and the error number.\<close>

definition send_request :: "peer \<Rightarrow> string \<times> int" where
  "send_request p =
     (if \<not> pr_socket p then ('''', pr_errno p)
      else if \<not> pr_connect p then ('''', pr_errno p)
      else if pr_write p \<noteq> 8 then ('''', pr_errno p)
      else (concat (pr_reads p), 0))"

text \<open>
  The tool: standard output, standard error and the exit status. \<open>send\<close> is an exchange with the
  daemon; \<open>argv\<close> includes the program's name.
\<close>

definition ctl_usage :: string where
  "ctl_usage = ''usage: memfluxctl <status|top [n]|pause|resume|kick|force|adjust <psi_x1000>>'' @ [newline]"

text \<open>The request a command line asks for, or the message and status it is refused with.\<close>

definition ctl_request :: "string list \<Rightarrow> (string \<times> int) + (ipc_cmd \<times> u32)" where
  "ctl_request argv =
     (if length argv < 2 then Inl (ctl_usage, 1)
      else if argv ! 1 = ''status'' then Inr (C_STATUS, 0)
      else if argv ! 1 = ''top'' then Inr (C_TOP, if length argv > 2 then atoi (argv ! 2) else 10)
      else if argv ! 1 = ''pause'' then Inr (C_PAUSE, 0)
      else if argv ! 1 = ''resume'' then Inr (C_RESUME, 0)
      else if argv ! 1 = ''kick'' then Inr (C_KICK, 0)
      else if argv ! 1 = ''force'' then Inr (C_FORCE, 0)
      else if argv ! 1 = ''adjust'' then
        (if length argv < 3 then Inl (''adjust <psi x1000, ex: 150>'' @ [newline], 1) else Inr (C_ADJUST, atoi (argv ! 2)))
      else Inl (''cmd inconnue: '' @ argv ! 1 @ [newline], 1))"

text \<open>The two messages at the end; the second is UTF-8.\<close>

definition ctl_unreachable :: "int \<Rightarrow> string" where
  "ctl_unreachable err = ''memfluxd injoignable (errno='' @ show_int err @ '') '' @
     [CHR 0xE2, CHR 0x80, CHR 0x94] @ '' est-il lanc'' @ [CHR 0xC3, CHR 0xA9] @ '' ?'' @ [newline]"

definition ctl_main :: "(ipc_cmd \<Rightarrow> u32 \<Rightarrow> string \<times> int) \<Rightarrow> string list \<Rightarrow> string \<times> string \<times> int" where
  "ctl_main send argv = (case ctl_request argv of
     Inl (msg, status) \<Rightarrow> ('''', msg, status)
   | Inr (cmd, arg) \<Rightarrow>
       (let (r, err) = send cmd arg
        in if r = [] then ('''', ctl_unreachable err, 2) else (cstr r @ [newline], '''', 0)))"

text \<open>The exit status of the tool tells the three outcomes apart: 1 when the command line is refused
  and nothing is sent, 2 when no text came back, 0 when there is an answer.\<close>

lemma ctl_status:
  "snd (snd (ctl_main send argv)) =
     (case ctl_request argv of
        Inl _ \<Rightarrow> 1
      | Inr (cmd, arg) \<Rightarrow> if fst (send cmd arg) = [] then 2 else 0) \<and>
   ((\<exists>m. ctl_request argv = Inl m) \<longleftrightarrow> length argv < 2 \<or>
      argv ! 1 \<notin> {''status'', ''top'', ''pause'', ''resume'', ''kick'', ''force'', ''adjust''} \<or>
      argv ! 1 = ''adjust'' \<and> length argv < 3)"
proof -
  have "ctl_request argv = Inl (m, s) \<Longrightarrow> s = 1" for m s
    by (auto simp: ctl_request_def split: if_splits)
  then show ?thesis
    by (auto simp: ctl_main_def split: sum.splits prod.splits) (auto simp: ctl_request_def split: if_splits)
qed

text \<open>A daemon that does not listen gives status 2 for every accepted command.\<close>

lemma ctl_no_daemon:
  "\<not> pr_connect p \<Longrightarrow> ctl_request argv = Inr (cmd, arg) \<Longrightarrow>
     ctl_main (\<lambda>c a. send_request p) argv = ('''', ctl_unreachable (pr_errno p), 2)"
  by (simp add: ctl_main_def send_request_def)

end
