(* ===== verification/LogFmt.thy ===== *)
theory LogFmt
  imports Config
begin

text \<open>
  Text output: \<open>printf\<close> conversions as the daemon uses them, the variadic formatter of
  \<open>common.hpp\<close> (lines 27 to 62), and the logger of \<open>src/core/log.cpp\<close> (lines 9 to 62). The clock
  and \<open>strftime\<close> are arguments of a log line; whether a log file opens is an argument of
  \<open>log_init\<close>.
\<close>

section \<open>Conversions of \<open>printf\<close>\<close>

definition pad_left :: "nat \<Rightarrow> string \<Rightarrow> string" where
  "pad_left w s = replicate (w - length s) (CHR '' '') @ s"

definition pad_right :: "nat \<Rightarrow> string \<Rightarrow> string" where
  "pad_right w s = s @ replicate (w - length s) (CHR '' '')"

text \<open>\<open>%.<p>f\<close> for a positive precision: the exact value rounded to \<open>p\<close> decimals, ties to even.\<close>

definition fixed_digits :: "nat \<Rightarrow> rat \<Rightarrow> string" where
  "fixed_digits p q =
     (let ds = show_nat (nat (round_even (q * of_int (10 ^ p))));
          zs = replicate (p + 1 - length ds) (CHR ''0'') @ ds
      in take (length zs - p) zs @ ''.'' @ drop (length zs - p) zs)"

definition show_fixed :: "nat \<Rightarrow> dbl \<Rightarrow> string" where
  "show_fixed p d = (case d of
     Fin q \<Rightarrow> (if q < 0 then CHR ''-'' # fixed_digits p (- q) else fixed_digits p q)
   | PInf \<Rightarrow> ''inf'' | NInf \<Rightarrow> ''-inf'' | NaN \<Rightarrow> ''nan'')"

text \<open>\<open>(unsigned)x\<close>: the integer part; outside the type the conversion is undefined.\<close>

definition to_unsigned :: "dbl \<Rightarrow> u32 option" where
  "to_unsigned d = (case d of
     Fin q \<Rightarrow> (if - 1 < q \<and> q < 2 ^ 32 then Some (word_of_int (if q < 0 then 0 else \<lfloor>q\<rfloor>)) else None)
   | _ \<Rightarrow> None)"

section \<open>The formatter\<close>

datatype fmt_arg =
    F_str string
  | F_cstr "string option"
  | F_char char
  | F_bool bool
  | F_int int
  | F_uint nat
  | F_dbl dbl
  | F_vec "fmt_arg list"

fun commas :: "string list \<Rightarrow> string" where
  "commas [] = ''''"
| "commas [s] = s"
| "commas (s # t # r) = s @ '','' @ commas (t # r)"

fun append_one :: "fmt_arg \<Rightarrow> string" where
  "append_one (F_str s) = s"
| "append_one (F_cstr s) = (case s of Some t \<Rightarrow> cstr t | None \<Rightarrow> ''(null)'')"
| "append_one (F_char c) = [c]"
| "append_one (F_bool b) = (if b then ''true'' else ''false'')"
| "append_one (F_int i) = show_int i"
| "append_one (F_uint n) = show_nat n"
| "append_one (F_dbl d) = show_fixed 6 d"
| "append_one (F_vec es) = ''['' @ commas (map append_one es) @ '']''"

fun join :: "fmt_arg list \<Rightarrow> string" where
  "join [] = ''''"
| "join (a # r) = append_one a @ (if r \<noteq> [] then '' '' else '''') @ join r"

definition fmt_line :: "fmt_arg list \<Rightarrow> string" where
  "fmt_line as = join as"

section \<open>The logger\<close>

text \<open>\<open>l_fp\<close> is the open log file, \<open>None\<close> for standard error; \<open>l_out\<close> what was written where,
  newest first.\<close>

record logger =
  l_level :: log_level
  l_fp :: "string option"
  l_own_fp :: bool
  l_initialized :: bool
  l_out :: "(string option \<times> string) list"

definition logger_initial :: logger where
  "logger_initial = \<lparr>l_level = Info, l_fp = None, l_own_fp = False, l_initialized = False, l_out = []\<rparr>"

definition log_init :: "bool \<Rightarrow> log_level \<Rightarrow> string \<Rightarrow> logger \<Rightarrow> logger" where
  "log_init opens lvl file l =
     (let l1 = l\<lparr>l_level := lvl\<rparr>;
          l2 = (if l_fp l1 \<noteq> None \<and> l_own_fp l1 then l1\<lparr>l_fp := None, l_own_fp := False\<rparr> else l1);
          l3 = (if file \<noteq> [] then l2\<lparr>l_fp := (if opens then Some (cstr file) else None), l_own_fp := opens\<rparr> else l2)
      in l3\<lparr>l_initialized := True\<rparr>)"

definition log_set_level :: "log_level \<Rightarrow> logger \<Rightarrow> logger" where
  "log_set_level lvl l = l\<lparr>l_level := lvl\<rparr>"

definition log_initialized :: "logger \<Rightarrow> bool" where
  "log_initialized l = l_initialized l"

fun level_num :: "log_level \<Rightarrow> nat" where
  "level_num Debug = 0" | "level_num Info = 1" | "level_num Warn = 2" | "level_num Error = 3"

definition log_enabled :: "log_level \<Rightarrow> logger \<Rightarrow> bool" where
  "log_enabled lvl l \<longleftrightarrow> level_num lvl \<ge> level_num (l_level l)"

definition log_names :: "string list" where
  "log_names = [''DEBUG'', ''INFO '', ''WARN '', ''ERROR'']"

text \<open>\<open>ts\<close> is the output of \<open>strftime\<close>, \<open>nsec\<close> the field \<open>tv_nsec\<close>.\<close>

definition log_text :: "string \<Rightarrow> nat \<Rightarrow> log_level \<Rightarrow> string \<Rightarrow> string" where
  "log_text ts nsec lvl msg =
     fmt_line [F_cstr (Some ''[''), F_cstr (Some ts), F_cstr (Some ''.''), F_uint (nsec div 1000000), F_cstr (Some ''] ''),
       F_cstr (Some (log_names ! level_num lvl)), F_cstr (Some '' ''), F_str msg, F_cstr (Some [newline])]"

definition log_msg :: "string \<Rightarrow> nat \<Rightarrow> log_level \<Rightarrow> string \<Rightarrow> logger \<Rightarrow> logger" where
  "log_msg ts nsec lvl msg l = l\<lparr>l_out := (l_fp l, log_text ts nsec lvl msg) # l_out l\<rparr>"

text \<open>The \<open>LOG_\<close> macros format and write only when the level is enabled.\<close>

definition log_at :: "string \<Rightarrow> nat \<Rightarrow> log_level \<Rightarrow> fmt_arg list \<Rightarrow> logger \<Rightarrow> logger" where
  "log_at ts nsec lvl as l = (if log_enabled lvl l then log_msg ts nsec lvl (fmt_line as) l else l)"

section \<open>Properties\<close>

lemma show_fixed_example: "show_fixed 6 (Fin (5 / 2)) = ''2.500000''"
  by (simp add: show_fixed_def fixed_digits_def round_even_def show_nat_eval Let_def)

text \<open>The example of the repository's own test.\<close>

lemma fmt_line_example:
  "fmt_line [F_cstr (Some ''a''), F_int 1, F_dbl (Fin (5 / 2)), F_str ''b''] = ''a 1 2.500000 b''"
  by (simp add: fmt_line_def show_int_def show_fixed_example cstr_def show_nat_eval)

text \<open>Cutting a line at its blanks.\<close>

fun words_of :: "string \<Rightarrow> string list" where
  "words_of [] = [[]]"
| "words_of (c # s) = (if c = CHR '' '' then [] # words_of s else (case words_of s of w # ws \<Rightarrow> (c # w) # ws | [] \<Rightarrow> [[c]]))"

lemma words_of_word:
  assumes "CHR '' '' \<notin> set w"
  shows "words_of w = [w]" "words_of (w @ CHR '' '' # s) = w # words_of s"
  using assms by (induction w) auto

text \<open>The formatter puts one blank between the texts of its arguments and nothing else: when none
  of the texts has a blank in it, cutting the line at its blanks gives the texts back.\<close>

theorem fmt_line_roundtrip:
  assumes "as \<noteq> []" "\<forall>a \<in> set as. CHR '' '' \<notin> set (append_one a)"
  shows "words_of (fmt_line as) = map append_one as"
  using assms
proof (induction as)
  case (Cons a as)
  then show ?case by (cases as) (auto simp: fmt_line_def words_of_word)
qed simp

theorem fmt_line_roundtrip_witness:
  "words_of (fmt_line [F_cstr (Some ''a''), F_int 1, F_dbl (Fin (5 / 2)), F_str ''b'']) = [''a'', ''1'', ''2.500000'', ''b'']"
proof -
  have t: "append_one (F_cstr (Some ''a'')) = ''a''" "append_one (F_int 1) = ''1''"
    "append_one (F_dbl (Fin (5 / 2))) = ''2.500000''" "append_one (F_str ''b'') = ''b''"
    by (simp_all add: show_int_def show_fixed_example cstr_def show_nat_eval)
  have "words_of (fmt_line [F_cstr (Some ''a''), F_int 1, F_dbl (Fin (5 / 2)), F_str ''b'']) =
      map append_one [F_cstr (Some ''a''), F_int 1, F_dbl (Fin (5 / 2)), F_str ''b'']"
    by (rule fmt_line_roundtrip) (simp_all add: t del: append_one.simps)
  then show ?thesis by (simp add: t del: append_one.simps)
qed

text \<open>A log line as it is written: the formatter separates the pieces of the time stamp too, so there
  are blanks around the point and two before the level, and the milliseconds are not padded.\<close>

theorem log_line_text:
  "log_text ts nsec lvl msg =
     ''[ '' @ cstr ts @ '' . '' @ show_nat (nsec div 1000000) @ '' ]  '' @ log_names ! level_num lvl @ ''   '' @ msg @ '' '' @ [newline]"
  by (cases lvl) (simp_all add: log_text_def fmt_line_def log_names_def cstr_def numeral_2_eq_2 numeral_3_eq_3)

text \<open>A disabled level changes nothing, an enabled one adds exactly one line to the current target.\<close>

lemma log_at_out:
  "l_out (log_at ts nsec lvl as l) =
     (if level_num lvl < level_num (l_level l) then l_out l else (l_fp l, log_text ts nsec lvl (fmt_line as)) # l_out l)"
  by (simp add: log_at_def log_msg_def log_enabled_def)

end
