(* ===== verification/Daemon.thy ===== *)
theory Daemon
  imports Engine Ipc LogFmt
begin

text \<open>
  The daemon \<open>memfluxd\<close> (\<open>src/daemon/main.cpp\<close>): command line, startup, the commands of the
  control socket, and the main loop as a labelled step relation. The state extends the engine's:
  the engine refers to the daemon's own configuration, so both see what \<open>C_ADJUST\<close> changes. Log lines
  of the daemon are not modelled; the set-up of the logger is.
\<close>

section \<open>State\<close>

datatype ipc_call = Unlink string | Bind string | Chmod string nat | Listen nat | Reply string | Close_Server

text \<open>\<open>dm_next\<close> is a point of the steady clock in nanoseconds; \<open>dm_srv\<close> the listening socket or a
  negative number; \<open>dm_ipc\<close> what was done with sockets, newest first.\<close>

record daemon = eng +
  dm_run :: bool
  dm_paused :: bool
  dm_cfg_path :: string
  dm_log :: logger
  dm_srv :: int
  dm_next :: int
  dm_ipc :: "ipc_call list"

definition on_signal :: "'a daemon_scheme \<Rightarrow> 'a daemon_scheme" where
  "on_signal d = d\<lparr>dm_run := False\<rparr>"

definition sock_call :: "ipc_call \<Rightarrow> 'a daemon_scheme \<Rightarrow> 'a daemon_scheme" where
  "sock_call e d = d\<lparr>dm_ipc := e # dm_ipc d\<rparr>"

section \<open>Commands\<close>

text \<open>The status text: \<open>snprintf\<close> into 512 bytes.\<close>

definition status_text :: "global_stats \<Rightarrow> mem_info \<Rightarrow> u32 \<Rightarrow> bool \<Rightarrow> string" where
  "status_text st m thr paused = take 511
     (''cycles='' @ show_nat (unat (st_cycles st)) @ '' pageout_mb='' @ show_nat (unat (st_pageouts_kb st div 1024)) @
      '' cgroup_mb='' @ show_nat (unat (st_cgroup_kb st div 1024)) @ '' errors='' @ show_nat (unat (st_errors st)) @ [newline] @
      ''mem_total_mb='' @ show_nat (unat (m_total_kb m div 1024)) @ '' mem_free_mb='' @ show_nat (unat (m_free_kb m div 1024)) @
      '' anon_mb='' @ show_nat (unat (m_anon_kb m div 1024)) @ '' swap_free_mb='' @ show_nat (unat (m_swap_free_kb m div 1024)) @ [newline] @
      ''psi_thresh='' @ show_nat (unat thr) @ '' paused='' @ (if paused then ''1'' else ''0''))"

text \<open>The table of processes: each line is printed into 256 bytes.\<close>

definition top_header :: string where
  "top_header = pad_right 7 ''PID'' @ '' '' @ pad_right 20 ''COMM'' @ '' '' @ pad_left 10 ''ANON_MB'' @ '' '' @
     pad_left 8 ''WS%'' @ '' '' @ pad_left 8 ''SCORE'' @ '' '' @ pad_left 8 ''SWAP_MB''"

definition top_row :: "proc_snap \<Rightarrow> string" where
  "top_row ps = take 255
     ([newline] @ pad_right 7 (show_int (q_pid ps)) @ '' '' @ pad_right 20 (take 20 (cstr (q_comm ps))) @ '' '' @
      pad_left 10 (show_nat (unat (q_anon_kb ps div 1024))) @ '' '' @
      pad_left 8 (show_fixed 1 (dmul (q_ws_ratio ps) (Fin 100))) @ '' '' @ pad_left 8 (show_fixed 1 (q_score ps)) @ '' '' @
      pad_left 8 (show_nat (unat (q_swap_kb ps div 1024))))"

text \<open>\<open>tsrt\<close> is the \<open>std::sort\<close> of this handler; its comparator is the engine's.\<close>

definition top_text :: "std_sort_fun \<Rightarrow> u32 \<Rightarrow> proc_snap list \<Rightarrow> string" where
  "top_text tsrt arg snap =
     (let rows = (if arg \<noteq> 0 then unat arg else 10)
      in top_header @ concat (map top_row (take rows (tsrt score_above snap))))"

definition threshold_of :: "u32 \<Rightarrow> dbl" where
  "threshold_of arg = ddiv (Fin (of_nat (unat arg))) (Fin 1000)"

definition threshold_ok :: "dbl \<Rightarrow> bool" where
  "threshold_ok v \<longleftrightarrow> dless (dlit 1 3) v \<and> dless v (Fin 1)"

text \<open>
  \<open>handle_client\<close> up to the reply: \<open>bs\<close> are the bytes the one \<open>read\<close> returned. The answer is
  \<open>None\<close> for a short read. The result is \<open>None\<close> when a forced cycle does not end, or when the
  conversion of the threshold to \<open>unsigned\<close> is undefined.
\<close>

definition handle_client ::
  "kernel \<Rightarrow> std_sort_fun \<Rightarrow> std_sort_fun \<Rightarrow> byte list \<Rightarrow>
     'a daemon_scheme \<Rightarrow> (string option \<times> 'a daemon_scheme) option" where
  "handle_client K srt tsrt bs d = (case parse_request bs of
     None \<Rightarrow> Some (None, d)
   | Some (cmd, arg) \<Rightarrow>
       if cmd = cmd_code C_STATUS then do {
         let (m, d1) = meminfo K d;
         thr \<leftarrow> to_unsigned (dmul (c_psi_threshold (e_cfg d1)) (Fin 1000));
         Some (Some (status_text (e_stats d1) m thr (dm_paused d1)), d1) }
       else if cmd = cmd_code C_TOP then Some (Some (top_text tsrt arg (e_snapshot d)), d)
       else if cmd = cmd_code C_PAUSE then Some (Some ''paused'', d\<lparr>dm_paused := True\<rparr>)
       else if cmd = cmd_code C_RESUME then Some (Some ''resumed'', d\<lparr>dm_paused := False\<rparr>)
       else if cmd = cmd_code C_KICK then Some (Some ''cycle kicked'', d\<lparr>dm_paused := False\<rparr>)
       else if cmd = cmd_code C_FORCE then do {
         (kb, d1) \<leftarrow> force_cycle K srt d;
         Some (Some (''forced cycle: '' @ show_nat (unat (kb div 1024)) @ '' MB reclaimed''), d1) }
       else if cmd = cmd_code C_ADJUST then
         (let v = threshold_of arg
          in if threshold_ok v then Some (Some ''psi_threshold updated'', d\<lparr>e_cfg := (e_cfg d)\<lparr>c_psi_threshold := v\<rparr>\<rparr>)
             else Some (Some ''invalid value'', d))
       else Some (Some ''unknown cmd'', d))"

section \<open>Startup\<close>

definition start_ksm :: "kernel \<Rightarrow> 'a eng_scheme \<Rightarrow> 'a eng_scheme" where
  "start_ksm K s =
     (let (sup, s1) = ksm_supported K s
      in if sup \<and> c_ksm (e_cfg s1) then snd (ksm_enable K True s1) else s1)"

definition start_mglru :: "kernel \<Rightarrow> 'a eng_scheme \<Rightarrow> 'a eng_scheme" where
  "start_mglru K s =
     (let (av, s1) = mglru_available K s
      in if av then
           (let (en, s2) = mglru_enabled K s1;
                s3 = (if \<not> en then snd (mglru_enable K True s2) else s2)
            in snd (set_min_ttl_ms K 2000 s3))
         else s1)"

text \<open>What \<open>socket\<close> and \<open>bind\<close> answer.\<close>

record net =
  n_socket :: int
  n_bind :: bool

definition setup_ipc_server :: "net \<Rightarrow> 'a daemon_scheme \<Rightarrow> int \<times> 'a daemon_scheme" where
  "setup_ipc_server n d =
     (let d1 = sock_call (Unlink ipc_sock) d
      in if n_socket n < 0 then (- 1, d1)
         else (let d2 = sock_call (Unlink ipc_sock) d1; d3 = sock_call (Bind ipc_sock) d2
               in if \<not> n_bind n then (- 1, d3)
                  else (n_socket n, sock_call (Listen 4) (sock_call (Chmod ipc_sock 438) d3))))"

text \<open>
  \<open>run_daemon\<close> before its loop: \<open>None\<close> is an exception of the configuration reader, which nothing
  catches. \<open>now\<close> is the clock when the loop begins.
\<close>

definition run_daemon_init :: "kernel \<Rightarrow> net \<Rightarrow> int \<Rightarrow> 'a daemon_scheme \<Rightarrow> 'a daemon_scheme option" where
  "run_daemon_init K n now d0 = do {
     let (file, d1) = read_file K (cstr (dm_cfg_path d0)) d0;
     cfg \<leftarrow> load file;
     let d2 = d1\<lparr>e_cfg := cfg\<rparr>;
     let d3 = (if \<not> log_initialized (dm_log d2)
               then d2\<lparr>dm_log := log_init True (c_log_level cfg) '''' (dm_log d2)\<rparr> else d2);
     let d4 = start_mglru K (start_ksm K d3);
     let (srv, d5) = setup_ipc_server n d4;
     Some (d5\<lparr>dm_srv := srv, dm_next := now\<rparr>) }"

text \<open>The command line: \<open>None\<close> is the help text and exit status 0. \<open>opens\<close> says which log files open.\<close>

function parse_args :: "(string \<Rightarrow> bool) \<Rightarrow> string list \<Rightarrow> string \<times> logger \<Rightarrow> (string \<times> logger) option" where
  "parse_args opens [] st = Some st"
| "parse_args opens (a # rest) st =
     (if a = ''-c'' \<and> rest \<noteq> [] then parse_args opens (tl rest) (hd rest, snd st)
      else if a = ''-f'' then parse_args opens rest (''memflux.conf'', snd st)
      else if a = ''-l'' \<and> rest \<noteq> [] then
        parse_args opens (tl rest) (fst st, log_init (opens (hd rest)) (c_log_level config_default) (hd rest) (snd st))
      else if a = ''-v'' then parse_args opens rest (fst st, log_init True Debug '''' (snd st))
      else if a = ''-h'' \<or> a = ''--help'' then None
      else parse_args opens rest st)"
  by pat_completeness auto
termination
  by (relation "measure (\<lambda>(opens, as, st). length as)") (auto simp: less_Suc_eq_le)

text \<open>\<open>main\<close>: the initial globals, the logger (set up at once unless systemd's \<open>INVOCATION_ID\<close> is in
  the environment), the arguments, the startup. \<open>argv\<close> is without the program's name.\<close>

definition bpf_initial :: bpf_state where
  "bpf_initial = \<lparr>b_obj = False, b_prog = False, b_map = False, b_link = False\<rparr>"

definition stats_initial :: global_stats where
  "stats_initial = \<lparr>st_cycles = 0, st_pageouts_kb = 0, st_heap_trimmed_kb = 0, st_cgroup_kb = 0, st_errors = 0\<rparr>"

definition daemon_initial :: daemon where
  "daemon_initial =
     \<lparr>s_now = 0, s_calls = [], g_damon = damon_default, g_bpf = bpf_initial,
      e_cfg = config_default, e_tracked = Map.empty, e_snapshot = [], e_damon_on = False, e_damon_targets = [],
      e_ebpf_on = False, e_stats = stats_initial,
      dm_run = True, dm_paused = False, dm_cfg_path = ''/etc/memflux.conf'', dm_log = logger_initial,
      dm_srv = - 1, dm_next = 0, dm_ipc = []\<rparr>"

definition main_init :: "kernel \<Rightarrow> net \<Rightarrow> int \<Rightarrow> (string \<Rightarrow> bool) \<Rightarrow> bool \<Rightarrow> string list \<Rightarrow> daemon option" where
  "main_init K n now opens invocation argv = do {
     let l = (if \<not> invocation then log_init True Info '''' logger_initial else logger_initial);
     (path, l') \<leftarrow> parse_args opens argv (''/etc/memflux.conf'', l);
     run_daemon_init K n now (daemon_initial\<lparr>dm_cfg_path := path, dm_log := l'\<rparr>) }"

section \<open>The loop\<close>

text \<open>
  What one iteration meets: no client, a client that connects and sends nothing (the accepted
  socket blocks), or the bytes read and whether the client still listens when the reply is
  written (if not, \<open>SIGPIPE\<close> kills the process: its disposition is the default one, as in a daemon started
  from a shell; a service manager that ignores the signal for its services makes the \<open>write\<close> fail instead); and
  the clock after it.
\<close>

datatype client = No_Client | Silent_Client | Client "byte list" bool

datatype phase = Running | Stopped | Killed

definition serve ::
  "kernel \<Rightarrow> std_sort_fun \<Rightarrow> std_sort_fun \<Rightarrow> client \<Rightarrow>
     'a daemon_scheme \<Rightarrow> (phase \<times> 'a daemon_scheme) option" where
  "serve K srt tsrt c d =
     (if dm_srv d < 0 then Some (Running, d)
      else (case c of
        No_Client \<Rightarrow> Some (Running, d)
      | Silent_Client \<Rightarrow> None
      | Client bs listens \<Rightarrow> do {
          (r, d1) \<leftarrow> handle_client K srt tsrt bs d;
          case r of
            None \<Rightarrow> Some (Running, d1)
          | Some t \<Rightarrow> if listens then Some (Running, sock_call (Reply t) d1) else Some (Killed, d1) }))"

definition loop_body ::
  "kernel \<Rightarrow> std_sort_fun \<Rightarrow> std_sort_fun \<Rightarrow> string \<Rightarrow> client \<Rightarrow> int \<Rightarrow>
     'a daemon_scheme \<Rightarrow> (phase \<times> 'a daemon_scheme) option" where
  "loop_body K srt tsrt obj c now d = do {
     (ph, d1) \<leftarrow> serve K srt tsrt c d;
     if ph \<noteq> Running then Some (ph, d1)
     else if dm_paused d1 then Some (Running, d1)
     else if now \<ge> dm_next d1 then do {
       (kb, d2) \<leftarrow> run_cycle K srt obj d1;
       Some (Running, d2\<lparr>dm_next := now + uint (c_interval_ms (e_cfg d2)) * 1000000\<rparr>) }
     else Some (Running, d1) }"

definition shut_down :: "'a daemon_scheme \<Rightarrow> 'a daemon_scheme" where
  "shut_down d = (if dm_srv d \<ge> 0 then sock_call (Unlink ipc_sock) (sock_call Close_Server d) else d)"

text \<open>A signal may arrive at any time; it takes effect at the head of the loop.\<close>

datatype label = Signal | Iterate client int | Leave

inductive daemon_step ::
  "kernel \<Rightarrow> std_sort_fun \<Rightarrow> std_sort_fun \<Rightarrow> string \<Rightarrow>
     label \<Rightarrow> phase \<times> 'a daemon_scheme \<Rightarrow> phase \<times> 'a daemon_scheme \<Rightarrow> bool"
  for K srt tsrt obj where
  signal: "daemon_step K srt tsrt obj Signal (Running, d) (Running, on_signal d)"
| iterate: "dm_run d \<Longrightarrow> loop_body K srt tsrt obj c now d = Some r \<Longrightarrow>
    daemon_step K srt tsrt obj (Iterate c now) (Running, d) r"
| leave: "\<not> dm_run d \<Longrightarrow> daemon_step K srt tsrt obj Leave (Running, d) (Stopped, shut_down d)"

inductive daemon_trace ::
  "kernel \<Rightarrow> std_sort_fun \<Rightarrow> std_sort_fun \<Rightarrow> string \<Rightarrow>
     label list \<Rightarrow> phase \<times> 'a daemon_scheme \<Rightarrow> phase \<times> 'a daemon_scheme \<Rightarrow> bool"
  for K srt tsrt obj where
  nil: "daemon_trace K srt tsrt obj [] x x"
| step: "daemon_step K srt tsrt obj l x y \<Longrightarrow> daemon_trace K srt tsrt obj ls y z \<Longrightarrow> daemon_trace K srt tsrt obj (l # ls) x z"

inductive_simps step_simps [simp]:
  "daemon_step K srt tsrt obj Signal (Running, d) y"
  "daemon_step K srt tsrt obj (Iterate c now) (Running, d) y"
  "daemon_step K srt tsrt obj Leave (Running, d) y"
inductive_cases step_cases: "daemon_step K srt tsrt obj l x y"
inductive_simps trace_nil [simp]: "daemon_trace K srt tsrt obj [] x z"
inductive_simps trace_cons: "daemon_trace K srt tsrt obj (l # ls) x z"

end
