(* ===== verification/DaemonProps.thy ===== *)
theory DaemonProps
  imports Daemon EngineProps
begin

text \<open>
  Properties of the daemon: which thresholds a client can set, and the frame of every step of the
  loop: what it may touch, how many cycles it runs and how it moves the deadline.
\<close>

section \<open>The threshold of a client\<close>

lemma threshold_round: "threshold_of n = round_dbl (of_nat (unat n) / 1000)"
  by (simp add: threshold_of_def)

text \<open>The four literals at the ends of the range.\<close>

lemma threshold_ends:
  "dless (dlit 1 3) (round_dbl (2 / 1000))" "dless (round_dbl (999 / 1000)) (Fin 1)" "dlit 1 3 = round_dbl (1 / 1000)"
  by code_simp+

lemma threshold_ok_iff: "threshold_ok (threshold_of n) \<longleftrightarrow> 2 \<le> unat n \<and> unat n \<le> 999"
proof -
  consider "unat n = 0" | "unat n = 1" | "2 \<le> unat n" "unat n \<le> 999" | "1000 \<le> unat n" by linarith
  then show ?thesis
  proof cases
    case 1
    have "dle (Fin 0) (dlit 1 3)" using round_dbl_mono [of 0 "1 / 1000"] by (simp add: threshold_ends(3))
    then have "\<not> dless (dlit 1 3) (Fin 0)" by (metis dless_le_trans dless_irrefl)
    then show ?thesis using 1 by (simp add: threshold_ok_def threshold_round)
  next
    case 2
    then show ?thesis by (simp add: threshold_ok_def threshold_round threshold_ends(3))
  next
    case 3
    have q: "(2 :: rat) \<le> of_nat (unat n)" "of_nat (unat n) \<le> (999 :: rat)"
      using 3 by (metis of_nat_le_iff of_nat_numeral)+
    have "dle (round_dbl (2 / 1000)) (threshold_of n)"
      unfolding threshold_round using q by (intro round_dbl_mono divide_right_mono) simp_all
    moreover have "dle (threshold_of n) (round_dbl (999 / 1000))"
      unfolding threshold_round using q by (intro round_dbl_mono divide_right_mono) simp_all
    ultimately show ?thesis
      using 3 dless_le_trans [OF threshold_ends(1)] dle_less_trans [OF _ threshold_ends(2)] by (simp add: threshold_ok_def)
  next
    case 4
    have q: "(1000 :: rat) \<le> of_nat (unat n)" using 4 by (metis of_nat_le_iff of_nat_numeral)
    have "dle (round_dbl 1) (threshold_of n)"
      unfolding threshold_round using q by (intro round_dbl_mono) simp
    then have "\<not> dless (threshold_of n) (Fin 1)" by (metis dle_less_trans dless_irrefl round_dbl_1)
    then show ?thesis using 4 by (simp add: threshold_ok_def)
  qed
qed

text \<open>One exchange with a daemon in state \<open>d\<close>, as the tool sees it.\<close>

definition exchange ::
  "kernel \<Rightarrow> std_sort_fun \<Rightarrow> std_sort_fun \<Rightarrow> 'a daemon_scheme \<Rightarrow>
     ipc_cmd \<Rightarrow> u32 \<Rightarrow> (string \<times> 'a daemon_scheme) option" where
  "exchange K srt tsrt d cmd arg = (case handle_client K srt tsrt (request_bytes (cmd_code cmd) arg) d of
     Some (Some t, d') \<Rightarrow> Some (t, d') | _ \<Rightarrow> None)"

lemma parse_request_bytes [simp]: "parse_request (request_bytes cmd arg) = Some (cmd, arg)"
proof -
  have "length (u32_bytes w) = 4" for w by (simp add: u32_bytes_def)
  then show ?thesis by (simp add: parse_request_def request_bytes_def bytes_u32_bytes Let_def)
qed

lemma atoi_show_nat: "n < 2 ^ 31 \<Longrightarrow> atoi (show_nat n) = of_nat n"
  using scan_int_show_nat [of "[]" n] by (simp add: atoi_def strtoll_def clamp_ll_def)

text \<open>C33. From the command line to the engine: \<open>memfluxctl adjust <n>\<close> sets the pressure threshold of the
  engine's configuration to the double nearest to \<open>n / 1000\<close> exactly when \<open>n\<close> is from 2 to 999; any
  other number is answered with \<open>invalid value\<close> and changes nothing.\<close>

theorem ctl_adjust:
  assumes "n < 2 ^ 31"
  shows "\<exists>arg. ctl_request [''memfluxctl'', ''adjust'', show_nat n] = Inr (C_ADJUST, arg) \<and>
     exchange K srt tsrt d C_ADJUST arg =
       (if 2 \<le> n \<and> n \<le> 999
        then Some (''psi_threshold updated'', d\<lparr>e_cfg := (e_cfg d)\<lparr>c_psi_threshold := round_dbl (of_nat n / 1000)\<rparr>\<rparr>)
        else Some (''invalid value'', d))"
proof -
  define arg where "arg = (of_nat n :: u32)"
  have u: "unat arg = n" using assms by (simp add: arg_def unat_of_nat)
  have "ctl_request [''memfluxctl'', ''adjust'', show_nat n] = Inr (C_ADJUST, arg)"
    using atoi_show_nat [OF assms] by (simp add: ctl_request_def arg_def)
  moreover have "threshold_of arg = round_dbl (of_nat n / 1000)" by (simp add: threshold_round u)
  ultimately show ?thesis
    using threshold_ok_iff [of arg] by (auto simp: exchange_def handle_client_def Let_def u)
qed

text \<open>The example of the README: 15 percent.\<close>

theorem ctl_adjust_witness:
  "\<exists>arg. ctl_request [''memfluxctl'', ''adjust'', ''150''] = Inr (C_ADJUST, arg) \<and>
     exchange damon_on_kernel sort_by sort_by daemon_initial C_ADJUST arg =
       Some (''psi_threshold updated'',
         daemon_initial\<lparr>e_cfg := (e_cfg daemon_initial)\<lparr>c_psi_threshold := round_dbl (150 / 1000)\<rparr>\<rparr>)"
proof -
  have "show_nat 150 = ''150''" by (simp add: show_nat_eval)
  then show ?thesis using ctl_adjust [of 150 damon_on_kernel sort_by sort_by daemon_initial] by simp
qed

section \<open>What the loop may touch\<close>

lemma daemon_more:
  assumes "eng.more d' = eng.more (d :: 'a daemon_scheme)"
  shows "dm_run d' = dm_run d" "dm_next d' = dm_next d" "dm_paused d' = dm_paused d" "dm_srv d' = dm_srv d"
    "dm_log d' = dm_log d" "dm_ipc d' = dm_ipc d"
  using assms by (cases d; cases d'; simp)+

text \<open>The configurations a client can make of \<open>c\<close>.\<close>

definition adjusted :: "config \<Rightarrow> config \<Rightarrow> bool" where
  "adjusted c c' \<longleftrightarrow> c' = c \<or> (\<exists>n. 2 \<le> unat n \<and> unat n \<le> 999 \<and> c' = c\<lparr>c_psi_threshold := threshold_of n\<rparr>)"

lemma adjusted_refl [simp]: "adjusted c c"
  by (simp add: adjusted_def)

lemma adjusted_trans: "adjusted a b \<Longrightarrow> adjusted b c \<Longrightarrow> adjusted a c"
  by (auto simp: adjusted_def)

lemma adjusted_same: "adjusted c c' \<Longrightarrow> cycle_call c' = cycle_call c" "adjusted c c' \<Longrightarrow> c_interval_ms c' = c_interval_ms c"
  by (auto simp: adjusted_def cycle_call_def fun_eq_iff split: sys_call.splits)

text \<open>One relation for every part of an iteration; \<open>k\<close> is the number of cycles run in it.\<close>

definition frame :: "kernel \<Rightarrow> nat \<Rightarrow> 'a daemon_scheme \<Rightarrow> 'a daemon_scheme \<Rightarrow> bool" where
  "frame K k d d' \<longleftrightarrow> adjusted (e_cfg d) (e_cfg d') \<and> only (cycle_call (e_cfg d) (k_self K)) d d' \<and>
     dom (e_tracked d) \<subseteq> dom (e_tracked d') \<and> dm_srv d' = dm_srv d \<and>
     st_cycles (e_stats d') = st_cycles (e_stats d) + of_nat k"

lemma frame_refl [simp]: "frame K 0 d d"
  by (simp add: frame_def)

lemma frame_trans: assumes "frame K j a b" "frame K k b c" shows "frame K (j + k) a c"
proof -
  have "only (cycle_call (e_cfg a) (k_self K)) b c" using assms adjusted_same(1) by (metis frame_def)
  then show ?thesis using assms by (auto simp: frame_def add.assoc intro: adjusted_trans only_trans)
qed

lemma frame_cycle:
  assumes "cycle_frame K d d'" shows "frame K 1 d d'" "dm_next d' = dm_next d" "dm_paused d' = dm_paused d" "dm_run d' = dm_run d"
  using assms daemon_more [of d' d] by (auto simp: frame_def cycle_frame_def)

definition is_force :: "byte list \<Rightarrow> bool" where
  "is_force bs \<longleftrightarrow> (\<exists>arg. parse_request bs = Some (cmd_code C_FORCE, arg))"

lemma handle_client_frame:
  fixes d :: "'a daemon_scheme"
  assumes "handle_client K srt tsrt bs d = Some (r, d')" "\<forall>lt xs. set (srt lt xs) \<subseteq> set xs"
  shows "frame K (if is_force bs then 1 else 0) d d' \<and> dm_next d' = dm_next d \<and> dm_run d' = dm_run d"
proof (cases "parse_request bs")
  case None
  then show ?thesis using assms by (simp add: handle_client_def is_force_def)
next
  case (Some ca)
  obtain cmd arg where ca: "ca = (cmd, arg)" by (cases ca)
  obtain m d1 where m: "meminfo K d = (m, d1)" by fastforce
  have "runs is_read d (snd (meminfo K d))" by (intro proc_runs) simp
  then have r: "runs is_read d d1" using m by simp
  have "only (cycle_call (e_cfg d) (k_self K)) d d1"
    using runs_only [OF r] by (rule only_weaken) (simp add: cycle_call_weak)
  then have f1: "frame K 0 d d1" "dm_next d1 = dm_next d" "dm_run d1 = dm_run d"
    using runs_eng [OF r] daemon_more [of d1 d] by (simp_all add: frame_def eng_core_def)
  have adj: "frame K 0 d (d\<lparr>e_cfg := (e_cfg d)\<lparr>c_psi_threshold := threshold_of n\<rparr>\<rparr>)" if "threshold_ok (threshold_of n)" for n
    using that by (auto simp: frame_def adjusted_def threshold_ok_iff only_def)
  have paused: "frame K 0 d (d\<lparr>dm_paused := b\<rparr>)" for b by (simp add: frame_def only_def)
  show ?thesis
  proof (cases "cmd = cmd_code C_FORCE")
    case True
    then obtain kb where "force_cycle K srt d = Some (kb, d')"
      using assms(1) Some ca by (auto simp: handle_client_def split: bind_splits)
    from frame_cycle [OF force_cycle_frame [OF this assms(2)]] show ?thesis using True Some ca by (simp add: is_force_def)
  next
    case False
    then show ?thesis
      using assms(1) Some ca f1 adj paused by (auto simp: handle_client_def is_force_def m Let_def split: bind_splits if_splits)
  qed
qed

text \<open>An iteration: the client's part, then at most one cycle, which moves the deadline.\<close>

definition client_force :: "client \<Rightarrow> bool" where
  "client_force c \<longleftrightarrow> (case c of Client bs _ \<Rightarrow> is_force bs | _ \<Rightarrow> False)"

lemma serve_frame:
  fixes d :: "'a daemon_scheme"
  assumes "serve K srt tsrt c d = Some (ph, d')" "\<forall>lt xs. set (srt lt xs) \<subseteq> set xs"
  shows "\<exists>f. f \<le> (if client_force c then 1 else 0) \<and> frame K f d d' \<and> dm_next d' = dm_next d \<and> dm_run d' = dm_run d"
proof (cases c)
  case (Client bs l)
  show ?thesis
  proof (cases "dm_srv d < 0")
    case True
    then show ?thesis using assms by (auto simp: serve_def)
  next
    case False
    then obtain r d1 where h: "handle_client K srt tsrt bs d = Some (r, d1)"
      using assms(1) Client by (auto simp: serve_def split: bind_splits)
    have "d' = d1 \<or> (\<exists>t. d' = sock_call t d1)"
      using assms(1) Client False h by (auto simp: serve_def split: option.splits if_splits)
    moreover have "frame K k d d1 \<Longrightarrow> frame K k d (sock_call t d1)" "dm_next (sock_call t d1) = dm_next d1"
      "dm_run (sock_call t d1) = dm_run d1" for k t
      by (auto simp: frame_def sock_call_def only_def)
    ultimately show ?thesis
      using handle_client_frame [OF h assms(2)] Client
      by (intro exI [of _ "if is_force bs then 1 else 0"]) (auto simp: client_force_def)
  qed
qed (use assms in \<open>auto simp: serve_def split: if_splits\<close>)

lemma loop_body_frame:
  fixes d :: "'a daemon_scheme"
  assumes "loop_body K srt tsrt obj c now d = Some (ph, d')" "\<forall>lt xs. set (srt lt xs) \<subseteq> set xs"
  shows "\<exists>f k. f \<le> (if client_force c then 1 else 0) \<and> frame K (f + k) d d' \<and> dm_run d' = dm_run d \<and>
     (k = 0 \<and> dm_next d' = dm_next d \<or>
      k = 1 \<and> dm_next d \<le> now \<and> dm_next d' = now + uint (c_interval_ms (e_cfg d)) * 1000000)"
proof -
  obtain ph1 d1 where 1: "serve K srt tsrt c d = Some (ph1, d1)"
    using assms(1) by (auto simp: loop_body_def split: bind_splits)
  from serve_frame [OF 1 assms(2)] obtain f where
    f: "f \<le> (if client_force c then 1 else 0)" "frame K f d d1" "dm_next d1 = dm_next d" "dm_run d1 = dm_run d" by blast
  show ?thesis
  proof (cases "ph1 \<noteq> Running \<or> dm_paused d1 \<or> now < dm_next d1")
    case True
    then have "d' = d1" using assms(1) 1 by (auto simp: loop_body_def split: if_splits)
    then show ?thesis using f by (intro exI [of _ f] exI [of _ 0]) simp
  next
    case False
    then obtain kb d2 where 2: "run_cycle K srt obj d1 = Some (kb, d2)"
      "d' = d2\<lparr>dm_next := now + uint (c_interval_ms (e_cfg d2)) * 1000000\<rparr>"
      using assms(1) 1 by (auto simp: loop_body_def split: bind_splits if_splits)
    note c = frame_cycle [OF run_cycle_frame [OF 2(1) assms(2)]]
    have "frame K (f + 1) d d2" using f(2) c(1) by (rule frame_trans)
    moreover from this have "frame K (f + 1) d d'" by (simp add: 2(2) frame_def only_def)
    moreover have "c_interval_ms (e_cfg d2) = c_interval_ms (e_cfg d)"
      using calculation(1) by (simp add: frame_def adjusted_same)
    ultimately show ?thesis using f False c(4) by (intro exI [of _ f] exI [of _ 1]) (simp add: 2(2))
  qed
qed

definition label_force :: "label \<Rightarrow> bool" where
  "label_force l \<longleftrightarrow> (case l of Iterate c _ \<Rightarrow> client_force c | _ \<Rightarrow> False)"

text \<open>\<open>paced K T f k\<close>: \<open>f\<close> forced cycles, and \<open>k\<close> timer cycles no later than \<open>T\<close>, each at its deadline or
  after it.\<close>

definition interval_ns :: "'a daemon_scheme \<Rightarrow> int" where
  "interval_ns d = uint (c_interval_ms (e_cfg d)) * 1000000"

definition paced :: "kernel \<Rightarrow> int \<Rightarrow> nat \<Rightarrow> nat \<Rightarrow> 'a daemon_scheme \<Rightarrow> 'a daemon_scheme \<Rightarrow> bool" where
  "paced K T f k d d' \<longleftrightarrow> frame K (f + k) d d' \<and>
     (k = 0 \<and> dm_next d' = dm_next d \<or>
      0 < k \<and> dm_next d + int k * interval_ns d \<le> dm_next d' \<and> dm_next d' \<le> T + interval_ns d)"

lemma frame_interval: "frame K k d d' \<Longrightarrow> interval_ns d' = interval_ns d"
  using adjusted_same(2) by (auto simp: frame_def interval_ns_def)

lemma paced_none: "frame K f d d' \<Longrightarrow> dm_next d' = dm_next d \<Longrightarrow> paced K T f 0 d d'"
  by (simp add: paced_def)

lemma paced_trans:
  assumes "paced K T f k a b" "paced K T g j b c" shows "paced K T (f + g) (k + j) a c"
proof -
  have fr: "frame K (f + k) a b" "frame K (g + j) b c" using assms by (simp_all add: paced_def)
  have iv: "interval_ns b = interval_ns a" using fr(1) by (rule frame_interval)
  have "frame K (f + g + (k + j)) a c" using frame_trans [OF fr] by (simp add: ac_simps)
  moreover have "int (k + j) * interval_ns a = int k * interval_ns a + int j * interval_ns a" by (simp add: distrib_right)
  ultimately show ?thesis using assms unfolding paced_def iv by auto
qed

lemma step_paced:
  fixes x :: "phase \<times> 'a daemon_scheme"
  assumes "daemon_step K srt tsrt obj l x y" "\<forall>lt xs. set (srt lt xs) \<subseteq> set xs" "\<And>c t. l = Iterate c t \<Longrightarrow> t \<le> T"
  shows "\<exists>f k. f \<le> (if label_force l then 1 else 0) \<and> paced K T f k (snd x) (snd y)"
  using assms(1)
proof cases
  case (signal d)
  have "frame K 0 d (on_signal d)" "dm_next (on_signal d) = dm_next d"
    by (simp_all add: frame_def on_signal_def only_def)
  from paced_none [OF this] show ?thesis unfolding signal(2,3) snd_conv by blast
next
  case (iterate d c now)
  obtain ph d' where y: "y = (ph, d')" by (cases y)
  from loop_body_frame [OF iterate(4) [unfolded y] assms(2)] obtain f k where
    fk: "f \<le> (if client_force c then 1 else 0)" "frame K (f + k) d d'"
    "k = 0 \<and> dm_next d' = dm_next d \<or> k = 1 \<and> dm_next d \<le> now \<and> dm_next d' = now + interval_ns d"
    unfolding interval_ns_def by blast
  have p: "paced K T f k d d'" using fk(2,3) assms(3) [OF iterate(1)] unfolding paced_def by (elim disjE conjE) simp_all
  have "f \<le> (if label_force l then 1 else 0)" using fk(1) by (simp add: label_force_def iterate(1))
  with p show ?thesis unfolding iterate(2) y snd_conv by blast
next
  case (leave d)
  have "frame K 0 d (shut_down d)" "dm_next (shut_down d) = dm_next d"
    by (simp_all add: frame_def shut_down_def sock_call_def only_def)
  from paced_none [OF this] show ?thesis unfolding leave(2,3) snd_conv by blast
qed

lemma trace_paced:
  fixes x :: "phase \<times> 'a daemon_scheme"
  assumes "daemon_trace K srt tsrt obj ls x z" "\<forall>lt xs. set (srt lt xs) \<subseteq> set xs" "\<forall>c t. Iterate c t \<in> set ls \<longrightarrow> t \<le> T"
  shows "\<exists>f k. f \<le> length (filter label_force ls) \<and> paced K T f k (snd x) (snd z)"
  using assms(1,3)
proof (induction rule: daemon_trace.induct)
  case (nil x)
  have "paced K T 0 0 (snd x) (snd x)" by (rule paced_none) simp_all
  then show ?case by (intro exI [of _ 0]) simp
next
  case (step l x y ls z)
  have "\<exists>f k. f \<le> (if label_force l then 1 else 0) \<and> paced K T f k (snd x) (snd y)"
    using step.prems by (intro step_paced [OF step.hyps(1) assms(2)]) simp
  then obtain f k where
    1: "f \<le> (if label_force l then 1 else 0)" "paced K T f k (snd x) (snd y)" by blast
  have "\<forall>c t. Iterate c t \<in> set ls \<longrightarrow> t \<le> T" using step.prems by simp
  from step.IH [OF this] obtain g j where
    2: "g \<le> length (filter label_force ls)" "paced K T g j (snd y) (snd z)" by blast
  have "f + g \<le> length (filter label_force (l # ls))" using 1(1) 2(1) by (auto split: if_splits)
  moreover have "paced K T (f + g) (k + j) (snd x) (snd z)" using 1(2) 2(2) by (rule paced_trans)
  ultimately show ?case by (intro exI conjI)
qed

text \<open>A bound of the clock over a sequence always exists.\<close>

lemma clock_bound: "\<exists>T. \<forall>c t. Iterate c t \<in> set ls \<longrightarrow> t \<le> T"
proof (induction ls)
  case (Cons l ls)
  then obtain T where T: "\<forall>c t. Iterate c t \<in> set ls \<longrightarrow> t \<le> T" by blast
  show ?case by (rule exI [of _ "max T (case l of Iterate c t \<Rightarrow> t | _ \<Rightarrow> 0)"]) (use T in \<open>auto simp: le_max_iff_disj\<close>)
qed simp

end
