(* ===== verification/DaemonRuns.thy ===== *)
theory DaemonRuns
  imports DaemonProps
begin

text \<open>
  Whole runs of the daemon, over any sequence of clients, timer events and signals: what they may
  touch, the rate of cycles, pausing, how the loop ends and that it never gets stuck; the table of
  \<open>top\<close>; and the startup.
\<close>

section \<open>A concrete run\<close>

text \<open>A daemon whose first cycle is due at 10 s meets a client that sets the threshold, one that pauses
  it, one that asks for the status with a short request, and \<open>SIGHUP\<close>.\<close>

definition demo_daemon :: daemon where
  "demo_daemon = daemon_initial\<lparr>dm_srv := 3, dm_next := 10000000000\<rparr>"

definition demo_labels :: "label list" where
  "demo_labels =
     [Iterate (Client (request_bytes (cmd_code C_ADJUST) 150) True) 5, Iterate No_Client 6,
      Iterate (Client (request_bytes (cmd_code C_PAUSE) 0) True) 7, Iterate (Client [1, 0] True) 8, Signal, Leave]"

definition demo_end :: daemon where
  "demo_end = demo_daemon\<lparr>e_cfg := config_default\<lparr>c_psi_threshold := threshold_of 150\<rparr>, dm_paused := True, dm_run := False,
     dm_ipc := [Unlink ipc_sock, Close_Server, Reply ''paused'', Reply ''psi_threshold updated'']\<rparr>"

lemma demo_short: "parse_request [1, 0] = None"
  by (simp add: parse_request_def)

lemma demo_trace:
  "daemon_trace (demo_kernel '''' '''') sort_by sort_by '''' demo_labels (Running, demo_daemon) (Stopped, demo_end)"
  unfolding demo_labels_def
  by (simp add: trace_cons loop_body_def serve_def handle_client_def Let_def threshold_ok_iff demo_short demo_daemon_def daemon_initial_def
      sock_call_def on_signal_def shut_down_def demo_end_def)

section \<open>What a run may touch\<close>

text \<open>C4. Over any sequence of clients, timer cycles and signals (\<open>SIGHUP\<close> included) the configuration of a
  running daemon changes in its pressure threshold only, and there only to \<open>n / 1000\<close> for \<open>n\<close> from 2 to 999:
  it is never read again. Every call to the kernel is one the configuration allows a cycle to make,
  and no process once tracked is ever forgotten.\<close>

theorem daemon_confined:
  assumes "daemon_trace K srt tsrt obj ls (Running, d) (ph, d')" "\<forall>lt xs. set (srt lt xs) \<subseteq> set xs"
  shows "(e_cfg d' = e_cfg d \<or>
      (\<exists>n. 2 \<le> unat n \<and> unat n \<le> 999 \<and> e_cfg d' = (e_cfg d)\<lparr>c_psi_threshold := threshold_of n\<rparr>)) \<and>
     only (cycle_call (e_cfg d) (k_self K)) d d' \<and> dom (e_tracked d) \<subseteq> dom (e_tracked d')"
proof -
  obtain T where "\<forall>c t. Iterate c t \<in> set ls \<longrightarrow> t \<le> T" using clock_bound by blast
  from trace_paced [OF assms this] obtain f k where "frame K (f + k) d d'" unfolding paced_def snd_conv by blast
  then show ?thesis by (simp add: frame_def adjusted_def)
qed

text \<open>The run above.\<close>

theorem daemon_confined_witness:
  "(e_cfg demo_end = e_cfg demo_daemon \<or>
      (\<exists>n. 2 \<le> unat n \<and> unat n \<le> 999 \<and> e_cfg demo_end = (e_cfg demo_daemon)\<lparr>c_psi_threshold := threshold_of n\<rparr>)) \<and>
   only (cycle_call config_default 99) demo_daemon demo_end \<and> dom (e_tracked demo_daemon) \<subseteq> dom (e_tracked demo_end)"
  using daemon_confined [OF demo_trace sort_by_subset]
  by (simp add: demo_kernel_def demo_daemon_def daemon_initial_def)

text \<open>C25. Cycles are rate limited: in a sequence of iterations whose clock never passes \<open>T\<close>, the timer
  runs at most one cycle, plus one for each full interval between the first deadline and \<open>T\<close>; only
  forced cycles come on top, at most one per force request.\<close>

theorem cycle_rate:
  assumes "daemon_trace K srt tsrt obj ls (Running, d) (ph, d')" "\<forall>lt xs. set (srt lt xs) \<subseteq> set xs"
    and "\<forall>c t. Iterate c t \<in> set ls \<longrightarrow> t \<le> T"
  shows "\<exists>f k. f \<le> length (filter label_force ls) \<and> st_cycles (e_stats d') = st_cycles (e_stats d) + of_nat (f + k) \<and>
     (k = 0 \<or> (int k - 1) * (uint (c_interval_ms (e_cfg d)) * 1000000) \<le> T - dm_next d)"
proof -
  from trace_paced [OF assms] obtain f k where
    fk: "f \<le> length (filter label_force ls)" "paced K T f k d d'" unfolding snd_conv by blast
  have "k = 0 \<or> (int k - 1) * interval_ns d \<le> T - dm_next d"
    using fk(2) unfolding paced_def left_diff_distrib by linarith
  then show ?thesis
    using fk unfolding paced_def interval_ns_def frame_def by blast
qed

theorem cycle_rate_witness:
  "\<exists>f k. f \<le> length (filter label_force demo_labels) \<and>
     st_cycles (e_stats demo_end) = st_cycles (e_stats demo_daemon) + of_nat (f + k) \<and>
     (k = 0 \<or> (int k - 1) * (uint (c_interval_ms (e_cfg demo_daemon)) * 1000000) \<le> 8 - dm_next demo_daemon)"
  by (rule cycle_rate [OF demo_trace sort_by_subset]) (auto simp: demo_labels_def)

section \<open>Pausing\<close>

text \<open>Labels that leave a pause alone: no client, or one that sends no resume, kick or force.\<close>

definition calm_request :: "byte list \<Rightarrow> bool" where
  "calm_request bs \<longleftrightarrow> (case parse_request bs of
     None \<Rightarrow> True
   | Some (cmd, _) \<Rightarrow> cmd \<noteq> cmd_code C_RESUME \<and> cmd \<noteq> cmd_code C_KICK \<and> cmd \<noteq> cmd_code C_FORCE)"

definition calm :: "label \<Rightarrow> bool" where
  "calm l \<longleftrightarrow> (case l of Iterate (Client bs _) _ \<Rightarrow> calm_request bs | _ \<Rightarrow> True)"

definition asleep :: "'a daemon_scheme \<Rightarrow> 'a daemon_scheme \<Rightarrow> bool" where
  "asleep d d' \<longleftrightarrow> dm_paused d' \<and> e_stats d' = e_stats d \<and> e_tracked d' = e_tracked d \<and> only is_read d d'"

lemma asleep_trans: "asleep a b \<Longrightarrow> asleep b c \<Longrightarrow> asleep a c"
  by (auto simp: asleep_def intro: only_trans)

lemma handle_client_asleep:
  fixes d :: "'a daemon_scheme"
  assumes "handle_client K srt tsrt bs d = Some (r, d')" "dm_paused d" "calm_request bs"
  shows "asleep d d'"
proof -
  obtain m d1 where m: "meminfo K d = (m, d1)" by fastforce
  have "runs is_read d (snd (meminfo K d))" by (intro proc_runs) simp
  then have r: "runs is_read d d1" using m by simp
  have "asleep d d1"
    using runs_eng [OF r] runs_only [OF r] daemon_more [of d1 d] assms(2) by (simp add: asleep_def eng_core_def)
  moreover have "asleep d d" "asleep d (d\<lparr>e_cfg := c\<rparr>)" "asleep d (d\<lparr>dm_paused := True\<rparr>)" for c
    using assms(2) by (simp_all add: asleep_def only_def)
  ultimately show ?thesis
    using assms(1,3) by (auto simp: handle_client_def calm_request_def m Let_def split: option.splits bind_splits if_splits)
qed

lemma step_asleep:
  fixes x :: "phase \<times> 'a daemon_scheme"
  assumes "daemon_step K srt tsrt obj l x y" "dm_paused (snd x)" "calm l"
  shows "asleep (snd x) (snd y)"
  using assms(1)
proof cases
  case (signal d)
  then show ?thesis using assms(2) by (simp add: asleep_def on_signal_def only_def)
next
  case (leave d)
  then show ?thesis using assms(2) by (simp add: asleep_def shut_down_def sock_call_def only_def)
next
  case (iterate d c now)
  obtain ph d' where y: "y = (ph, d')" by (cases y)
  have p: "dm_paused d" using assms(2) iterate(2) by simp
  obtain ph1 d1 where s: "serve K srt tsrt c d = Some (ph1, d1)"
    using iterate(4) y by (auto simp: loop_body_def split: bind_splits)
  have d1: "asleep d d1"
  proof (cases c)
    case (Client bs b)
    have c: "calm_request bs" using assms(3) iterate(1) Client by (simp add: calm_def)
    have self: "asleep d d" using p by (simp add: asleep_def)
    have "asleep d d2 \<Longrightarrow> asleep d (sock_call e d2)" for d2 e by (simp add: asleep_def sock_call_def only_def)
    then show ?thesis
      using s Client self handle_client_asleep [OF _ p c, of K srt tsrt]
      by (auto simp: serve_def split: if_splits bind_splits option.splits)
  qed (use s p in \<open>auto simp: serve_def asleep_def split: if_splits\<close>)
  then have "d' = d1" using iterate(4) y s by (auto simp: loop_body_def asleep_def split: if_splits)
  then show ?thesis using d1 iterate(2) y by simp
qed

text \<open>C26. While the daemon is paused it runs no cycle, changes no tracking entry and only reads, whatever
  clients send and whichever signals arrive, until a client sends resume, kick or force.\<close>

theorem paused_daemon_reads_only:
  assumes "daemon_trace K srt tsrt obj ls (Running, d) (ph, d')" "dm_paused d" "list_all calm ls"
  shows "dm_paused d' \<and> e_stats d' = e_stats d \<and> e_tracked d' = e_tracked d \<and> only is_read d d'"
proof -
  have "dm_paused (snd x) \<Longrightarrow> asleep (snd x) (snd z)"
    if "daemon_trace K srt tsrt obj ls x z" "list_all calm ls" for x z :: "phase \<times> 'a daemon_scheme"
    using that
  proof (induction rule: daemon_trace.induct)
    case (nil x)
    then show ?case by (simp add: asleep_def)
  next
    case (step l x y ls z)
    then have "asleep (snd x) (snd y)" by (intro step_asleep [OF step.hyps(1)]) auto
    moreover from this have "asleep (snd y) (snd z)" using step by (simp add: asleep_def)
    ultimately show ?case by (rule asleep_trans)
  qed
  from this [OF assms(1,3)] show ?thesis using assms(2) by (simp add: asleep_def)
qed

text \<open>The end of the run above: paused, a short request, a signal.\<close>

theorem paused_daemon_reads_only_witness:
  "dm_paused demo_end \<and> e_stats demo_end = e_stats (demo_end\<lparr>dm_run := True\<rparr>) \<and>
   e_tracked demo_end = e_tracked (demo_end\<lparr>dm_run := True\<rparr>) \<and> only is_read (demo_end\<lparr>dm_run := True\<rparr>) demo_end"
proof -
  have "daemon_trace (demo_kernel '''' '''') sort_by sort_by '''' [Iterate (Client [1, 0] True) 8, Signal]
      (Running, demo_end\<lparr>dm_run := True\<rparr>) (Running, demo_end)"
    by (simp add: trace_cons loop_body_def serve_def handle_client_def demo_short demo_end_def demo_daemon_def daemon_initial_def
        on_signal_def)
  then show ?thesis
    by (rule paused_daemon_reads_only) (simp_all add: demo_end_def calm_def calm_request_def demo_short)
qed

text \<open>A kick is a resume with another answer: before the next deadline it runs no cycle at all.\<close>

theorem kick_is_resume:
  assumes "now < dm_next d" "0 \<le> dm_srv d"
  shows "\<exists>d1 d2. loop_body K srt tsrt obj (Client (request_bytes (cmd_code C_KICK) a) True) now d = Some (Running, d1) \<and>
     loop_body K srt tsrt obj (Client (request_bytes (cmd_code C_RESUME) b) True) now d = Some (Running, d2) \<and>
     d1\<lparr>dm_ipc := dm_ipc d\<rparr> = d2\<lparr>dm_ipc := dm_ipc d\<rparr> \<and> s_calls d1 = s_calls d \<and> e_stats d1 = e_stats d \<and> dm_next d1 = dm_next d"
  using assms by (simp add: loop_body_def serve_def handle_client_def sock_call_def)

theorem kick_is_resume_witness:
  "\<exists>d1 d2. loop_body (demo_kernel '''' '''') sort_by sort_by ''''
       (Client (request_bytes (cmd_code C_KICK) 0) True) 7 (demo_daemon\<lparr>dm_paused := True\<rparr>) = Some (Running, d1) \<and>
     loop_body (demo_kernel '''' '''') sort_by sort_by ''''
       (Client (request_bytes (cmd_code C_RESUME) 0) True) 7 (demo_daemon\<lparr>dm_paused := True\<rparr>) = Some (Running, d2) \<and>
     d1\<lparr>dm_ipc := dm_ipc (demo_daemon\<lparr>dm_paused := True\<rparr>)\<rparr> = d2\<lparr>dm_ipc := dm_ipc (demo_daemon\<lparr>dm_paused := True\<rparr>)\<rparr> \<and>
     s_calls d1 = s_calls (demo_daemon\<lparr>dm_paused := True\<rparr>) \<and> e_stats d1 = e_stats (demo_daemon\<lparr>dm_paused := True\<rparr>) \<and>
     dm_next d1 = dm_next (demo_daemon\<lparr>dm_paused := True\<rparr>)"
  by (rule kick_is_resume) (simp_all add: demo_daemon_def)

section \<open>How a run ends\<close>

lemma trace_over: "ph \<noteq> Running \<Longrightarrow> daemon_trace K srt tsrt obj ls (ph, d) y \<Longrightarrow> ls = [] \<and> y = (ph, d)"
  by (cases ls) (auto simp: trace_cons elim: step_cases)

text \<open>C34. After a signal, \<open>SIGHUP\<close> included, the daemon can always leave, which removes its socket, and it
  can do nothing else but take more signals: no further client, no cycle, no call to the kernel, and
  no reload of the configuration.\<close>

theorem signal_stops:
  shows "(\<exists>d'. daemon_trace K srt tsrt obj [Signal, Leave] (Running, d) (Stopped, d') \<and>
      (0 \<le> dm_srv d \<longrightarrow> dm_ipc d' = Unlink ipc_sock # Close_Server # dm_ipc d)) \<and>
     (daemon_trace K srt tsrt obj (Signal # ls) (Running, d) (ph, d'') \<longrightarrow>
        set ls \<subseteq> {Signal, Leave} \<and> s_calls d'' = s_calls d \<and> e_cfg d'' = e_cfg d)"
proof
  show "\<exists>d'. daemon_trace K srt tsrt obj [Signal, Leave] (Running, d) (Stopped, d') \<and>
      (0 \<le> dm_srv d \<longrightarrow> dm_ipc d' = Unlink ipc_sock # Close_Server # dm_ipc d)"
    by (simp add: trace_cons on_signal_def shut_down_def sock_call_def)
  have "\<not> dm_run d \<Longrightarrow> daemon_trace K srt tsrt obj ls (Running, d) (ph, d'') \<Longrightarrow>
      set ls \<subseteq> {Signal, Leave} \<and> s_calls d'' = s_calls d \<and> e_cfg d'' = e_cfg d" for d
  proof (induction ls arbitrary: d)
    case (Cons l ls)
    then obtain y where y: "daemon_step K srt tsrt obj l (Running, d) y" "daemon_trace K srt tsrt obj ls y (ph, d'')"
      by (auto simp: trace_cons)
    from y(1) show ?case
    proof cases
      case signal
      then show ?thesis using Cons.IH [of "on_signal d"] y(2) by (auto simp: on_signal_def)
    next
      case (iterate c now)
      then show ?thesis using Cons.prems by simp
    next
      case leave
      then show ?thesis using trace_over [of Stopped K srt tsrt obj ls "shut_down d" "(ph, d'')"] y(2)
        by (auto simp: shut_down_def sock_call_def)
    qed
  qed simp
  from this [of "on_signal d"] show "daemon_trace K srt tsrt obj (Signal # ls) (Running, d) (ph, d'') \<longrightarrow>
      set ls \<subseteq> {Signal, Leave} \<and> s_calls d'' = s_calls d \<and> e_cfg d'' = e_cfg d"
    by (auto simp: trace_cons on_signal_def)
qed

theorem signal_stops_witness:
  "s_calls demo_end = s_calls (demo_end\<lparr>dm_ipc := []\<rparr>) \<and>
   (\<exists>d'. daemon_trace (demo_kernel '''' '''') sort_by sort_by '''' [Signal, Leave] (Running, demo_end\<lparr>dm_ipc := []\<rparr>) (Stopped, d'))"
  using signal_stops [of "demo_kernel '''' ''''" sort_by sort_by "''''" "demo_end\<lparr>dm_ipc := []\<rparr>" "[Leave]" Stopped
      "(demo_end\<lparr>dm_ipc := [Unlink ipc_sock, Close_Server]\<rparr>)"]
  by (auto simp: trace_cons on_signal_def shut_down_def sock_call_def demo_end_def demo_daemon_def daemon_initial_def)

text \<open>Clients that wait for their reply.\<close>

definition patient :: "label \<Rightarrow> bool" where
  "patient l \<longleftrightarrow> (case l of Iterate (Client _ listens) _ \<Rightarrow> listens | Iterate _ _ \<Rightarrow> True | _ \<Rightarrow> False)"

lemma serve_patient:
  assumes "serve K srt tsrt c d = Some (ph, d')" "patient (Iterate c now)"
  shows "ph = Running"
  using assms by (auto simp: serve_def patient_def split: client.splits if_splits bind_splits option.splits)

text \<open>C35. Without a signal the daemon keeps running as long as every client waits for its reply, whatever it
  sends. A client that hangs up first kills it: the program neither ignores nor handles \<open>SIGPIPE\<close>, whose
  disposition is the default one unless the parent process changed it, and the socket is left behind.\<close>

theorem only_hangup_kills:
  assumes "daemon_trace K srt tsrt obj ls (Running, d) (ph, d')" "dm_run d" "list_all patient ls"
    and "\<forall>lt xs. set (srt lt xs) \<subseteq> set xs" "0 \<le> dm_srv d"
  shows "ph = Running \<and> dm_run d' \<and>
     (\<exists>d''. daemon_step K srt tsrt obj (Iterate (Client (request_bytes (cmd_code C_TOP) n) False) now) (ph, d') (Killed, d'') \<and>
        dm_ipc d'' = dm_ipc d')"
proof -
  have "ph = Running \<and> dm_run d' \<and> 0 \<le> dm_srv d'"
    using assms(1-3,5)
  proof (induction ls arbitrary: d)
    case (Cons l ls)
    obtain y where y: "daemon_step K srt tsrt obj l (Running, d) y" "daemon_trace K srt tsrt obj ls y (ph, d')"
      using Cons.prems(1) by (auto simp: trace_cons)
    obtain c now where l: "l = Iterate c now" using Cons.prems(3) by (cases l) (auto simp: patient_def)
    obtain ph1 d1 where b: "y = (ph1, d1)" "loop_body K srt tsrt obj c now d = Some (ph1, d1)"
      using y(1) l by (cases y) auto
    obtain ph2 d2 where s: "serve K srt tsrt c d = Some (ph2, d2)"
      using b(2) by (auto simp: loop_body_def split: bind_splits)
    have "patient (Iterate c now)" using Cons.prems(3) l by simp
    then have "ph2 = Running" by (rule serve_patient [OF s])
    then have "ph1 = Running" using b(2) s by (auto simp: loop_body_def split: bind_splits if_splits)
    moreover have "dm_run d1 \<and> dm_srv d1 = dm_srv d"
      using loop_body_frame [OF b(2) assms(4)] Cons.prems(2) by (auto simp: frame_def)
    ultimately show ?case using Cons.IH [of d1] y(2) b(1) Cons.prems(3,4) by simp
  qed simp
  then show ?thesis by (simp add: loop_body_def serve_def handle_client_def)
qed

theorem only_hangup_kills_witness:
  "\<exists>d''. daemon_step (demo_kernel '''' '''') sort_by sort_by ''''
      (Iterate (Client (request_bytes (cmd_code C_TOP) 0) False) 1) (Running, demo_daemon) (Killed, d'')"
proof -
  have "daemon_trace (demo_kernel '''' '''') sort_by sort_by '''' [] (Running, demo_daemon) (Running, demo_daemon)" by simp
  from only_hangup_kills [OF this _ _ sort_by_subset, of 0 1] show ?thesis
    by (auto simp: demo_daemon_def daemon_initial_def)
qed

section \<open>The loop never gets stuck\<close>

lemma threshold_prints:
  assumes "2 \<le> unat n" "unat n \<le> 999"
  shows "to_unsigned (dmul (threshold_of n) (Fin 1000)) \<noteq> None"
proof -
  have ok: "threshold_ok (threshold_of n)" using assms by (simp add: threshold_ok_iff)
  then have lt: "dless (threshold_of n) (Fin 1)" by (simp add: threshold_ok_def)
  have "dle (Fin 0) (threshold_of n)"
    using round_dbl_mono [of 0 "of_nat (unat n) / 1000"] zero_le_divide_iff [of "of_nat (unat n) :: rat" 1000] of_nat_0_le_iff
    by (simp add: threshold_round del: of_nat_unat)
  with lt obtain q where q: "threshold_of n = Fin q" "0 \<le> q" "q < 1"
    by (cases "threshold_of n") (auto simp: dle_def)
  have "dle (round_dbl 0) (round_dbl (q * 1000))" by (rule round_dbl_mono) (use q in simp)
  moreover have "dle (round_dbl (q * 1000)) (round_dbl (of_nat 1000))" by (rule round_dbl_mono) (use q in simp)
  moreover have "round_dbl (of_nat 1000) = Fin 1000" using round_dbl_nat [of 1000] by simp
  ultimately obtain r where "round_dbl (q * 1000) = Fin r" "0 \<le> r" "r \<le> 1000"
    by (cases "round_dbl (q * 1000)") (auto simp: dle_def)
  then show ?thesis by (simp add: q(1) to_unsigned_def)
qed

lemma serve_client:
  assumes "\<And>bs. \<exists>r d1. handle_client K srt tsrt bs d = Some (r, d1)"
  shows "serve K srt tsrt (Client bs b) d \<noteq> None"
proof -
  obtain r d1 where "handle_client K srt tsrt bs d = Some (r, d1)" using assms by blast
  then show ?thesis by (simp add: serve_def split: option.split)
qed

lemma adjusted_prints:
  "adjusted c c' \<Longrightarrow> to_unsigned (dmul (c_psi_threshold c) (Fin 1000)) \<noteq> None \<Longrightarrow>
   to_unsigned (dmul (c_psi_threshold c') (Fin 1000)) \<noteq> None"
  using threshold_prints by (auto simp: adjusted_def)

text \<open>C17. Only a silent client holds the loop up. After any history, if the kernel keeps the contracts of the page map and
  of \<open>maps\<close>, and the threshold the daemon was configured with fits in an \<open>unsigned\<close> after multiplying by 1000, a running daemon
  gets through its next iteration unless its socket is up and a client connects and neither sends anything nor hangs
  up; with such a client the iteration has no end at all.\<close>

theorem loop_never_stuck:
  assumes "pagemap_contract K" "maps_contract K" "\<forall>lt xs. set (srt lt xs) \<subseteq> set xs"
    and "to_unsigned (dmul (c_psi_threshold (e_cfg d0)) (Fin 1000)) \<noteq> None"
    and "daemon_trace K srt tsrt obj ls (Running, d0) (Running, d)" "dm_run d"
  shows "(\<exists>y. daemon_step K srt tsrt obj (Iterate c now) (Running, d) y) \<longleftrightarrow> \<not> (c = Silent_Client \<and> 0 \<le> dm_srv d)"
proof (cases "c = Silent_Client \<and> 0 \<le> dm_srv d")
  case True
  then have "serve K srt tsrt c d = None" by (simp add: serve_def)
  then show ?thesis using True by (simp add: loop_body_def)
next
  case noisy: False
  obtain T where "\<forall>c t. Iterate c t \<in> set ls \<longrightarrow> t \<le> T" using clock_bound by blast
  from trace_paced [OF assms(5,3) this] have "adjusted (e_cfg d0) (e_cfg d)" unfolding paced_def frame_def snd_conv by blast
  then have thr: "to_unsigned (dmul (c_psi_threshold (e_cfg d)) (Fin 1000)) \<noteq> None" using assms(4) by (rule adjusted_prints)
  have cyc: "run_cycle K srt obj s \<noteq> None" "force_cycle K srt s \<noteq> None" for s :: "'a daemon_scheme"
    using cycles_total [OF assms(1,2)] by blast+
  have "handle_client K srt tsrt bs d \<noteq> None" for bs
  proof (cases "parse_request bs")
    case (Some ca)
    obtain m d1 where m: "meminfo K d = (m, d1)" by fastforce
    have "runs is_read d (snd (meminfo K d))" by (intro proc_runs) simp
    then have "e_cfg d1 = e_cfg d" using m runs_eng(1) [of is_read d d1] by (simp add: eng_core_def)
    moreover obtain kb d2 where "force_cycle K srt d = Some (kb, d2)" using cyc(2) [of d] by auto
    ultimately show ?thesis using Some thr
      by (auto simp: handle_client_def m Let_def split: prod.splits)
  qed (simp add: handle_client_def)
  then have "\<exists>r d1. handle_client K srt tsrt bs d = Some (r, d1)" for bs by fastforce
  then have "serve K srt tsrt c d \<noteq> None"
    using noisy by (cases c) (simp_all add: serve_client, simp_all add: serve_def)
  then obtain ph1 d1 where s: "serve K srt tsrt c d = Some (ph1, d1)" by fastforce
  obtain kb d2 where "run_cycle K srt obj d1 = Some (kb, d2)" using cyc(1) [of d1] by auto
  then have "loop_body K srt tsrt obj c now d \<noteq> None" by (simp add: loop_body_def s)
  then show ?thesis using assms(6) noisy by auto
qed

theorem loop_never_stuck_witness:
  "\<exists>y. daemon_step (demo_kernel '''' '''') sort_by sort_by '''' (Iterate No_Client 20000000000) (Running, demo_daemon) y"
proof -
  have "to_unsigned (dmul (dlit 20 2) (Fin 1000)) \<noteq> None" by code_simp
  then have "to_unsigned (dmul (c_psi_threshold (e_cfg demo_daemon)) (Fin 1000)) \<noteq> None"
    by (simp add: demo_daemon_def daemon_initial_def config_default_def)
  moreover have "daemon_trace (demo_kernel '''' '''') sort_by sort_by '''' [] (Running, demo_daemon) (Running, demo_daemon)"
    by simp
  ultimately show ?thesis
    by (rule loop_never_stuck [OF demo_contracts sort_by_subset, THEN iffD2]) (simp_all add: demo_daemon_def daemon_initial_def)
qed

section \<open>The table of processes\<close>

text \<open>\<open>top\<close> lists the highest scores: for any sort by falling score the rows are a part of the last
  snapshot of the size asked for (10 for 0), in falling order, and no process left out scores above
  one that is listed.\<close>

theorem top_lists_highest:
  assumes "std_sort tsrt" "\<forall>x \<in> set snap. q_score x \<noteq> NaN"
  shows "\<exists>shown left. top_text tsrt arg snap = top_header @ concat (map top_row shown) \<and> mset (shown @ left) = mset snap \<and>
     length shown = min (if arg = 0 then 10 else unat arg) (length snap) \<and>
     sorted_wrt (\<lambda>a b. \<not> dless (q_score a) (q_score b)) shown \<and>
     list_all (\<lambda>a. list_all (\<lambda>b. \<not> dless (q_score a) (q_score b)) left) shown"
proof -
  define n where "n = (if arg = 0 then 10 else unat arg)"
  have s: "mset (tsrt score_above snap) = mset snap" "sorted_wrt (\<lambda>a b. \<not> dless (q_score a) (q_score b)) (tsrt score_above snap)"
    by (rule std_sort_score [OF assms])+
  then have "sorted_wrt (\<lambda>a b. \<not> dless (q_score a) (q_score b)) (take n (tsrt score_above snap) @ drop n (tsrt score_above snap))" by simp
  then have "sorted_wrt (\<lambda>a b. \<not> dless (q_score a) (q_score b)) (take n (tsrt score_above snap))"
    "list_all (\<lambda>a. list_all (\<lambda>b. \<not> dless (q_score a) (q_score b)) (drop n (tsrt score_above snap))) (take n (tsrt score_above snap))"
    unfolding sorted_wrt_append list_all_iff by blast+
  moreover have "length (tsrt score_above snap) = length snap" using s(1) by (metis size_mset)
  ultimately show ?thesis
    using s(1) by (intro exI [of _ "take n (tsrt score_above snap)"] exI [of _ "drop n (tsrt score_above snap)"])
      (auto simp: top_text_def n_def min_def)
qed

theorem top_lists_highest_witness:
  "\<exists>shown left. top_text sort_by 1 [(demo_snap 42)\<lparr>q_score := Fin 1\<rparr>, demo_snap 43] = top_header @ concat (map top_row shown) \<and>
     length shown = 1 \<and> mset (shown @ left) = mset [(demo_snap 42)\<lparr>q_score := Fin 1\<rparr>, demo_snap 43]"
proof -
  have "\<forall>x \<in> set [(demo_snap 42)\<lparr>q_score := Fin 1\<rparr>, demo_snap 43]. q_score x \<noteq> NaN" by (simp add: demo_snap_def)
  from top_lists_highest [OF sort_by_sorts this, of 1] show ?thesis by (simp add: One_nat_def) blast
qed

end
