(* ===== verification/Startup.thy ===== *)
theory Startup
  imports DaemonRuns
begin

text \<open>
  The startup of the daemon: what it writes, which log level is in force, and what becomes of the
  options the configuration file offers for KSM.
\<close>

section \<open>What the startup writes\<close>

definition startup_call :: "sys_call \<Rightarrow> bool" where
  "startup_call e \<longleftrightarrow> is_read e \<or>
     e \<in> {Write_File ''/sys/kernel/mm/ksm/run'' ''1'', Write_File lru_enabled_path ''0x0007'', Write_File lru_ttl_path ''2000''}"

lemma startup_call_read: "is_read e \<Longrightarrow> startup_call e"
  by (simp add: startup_call_def)

lemma start_ksm_runs: "runs startup_call s (start_ksm K s)"
proof -
  obtain sup s1 where 1: "ksm_supported K s = (sup, s1)" by fastforce
  have "runs startup_call s (snd (ksm_supported K s))"
    by (simp add: ksm_supported_def case_prod_beta sys_runs(6) startup_call_read)
  then have r1: "runs startup_call s s1" using 1 by simp
  have "runs startup_call s1 (snd (ksm_enable K True s1))"
    by (rule ksm.switch_runs) (simp_all add: startup_call_def)
  then show ?thesis using r1 runs_trans [OF r1] by (simp add: start_ksm_def 1)
qed

lemma start_mglru_runs: "runs startup_call s (start_mglru K s)"
proof -
  obtain av s1 where 1: "mglru_available K s = (av, s1)" by fastforce
  obtain en s2 where 2: "mglru_enabled K s1 = (en, s2)" by fastforce
  define s3 where "s3 = (if \<not> en then snd (mglru_enable K True s2) else s2)"
  have "runs startup_call s (snd (mglru_available K s))"
    by (simp add: mglru_available_def case_prod_beta sys_runs(1) startup_call_read)
  then have r1: "runs startup_call s s1" using 1 by simp
  have "runs startup_call s1 (snd (mglru_enabled K s1))"
    by (simp add: mglru_enabled_def case_prod_beta sys_runs(9) startup_call_read)
  then have "runs startup_call s1 s2" using 2 by simp
  with r1 have r2: "runs startup_call s s2" by (rule runs_trans)
  have "runs startup_call s2 (snd (mglru_enable K True s2))"
    by (rule mglru.switch_runs) (simp_all add: startup_call_def)
  then have r3: "runs startup_call s s3" using r2 runs_trans [OF r2] by (simp add: s3_def)
  have "runs startup_call s3 (snd (set_min_ttl_ms K 2000 s3))"
    by (simp add: set_min_ttl_ms_def sys_runs(8) startup_call_def show_nat_eval)
  with r3 have "runs startup_call s (snd (set_min_ttl_ms K 2000 s3))" by (rule runs_trans)
  then show ?thesis using r1 by (simp add: start_mglru_def 1 2 s3_def Let_def)
qed

lemma setup_ipc_fields:
  assumes "setup_ipc_server n d = (srv, d')"
  shows "e_cfg d' = e_cfg d" "s_calls d' = s_calls d" "dm_log d' = dm_log d"
    "srv < 0 \<or> n_bind n \<and> dm_ipc d' = [Listen 4, Chmod ipc_sock 438, Bind ipc_sock, Unlink ipc_sock, Unlink ipc_sock] @ dm_ipc d"
  using assms by (auto simp: setup_ipc_server_def sock_call_def Let_def split: if_splits)

text \<open>Up to the sockets, the startup is the configuration, the logger and the two features.\<close>

lemma run_daemon_init_parts:
  fixes d0 :: "'a daemon_scheme"
  assumes "run_daemon_init K n now d0 = Some d"
  obtains src cfg where "load src = Some cfg" "src = k_read K (s_now d0) (cstr (dm_cfg_path d0))" "e_cfg d = cfg"
    "only startup_call d0 d" "dm_next d = now"
    "dm_log d = (if log_initialized (dm_log d0) then dm_log d0 else log_init True (c_log_level cfg) '''' (dm_log d0))"
proof -
  obtain src d1 where 1: "read_file K (cstr (dm_cfg_path d0)) d0 = (src, d1)" by fastforce
  obtain cfg where 2: "load src = Some cfg" using assms 1 by (auto simp: run_daemon_init_def split: bind_splits)
  define d2 where "d2 = d1\<lparr>e_cfg := cfg\<rparr>"
  define d3 where "d3 = (if \<not> log_initialized (dm_log d2)
    then d2\<lparr>dm_log := log_init True (c_log_level cfg) '''' (dm_log d2)\<rparr> else d2)"
  define d4 where "d4 = start_mglru K (start_ksm K d3)"
  obtain srv d5 where 5: "setup_ipc_server n d4 = (srv, d5)" by fastforce
  have d: "d = d5\<lparr>dm_srv := srv, dm_next := now\<rparr>"
    using assms unfolding run_daemon_init_def 1 Let_def prod.case 2 bind.bind_lunit d2_def [symmetric] d3_def [symmetric]
      d4_def [symmetric] 5 by simp
  have r4: "runs startup_call d3 d4" unfolding d4_def using start_ksm_runs start_mglru_runs by (rule runs_trans)
  have "startup_call (Read_File f)" for f by (simp add: startup_call_read)
  then have "only startup_call d0 d3"
    using 1 by (auto simp: d3_def d2_def read_file_def only_def emit_def)
  then have "only startup_call d0 d4" using runs_only [OF r4] by (rule only_trans)
  then have "only startup_call d0 d" using setup_ipc_fields(2) [OF 5] by (simp add: d only_def)
  moreover have "e_cfg d4 = cfg" "dm_log d4 = dm_log d3"
    using runs_eng [OF r4] daemon_more [of d4 d3] by (simp_all add: eng_core_def d3_def d2_def)
  moreover have "dm_log d3 = (if log_initialized (dm_log d0) then dm_log d0 else log_init True (c_log_level cfg) '''' (dm_log d0))"
    using 1 by (auto simp: d3_def d2_def read_file_def emit_def)
  ultimately show ?thesis
    using that [OF 2] 1 setup_ipc_fields [OF 5] by (simp add: d read_file_def)
qed

lemma main_init_parts:
  assumes "main_init K n now opens invocation argv = Some d"
  shows "only startup_call daemon_initial d \<and> (\<exists>src. load src = Some (e_cfg d))"
proof -
  obtain path l where 1: "run_daemon_init K n now (daemon_initial\<lparr>dm_cfg_path := path, dm_log := l\<rparr>) = Some d"
    using assms by (auto simp: main_init_def split: bind_splits)
  from run_daemon_init_parts [OF 1] obtain cfg src where
    "load src = Some cfg" "e_cfg d = cfg" "only startup_call (daemon_initial\<lparr>dm_cfg_path := path, dm_log := l\<rparr>) d" by metis
  then show ?thesis by (auto simp: only_def)
qed

text \<open>Whatever the files hold, the startup only reads and writes at most three values: \<open>1\<close> to the KSM
  switch, \<open>0x0007\<close> to the MGLRU mask, and 2000 to its minimal age. No setting of the \<open>[ksm]\<close> section
  reaches the kernel.\<close>

theorem startup_writes:
  assumes "main_init K n now opens invocation argv = Some d"
  shows "only startup_call daemon_initial d \<and> (\<exists>src. load src = Some (e_cfg d))"
  using assms by (rule main_init_parts)

lemma damon_on_load: "load (Some (''Y'' @ [newline])) = Some config_default"
proof -
  have "getlines (''Y'' @ [newline]) = [''Y'']" by code_simp
  moreover have "trim ''Y'' = ''Y''" by code_simp
  ultimately show ?thesis by (simp add: load_def reload_def reload_line_def)
qed

lemma startup_demo: "\<exists>d. main_init damon_on_kernel \<lparr>n_socket = 3, n_bind = True\<rparr> 0 (\<lambda>_. True) invocation [] = Some d"
proof -
  have "\<exists>d. run_daemon_init damon_on_kernel n now d0 = Some d" for n now and d0 :: daemon
    using damon_on_load by (simp add: run_daemon_init_def read_file_def damon_on_kernel_def Let_def split: prod.split)
  then show ?thesis by (simp add: main_init_def)
qed

theorem startup_writes_witness:
  "\<exists>d. main_init damon_on_kernel \<lparr>n_socket = 3, n_bind = True\<rparr> 0 (\<lambda>_. True) True [] = Some d \<and> only startup_call daemon_initial d"
  using startup_demo startup_writes by blast

section \<open>The log level\<close>

lemma parse_args_initialized:
  "parse_args opens argv (path, l) = Some (path', l') \<Longrightarrow> log_initialized l \<Longrightarrow> log_initialized l'"
proof (induction opens argv "(path, l)" arbitrary: path l rule: parse_args.induct)
  case (2 opens a rest path l)
  show ?case
    using 2 by (auto simp: log_init_def log_initialized_def Let_def split: if_splits)
qed simp

text \<open>Started by hand, without systemd's \<open>INVOCATION_ID\<close>, the daemon ignores the log level of its
  configuration file: the logger is the one the command line left, whatever the file says.\<close>

theorem foreground_ignores_log_level:
  assumes "main_init K n now opens False argv = Some d"
    and "parse_args opens argv (''/etc/memflux.conf'', log_init True Info '''' logger_initial) = Some (path, l)"
  shows "dm_log d = l"
proof -
  have 1: "run_daemon_init K n now (daemon_initial\<lparr>dm_cfg_path := path, dm_log := l\<rparr>) = Some d"
    using assms by (simp add: main_init_def)
  have "log_initialized l"
    using parse_args_initialized [OF assms(2)] by (simp add: log_init_def log_initialized_def Let_def)
  then have "log_initialized (dm_log (daemon_initial\<lparr>dm_cfg_path := path, dm_log := l\<rparr>))" by simp
  then have "dm_log d = dm_log (daemon_initial\<lparr>dm_cfg_path := path, dm_log := l\<rparr>)"
    using run_daemon_init_parts [OF 1] by metis
  then show ?thesis by simp
qed

text \<open>With no arguments the level stays \<open>Info\<close>.\<close>

theorem foreground_ignores_log_level_witness:
  "\<exists>d. main_init damon_on_kernel \<lparr>n_socket = 3, n_bind = True\<rparr> 0 (\<lambda>_. True) False [] = Some d \<and> l_level (dm_log d) = Info"
proof -
  obtain d where d: "main_init damon_on_kernel \<lparr>n_socket = 3, n_bind = True\<rparr> 0 (\<lambda>_. True) False [] = Some d"
    using startup_demo by blast
  from foreground_ignores_log_level [OF this] have "dm_log d = log_init True Info '''' logger_initial" by simp
  then show ?thesis using d by (simp add: log_init_def Let_def logger_initial_def)
qed

end
