(* ===== verification/ConfigTypes.thy ===== *)
theory ConfigTypes
  imports Startup
begin

text \<open>
  The types of the settings: what the integers and strings that stand for an enumeration can hold, from the reader to
  any state of a running daemon, so that the engine's tests on them miss no case.
\<close>

section \<open>Typed configurations\<close>

definition policy_typed :: "group_policy \<Rightarrow> bool" where
  "policy_typed g \<longleftrightarrow> g_mode g \<in> {0, 1} \<and> edge_free (g_prefix g)"

definition config_typed :: "config \<Rightarrow> bool" where
  "config_typed c \<longleftrightarrow> c_default_mode c \<in> {''pageout'', ''cold''} \<and> list_all policy_typed (c_groups c) \<and>
     int (length (c_groups c)) \<le> groups_max_size"

lemma edge_free_trim: "edge_free (trim s)"
proof -
  have h: "dropWhile blank t = [] \<or> \<not> blank (hd (dropWhile blank t))" for t
    by (metis hd_dropWhile)
  define u where "u = dropWhile blank s"
  have "trim s = rev (dropWhile blank (rev u))" by (simp add: trim_def u_def)
  moreover obtain w where w: "rev u = w @ dropWhile blank (rev u)" by (metis takeWhile_dropWhile_id)
  then have "u = rev (dropWhile blank (rev u)) @ rev w" by (metis rev_append rev_rev_ident)
  ultimately have u: "u = trim s @ rev w" by simp
  show ?thesis
  proof (cases "trim s = []")
    case False
    then have "hd (trim s) = hd u" "u \<noteq> []" using u by (metis hd_append2, auto)
    then have "\<not> blank (hd (trim s))" using h [of s] unfolding u_def by metis
    moreover have "last (trim s) = hd (dropWhile blank (rev u))" "dropWhile blank (rev u) \<noteq> []"
      using False by (simp_all add: trim_def u_def last_rev)
    then have "\<not> blank (last (trim s))" using h [of "rev u"] by metis
    ultimately show ?thesis by (simp add: edge_free_def)
  qed (simp add: edge_free_def)
qed

lemma policy_typed_default: "policy_typed group_default"
  by (simp add: policy_typed_def group_default_def edge_free_def)

lemma policy_typed_field: "policy_typed g \<Longrightarrow> policy_typed (set_group_field f v g)"
  by (auto simp: policy_typed_def set_group_field_def edge_free_trim)

lemma config_typed_default: "config_typed config_default"
  by (simp add: config_typed_def config_default_def groups_max_size_def)

lemma grow_groups_typed:
  assumes "grow_groups idx gs = Some gs'" "list_all policy_typed gs" "int (length gs) \<le> groups_max_size"
  shows "list_all policy_typed gs' \<and> int (length gs') \<le> groups_max_size"
proof (cases "length gs \<le> unat idx")
  case True
  define n where "n = unat (idx + 1)"
  have n: "int n \<le> groups_max_size" "gs' = take n gs @ replicate (n - length gs) group_default"
    using assms(1) True by (auto simp: grow_groups_def Let_def n_def split: if_splits)
  have "list_all policy_typed gs'"
    using assms(2) by (auto simp: n(2) list_all_iff policy_typed_default dest: in_set_takeD)
  moreover have "length gs' \<le> n" by (simp add: n(2))
  ultimately show ?thesis using n(1) by simp
next
  case False
  then show ?thesis using assms by (simp add: grow_groups_def)
qed

lemma set_group_typed:
  assumes "set_group k v c = Some c'" "config_typed c"
  shows "config_typed c'"
proof -
  consider "c' = c" | idx gs f where "grow_groups idx (c_groups c) = Some gs"
      "c' = c\<lparr>c_groups := gs\<rparr> \<or> unat idx < length gs \<and> c' = c\<lparr>c_groups := gs[unat idx := set_group_field f v (gs ! unat idx)]\<rparr>"
    using assms(1) by (auto simp: set_group_def Let_def split: if_splits option.splits prod.splits bind_splits)
  then show ?thesis
  proof cases
    case 1
    then show ?thesis using assms(2) by simp
  next
    case 2
    have g: "list_all policy_typed gs \<and> int (length gs) \<le> groups_max_size"
      using grow_groups_typed [OF 2(1)] assms(2) by (simp add: config_typed_def)
    from 2(2) show ?thesis
    proof (elim disjE conjE)
      assume "c' = c\<lparr>c_groups := gs\<rparr>"
      then show ?thesis using g assms(2) by (simp add: config_typed_def)
    next
      assume i: "unat idx < length gs" "c' = c\<lparr>c_groups := gs[unat idx := set_group_field f v (gs ! unat idx)]\<rparr>"
      then have "policy_typed (set_group_field f v (gs ! unat idx))" using g by (simp add: policy_typed_field list_all_length)
      then have "list_all policy_typed (gs[unat idx := set_group_field f v (gs ! unat idx)])"
        using g by (auto simp: list_all_iff dest!: set_update_subset_insert [THEN subsetD])
      then show ?thesis using g i(2) assms(2) by (simp add: config_typed_def)
    qed
  qed
qed

lemma set_typed:
  "config_typed c \<Longrightarrow> config_typed (set_engine k v c)" "config_typed c \<Longrightarrow> config_typed (set_preload k v c)"
  "config_typed c \<Longrightarrow> config_typed (set_log k v c)"
  by (auto simp: set_engine_def set_preload_def set_log_def config_typed_def Let_def)

lemma set_key_typed: "set_key section k v c = Some c' \<Longrightarrow> config_typed c \<Longrightarrow> config_typed c'"
  by (auto simp: set_key_def set_group_typed set_typed split: if_splits)

lemma reload_line_typed: "reload_line l (sec, c) = Some (sec', c') \<Longrightarrow> config_typed c \<Longrightarrow> config_typed c'"
  by (auto simp: reload_line_def Let_def map_option_eq_Some set_key_typed split: if_splits)

lemma reload_lines_typed: "reload_lines ls (sec, c) = Some (sec', c') \<Longrightarrow> config_typed c \<Longrightarrow> config_typed c'"
proof (induction ls arbitrary: sec c)
  case (Cons l ls)
  from Cons.prems(1) obtain s1 c1 where "reload_line l (sec, c) = Some (s1, c1)" "reload_lines ls (s1, c1) = Some (sec', c')"
    by (auto split: bind_splits)
  then show ?case using Cons.IH Cons.prems(2) reload_line_typed by blast
qed simp

lemma load_typed: "load src = Some c \<Longrightarrow> config_typed c"
  using reload_lines_typed config_typed_default
  by (auto simp: load_def reload_def map_option_eq_Some split: option.splits)

text \<open>C36. Whatever the configuration file holds, every state of a running daemon has a well-typed configuration: the default mode
  is one of the two known names, every policy has mode 0 or 1 and a prefix without blanks at its
  ends, and the list of policies fits into a vector. So \<open>mode_for\<close>, which tests for one value only, covers all.\<close>

theorem daemon_config_typed:
  assumes "main_init K n now opens invocation argv = Some d"
    "daemon_trace K srt tsrt obj ls (Running, d) (ph, d')" "\<forall>lt xs. set (srt lt xs) \<subseteq> set xs"
  shows "config_typed (e_cfg d') \<and>
    (mode_for (e_cfg d') ps = Pageout \<longleftrightarrow> (case best_policy (q_cgroup ps) None (c_groups (e_cfg d')) of
       Some b \<Rightarrow> g_mode b = 0 | None \<Rightarrow> c_default_mode (e_cfg d') = ''pageout''))"
proof -
  obtain T where "\<forall>c t. Iterate c t \<in> set ls \<longrightarrow> t \<le> T" using clock_bound by blast
  from trace_paced [OF assms(2,3) this] have "adjusted (e_cfg d) (e_cfg d')" by (auto simp: paced_def frame_def)
  moreover have "config_typed (e_cfg d)" using main_init_parts [OF assms(1)] load_typed by blast
  ultimately have t: "config_typed (e_cfg d')" by (auto simp: adjusted_def config_typed_def)
  have "b \<in> set (c_groups (e_cfg d'))" if "best_policy (q_cgroup ps) None (c_groups (e_cfg d')) = Some b" for b
    using best_policy_in [OF that] by simp
  then have "g_mode b \<in> {0, 1}" if "best_policy (q_cgroup ps) None (c_groups (e_cfg d')) = Some b" for b
    using t that by (auto simp: config_typed_def policy_typed_def list_all_iff)
  then show ?thesis using t by (auto simp: mode_for_def config_typed_def split: option.splits)
qed

theorem daemon_config_typed_witness:
  "\<exists>d. main_init damon_on_kernel \<lparr>n_socket = 3, n_bind = True\<rparr> 0 (\<lambda>_. True) True [] = Some d \<and> config_typed (e_cfg (on_signal d))"
proof -
  obtain d where d: "main_init damon_on_kernel \<lparr>n_socket = 3, n_bind = True\<rparr> 0 (\<lambda>_. True) True [] = Some d"
    using startup_demo by blast
  have t: "daemon_trace damon_on_kernel sort_by sort_by '''' [Signal] (Running, d) (Running, on_signal d)"
    by (simp add: trace_cons)
  from daemon_config_typed [OF d t sort_by_subset] d show ?thesis by blast
qed

end
