(* ===== verification/UnitTests.thy ===== *)
theory UnitTests
  imports ConfigTypes ProcProps LogFmt
begin

text \<open>
  The unit tests (\<open>tests/test_core.cpp\<close>) as a program: each test is a function of the kernel and its state, and an assertion
  that fails ends the run. \<open>nd\<close> says that the program is compiled with \<open>NDEBUG\<close>, as CMake does for the build type
  Release, the default of \<open>CMakeLists.txt\<close>: then \<open>assert\<close> does not even evaluate its argument. \<open>None\<close> is a test that does not return, ends
  with an uncaught exception or passes on a null pointer. Then: what the kernel must be like for all tests to pass, and that
  without assertions they pass on every kernel.
\<close>

section \<open>The tests\<close>

type_synonym test = "sys \<Rightarrow> (bool \<times> sys) option"

text \<open>\<open>assert(s == "a 1 2.500000 b")\<close>\<close>

definition test_fmt :: "bool \<Rightarrow> test" where
  "test_fmt nd s = Some (nd \<or> fmt_line [F_cstr (Some ''a''), F_int 1, F_dbl (Fin (5 / 2)), F_str ''b''] = ''a 1 2.500000 b'', s)"

definition test_psi :: "bool \<Rightarrow> kernel \<Rightarrow> test" where
  "test_psi nd K s = (let (p, s1) = psi_memory K s in Some (nd \<or> psi_ok p \<or> \<not> psi_ok p, s1))"

definition test_meminfo :: "bool \<Rightarrow> kernel \<Rightarrow> test" where
  "test_meminfo nd K s = (let (m, s1) = meminfo K s in Some (nd \<or> m_total_kb m > 0 \<and> m_anon_kb m \<le> m_total_kb m * 2, s1))"

text \<open>\<open>getpid()\<close> is \<open>k_self\<close>; the write to the array on the heap is the kernel's to see.\<close>

definition test_ws_self :: "bool \<Rightarrow> kernel \<Rightarrow> test" where
  "test_ws_self nd K s =
     (let (ok, s1) = (if nd then (True, s) else clear_soft_dirty K (k_self K) s)
      in if \<not> ok then Some (False, s1)
         else do { (w, s2) \<leftarrow> sample_working_set K (k_self K) s1; Some (nd \<or> ws_ok w \<and> ws_touched_kb w > 0, s2) })"

definition test_pidfd :: "bool \<Rightarrow> kernel \<Rightarrow> test" where
  "test_pidfd nd K s = (let (fd, s1) = pidfd_open K (k_self K) s in Some (nd \<or> fd \<ge> 0, s1))"

definition test_config :: "bool \<Rightarrow> kernel \<Rightarrow> test" where
  "test_config nd K s =
     (let (text, s1) = read_file K ''/nonexistent'' s
      in do { c \<leftarrow> reload text config_default;
              Some (nd \<or> c_interval_ms c = 1000 \<and> c_damon c \<and> c_default_mode c = ''pageout'' \<and> c_groups c = [], s1) })"

definition test_path :: string where
  "test_path = ''/tmp/memflux_test.conf''"

definition test_conf :: string where
  "test_conf = concat (map (\<lambda>l. l @ [newline])
     [''[engine]'', ''interval_ms = 500'', ''default_mode = cold'', ''enable_damon = false'', ''[groups]'',
      ''group.0.prefix = /system.slice'', ''group.0.weight = 0.3'', ''group.0.mode = cold'',
      ''group.1.prefix = /user.slice'', ''group.1.weight = 1.5'', ''group.1.mode = pageout''])"

text \<open>The indices 0 and 1 are in range, because the length is compared first.\<close>

definition groups_as_written :: "config \<Rightarrow> bool" where
  "groups_as_written c \<longleftrightarrow> c_interval_ms c = 500 \<and> \<not> c_damon c \<and> c_default_mode c = ''cold'' \<and> length (c_groups c) = 2 \<and>
     g_prefix (c_groups c ! 0) = ''/system.slice'' \<and> g_weight (c_groups c ! 0) = dlit 3 1 \<and>
     g_mode (c_groups c ! 0) = 1 \<and> g_mode (c_groups c ! 1) = 0"

text \<open>The file is removed after the assertions.\<close>

definition test_config_groups :: "bool \<Rightarrow> kernel \<Rightarrow> test" where
  "test_config_groups nd K s =
     (let (r, s1) = write_file K test_path test_conf s
      in if r = No_File then (if nd then None else Some (False, s1))
         else (let (text, s2) = read_file K test_path s1
               in do { c \<leftarrow> reload text config_default; Some (nd \<or> groups_as_written c, s2) }))"

fun run_tests :: "test list \<Rightarrow> test" where
  "run_tests [] s = Some (True, s)"
| "run_tests (t # ts) s = do { (ok, s1) \<leftarrow> t s; if ok then run_tests ts s1 else Some (False, s1) }"

definition core_tests :: "bool \<Rightarrow> kernel \<Rightarrow> test list" where
  "core_tests nd K = [test_fmt nd, test_psi nd K, test_meminfo nd K, test_ws_self nd K, test_pidfd nd K, test_config nd K, test_config_groups nd K]"

section \<open>Tests that need nothing of the kernel\<close>

lemma test_fmt_passes: "test_fmt nd s = Some (True, s)"
  by (simp add: test_fmt_def fmt_line_example)

lemma test_psi_passes: "\<exists>s'. test_psi nd K s = Some (True, s')"
  by (simp add: test_psi_def split: prod.split)

lemma test_config_passes: "k_read K (s_now s) ''/nonexistent'' = None \<Longrightarrow> \<exists>s'. test_config nd K s = Some (True, s')"
  by (simp add: test_config_def read_file_def reload_def config_default_def)

lemma reload_test_conf: "\<exists>c. reload (Some test_conf) config_default = Some c \<and> groups_as_written c"
proof -
  have "case reload (Some test_conf) config_default of None \<Rightarrow> False | Some c \<Rightarrow> groups_as_written c" by code_simp
  then show ?thesis by (auto split: option.splits)
qed

lemma test_config_groups_passes:
  assumes "k_write K (s_now s) test_path test_conf \<noteq> No_File" "\<forall>t. k_read K t test_path = Some test_conf"
  shows "\<exists>s'. test_config_groups nd K s = Some (True, s')"
  using assms reload_test_conf by (auto simp: test_config_groups_def write_file_def read_file_def)

section \<open>The whole program\<close>

text \<open>On a kernel with memory, whose \<open>/proc/meminfo\<close> is in the kernel's format and does not have the key \<open>Anonymous:\<close> (it has \<open>AnonPages:\<close>, so the
  second assertion on it compares 0), with soft-dirty tracking that sees the test's own page, pid file descriptors and a
  writable \<open>/tmp\<close>, all tests pass.\<close>

theorem core_tests_pass:
  assumes "\<forall>t. k_read K t ''/proc/meminfo'' = Some (concat (map mem_line es))" "list_all key_ok es" "''Anonymous:'' \<notin> fst ` set es"
    "0 < m_total_kb (fold (\<lambda>(key, pad, v). mem_key key v) es mem_none)"
    "\<forall>t. k_write K t (proc_path (k_self K) ''clear_refs'') (''4'' @ [newline]) \<noteq> No_File"
    "\<forall>s :: sys. \<exists>w s'. sample_working_set K (k_self K) s = Some (w, s') \<and> ws_ok w \<and> 0 < ws_touched_kb w"
    "\<forall>t. 0 \<le> k_pidfd K t (k_self K)" "\<forall>t. k_read K t ''/nonexistent'' = None"
    "\<forall>t. k_write K t test_path test_conf \<noteq> No_File" "\<forall>t. k_read K t test_path = Some test_conf"
  shows "\<exists>s'. run_tests (core_tests nd K) s = Some (True, s')"
proof -
  obtain s1 where 1: "test_psi nd K s = Some (True, s1)" using test_psi_passes by blast
  have m: "mem_loop (concat (map mem_line es)) mem_none = fold (\<lambda>(key, pad, v). mem_key key v) es mem_none"
    "m_anon_kb (mem_loop (concat (map mem_line es)) mem_none) = 0"
    using mem_loop_lines [OF assms(2)] mem_keys_anon [OF assms(3)] by (simp_all add: mem_none_def)
  obtain s2 where 2: "test_meminfo nd K s1 = Some (True, s2)"
    using assms(1,4) m by (simp add: test_meminfo_def meminfo_def read_file_def)
  obtain s3 where 3: "test_ws_self nd K s2 = Some (True, s3)"
    using assms(5) assms(6) [rule_format, of "snd (clear_soft_dirty K (k_self K) s2)"] assms(6) [rule_format, of s2]
    by (cases nd) (auto simp: test_ws_self_def clear_soft_dirty_def write_file_def Let_def)
  obtain s4 where 4: "test_pidfd nd K s3 = Some (True, s4)" using assms(7) by (simp add: test_pidfd_def pidfd_open_def)
  obtain s5 where 5: "test_config nd K s4 = Some (True, s5)" using test_config_passes assms(8) by blast
  obtain s6 where 6: "test_config_groups nd K s5 = Some (True, s6)" using test_config_groups_passes assms(9,10) by blast
  show ?thesis by (simp add: core_tests_def test_fmt_passes 1 2 3 4 5 6)
qed

text \<open>In a release build the program cannot fail: whatever the kernel answers, if the tests return they pass.\<close>

theorem release_tests_pass:
  assumes "run_tests (core_tests True K) s = Some (ok, s')"
  shows "ok"
proof -
  have "ok" if "run_tests ts s = Some (ok, s')" "\<forall>t\<in>set ts. \<forall>s ok s'. t s = Some (ok, s') \<longrightarrow> ok" for ts s
    using that
  proof (induction ts arbitrary: s)
    case (Cons t ts)
    then obtain o1 s1 where o: "t s = Some (o1, s1)" by (auto split: bind_splits)
    then have "o1" using Cons.prems(2) by auto
    then have r: "run_tests ts s1 = Some (ok, s')" using Cons.prems(1) o by simp
    have "\<forall>t\<in>set ts. \<forall>s ok s'. t s = Some (ok, s') \<longrightarrow> ok" using Cons.prems(2) by (meson list.set_intros(2))
    then show ?case by (rule Cons.IH [OF r])
  qed simp
  moreover have "\<forall>t\<in>set (core_tests True K). \<forall>s ok s'. t s = Some (ok, s') \<longrightarrow> ok"
    by (auto simp: core_tests_def test_fmt_def test_psi_def test_meminfo_def test_ws_self_def test_pidfd_def test_config_def
        test_config_groups_def Let_def split: prod.splits bind_splits if_splits)
  ultimately show ?thesis using assms by blast
qed

text \<open>Without the soft-dirty bit of its own page, or without the page map, the program stops at the fourth test.\<close>

theorem ws_test_fails:
  assumes "\<forall>t. \<not> k_open K t (proc_path (k_self K) ''pagemap'')"
  shows "\<exists>s'. test_ws_self False K s = Some (False, s')"
  using assms by (auto simp: test_ws_self_def sample_working_set_def ws_none_def Let_def split: prod.splits)

text \<open>A kernel on which they pass: one anonymous page, written since the flags were cleared.\<close>

definition test_maps :: string where
  "test_maps = ''00400000-00401000 rw-p 00000000 00:00 0'' @ [newline]"

definition test_kernel :: kernel where
  "test_kernel =
     \<lparr>k_read = (\<lambda>t f. if f = ''/proc/meminfo'' then Some (concat (map mem_line demo_mem))
        else if f = ''/proc/99/maps'' then Some test_maps else if f = test_path then Some test_conf else None),
      k_stat = (\<lambda>t f. False), k_write = (\<lambda>t f v. Written), k_proc = (\<lambda>t. None), k_pidfd = (\<lambda>t p. 7),
      k_madvise = (\<lambda>t fd a len d. - 1), k_open = (\<lambda>t f. True), k_seek = (\<lambda>t f off. True),
      k_pread = (\<lambda>t f off len. (8, [push_bit 55 1])), k_self = 99, k_bpf = (\<lambda>t n. False), k_faults = (\<lambda>t. [])\<rparr>"

lemma test_maps_text: "maps_text test_maps = [\<lparr>v_start = 0x400000, v_end = 0x401000, v_readable = True, v_writable = True, v_priv_anon = True\<rparr>]"
  by code_simp

lemma test_kernel_samples:
  "\<exists>w s'. sample_working_set test_kernel 99 (s :: sys) = Some (w, s') \<and> ws_ok w \<and> 0 < ws_touched_kb w"
proof -
  have p: "proc_path 99 ''maps'' = ''/proc/99/maps''" by code_simp
  have m: "read_maps test_kernel 99 u =
      ([\<lparr>v_start = 0x400000, v_end = 0x401000, v_readable = True, v_writable = True, v_priv_anon = True\<rparr>],
       emit (Read_File ''/proc/99/maps'') u)" for u :: sys
    by (simp add: read_maps_def read_file_def p test_kernel_def test_maps_text)
  have k: "k_pread test_kernel t f off len = (8, [push_bit 55 1])" "k_open test_kernel t f" "k_seek test_kernel t f off" for t f off len
    by (simp_all add: test_kernel_def)
  have "count_dirty (take (unat (word_of_int 8 div 8 :: u64)) [push_bit 55 1]) = 1" by code_simp
  then have c: "ws_chunks test_kernel f off 1 0 u = Some (1, emit (Pread f off 8) u)" for f off and u :: sys
    by (subst ws_chunks.simps, simp add: k, subst ws_chunks.simps, simp)
  show ?thesis by (simp add: sample_working_set_def m k c Let_def)
qed

theorem core_tests_pass_witness: "\<exists>s'. run_tests (core_tests False test_kernel) \<lparr>s_now = 0, s_calls = []\<rparr> = Some (True, s')"
proof -
  have d: "list_all key_ok demo_mem" "''Anonymous:'' \<notin> fst ` set demo_mem"
    by (simp_all add: demo_mem_def key_ok_def is_space_def char_code_def)
  have t: "0 < m_total_kb (fold (\<lambda>(key, pad, v). mem_key key v) demo_mem mem_none)" by (simp add: demo_mem_def mem_key_def mem_none_def)
  have "k_self test_kernel = 99" by (simp add: test_kernel_def)
  then have s: "\<forall>s :: sys. \<exists>w s'. sample_working_set test_kernel (k_self test_kernel) s = Some (w, s') \<and> ws_ok w \<and> 0 < ws_touched_kb w"
    using test_kernel_samples by simp
  show ?thesis
    by (rule core_tests_pass [OF _ d t _ s]) (simp_all add: test_kernel_def test_path_def)
qed

end
