(* ===== verification/Locks.thy ===== *)
theory Locks
  imports AllocHeap
begin

text \<open>
  The mutexes of the allocator (\<open>g_slot_mu\<close> and \<open>g_mu[68]\<close> of \<open>preload.cpp\<close>) under concurrency.
  The other theories run each entry point as one step. Here a call is the sequence of lock
  operations the code performs, computed from the state it finds by the same conditions, and
  the threads of the process interleave. The fork handlers (lines 305 to 313) are part of it.

  \<open>calloc\<close>, \<open>realloc\<close> and the aligned functions lock nothing themselves: under locks they are the
  calls of \<open>malloc\<close> and \<open>free\<close> they make, one after the other, and for \<open>realloc\<close> the look at the headers before.

  Not everything happens under a mutex. \<open>free\<close>, \<open>realloc\<close> and the destructor of the thread cache read the header in front
  of a pointer to recognise it, and \<open>free\<close> unmaps a large block, with no mutex held; these accesses are operations of their own.
\<close>

section \<open>Mutexes and lock operations\<close>

datatype mutex = SlotMu | ClassMu nat

text \<open>\<open>Use m\<close> stands for work on the data \<open>m\<close> protects: the class list with its runs, or the
  mapping of a piece of the reserve. \<open>Peek a\<close> reads the fields of the header at \<open>a\<close> (lines 186 to 199 and 448), \<open>Unmap a\<close>
  unmaps the large block with its header at \<open>a\<close> (line 462); neither needs a mutex in the code.\<close>

datatype lop = Lock mutex | Unlock mutex | Use mutex | Peek u64 | Unmap u64 | Fork

definition with_mutex :: "mutex \<Rightarrow> lop list" where
  "with_mutex m = [Lock m, Use m, Unlock m]"

section \<open>What each call does\<close>

text \<open>\<open>run_new\<close> and large requests take \<open>g_slot_mu\<close> around \<open>reserve_map\<close> if there is a reserve.\<close>

definition slot_ops :: "alloc \<Rightarrow> lop list" where
  "slot_ops s = (if g_res_start s \<noteq> 0 then with_mutex SlotMu else [])"

definition malloc_run_ops :: "os \<Rightarrow> nat \<Rightarrow> alloc \<Rightarrow> lop list" where
  "malloc_run_ops os c s =
     [Lock (ClassMu c), Use (ClassMu c)] @
     (if find_run s (class_head s c) = Some 0
      then slot_ops s @ (case run_new os (c + 1) s of
             Some (a, _) \<Rightarrow> if a \<noteq> 0 then [Use (ClassMu c)] else [] | None \<Rightarrow> [])
      else [Use (ClassMu c)]) @
     [Unlock (ClassMu c)]"

definition malloc_ready_ops :: "os \<Rightarrow> nat \<Rightarrow> u64 \<Rightarrow> alloc \<Rightarrow> lop list" where
  "malloc_ready_ops os tid n s =
     (if n \<ge> kLargeMin then slot_ops s
      else let c = class_of n - 1
           in case tc_current tid s of
                Some tc \<Rightarrow> (if tc_n tc ! c \<noteq> 0 then [] else malloc_run_ops os c s)
              | None \<Rightarrow> malloc_run_ops os c s)"

definition malloc_ops :: "os \<Rightarrow> nat \<Rightarrow> u64 \<Rightarrow> alloc \<Rightarrow> lop list" where
  "malloc_ops os tid n0 s0 =
     (let n = (if n0 = 0 then 1 else n0);
          s1 = (if g_ready s0 then s0 else ensure_init os s0)
      in if g_ready s1 then malloc_ready_ops os tid n s1 else [])"

definition free_ops :: "nat \<Rightarrow> u64 \<Rightarrow> alloc \<Rightarrow> lop list" where
  "free_ops tid p s =
     (if p = 0 then []
      else if g_res_start s \<noteq> 0 \<and> \<not> in_reserve s p then []
      else if \<not> in_reserve s p then []
      else Peek (run_of p) #
        (if ours_small s p = Some True
         then (let c = unat (r_cls (run_view s (run_of p))) - 1
               in case tc_current tid s of
                    Some tc \<Rightarrow> (if tc_n tc ! c < kTCap then [] else with_mutex (ClassMu c))
                  | None \<Rightarrow> with_mutex (ClassMu c))
         else Peek (p - sizeof_LargeHdr) #
           (if ours_large s p = Some True
            then [Unmap (p - sizeof_LargeHdr), Peek (p - sizeof_LargeHdr)] else [])))"

text \<open>What \<open>realloc\<close> looks at before it calls \<open>malloc\<close> and \<open>free\<close>.\<close>

definition realloc_lookup_ops :: "u64 \<Rightarrow> alloc \<Rightarrow> lop list" where
  "realloc_lookup_ops p s =
     (if g_res_start s \<noteq> 0 \<and> in_reserve s p
      then Peek (run_of p) # (if ours_small s p = Some True then [] else [Peek (p - sizeof_LargeHdr)])
      else [])"

definition trim_ops :: "alloc \<Rightarrow> lop list" where
  "trim_ops s = (if \<not> g_ready s then [] else concat (map (\<lambda>c. with_mutex (ClassMu c)) [0..<kNumClasses]))"

text \<open>The destructor of the thread cache locks and unlocks for each pointer it gives back.\<close>

definition tcache_dtor_ops :: "tcache \<Rightarrow> alloc \<Rightarrow> lop list" where
  "tcache_dtor_ops tc s =
     concat (map (\<lambda>p. if in_reserve s p
                      then Peek (run_of p) #
                        (if ours_small s p = Some True
                         then with_mutex (ClassMu (unat (r_cls (run_view s (run_of p))) - 1)) else [])
                      else [])
       (concat (map (\<lambda>c. take (unat (tc_n tc ! c)) (tc_buf tc ! c)) [0..<kNumClasses])))"

definition atfork_prepare :: "alloc \<Rightarrow> lop list" where
  "atfork_prepare s = (if \<not> g_ready s then []
     else Lock SlotMu # map (\<lambda>c. Lock (ClassMu c)) [0..<kNumClasses])"

definition atfork_release :: "lop list" where
  "atfork_release = map (\<lambda>c. Unlock (ClassMu c)) [0..<kNumClasses] @ [Unlock SlotMu]"

text \<open>\<open>fork()\<close> in a process with the handlers registered: \<open>prepare\<close>, the system call, and \<open>release\<close>
  in the parent. The child runs what follows \<open>Fork\<close> as well.\<close>

definition fork_ops :: "alloc \<Rightarrow> lop list" where
  "fork_ops s = atfork_prepare s @ [Fork] @ atfork_release"

text \<open>The calls a thread can make; forking can be left out. The handlers are registered after
  \<open>g_ready\<close> is set, by the thread that sets \<open>started\<close>.\<close>

inductive call_ops :: "os \<Rightarrow> bool \<Rightarrow> nat \<Rightarrow> lop list \<Rightarrow> bool" for os forks tid where
  call_malloc: "call_ops os forks tid (malloc_ops os tid n s)"
| call_free: "call_ops os forks tid (free_ops tid p s)"
| call_lookup: "call_ops os forks tid (realloc_lookup_ops p s)"
| call_trim: "call_ops os forks tid (trim_ops s)"
| call_exit: "call_ops os forks tid (tcache_dtor_ops tc s)"
| call_fork: "forks \<Longrightarrow> g_started s \<Longrightarrow> g_ready s \<Longrightarrow> call_ops os forks tid (fork_ops s)"

section \<open>Interleaving\<close>

text \<open>Who holds each mutex, and what each thread has left of its current call.\<close>

record lk =
  owner :: "mutex \<Rightarrow> nat option"
  prog :: "nat \<Rightarrow> lop list"

definition lk_initial :: lk where
  "lk_initial = \<lparr>owner = Map.empty, prog = (\<lambda>_. [])\<rparr>"

text \<open>One operation of a thread; \<open>None\<close> if it has nothing to do or must wait.\<close>

definition exec :: "nat \<Rightarrow> lk \<Rightarrow> lk option" where
  "exec t s =
     (case prog s t of
        [] \<Rightarrow> None
      | Lock m # k \<Rightarrow> (if owner s m = None
                      then Some (s\<lparr>owner := (owner s)(m \<mapsto> t), prog := (prog s)(t := k)\<rparr>) else None)
      | Unlock m # k \<Rightarrow> Some (s\<lparr>owner := (owner s)(m := None), prog := (prog s)(t := k)\<rparr>)
      | Use m # k \<Rightarrow> Some (s\<lparr>prog := (prog s)(t := k)\<rparr>)
      | Peek a # k \<Rightarrow> Some (s\<lparr>prog := (prog s)(t := k)\<rparr>)
      | Unmap a # k \<Rightarrow> Some (s\<lparr>prog := (prog s)(t := k)\<rparr>)
      | Fork # k \<Rightarrow> Some (s\<lparr>prog := (prog s)(t := k)\<rparr>))"

inductive lk_step :: "os \<Rightarrow> bool \<Rightarrow> lk \<Rightarrow> lk \<Rightarrow> bool" for os forks where
  lk_exec: "exec t s = Some s' \<Longrightarrow> lk_step os forks s s'"
| lk_call: "prog s t = [] \<Longrightarrow> call_ops os forks t ops \<Longrightarrow> lk_step os forks s (s\<lparr>prog := (prog s)(t := ops)\<rparr>)"

definition lk_reach :: "os \<Rightarrow> bool \<Rightarrow> lk \<Rightarrow> bool" where
  "lk_reach os forks s \<longleftrightarrow> (lk_step os forks)\<^sup>*\<^sup>* lk_initial s"

text \<open>The threads run on without starting new calls.\<close>

definition runs_to :: "lk \<Rightarrow> lk \<Rightarrow> bool" where
  "runs_to = (\<lambda>s s'. \<exists>t. exec t s = Some s')\<^sup>*\<^sup>*"

text \<open>The child process: the mutexes as they are, and the forking thread alone.\<close>

definition fork_child :: "nat \<Rightarrow> lk \<Rightarrow> lk" where
  "fork_child t s = \<lparr>owner = owner s, prog = (\<lambda>u. if u = t then tl (prog s t) else [])\<rparr>"

section \<open>The discipline every call follows\<close>

text \<open>From the held mutexes \<open>h\<close> the operations never take a mutex twice, use only what they hold,
  release only what they hold and end with none. With \<open>ord\<close> a class mutex is taken only when none
  is held, and \<open>g_slot_mu\<close> only on top of class mutexes.\<close>

fun mu_rank :: "mutex \<Rightarrow> nat" where
  "mu_rank (ClassMu c) = 0"
| "mu_rank SlotMu = 1"

fun disciplined :: "bool \<Rightarrow> mutex set \<Rightarrow> lop list \<Rightarrow> bool" where
  "disciplined ord h [] = (h = {})"
| "disciplined ord h (Lock m # k) =
     (m \<notin> h \<and> (ord \<longrightarrow> (\<forall>x\<in>h. mu_rank x < mu_rank m)) \<and> disciplined ord (insert m h) k)"
| "disciplined ord h (Unlock m # k) = (m \<in> h \<and> disciplined ord (h - {m}) k)"
| "disciplined ord h (Use m # k) = (m \<in> h \<and> disciplined ord h k)"
| "disciplined ord h (Peek a # k) = disciplined ord h k"
| "disciplined ord h (Unmap a # k) = disciplined ord h k"
| "disciplined ord h (Fork # k) = disciplined ord h k"

lemma disciplined_append [intro]:
  "disciplined ord h a \<Longrightarrow> disciplined ord {} b \<Longrightarrow> disciplined ord h (a @ b)"
  by (induction ord h a rule: disciplined.induct) auto

lemma disciplined_concat [intro]:
  "(\<And>x. x \<in> set xs \<Longrightarrow> disciplined ord {} (f x)) \<Longrightarrow> disciplined ord {} (concat (map f xs))"
  by (induction xs) auto

lemma disciplined_weaken: "disciplined True h k \<Longrightarrow> disciplined ord h k"
  by (induction True h k rule: disciplined.induct) auto

lemma disciplined_with_mutex [simp]: "disciplined ord {} (with_mutex m)"
  by (simp add: with_mutex_def)

lemma disciplined_slot [simp]: "disciplined ord {} (slot_ops s)"
  by (simp add: slot_ops_def)

lemma disciplined_malloc_run: "disciplined ord {} (malloc_run_ops os c s)"
  by (auto simp: malloc_run_ops_def slot_ops_def with_mutex_def insert_Diff_if split: option.splits)

lemma disciplined_malloc: "disciplined ord {} (malloc_ops os tid n s)"
  by (auto simp: malloc_ops_def malloc_ready_ops_def Let_def disciplined_malloc_run split: option.splits)

lemma disciplined_free: "disciplined ord {} (free_ops tid p s)"
  by (auto simp: free_ops_def Let_def split: option.splits)

lemma disciplined_lookup: "disciplined ord {} (realloc_lookup_ops p s)"
  by (simp add: realloc_lookup_ops_def)

lemma disciplined_trim: "disciplined ord {} (trim_ops s)"
  by (auto simp: trim_ops_def)

lemma disciplined_dtor: "disciplined ord {} (tcache_dtor_ops tc s)"
  unfolding tcache_dtor_ops_def by (rule disciplined_concat) simp

lemma disciplined_lock_all:
  "distinct cs \<Longrightarrow> ClassMu ` set cs \<inter> h = {} \<Longrightarrow> disciplined False (ClassMu ` set cs \<union> h) k \<Longrightarrow>
   disciplined False h (map (\<lambda>c. Lock (ClassMu c)) cs @ k)"
proof (induction cs arbitrary: h)
  case (Cons c cs)
  have "disciplined False (insert (ClassMu c) h) (map (\<lambda>c. Lock (ClassMu c)) cs @ k)"
    by (rule Cons.IH) (use Cons.prems in auto)
  then show ?case using Cons.prems by simp
qed simp

lemma disciplined_unlock_all:
  "distinct cs \<Longrightarrow> ClassMu ` set cs \<subseteq> h \<Longrightarrow> disciplined ord (h - ClassMu ` set cs) k \<Longrightarrow>
   disciplined ord h (map (\<lambda>c. Unlock (ClassMu c)) cs @ k)"
proof (induction cs arbitrary: h)
  case (Cons c cs)
  have "h - {ClassMu c} - ClassMu ` set cs = h - ClassMu ` set (c # cs)" by auto
  then have "disciplined ord (h - {ClassMu c}) (map (\<lambda>c. Unlock (ClassMu c)) cs @ k)"
    by (intro Cons.IH) (use Cons.prems in auto)
  then show ?case using Cons.prems by simp
qed simp

text \<open>All mutexes of the allocator.\<close>

definition all_mutexes :: "mutex set" where
  "all_mutexes = insert SlotMu (ClassMu ` {0..<kNumClasses})"

lemma disciplined_release: "disciplined ord all_mutexes atfork_release"
  unfolding atfork_release_def all_mutexes_def by (rule disciplined_unlock_all) auto

lemma disciplined_fork:
  assumes "g_ready s"
  shows "disciplined False {} (fork_ops s)"
proof -
  have "disciplined False (ClassMu ` set [0..<kNumClasses] \<union> {SlotMu}) (Fork # atfork_release)"
    using disciplined_release by (simp add: all_mutexes_def)
  then have "disciplined False {SlotMu} (map (\<lambda>c. Lock (ClassMu c)) [0..<kNumClasses] @ Fork # atfork_release)"
    by (intro disciplined_lock_all) auto
  then show ?thesis using assms by (simp add: fork_ops_def atfork_prepare_def)
qed

lemma disciplined_call: "call_ops os forks t ops \<Longrightarrow> disciplined (\<not> forks) {} ops"
  by (induction rule: call_ops.induct)
    (auto simp: disciplined_malloc disciplined_free disciplined_lookup disciplined_trim disciplined_dtor disciplined_fork)

end
