(* ===== verification/LockFrames.thy ===== *)
theory LockFrames
  imports Locks
begin

text \<open>
  Which data each call of the allocator changes, against the marks in the lists of \<open>Locks\<close>: a call
  changes the runs, the list and the live count of a class, or the bump pointer, only where its list has a \<open>Use\<close> of the
  mutex that protects them.
\<close>

section \<open>The data behind each mutex\<close>

text \<open>Class \<open>c\<close>: its \<open>ClassState\<close> and the headers of its runs. \<open>g_slot_mu\<close>: the bump pointer.\<close>

definition class_runs :: "alloc \<Rightarrow> nat \<Rightarrow> u64 \<Rightarrow> run option" where
  "class_runs s c a = (case g_runs s a of Some r \<Rightarrow> (if unat (r_cls r) = c + 1 then Some r else None) | None \<Rightarrow> None)"

fun touched :: "alloc \<Rightarrow> alloc \<Rightarrow> mutex \<Rightarrow> bool" where
  "touched s s' (ClassMu c) \<longleftrightarrow> c < kNumClasses \<and> (g_cls s' ! c \<noteq> g_cls s ! c \<or> class_runs s' c \<noteq> class_runs s c)"
| "touched s s' SlotMu \<longleftrightarrow> g_res_bump s' \<noteq> g_res_bump s"

lemma touched_trans: "touched s u m \<Longrightarrow> touched s t m \<or> touched t u m"
  by (cases m) auto

lemma touched_refl [simp]: "\<not> touched s s m"
  by (cases m) auto

text \<open>\<open>only_class c s s'\<close>: nothing but the data of class \<open>c\<close> differs.\<close>

definition in_class :: "nat \<Rightarrow> run option \<Rightarrow> bool" where
  "in_class c x \<longleftrightarrow> (\<forall>r. x = Some r \<longrightarrow> unat (r_cls r) = c + 1)"

definition only_class :: "nat \<Rightarrow> alloc \<Rightarrow> alloc \<Rightarrow> bool" where
  "only_class c s s' \<longleftrightarrow> (\<forall>d. d \<noteq> c \<longrightarrow> g_cls s' ! d = g_cls s ! d) \<and>
     (\<forall>a. g_runs s' a = g_runs s a \<or> in_class c (g_runs s a) \<and> in_class c (g_runs s' a))"

lemma only_class_touched: "only_class c s s' \<Longrightarrow> touched s s' (ClassMu d) \<Longrightarrow> d = c"
proof (rule ccontr)
  assume o: "only_class c s s'" and t: "touched s s' (ClassMu d)" and n: "d \<noteq> c"
  have "class_runs s' d a = class_runs s d a" for a
  proof (cases "g_runs s' a = g_runs s a")
    case False
    then have "in_class c (g_runs s a)" "in_class c (g_runs s' a)" using o unfolding only_class_def by blast+
    then show ?thesis using n by (auto simp: class_runs_def in_class_def split: option.split)
  qed (simp add: class_runs_def)
  then have "class_runs s' d = class_runs s d" by (rule ext)
  then show False using o t n by (simp add: only_class_def)
qed

lemma only_class_refl [simp]: "only_class c s s"
  by (simp add: only_class_def)

lemma only_class_same: "g_cls s' = g_cls s \<Longrightarrow> g_runs s' = g_runs s \<Longrightarrow> only_class c s s'"
  by (simp add: only_class_def)

lemma only_class_trans: "only_class c s t \<Longrightarrow> only_class c t u \<Longrightarrow> only_class c s u"
  unfolding only_class_def by metis

section \<open>The operations on runs\<close>

lemma list_step_only:
  assumes "list_step c A s s'" "A \<subseteq> runs_of_class s c"
  shows "only_class c s s'"
proof -
  obtain R h where R: "s' = s\<lparr>g_runs := R, g_cls := (g_cls s)[c := (g_cls s ! c)\<lparr>cs_head := h\<rparr>]\<rparr>"
    "same_core (g_runs s) R" "\<forall>x. x \<notin> A \<longrightarrow> R x = g_runs s x" using assms(1) unfolding list_step_def by blast
  have "in_class c (g_runs s a) \<and> in_class c (R a)" if "a \<in> A" for a
  proof -
    have "a \<in> runs_of_class s c" using that assms(2) by blast
    then obtain r where r: "g_runs s a = Some r" "unat (r_cls r) = c + 1" by (auto simp: runs_of_class_def)
    have "same_core R (g_runs s)" using R(2) by (simp add: same_core_def)
    from same_core_Some [OF this r(1)] obtain r' where "R a = Some r'" "core r' = core r" by metis
    then show ?thesis using r core_fields(2) [of r' r] by (simp add: in_class_def)
  qed
  then show ?thesis using R(3) by (auto simp: only_class_def R(1))
qed

lemma run_insert_only:
  assumes "mem_inv s" "class_lists s {a}" "g_runs s a = Some r" "unat (r_cls r) = c + 1" "c < 68" "run_insert c a s = Some s'"
  shows "only_class c s s'"
proof -
  obtain L where L: "dlist (g_runs s) (class_head s c) L" "set L = runs_of_class s c - {a}"
    using assms(2,5) by (auto simp: class_lists_def)
  have am: "a \<in> runs_of_class s c" using assms(3,4) by (auto simp: runs_of_class_def)
  have len: "c < length (g_cls s)" using assms(5) mem_invD(2) [OF assms(1)] by simp
  from run_insert_dlist [OF L(1) assms(3) run_facts(6) [OF assms(1,3)] _ len] L(2) assms(6)
  have "list_step c (insert a (set L)) s s'" by auto
  then show ?thesis by (rule list_step_only) (use L(2) am in auto)
qed

lemma run_remove_only:
  assumes "mem_inv s" "class_lists s {}" "g_runs s a = Some r" "unat (r_cls r) = c + 1" "c < 68" "run_remove c a s = Some s'"
  shows "only_class c s s'"
proof -
  obtain L where L: "dlist (g_runs s) (class_head s c) L" "set L = runs_of_class s c"
    using assms(2,5) by (auto simp: class_lists_def)
  have am: "a \<in> set L" using assms(3,4) L(2) by (auto simp: runs_of_class_def)
  have len: "c < length (g_cls s)" using assms(5) mem_invD(2) [OF assms(1)] by simp
  from run_remove_dlist [OF L(1) am len] assms(6) have "list_step c (set L - {a}) s s'" by auto
  then show ?thesis by (rule list_step_only) (use L(2) in auto)
qed

text \<open>Taking and giving a block, in any state.\<close>

lemma now_ms_fields:
  "now_ms os s = (t, s1) \<Longrightarrow> g_cls s1 = g_cls s \<and> g_runs s1 = g_runs s \<and> g_res_bump s1 = g_res_bump s"
  by (auto simp: now_ms_def split: prod.splits)

lemma take_block_cls: "take_block r = Some (idx, r') \<Longrightarrow> r_cls r' = r_cls r"
  by (auto simp: take_block_def Let_def split: option.splits)

lemma run_take_only:
  assumes "run_take os a s = Some (p, s')" "g_runs s a = Some r" "unat (r_cls r) = c + 1"
  shows "only_class c s s'" "g_res_bump s' = g_res_bump s"
proof -
  have "only_class c s s' \<and> g_res_bump s' = g_res_bump s"
  proof (cases "take_block r")
    case None
    then show ?thesis using assms(1,2) by (simp add: run_take_def)
  next
    case (Some x)
    obtain idx r1 where x: "x = (idx, r1)" by (cases x)
    obtain t s1 where n: "now_ms os s = (t, s1)" by fastforce
    note f = now_ms_fields [OF n] take_block_cls [OF Some [unfolded x]]
    obtain r2 where s': "s' = add_live c 1 (put_run a r2 s1)" "r_cls r2 = r_cls r"
      using assms f(2) by (auto simp: run_take_def Some x n Let_def split: if_splits)
    show ?thesis using f(1) assms(2,3) s'(2) by (auto simp: s'(1) only_class_def in_class_def add_live_def put_run_def)
  qed
  then show "only_class c s s'" "g_res_bump s' = g_res_bump s" by blast+
qed

lemma give_block_fields:
  "r_cls (give_block i r) = r_cls r" "r_magic (give_block i r) = r_magic r" "r_elems (give_block i r) = r_elems r"
  "r_elem (give_block i r) = r_elem r"
  by (simp_all add: give_block_def Let_def)

text \<open>What a pointer is recognised by stays as it is.\<close>

definition same_headers :: "alloc \<Rightarrow> alloc \<Rightarrow> bool" where
  "same_headers s s' \<longleftrightarrow> g_acc s' = g_acc s \<and> g_bytes s' = g_bytes s \<and> g_larges s' = g_larges s \<and>
     g_res_start s' = g_res_start s \<and> g_res_end s' = g_res_end s \<and>
     (\<forall>a. map_option (\<lambda>r. (r_magic r, r_cls r, r_elems r, r_elem r)) (g_runs s' a) =
          map_option (\<lambda>r. (r_magic r, r_cls r, r_elems r, r_elem r)) (g_runs s a))"

lemma run_give_spec:
  assumes "run_give os a p s = Some s'"
  obtains r where "g_runs s a = Some r" "only_class (unat (r_cls r) - 1) s s' \<or> r_cls r = 0"
    "g_res_bump s' = g_res_bump s" "same_headers s s'"
proof -
  obtain r where r: "g_runs s a = Some r" using assms by (cases "g_runs s a") (simp_all add: run_give_def)
  obtain t s1 where 1: "now_ms os s = (t, s1)" by fastforce
  obtain t' s2 where 2: "now_ms os s1 = (t', s2)" by fastforce
  have f: "g_cls s1 = g_cls s" "g_runs s1 = g_runs s" "g_res_bump s1 = g_res_bump s"
    "g_cls s2 = g_cls s" "g_runs s2 = g_runs s" "g_res_bump s2 = g_res_bump s"
    using now_ms_fields [OF 1] now_ms_fields [OF 2] by simp_all
  have g: "g_acc s1 = g_acc s" "g_bytes s1 = g_bytes s" "g_larges s1 = g_larges s" "g_res_start s1 = g_res_start s" "g_res_end s1 = g_res_end s"
    "g_acc s2 = g_acc s" "g_bytes s2 = g_bytes s" "g_larges s2 = g_larges s" "g_res_start s2 = g_res_start s" "g_res_end s2 = g_res_end s"
    using 1 2 by (auto simp: now_ms_def split: prod.splits)
  obtain q u where s': "s' = add_live (unat (r_cls r) - 1) (- 1) (put_run a q u)" "u = s1 \<or> u = s2"
    "r_cls q = r_cls r" "r_magic q = r_magic r" "r_elems q = r_elems r" "r_elem q = r_elem r"
    using assms give_block_fields by (auto simp: run_give_def r 1 2 Let_def split: if_splits)
  have "only_class (unat (r_cls r) - 1) s s'" if "r_cls r \<noteq> 0"
  proof -
    have "0 < unat (r_cls r)" using that by (simp add: unat_gt_0)
    then have "unat (r_cls r) = unat (r_cls r) - 1 + 1" by linarith
    then show ?thesis using f s'(2,3) r by (auto simp: s'(1) only_class_def in_class_def add_live_def put_run_def)
  qed
  moreover have "g_res_bump s' = g_res_bump s" using f s'(2) by (auto simp: s'(1) add_live_def put_run_def)
  moreover have "same_headers s s'" using f g s'(2-6) r by (auto simp: s'(1) same_headers_def add_live_def put_run_def)
  ultimately show thesis using that r by blast
qed

section \<open>Allocation\<close>

lemma reserve_piece:
  assumes "ainv s" "no_wrap s sz (2 ^ k)" "k < 64" "sz \<noteq> 0" "reserve_map os sz (2 ^ k) s = (p, s1)"
  shows "only_class c s s1"
  using reserve_map_ok [OF assms] by (intro only_class_same) simp_all

lemma run_new_only:
  assumes inv: "ainv s" and c: "c < 68" and nw: "no_wrap s (run_msize (c + 1)) kRunSize"
    and run: "run_new os (c + 1) s = Some (a, s')"
  shows "only_class c s s'"
proof -
  have co: "class_ok (c + 1)" using c by simp
  obtain a1 s1 where rm: "reserve_map os (run_msize (c + 1)) (2 ^ 21) s = (a1, s1)" by fastforce
  have nw': "no_wrap s (run_msize (c + 1)) (2 ^ 21)" using nw unfolding two_pow_21 .
  have msz: "unat (run_msize (c + 1)) = map_n (c + 1)" "4096 \<le> map_n (c + 1)" using co unat_run_msize map_n_bounds(5) by auto
  have nz: "run_msize (c + 1) \<noteq> 0" using msz by auto
  note m = reserve_map_ok [OF inv nw' _ nz rm, simplified]
  have o1: "only_class c s s1" by (rule reserve_piece [OF inv nw' _ nz rm]) simp
  have unf: "run_new os (c + 1) s = (if a1 = 0 then Some (0, s1) else if \<not> g_acc s1 a1 then None
     else let (t, s2) = now_ms os s1; s3 = put_run a1 (new_run (c + 1) t) s2;
          s4 = s3\<lparr>g_mapped := g_mapped s3 + run_msize (c + 1)\<rparr>
       in do { s5 \<leftarrow> run_insert (c + 1 - 1) a1 s4; Some (a1, s5) })"
    using rm reserve_start_nz [OF inv]
    unfolding run_new_def Let_def run_msize_def [symmetric] two_pow_21 new_run_def [symmetric] by simp
  show ?thesis
  proof (cases "a1 = 0 \<or> \<not> g_acc s1 a1")
    case True
    then show ?thesis using unf run o1 by (auto split: if_splits)
  next
    case False
    then have a1: "a1 \<noteq> 0" by simp
    obtain t s2 where n: "now_ms os s1 = (t, s2)" by fastforce
    let ?s4 = "(put_run a1 (new_run (c + 1) t) s2)\<lparr>g_mapped := g_mapped (put_run a1 (new_run (c + 1) t) s2) + run_msize (c + 1)\<rparr>"
    note nq = now_ms_quiet [OF n]
    have q: "quiet s1 ?s4" using nq(1) by (simp add: quiet_def) (simp add: put_run_def class_head_def)
    have runs: "g_runs ?s4 = (g_runs s1)(a1 \<mapsto> new_run (c + 1) t)" using nq(2) by (simp add: put_run_def)
    have fp: "fresh_piece s1 a1 (map_n (c + 1))" using fresh_piece_mapped [OF inv nw' _ _ rm a1] msz by simp
    have al: "aligned_run a1" using m(9) [OF a1] by (simp add: aligned_run_def)
    note nr = new_run_ok [OF co, of t]
    note ar = add_run_ok [OF m(1) fp al nr(1-3) runs q]
    have cls: "unat (r_cls (new_run (c + 1) t)) = c + 1" using run_staticD(3) [OF nr(1)] by simp
    have gr: "g_runs ?s4 a1 = Some (new_run (c + 1) t)" using runs by simp
    have none: "g_runs s1 a1 = None" using fresh_no_header(1) [OF _ fp] m(1) by (simp add: ainv_def)
    have "only_class c s1 ?s4" using runs none cls nq(3) by (simp add: only_class_def in_class_def) (simp add: put_run_def)
    moreover have "do { s5 \<leftarrow> run_insert c a1 ?s4; Some (a1, s5) } = Some (a, s')"
      using unf run False n by (simp add: Let_def)
    then have "run_insert c a1 ?s4 = Some s'" by (auto split: bind_splits)
    from run_insert_only [OF ar(1,2) gr cls c this] have "only_class c ?s4 s'" .
    ultimately show ?thesis using o1 only_class_trans by blast
  qed
qed

lemma malloc_run_only:
  assumes inv: "ainv s" and c: "c < 68" and nw: "unat (g_res_bump s) + 2 ^ 23 < 2 ^ 64"
    and run: "malloc_run os c s = Some (p, s')"
  shows "only_class c s s'" "find_run s (class_head s c) \<noteq> Some 0 \<Longrightarrow> g_res_bump s' = g_res_bump s"
proof -
  have co: "class_ok (c + 1)" using c by simp
  have nw': "no_wrap s (run_msize (c + 1)) kRunSize"
    using nw unat_run_msize [OF co] map_n_bounds(3) [OF co] by (simp add: no_wrap_def kRunSize_eq)
  from find_run_ok [OF inv c] obtain a where a: "find_run s (class_head s c) = Some a"
    "a = 0 \<or> (\<exists>r. g_runs s a = Some r \<and> unat (r_cls r) = c + 1 \<and> free_set r \<noteq> {} \<and> a \<noteq> 0)" by blast
  have "only_class c s s' \<and> (a \<noteq> 0 \<longrightarrow> g_res_bump s' = g_res_bump s)"
  proof (cases "a = 0")
    case False
    then obtain r where "g_runs s a = Some r" "unat (r_cls r) = c + 1" using a(2) by blast
    moreover have "run_take os a s = Some (p, s')" using run a(1) False by (simp add: malloc_run_def)
    ultimately show ?thesis using run_take_only by blast
  next
    case True
    from run_new_ok [OF inv co nw', of os] obtain b s1 where n: "run_new os (c + 1) s = Some (b, s1)"
      "b \<noteq> 0 \<longrightarrow> (\<exists>r. g_runs s1 b = Some r \<and> unat (r_cls r) = c + 1 \<and> free_set r \<noteq> {})" by blast
    note o = run_new_only [OF inv c nw' n(1)]
    show ?thesis
    proof (cases "b = 0")
      case False
      then obtain r where "g_runs s1 b = Some r" "unat (r_cls r) = c + 1" using n(2) by blast
      moreover have "run_take os b s1 = Some (p, s')" using run a(1) True n(1) False by (simp add: malloc_run_def)
      ultimately show ?thesis using run_take_only(1) o only_class_trans True by blast
    qed (use run a(1) True n(1) o in \<open>simp add: malloc_run_def\<close>)
  qed
  then show "only_class c s s'" "find_run s (class_head s c) \<noteq> Some 0 \<Longrightarrow> g_res_bump s' = g_res_bump s" using a(1) by auto
qed

lemma malloc_large_only:
  assumes inv: "ainv s" and nw: "unat (g_res_bump s) + unat n + 2 ^ 23 < 2 ^ 64" and run: "malloc_large os n s = Some (p, s')"
  shows "only_class c s s'"
proof -
  have nb: "unat n + 4119 < 2 ^ 64" using nw by simp
  note ms = unat_large_msize [OF nb]
  obtain a s1 where rm: "reserve_map os (large_msize n) (2 ^ 12) s = (a, s1)" by fastforce
  have nw': "no_wrap s (large_msize n) (2 ^ 12)" using nw ms by (simp add: no_wrap_def)
  have nz: "large_msize n \<noteq> 0" using ms(2) by auto
  note m = reserve_map_ok [OF inv nw' _ nz rm, simplified]
  have "reserve_map os ((24 + n + 4095) AND NOT 4095) 4096 s = (a, s1)"
    using rm unfolding large_msize_def sizeof_LargeHdr_def two_pow_12 .
  then have "g_runs s' = g_runs s \<and> g_cls s' = g_cls s"
    using run reserve_start_nz [OF inv] m(4,18)
    by (auto simp: malloc_large_def Let_def sizeof_LargeHdr_def put_large_def split: if_splits)
  then show ?thesis by (intro only_class_same) simp_all
qed

section \<open>Giving back\<close>

lemma ours_small_run:
  assumes "ours_small s p = Some True" "g_runs s (run_of p) = Some r"
  shows "r_cls r \<noteq> 0" "unat (r_cls r) - 1 < kNumClasses"
  using assms by (auto simp: ours_small_def run_view_def Let_def split: bind_splits if_splits)

text \<open>A pointer is recognised as before after other blocks have been given back.\<close>

lemma same_headers_small:
  assumes "same_headers s s'"
  shows "in_reserve s' p = in_reserve s p" "ours_small s' p = ours_small s p"
    "r_cls (run_view s' a) = r_cls (run_view s a)"
proof -
  have h: "g_acc s' = g_acc s" "g_bytes s' = g_bytes s" "g_larges s' = g_larges s" "g_res_start s' = g_res_start s" "g_res_end s' = g_res_end s"
    "\<And>a. map_option (\<lambda>r. (r_magic r, r_cls r, r_elems r, r_elem r)) (g_runs s' a) =
          map_option (\<lambda>r. (r_magic r, r_cls r, r_elems r, r_elem r)) (g_runs s a)"
    using assms unfolding same_headers_def by blast+
  show "in_reserve s' p = in_reserve s p" by (simp add: in_reserve_def h)
  have v: "r_cls (run_view s' a) = r_cls (run_view s a) \<and> r_elems (run_view s' a) = r_elems (run_view s a) \<and>
      r_elem (run_view s' a) = r_elem (run_view s a) \<and> read_magic s' a = read_magic s a" for a
    using h(6) [of a] by (cases "g_runs s a"; cases "g_runs s' a") (simp_all add: run_view_def read_magic_def h split: option.split)
  then show "r_cls (run_view s' a) = r_cls (run_view s a)" by blast
  show "ours_small s' p = ours_small s p"
    unfolding ours_small_def run_data_def Let_def using v [of "run_of p"] by (elim conjE) (simp only:)
qed

lemma give_one_touched:
  assumes "run_give os (run_of p) p s = Some s'" "ours_small s p = Some True" "touched s s' m"
  shows "m = ClassMu (unat (r_cls (run_view s (run_of p))) - 1)" "same_headers s s'"
proof -
  obtain r where r: "g_runs s (run_of p) = Some r" "only_class (unat (r_cls r) - 1) s s' \<or> r_cls r = 0"
    "g_res_bump s' = g_res_bump s" "same_headers s s'" using run_give_spec [OF assms(1)] .
  have "only_class (unat (r_cls r) - 1) s s'" using r(2) ours_small_run(1) [OF assms(2) r(1)] by blast
  then show "m = ClassMu (unat (r_cls (run_view s (run_of p))) - 1)"
    using assms(3) only_class_touched r(1,3) by (cases m) (auto simp: run_view_def)
  show "same_headers s s'" by (fact r(4))
qed

lemma give_all_touched:
  "give_all os ps s = Some s' \<Longrightarrow> touched s s' m \<Longrightarrow>
   \<exists>p\<in>set ps. in_reserve s p \<and> ours_small s p = Some True \<and> m = ClassMu (unat (r_cls (run_view s (run_of p))) - 1)"
proof (induction ps arbitrary: s)
  case (Cons p ps)
  obtain own s1 where 1: "(if in_reserve s p then ours_small s p else Some False) = Some own"
    "(if own then run_give os (run_of p) p s else Some s) = Some s1" "give_all os ps s1 = Some s'"
    using Cons.prems(1) by (auto split: bind_splits)
  show ?case
  proof (cases own)
    case False
    then show ?thesis using 1 Cons by auto
  next
    case True
    then have o: "in_reserve s p" "ours_small s p = Some True" and g: "run_give os (run_of p) p s = Some s1"
      using 1 by (auto split: if_splits)
    obtain r where h: "same_headers s s1" using run_give_spec [OF g] by metis
    from touched_trans [OF Cons.prems(2), of s1] show ?thesis
    proof
      assume "touched s s1 m"
      then show ?thesis using give_one_touched(1) [OF g o(2)] o by auto
    next
      assume "touched s1 s' m"
      from Cons.IH [OF 1(3) this] show ?thesis unfolding same_headers_small [OF h] by auto
    qed
  qed
qed simp

text \<open>\<open>free_large\<close> only gets past its second look at the header when nothing was unmapped.\<close>

lemma free_large_same:
  assumes "free_large p s = Some s'"
  shows "g_cls s' = g_cls s" "g_runs s' = g_runs s" "g_res_bump s' = g_res_bump s"
proof -
  let ?a = "p - sizeof_LargeHdr"
  obtain h h' where h: "read_large s ?a = Some h" "read_large (munmap ?a (l_map_size h) s) ?a = Some h'"
    "s' = (munmap ?a (l_map_size h) s)\<lparr>g_freed_to_os := g_freed_to_os (munmap ?a (l_map_size h) s) + l_map_size h'\<rparr>"
    using assms by (auto simp: free_large_def Let_def split: bind_splits)
  have acc: "g_acc (munmap ?a (l_map_size h) s) ?a" using h(2) by (auto simp: read_large_def split: if_splits)
  have "g_cls (munmap a n s) = g_cls s \<and> g_runs (munmap a n s) = g_runs s \<and> g_res_bump (munmap a n s) = g_res_bump s"
    if "g_acc (munmap a n s) a" for a n
  proof (cases "a AND 4095 \<noteq> 0 \<or> n = 0")
    case False
    then have "\<not> in_range a (page_up n) a" using that by (simp add: munmap_def unmap_range_def)
    then have "page_up n = 0" by (simp add: in_range_def word_gt_0)
    then show ?thesis using False by (simp add: munmap_def unmap_range_def in_range_def)
  qed (simp add: munmap_def)
  from this [OF acc] show "g_cls s' = g_cls s" "g_runs s' = g_runs s" "g_res_bump s' = g_res_bump s"
    by (simp_all add: h(3))
qed

lemma free_touched:
  assumes "free os tid p s = Some s'" "touched s s' m" "tc_current tid s = None"
  shows "Use m \<in> set (free_ops tid p s)"
proof -
  have nz: "p \<noteq> 0" using assms(1,2) by (auto simp: free_def)
  have ir: "in_reserve s p"
  proof (rule ccontr)
    assume "\<not> in_reserve s p"
    then have "s' = s \<or> s' = s\<lparr>libc_log := libc_log s @ [LibcFree p]\<rparr>" using assms(1) nz by (auto simp: free_def split: if_splits)
    then show False using assms(2) by (cases m) (auto simp: class_runs_def fun_eq_iff)
  qed
  obtain small where sm: "ours_small s p = Some small" using assms(1) nz ir by (auto simp: free_def split: bind_splits)
  show ?thesis
  proof (cases small)
    case True
    then have "run_give os (run_of p) p s = Some s'" using assms(1,3) nz ir sm by (simp add: free_def free_small_def Let_def)
    from give_one_touched(1) [OF this _ assms(2)] show ?thesis
      using True sm nz ir assms(3) by (simp add: free_ops_def with_mutex_def Let_def)
  next
    case False
    then have "s' = s \<or> free_large p s = Some s'" using assms(1) nz ir sm by (auto simp: free_def split: bind_splits if_splits)
    then have "g_cls s' = g_cls s" "g_runs s' = g_runs s" "g_res_bump s' = g_res_bump s" using free_large_same by auto
    then have False using assms(2) by (cases m) (auto simp: class_runs_def fun_eq_iff)
    then show ?thesis ..
  qed
qed

lemma dtor_touched:
  assumes "tcache_dtor os tid tc s = Some s'" "touched s s' m"
  shows "Use m \<in> set (tcache_dtor_ops tc s)"
proof -
  define ps where "ps = concat (map (\<lambda>c. take (unat (tc_n tc ! c)) (tc_buf tc ! c)) [0..<kNumClasses])"
  obtain s1 where g: "give_all os ps s = Some s1" "s' = s1\<lparr>tls := (tls s1)(tid := None)\<rparr>"
    using assms(1) by (auto simp: tcache_dtor_def ps_def split: bind_splits)
  have "touched s s1 m" using assms(2) g(2) by (cases m) (auto simp: class_runs_def fun_eq_iff)
  from give_all_touched [OF g(1) this] show ?thesis
    unfolding tcache_dtor_ops_def ps_def [symmetric] by (auto simp: with_mutex_def)
qed

section \<open>The turn of a class in a trim round\<close>

lemma purge_drop_only:
  assumes inv: "ainv s" and c: "c < 68" and r: "g_runs s a = Some r" "unat (r_cls r) = c + 1" and used: "r_used r = 0"
    and rem: "run_remove c a s = Some s1"
    and s': "s' = munmap a ((run_bytes (r_elems r) (r_elem r) + 4095) AND NOT 4095) s1"
  shows "only_class c s s'"
proof -
  have mi: "mem_inv s" and cl: "class_lists s {}" using inv by (simp_all add: ainv_def)
  note f = run_facts [OF mi r(1)]
  from remove_ok [OF mi cl r c] rem have rm: "mem_inv s1" "class_lists s1 {a}" "g_runs s1 a = Some r" by auto
  note ms = msize_of_run [OF f(2)]
  have um: "unat (run_msize (unat (r_cls r))) = map_n (unat (r_cls r))" by (rule unat_run_msize [OF f(1)])
  have a4: "4096 dvd unat a" using f(4) unfolding aligned_run_def by (rule dvd_trans [rotated]) simp
  have "munmap a (run_msize (unat (r_cls r))) s1 = unmap_range a (run_msize (unat (r_cls r))) s1"
    using a4 map_n_bounds(3-5) [OF f(1)] um by (intro munmap_aligned) auto
  then have u: "s' = unmap_range a (of_nat (map_n (unat (r_cls r)))) s1" unfolding s' ms by simp
  note ur = unmap_run_ok [OF rm empty_run [OF f(3) used]]
  have "only_class c s1 s'" unfolding u only_class_def ur(3) using rm(3) r(2) by (auto simp: in_class_def) (auto simp: unmap_range_def)
  with run_remove_only [OF mi cl r c rem] show ?thesis by (rule only_class_trans)
qed

lemma purge_run_only:
  assumes inv: "ainv s" and c: "c < 68" and r: "g_runs s a = Some r" "unat (r_cls r) = c + 1" and p: "purge_run a t s = Some s'"
  shows "only_class c s s'"
proof -
  let ?r = "r\<lparr>r_last_touch_ms := t\<rparr>"
  have put: "only_class c s (put_run a ?r s)" using r by (simp add: only_class_def in_class_def put_run_def)
  consider (drop) s1 where "r_used r = 0" "run_remove c a s = Some s1"
      "s' = (munmap a ((run_bytes (r_elems r) (r_elem r) + 4095) AND NOT 4095) s1)\<lparr>g_freed_to_os := g_freed_to_os s'\<rparr>"
    | (none) "s' = s" | (touch) "s' = put_run a ?r s"
    | (pages) "s' = purge_pages ?r (run_data ?r a) (unat (r_elems ?r) * unat (r_elem ?r)) 0 (put_run a ?r s)"
    using p r unfolding purge_run_def by (auto simp: Let_def split: bind_splits if_splits)
  then show ?thesis
  proof cases
    case drop
    have d: "only_class c s (munmap a ((run_bytes (r_elems r) (r_elem r) + 4095) AND NOT 4095) s1)"
      by (rule purge_drop_only [OF inv c r drop(1,2) refl])
    show ?thesis by (subst drop(3)) (use d in \<open>simp add: only_class_def\<close>)
  next
    case pages
    obtain m k where "s' = (put_run a ?r s)\<lparr>g_bytes := m, g_purged := k\<rparr>" using purge_pages_same pages by metis
    then show ?thesis using put by (simp add: only_class_def)
  qed (use put in simp_all)
qed

lemma trim_walk_only:
  assumes "ainv s" "c < 68" "clist s c (pre @ rest)" "h = (case rest of [] \<Rightarrow> 0 | b # _ \<Rightarrow> b)" "trim_walk t h s = Some s'"
  shows "only_class c s s'"
  using assms
proof (induction rest arbitrary: s pre h)
  case Nil
  then show ?case by (simp add: trim_walk.simps)
next
  case (Cons a rest)
  have h: "h = a" using Cons.prems(4) by simp
  have "a \<in> runs_of_class s c" and dl: "dlist (g_runs s) (class_head s c) (pre @ a # rest)"
    using Cons.prems(3) by (auto simp: clist_def)
  then obtain r where r: "g_runs s a = Some r" "unat (r_cls r) = c + 1" by (auto simp: runs_of_class_def)
  have nz: "a \<noteq> 0" using dlist_mem [OF dl, of a] by simp
  from purge_run_ok [OF Cons.prems(1-3), of t] obtain s1 pre' where
    s1: "purge_run a t s = Some s1" "trim_step s s1" "clist s1 c (pre' @ rest)" by blast
  have a1: "ainv s1" using s1(2) by (simp add: trim_step_def)
  have "trim_walk t (r_next r) s1 = Some s'" using Cons.prems(5) h nz r(1) s1(1) by (simp add: trim_walk.simps [of t a])
  from Cons.IH [OF a1 Cons.prems(2) s1(3) dlist_next [OF dl r(1)] this] purge_run_only [OF Cons.prems(1,2) r s1(1)]
  show ?case using only_class_trans by blast
qed

lemma trim_class_only:
  assumes "ainv s" "c < 68" "trim_class t c s = Some s'"
  shows "only_class c s s'" "g_res_bump s' = g_res_bump s"
proof -
  obtain L where L: "dlist (g_runs s) (class_head s c) L" "set L = runs_of_class s c"
    using assms by (auto simp: ainv_def class_lists_def)
  have "class_head s c = (case L of [] \<Rightarrow> 0 | b # _ \<Rightarrow> b)" using L(1) by (cases L) (auto simp: dlist_def)
  from trim_walk_only [OF assms(1,2) _ this, of "[]"] L assms(3) show "only_class c s s'"
    by (simp add: clist_def trim_class_def)
  show "g_res_bump s' = g_res_bump s" using trim_class_ok [OF assms(1,2), of t] assms(3) by (auto simp: trim_step_def)
qed

section \<open>malloc\<close>

lemma malloc_touched:
  assumes inv: "ainv s" and rd: "g_ready s" and nw: "roomy s (unat n)" and m: "malloc os tid n s = Some (p, s')"
    and t: "touched s s' m"
  shows "Use m \<in> set (malloc_ops os tid n s)"
proof -
  define n1 where "n1 = (if n = 0 then 1 else n)"
  have u: "unat n1 = max 1 (unat n)" using unat_gt_0 [of n] by (auto simp: n1_def)
  have r: "malloc_ready os tid n1 s = Some (p, s')" using m rd by (simp add: malloc_def n1_def)
  have ops: "malloc_ops os tid n s = malloc_ready_ops os tid n1 s" using rd by (simp add: malloc_ops_def n1_def Let_def)
  have nw1: "unat (g_res_bump s) + unat n1 + 2 ^ 23 < 2 ^ 64" using nw by (simp add: u roomy_def)
  note tc = ainv_tc_None [OF inv, of tid] and nz = reserve_start_nz [OF inv]
  show ?thesis
  proof (cases "kLargeMin \<le> n1")
    case True
    then have "malloc_large os n1 s = Some (p, s')" using r by (simp add: malloc_ready_def)
    from malloc_large_only [OF inv nw1 this] t have "m = SlotMu"
      using only_class_touched [of 0 s s'] only_class_touched [of 1 s s'] by (cases m) fastforce+
    then show ?thesis using True nz by (simp add: ops malloc_ready_ops_def slot_ops_def with_mutex_def)
  next
    case False
    define c where "c = class_of n1 - 1"
    have "n1 < kLargeMin" using False by simp
    from class_of_small [OF this] have c: "c < 68" by (simp add: c_def)
    have run: "malloc_run os c s = Some (p, s')" using r False tc by (simp add: malloc_ready_def c_def Let_def)
    have "unat (g_res_bump s) + 2 ^ 23 < 2 ^ 64" using nw1 by simp
    note o = malloc_run_only [OF inv c this run]
    have ops': "malloc_ops os tid n s = malloc_run_ops os c s"
      using False tc by (simp add: ops malloc_ready_ops_def c_def Let_def)
    show ?thesis
    proof (cases m)
      case (ClassMu d)
      then show ?thesis using only_class_touched [OF o(1)] t by (auto simp: ops' malloc_run_ops_def)
    next
      case SlotMu
      then have "find_run s (class_head s c) = Some 0" using o(2) t by auto
      then show ?thesis using SlotMu nz by (simp add: ops' malloc_run_ops_def slot_ops_def with_mutex_def)
    qed
  qed
qed

section \<open>All calls\<close>

text \<open>\<open>call_effect os tid s ops s'\<close>: a call of the thread \<open>tid\<close> in the state \<open>s\<close> performs the operations \<open>ops\<close> and leaves
  \<open>s'\<close>. The trim thread takes the turn of each class under its own mutex.\<close>

inductive call_effect :: "os \<Rightarrow> nat \<Rightarrow> alloc \<Rightarrow> lop list \<Rightarrow> alloc \<Rightarrow> bool" for os tid s where
  effect_malloc: "roomy s (unat n) \<Longrightarrow> malloc os tid n s = Some (p, s') \<Longrightarrow> call_effect os tid s (malloc_ops os tid n s) s'"
| effect_free: "free os tid p s = Some s' \<Longrightarrow> call_effect os tid s (free_ops tid p s) s'"
| effect_lookup: "realloc_lookup p s = Some x \<Longrightarrow> call_effect os tid s (realloc_lookup_ops p s) s"
| effect_trim: "c < kNumClasses \<Longrightarrow> trim_class t c s = Some s' \<Longrightarrow> call_effect os tid s (with_mutex (ClassMu c)) s'"
| effect_exit: "tcache_dtor os tid tc s = Some s' \<Longrightarrow> call_effect os tid s (tcache_dtor_ops tc s) s'"

lemma effect_used:
  assumes "call_effect os tid s ops s'" "ainv s" "g_ready s" "touched s s' m"
  shows "Use m \<in> set ops"
  using assms(1)
proof cases
  case (effect_malloc n p)
  then show ?thesis using malloc_touched assms(2-4) by blast
next
  case (effect_free p)
  then show ?thesis using free_touched assms(4) ainv_tc_None [OF assms(2)] by blast
next
  case (effect_trim c t)
  then have c: "c < 68" by simp
  from trim_class_only [OF assms(2) c effect_trim(3)] have "m = ClassMu c"
    using only_class_touched assms(4) by (cases m) auto
  then show ?thesis using effect_trim(1) by (simp add: with_mutex_def)
next
  case (effect_exit tc)
  then show ?thesis using dtor_touched assms(4) by blast
qed (use assms(4) in simp)

end
