(* ===== verification/LockProps.thy ===== *)
theory LockProps
  imports LockFrames
begin

text \<open>
  What the mutexes of the allocator guarantee: exclusive use of what they protect, calls that
  always come to an end as long as nobody forks, a child process with all mutexes free, and the
  deadlock between a fork and an allocation.
\<close>

section \<open>Example\<close>

text \<open>The first \<open>malloc(100)\<close> of the demonstration system: class 11 has no run.\<close>

lemma demo_start_facts:
  "g_ready demo_start" "g_started demo_start" "g_res_start demo_start = 17592186044416"
  "class_head demo_start c = cs_head (replicate 68 class_empty ! c)" "tls demo_start = (\<lambda>_. None)"
  unfolding demo_start_def class_head_def using ensure_init_initial [OF demo_reserve] by simp_all

lemma demo_first_run: "find_run demo_start (class_head demo_start 10) = Some 0"
  by (simp add: demo_start_facts class_empty_def find_run.simps)

lemma demo_malloc_ops: "malloc_ops demo_os t 100 demo_start = malloc_run_ops demo_os 10 demo_start"
proof -
  have "class_of 100 = 11" by code_simp
  moreover have "\<not> kLargeMin \<le> 100" by (simp add: kLargeMin_def)
  ultimately show ?thesis
    by (simp add: malloc_ops_def malloc_ready_ops_def demo_start_facts tc_current_def)
qed

lemma reach_exec: "lk_reach os forks s \<Longrightarrow> exec t s = Some s' \<Longrightarrow> lk_reach os forks s'"
  unfolding lk_reach_def by (auto intro: rtranclp.rtrancl_into_rtrancl lk_exec)

lemma reach_runs: "runs_to s s' \<Longrightarrow> lk_reach os forks s \<Longrightarrow> lk_reach os forks s'"
  unfolding runs_to_def by (induction rule: rtranclp_induct) (auto intro: reach_exec)

lemma reach_call:
  "lk_reach os forks s \<Longrightarrow> prog s t = [] \<Longrightarrow> call_ops os forks t ops \<Longrightarrow> lk_reach os forks (s\<lparr>prog := (prog s)(t := ops)\<rparr>)"
  unfolding lk_reach_def by (auto intro: rtranclp.rtrancl_into_rtrancl lk_call)

lemma reach_initial: "lk_reach os forks lk_initial"
  by (simp add: lk_reach_def)

lemma exec_simps:
  "prog s t = Lock m # k \<Longrightarrow> owner s m = None \<Longrightarrow> exec t s = Some (s\<lparr>owner := (owner s)(m \<mapsto> t), prog := (prog s)(t := k)\<rparr>)"
  "prog s t = Lock m # k \<Longrightarrow> owner s m = Some u \<Longrightarrow> exec t s = None"
  "prog s t = Use m # k \<Longrightarrow> exec t s = Some (s\<lparr>prog := (prog s)(t := k)\<rparr>)"
  by (simp_all add: exec_def)

section \<open>The invariant\<close>

definition held :: "lk \<Rightarrow> nat \<Rightarrow> mutex set" where
  "held s t = {m. owner s m = Some t}"

definition active :: "lk \<Rightarrow> nat set" where
  "active s = {t. prog s t \<noteq> []}"

text \<open>Only \<open>fork_ops\<close> forks, and what follows is the release handler.\<close>

definition fork_tails :: "lop list \<Rightarrow> bool" where
  "fork_tails ops \<longleftrightarrow> (\<forall>a k. ops = a @ Fork # k \<longrightarrow> k = atfork_release)"

definition lk_inv :: "bool \<Rightarrow> lk \<Rightarrow> bool" where
  "lk_inv ord s \<longleftrightarrow> finite (active s) \<and> (\<forall>t. disciplined ord (held s t) (prog s t)) \<and> (\<forall>t. fork_tails (prog s t))"

lemma fork_tails_tl: "fork_tails (x # k) \<Longrightarrow> fork_tails k"
  by (auto simp: fork_tails_def)

lemma fork_tails_noFork: "Fork \<notin> set ops \<Longrightarrow> fork_tails ops"
  by (auto simp: fork_tails_def)

lemma noFork:
  "Fork \<notin> set (with_mutex m)" "Fork \<notin> set (slot_ops s)" "Fork \<notin> set (malloc_run_ops os c s)"
  "Fork \<notin> set (atfork_prepare s)" "Fork \<notin> set atfork_release"
  by (auto simp: with_mutex_def slot_ops_def malloc_run_ops_def atfork_prepare_def atfork_release_def split: option.splits)

lemma noFork_calls:
  "Fork \<notin> set (malloc_ops os tid n s)" "Fork \<notin> set (free_ops tid p s)" "Fork \<notin> set (trim_ops s)"
  "Fork \<notin> set (tcache_dtor_ops tc s)" "Fork \<notin> set (realloc_lookup_ops p s)"
  by (auto simp: malloc_ops_def malloc_ready_ops_def free_ops_def realloc_lookup_ops_def trim_ops_def tcache_dtor_ops_def Let_def noFork
      split: option.splits if_splits)

lemma fork_tails_fork: "fork_tails (fork_ops s)"
proof (unfold fork_tails_def, intro allI impI)
  fix a k assume "fork_ops s = a @ Fork # k"
  then have "atfork_prepare s @ Fork # atfork_release = a @ Fork # k" by (simp add: fork_ops_def)
  then show "k = atfork_release"
    using noFork(4) [of s] noFork(5) by (metis (no_types) append_Cons_eq_iff)
qed

lemma fork_tails_call: "call_ops os forks t ops \<Longrightarrow> fork_tails ops"
  by (induction rule: call_ops.induct) (auto simp: fork_tails_fork intro: fork_tails_noFork simp: noFork_calls)

text \<open>The ways a thread can take a step.\<close>

lemma exec_cases [consumes 1, case_names lock unlock plain]:
  assumes "exec t s = Some s'"
  obtains m k where "prog s t = Lock m # k" "owner s m = None"
      "s' = s\<lparr>owner := (owner s)(m \<mapsto> t), prog := (prog s)(t := k)\<rparr>"
    | m k where "prog s t = Unlock m # k" "s' = s\<lparr>owner := (owner s)(m := None), prog := (prog s)(t := k)\<rparr>"
    | x k where "prog s t = x # k" "\<forall>m. x \<noteq> Lock m \<and> x \<noteq> Unlock m" "s' = s\<lparr>prog := (prog s)(t := k)\<rparr>"
  using assms by (auto simp: exec_def split: list.splits lop.splits if_splits)

lemma exec_prog:
  assumes "exec t s = Some s'"
  shows "\<exists>x k. prog s t = x # k \<and> prog s' = (prog s)(t := k)"
  using assms by (cases rule: exec_cases) auto

lemma exec_disciplined:
  assumes e: "exec t s = Some s'" and d: "\<forall>u. disciplined ord (held s u) (prog s u)"
  shows "disciplined ord (held s' u) (prog s' u)"
  using e
proof (cases rule: exec_cases)
  case (lock m k)
  then have "held s' u = (if u = t then insert m (held s t) else held s u)" by (auto simp: held_def)
  then show ?thesis using lock d [rule_format, of t] d [rule_format, of u] by simp
next
  case (unlock m k)
  then have "m \<in> held s t" using d [rule_format, of t] by simp
  then have "held s' u = (if u = t then held s t - {m} else held s u)" using unlock(2) by (auto simp: held_def)
  then show ?thesis using unlock d [rule_format, of t] d [rule_format, of u] by simp
next
  case (plain x k)
  then have "held s' u = held s u" by (simp add: held_def)
  moreover have "disciplined ord (held s t) k" using plain(1,2) d [rule_format, of t] by (cases x) auto
  ultimately show ?thesis using plain d [rule_format, of u] by auto
qed

lemma exec_inv:
  assumes "exec t s = Some s'" "lk_inv ord s"
  shows "lk_inv ord s'"
proof -
  obtain x k where p: "prog s t = x # k" "prog s' = (prog s)(t := k)" using exec_prog [OF assms(1)] by blast
  then have "active s' \<subseteq> active s" by (auto simp: active_def split: if_splits)
  then have "finite (active s')" using assms(2) by (auto simp: lk_inv_def intro: finite_subset)
  moreover have "fork_tails (prog s' u)" for u
    using assms(2) p fork_tails_tl [of x k] by (auto simp: lk_inv_def) (metis)
  ultimately show ?thesis
    using exec_disciplined [OF assms(1)] assms(2) by (simp add: lk_inv_def)
qed

lemma call_inv:
  assumes "prog s t = []" "call_ops os forks t ops" "lk_inv (\<not> forks) s"
  shows "lk_inv (\<not> forks) (s\<lparr>prog := (prog s)(t := ops)\<rparr>)"
proof -
  have "active (s\<lparr>prog := (prog s)(t := ops)\<rparr>) \<subseteq> insert t (active s)" by (auto simp: active_def)
  then have "finite (active (s\<lparr>prog := (prog s)(t := ops)\<rparr>))"
    using assms(3) by (auto simp: lk_inv_def intro: finite_subset)
  moreover have "held s t = {}" using assms(1,3) by (metis disciplined.simps(1) lk_inv_def)
  ultimately show ?thesis
    using disciplined_call [OF assms(2)] fork_tails_call [OF assms(2)] assms(3) by (auto simp: lk_inv_def held_def)
qed

lemma lk_reach_inv:
  assumes "lk_reach os forks s"
  shows "lk_inv (\<not> forks) s"
  using assms unfolding lk_reach_def
proof (induction rule: rtranclp_induct)
  case base
  then show ?case by (simp add: lk_inv_def lk_initial_def active_def held_def fork_tails_def)
next
  case (step s s')
  from step(2) show ?case
    by (cases rule: lk_step.cases) (use step(3) exec_inv call_inv in blast)+
qed

lemma runs_to_inv: "runs_to s s' \<Longrightarrow> lk_inv ord s \<Longrightarrow> lk_inv ord s'"
  unfolding runs_to_def by (induction rule: rtranclp_induct) (auto intro: exec_inv)

section \<open>Mutual exclusion\<close>

lemma use_held:
  assumes "lk_reach os forks l" "prog l t = Use m # k"
  shows "owner l m = Some t"
proof -
  have "disciplined (\<not> forks) (held l t) (prog l t)" using lk_reach_inv [OF assms(1)] by (simp add: lk_inv_def)
  then show ?thesis by (simp add: assms(2) held_def)
qed

text \<open>C13. The runs, the list and the live count of a class change only under the mutex of the class, and the bump
  pointer only under \<open>g_slot_mu\<close>: whatever of these a \<open>malloc\<close>, \<open>free\<close>, the turn of a class in a trim round or the
  destructor of a thread cache changes in a reachable state, the list of its operations works under the mutex there;
  and however the threads interleave, forks included, a thread about to do such work holds the mutex, so two
  threads never do it on the same data. (What \<open>free\<close>, \<open>realloc\<close> and the destructor read in headers without a mutex, and the
  unmapping of a large block, are operations of their own and need none.)\<close>

theorem mutual_exclusion:
  assumes "heap_reach os s" "call_effect os tid s ops s'" "touched s s' m"
  shows "Use m \<in> set ops \<and>
    (\<forall>forks l t k. lk_reach os forks l \<and> prog l t = Use m # k \<longrightarrow>
       owner l m = Some t \<and> (\<forall>u k'. prog l u = Use m # k' \<longrightarrow> u = t))"
proof (intro conjI allI impI)
  show "Use m \<in> set ops" using effect_used [OF assms(2) heap_reachD(1,2) [OF assms(1)] assms(3)] .
  fix forks l t k assume l: "lk_reach os forks l \<and> prog l t = Use m # k"
  then show o: "owner l m = Some t" using use_held by blast
  fix u k' assume "prog l u = Use m # k'"
  then have "owner l m = Some u" using l use_held by blast
  then show "u = t" using o by simp
qed

lemma demo_using: "\<exists>s k. lk_reach demo_os False s \<and> prog s 0 = Use (ClassMu 10) # k \<and> owner s (ClassMu 10) = Some 0"
proof -
  define l1 where "l1 = lk_initial\<lparr>prog := (prog lk_initial)(0 := malloc_ops demo_os 0 100 demo_start)\<rparr>"
  have r: "lk_reach demo_os False l1" unfolding l1_def using reach_initial
    by (rule reach_call) (auto simp: lk_initial_def intro: call_malloc)
  obtain k where "prog l1 0 = Lock (ClassMu 10) # Use (ClassMu 10) # k"
    by (simp add: l1_def demo_malloc_ops malloc_run_ops_def)
  then have "exec 0 l1 = Some (l1\<lparr>owner := (owner l1)(ClassMu 10 \<mapsto> 0), prog := (prog l1)(0 := Use (ClassMu 10) # k)\<rparr>)"
    by (intro exec_simps) (simp_all add: l1_def lk_initial_def)
  from reach_exec [OF r this] show ?thesis by fastforce
qed

text \<open>The first \<open>malloc(100)\<close>: the live count of class 11 goes from 0 to 1.\<close>

lemma demo_touched: "touched demo_start demo_100 (ClassMu 10)"
proof -
  have "map_option (\<lambda>x. cs_live_blocks (g_cls (snd x) ! 10)) (malloc demo_os 0 100 (ensure_init demo_os alloc_initial)) = Some 1"
    by code_simp
  then have "cs_live_blocks (g_cls demo_100 ! 10) = 1"
    unfolding demo_100_def demo_start_def by (auto simp: map_option_eq_Some)
  moreover have "cs_live_blocks (g_cls demo_start ! 10) = 0" unfolding demo_start_def by code_simp
  ultimately show ?thesis by auto
qed

theorem mutual_exclusion_witness:
  "Use (ClassMu 10) \<in> set (malloc_ops demo_os 0 100 demo_start) \<and>
   (\<exists>l. lk_reach demo_os False l \<and> owner l (ClassMu 10) = Some 0 \<and> (\<exists>k. prog l 1 \<noteq> Use (ClassMu 10) # k))"
proof -
  have "roomy demo_start (unat (100 :: u64))" by (simp add: demo_roomy)
  then have e: "call_effect demo_os 0 demo_start (malloc_ops demo_os 0 100 demo_start) demo_100"
    using demo_malloc_100 by (rule effect_malloc)
  note x = mutual_exclusion [OF demo_reach e demo_touched]
  obtain l k where l: "lk_reach demo_os False l" "prog l 0 = Use (ClassMu 10) # k" using demo_using by blast
  then have "owner l (ClassMu 10) = Some 0" "prog l 1 \<noteq> Use (ClassMu 10) # k" using x by fastforce+
  then show ?thesis using x l(1) by blast
qed

section \<open>Progress without forks\<close>

lemma blocked_owner:
  assumes "lk_inv True s" "prog s t \<noteq> []" "exec t s = None"
  shows "\<exists>m k u. prog s t = Lock m # k \<and> owner s m = Some u \<and> prog s u \<noteq> [] \<and>
    (\<forall>m' k'. prog s u = Lock m' # k' \<longrightarrow> mu_rank m < mu_rank m')"
proof -
  obtain m k u where p: "prog s t = Lock m # k" "owner s m = Some u"
    using assms(2,3) by (auto simp: exec_def split: list.splits lop.splits if_splits)
  have d: "disciplined True (held s u) (prog s u)" using assms(1) by (simp add: lk_inv_def)
  have "m \<in> held s u" using p(2) by (simp add: held_def)
  then have "prog s u \<noteq> []" using d by auto
  moreover have "mu_rank m < mu_rank m'" if "prog s u = Lock m' # k'" for m' k'
    using d that \<open>m \<in> held s u\<close> by auto
  ultimately show ?thesis using p by blast
qed

lemma someone_runs:
  assumes i: "lk_inv True s" and p: "prog s t \<noteq> []"
  shows "\<exists>u. exec u s \<noteq> None"
proof (rule ccontr)
  assume "\<not> ?thesis"
  then have n: "exec u s = None" for u by blast
  from blocked_owner [OF i p n] obtain m u where u: "prog s u \<noteq> []" by blast
  from blocked_owner [OF i p n] obtain m k u where
    1: "prog s u \<noteq> []" "\<forall>m' k'. prog s u = Lock m' # k' \<longrightarrow> mu_rank m < mu_rank m'" by blast
  from blocked_owner [OF i 1(1) n] obtain m1 k1 v where
    2: "prog s u = Lock m1 # k1" "prog s v \<noteq> []" "\<forall>m' k'. prog s v = Lock m' # k' \<longrightarrow> mu_rank m1 < mu_rank m'" by blast
  from blocked_owner [OF i 2(2) n] obtain m2 k2 where 3: "prog s v = Lock m2 # k2" by blast
  have "mu_rank m < mu_rank m1" "mu_rank m1 < mu_rank m2" using 1(2) 2 3 by blast+
  then show False by (cases m1; cases m2) auto
qed

lemma exec_pending:
  assumes "exec t s = Some s'" "finite (active s)"
  shows "(\<Sum>u\<in>active s'. length (prog s' u)) < (\<Sum>u\<in>active s. length (prog s u))"
proof -
  obtain x k where p: "prog s t = x # k" "prog s' = (prog s)(t := k)" using exec_prog [OF assms(1)] by blast
  have sub: "active s' \<subseteq> active s" using p by (auto simp: active_def split: if_splits)
  have "(\<Sum>u\<in>active s'. length (prog s' u)) = (\<Sum>u\<in>active s. length (prog s' u))"
    using assms(2) sub by (intro sum.mono_neutral_left) (auto simp: active_def)
  also have "\<dots> < (\<Sum>u\<in>active s. length (prog s u))"
    using assms(2) p by (intro sum_strict_mono_ex1) (auto simp: active_def)
  finally show ?thesis .
qed

lemma runs_to_refl: "runs_to s s"
  by (simp add: runs_to_def)

lemma runs_to_step: "exec t s = Some s1 \<Longrightarrow> runs_to s1 s' \<Longrightarrow> runs_to s s'"
  unfolding runs_to_def by (rule converse_rtranclp_into_rtranclp) auto

lemma idle_free:
  assumes "\<forall>t. prog s t = []" "lk_inv ord s"
  shows "owner s = Map.empty"
proof
  fix m
  have "disciplined ord (held s t) (prog s t)" for t using assms(2) by (simp add: lk_inv_def)
  then have "held s t = {}" for t using assms(1) by simp
  then have "owner s m \<noteq> Some t" for t by (auto simp: held_def)
  then show "owner s m = None" by (cases "owner s m") auto
qed

lemma all_complete:
  assumes "lk_inv True s"
  shows "\<exists>s'. runs_to s s' \<and> (\<forall>t. prog s' t = []) \<and> owner s' = Map.empty"
  using assms
proof (induction "\<Sum>u\<in>active s. length (prog s u)" arbitrary: s rule: less_induct)
  case less
  show ?case
  proof (cases "\<exists>t. prog s t \<noteq> []")
    case True
    then obtain t s1 where e: "exec t s = Some s1" using someone_runs [OF less.prems] by fastforce
    have "(\<Sum>u\<in>active s1. length (prog s1 u)) < (\<Sum>u\<in>active s. length (prog s u))"
      using exec_pending [OF e] less.prems by (simp add: lk_inv_def)
    from less.hyps [OF this exec_inv [OF e less.prems]] obtain s' where
      s': "runs_to s1 s'" "\<forall>t. prog s' t = []" "owner s' = Map.empty" by blast
    then show ?thesis using runs_to_step [OF e s'(1)] by blast
  next
    case False
    then have n: "\<forall>t. prog s t = []" by simp
    then have "owner s = Map.empty" using less.prems by (rule idle_free)
    then show ?thesis using n runs_to_refl by blast
  qed
qed

text \<open>C11. As long as no thread forks the allocator cannot deadlock: from every state the threads can reach, the calls in
  progress can all be completed, with every mutex free at the end; and a state in which no thread can
  take a step is one in which no thread is in a call.\<close>

theorem calls_complete:
  assumes "lk_reach os False s"
  shows "(\<exists>s'. runs_to s s' \<and> (\<forall>t. prog s' t = []) \<and> owner s' = Map.empty) \<and>
    ((\<forall>t. exec t s = None) \<longrightarrow> (\<forall>t. prog s t = []))"
proof
  have i: "lk_inv True s" using lk_reach_inv [OF assms] by simp
  then show "\<exists>s'. runs_to s s' \<and> (\<forall>t. prog s' t = []) \<and> owner s' = Map.empty" by (rule all_complete)
  show "(\<forall>t. exec t s = None) \<longrightarrow> (\<forall>t. prog s t = [])"
  proof (intro impI allI)
    fix t assume "\<forall>t. exec t s = None"
    then show "prog s t = []" using someone_runs [OF i, of t] by (cases "prog s t") auto
  qed
qed

theorem calls_complete_witness:
  "\<exists>s. owner s (ClassMu 10) = Some 0 \<and> (\<exists>s'. runs_to s s' \<and> owner s' (ClassMu 10) = None)"
proof -
  obtain s where s: "lk_reach demo_os False s" "owner s (ClassMu 10) = Some 0" using demo_using by blast
  from calls_complete [OF s(1)] have "\<exists>s'. runs_to s s' \<and> owner s' = Map.empty" by blast
  with s(2) show ?thesis by fastforce
qed

section \<open>Forking\<close>

lemma lock_many:
  "prog s t = map Lock ms @ k \<Longrightarrow> distinct ms \<Longrightarrow> \<forall>m\<in>set ms. owner s m = None \<Longrightarrow>
   runs_to s \<lparr>owner = (\<lambda>m. if m \<in> set ms then Some t else owner s m), prog = (prog s)(t := k)\<rparr>"
proof (induction ms arbitrary: s)
  case Nil
  then have "\<lparr>owner = (\<lambda>m. if m \<in> set [] then Some t else owner s m), prog = (prog s)(t := k)\<rparr> = s" by (cases s) auto
  then show ?case by (simp only: runs_to_refl)
next
  case (Cons m ms)
  let ?s = "s\<lparr>owner := (owner s)(m \<mapsto> t), prog := (prog s)(t := map Lock ms @ k)\<rparr>"
  have e: "exec t s = Some ?s" using Cons.prems by (simp add: exec_def)
  have "runs_to ?s \<lparr>owner = (\<lambda>m. if m \<in> set ms then Some t else owner ?s m), prog = (prog ?s)(t := k)\<rparr>"
    using Cons.prems by (intro Cons.IH) auto
  moreover have "(\<lambda>m. if m \<in> set ms then Some t else owner ?s m) = (\<lambda>x. if x \<in> set (m # ms) then Some t else owner s x)"
    "(prog ?s)(t := k) = (prog s)(t := k)" by auto
  ultimately have "runs_to ?s \<lparr>owner = (\<lambda>x. if x \<in> set (m # ms) then Some t else owner s x), prog = (prog s)(t := k)\<rparr>"
    by (simp only:)
  then show ?case by (rule runs_to_step [OF e])
qed

text \<open>A thread that is alone and waits for nothing runs to the end of its call.\<close>

definition alone :: "nat \<Rightarrow> mutex set \<Rightarrow> lk \<Rightarrow> bool" where
  "alone t M s \<longleftrightarrow> (\<forall>u. u \<noteq> t \<longrightarrow> prog s u = []) \<and> (\<forall>m\<in>M. owner s m = None \<or> owner s m = Some t) \<and>
     (\<forall>m. Lock m \<notin> set (prog s t)) \<and> (\<forall>u. u = t \<longrightarrow> disciplined False (held s u) (prog s u))"

lemma alone_step:
  assumes "alone t M s" "prog s t = x # k"
  shows "\<exists>s'. exec t s = Some s' \<and> prog s' t = k \<and> alone t M s'"
proof -
  note d = assms(1) [unfolded alone_def] assms(2)
  let ?s = "s\<lparr>prog := (prog s)(t := k)\<rparr>"
  show ?thesis
  proof (cases x)
    case (Lock m)
    then show ?thesis using d by auto
  next
    case (Unlock m)
    let ?u = "s\<lparr>owner := (owner s)(m := None), prog := (prog s)(t := k)\<rparr>"
    have "held ?u t = held s t - {m}" by (auto simp: held_def)
    then have "alone t M ?u" using d Unlock by (auto simp: alone_def)
    then show ?thesis using assms(2) Unlock by (auto simp: exec_def)
  next
    case (Use m)
    have "held ?s t = held s t" by (auto simp: held_def)
    then have "alone t M ?s" using d Use by (auto simp: alone_def)
    then show ?thesis using assms(2) Use by (auto simp: exec_def)
  next
    case (Peek a)
    have "held ?s t = held s t" by (auto simp: held_def)
    then have "alone t M ?s" using d Peek by (auto simp: alone_def)
    then show ?thesis using assms(2) Peek by (auto simp: exec_def)
  next
    case (Unmap a)
    have "held ?s t = held s t" by (auto simp: held_def)
    then have "alone t M ?s" using d Unmap by (auto simp: alone_def)
    then show ?thesis using assms(2) Unmap by (auto simp: exec_def)
  next
    case Fork
    have "held ?s t = held s t" by (auto simp: held_def)
    then have "alone t M ?s" using d Fork by (auto simp: alone_def)
    then show ?thesis using assms(2) Fork by (auto simp: exec_def)
  qed
qed

lemma alone_completes:
  "alone t M s \<Longrightarrow> prog s t = k \<Longrightarrow> \<exists>s'. runs_to s s' \<and> (\<forall>u. prog s' u = []) \<and> (\<forall>m\<in>M. owner s' m = None)"
proof (induction k arbitrary: s)
  case Nil
  then have "held s t = {}" by (simp add: alone_def)
  then have "\<forall>m\<in>M. owner s m = None" using Nil by (auto simp: alone_def held_def)
  moreover have "prog s u = []" for u using Nil by (cases "u = t") (auto simp: alone_def)
  ultimately show ?case using runs_to_refl [of s] by blast
next
  case (Cons x k)
  from alone_step [OF this(2,3)] obtain s1 where s1: "exec t s = Some s1" "prog s1 t = k" "alone t M s1" by blast
  from Cons.IH [OF s1(3,2)] runs_to_step [OF s1(1)] show ?case by blast
qed

text \<open>When a thread reaches the system call inside \<open>fork()\<close> it holds every mutex of the allocator, so
  no other thread is inside a protected section; and in the child, where only this thread exists, the
  release handler runs to its end and leaves every mutex free.\<close>

theorem fork_child_usable:
  assumes "lk_reach os True s" "prog s t = Fork # k"
  shows "(\<forall>m\<in>all_mutexes. owner s m = Some t) \<and>
    (\<exists>s'. runs_to (fork_child t s) s' \<and> (\<forall>u. prog s' u = []) \<and> (\<forall>m\<in>all_mutexes. owner s' m = None))"
proof -
  have i: "lk_inv False s" using lk_reach_inv [OF assms(1)] by simp
  have "prog s t = [] @ Fork # k" using assms(2) by simp
  then have k: "k = atfork_release" using i unfolding lk_inv_def fork_tails_def by blast
  have d: "disciplined False (held s t) atfork_release"
    using i assms(2) k unfolding lk_inv_def by (metis disciplined.simps(7))
  have "Unlock m \<in> set k \<Longrightarrow> disciplined False h k \<Longrightarrow> \<forall>x. Lock x \<notin> set k \<Longrightarrow> m \<in> h" for m h k
    by (induction False h k rule: disciplined.induct) auto
  moreover have nl: "\<forall>x. Lock x \<notin> set atfork_release" by (auto simp: atfork_release_def)
  moreover have "m \<in> all_mutexes \<Longrightarrow> Unlock m \<in> set atfork_release" for m
    by (auto simp: all_mutexes_def atfork_release_def)
  ultimately have all: "owner s m = Some t" if "m \<in> all_mutexes" for m
    using d that by (fastforce simp: held_def)
  have "alone t all_mutexes (fork_child t s)"
    using all nl d assms(2) k by (simp add: alone_def fork_child_def held_def)
  from alone_completes [OF this refl] all show ?thesis by blast
qed

theorem fork_child_usable_witness:
  "\<exists>s k. prog s 1 = Fork # k \<and> owner s SlotMu = Some 1 \<and> (\<exists>s'. runs_to (fork_child 1 s) s' \<and> owner s' SlotMu = None)"
proof -
  define ms where "ms = SlotMu # map ClassMu [0..<kNumClasses]"
  define l1 where "l1 = lk_initial\<lparr>prog := (prog lk_initial)(1 := fork_ops demo_start)\<rparr>"
  define l2 where "l2 = \<lparr>owner = (\<lambda>m. if m \<in> set ms then Some 1 else owner l1 m), prog = (prog l1)(1 := Fork # atfork_release)\<rparr>"
  have "lk_reach demo_os True l1" unfolding l1_def using reach_initial
    by (rule reach_call) (auto simp: lk_initial_def demo_start_facts intro: call_fork)
  moreover have "runs_to l1 l2" unfolding l2_def
    by (rule lock_many) (auto simp: ms_def distinct_map inj_on_def l1_def lk_initial_def fork_ops_def
        atfork_prepare_def demo_start_facts)
  ultimately have r: "lk_reach demo_os True l2" by (rule reach_runs [rotated])
  have p: "prog l2 1 = Fork # atfork_release" by (simp add: l2_def)
  from fork_child_usable [OF r p] have
    "owner l2 SlotMu = Some 1" "\<exists>s'. runs_to (fork_child 1 l2) s' \<and> owner s' SlotMu = None"
    by (auto simp: all_mutexes_def)
  with p show ?thesis by blast
qed

section \<open>Fork against malloc\<close>

text \<open>A mutex stays with a thread that does not move, and its call where it is.\<close>

lemma exec_other:
  assumes "lk_inv ord s" "exec v s = Some s'" "v \<noteq> t" "owner s m = Some t"
  shows "owner s' m = Some t \<and> prog s' t = prog s t"
  using assms(2)
proof (cases rule: exec_cases)
  case (lock m' k)
  then show ?thesis using assms(3,4) by auto
next
  case (unlock m' k)
  have "disciplined ord (held s v) (prog s v)" using assms(1) by (simp add: lk_inv_def)
  then have "owner s m' = Some v" using unlock(1) by (simp add: held_def)
  then show ?thesis using unlock assms(3,4) by auto
next
  case (plain x k)
  then show ?thesis using assms(3,4) by auto
qed

text \<open>The threads of \<open>T\<close> are inside a call and never move again, whatever the others do.\<close>

definition deadlocked :: "os \<Rightarrow> nat set \<Rightarrow> lk \<Rightarrow> bool" where
  "deadlocked os T s \<longleftrightarrow>
     (\<forall>s'. (lk_step os True)\<^sup>*\<^sup>* s s' \<longrightarrow> (\<forall>t\<in>T. prog s' t = prog s t \<and> prog s t \<noteq> [] \<and> exec t s' = None))"

lemma crossed_deadlock:
  assumes i: "lk_inv False s" and "t \<noteq> u"
    and t: "prog s t = Lock m # k" "owner s m = Some u"
    and u: "prog s u = Lock m' # k'" "owner s m' = Some t"
  shows "deadlocked os {t, u} s"
proof -
  have "lk_inv False s' \<and> prog s' t = prog s t \<and> prog s' u = prog s u \<and> owner s' m = Some u \<and> owner s' m' = Some t"
    if "(lk_step os True)\<^sup>*\<^sup>* s s'" for s'
    using that
  proof (induction rule: rtranclp_induct)
    case base
    then show ?case using i t u by simp
  next
    case (step s1 s2)
    then have n: "exec t s1 = None" "exec u s1 = None" using t(1) u(1) by (simp_all add: exec_simps(2))
    from step(2) show ?case
    proof (cases rule: lk_step.cases)
      case (lk_exec v)
      then have "v \<noteq> t" "v \<noteq> u" using n by auto
      then show ?thesis using step(3) lk_exec exec_inv [OF lk_exec] exec_other [OF _ lk_exec] by metis
    next
      case (lk_call v ops)
      then have "v \<noteq> t" "v \<noteq> u" using step(3) t(1) u(1) by auto
      then show ?thesis using step(3) call_inv [OF lk_call(2,3)] lk_call(1) by simp
    qed
  qed
  then show ?thesis using t(1) u(1) unfolding deadlocked_def by (auto simp: exec_simps(2))
qed

lemma malloc_run_ops_new:
  assumes "find_run s (class_head s c) = Some 0" "g_res_start s \<noteq> 0"
  shows "\<exists>k. malloc_run_ops os c s = [Lock (ClassMu c), Use (ClassMu c), Lock SlotMu] @ k"
  using assms by (simp add: malloc_run_ops_def slot_ops_def with_mutex_def)

text \<open>C12. A fork can deadlock with an allocation, for good: \<open>malloc\<close> holds the mutex of its class when it
  asks for \<open>g_slot_mu\<close> to make a new run, and \<open>atfork_prepare\<close> holds \<open>g_slot_mu\<close> when it asks for the mutexes
  of the classes. Whenever a thread \<open>t\<close> allocates in a class without room and a thread \<open>u\<close> forks, there is an
  interleaving after which neither ever moves again.\<close>

theorem fork_deadlock:
  assumes "malloc_ops os t n s = malloc_run_ops os c s" "c < kNumClasses" "find_run s (class_head s c) = Some 0"
    "g_res_start s \<noteq> 0" "g_ready s" "g_started s" "t \<noteq> u"
  shows "\<exists>l. lk_reach os True l \<and> deadlocked os {t, u} l"
proof -
  obtain k where k: "malloc_ops os t n s = [Lock (ClassMu c), Use (ClassMu c), Lock SlotMu] @ k"
    using malloc_run_ops_new [OF assms(3,4)] assms(1) by metis
  define ms where "ms = SlotMu # map ClassMu [0..<c]"
  have upt: "[0..<kNumClasses] = [0..<c] @ c # [Suc c..<kNumClasses]"
    using assms(2) by (metis less_imp_le_nat upt_add_eq_append le_add_diff_inverse upt_conv_Cons zero_le)
  then obtain k' where k': "fork_ops s = map Lock ms @ Lock (ClassMu c) # k'"
    using assms(5) by (simp add: fork_ops_def atfork_prepare_def ms_def)
  define l1 where "l1 = lk_initial\<lparr>prog := (prog lk_initial)(t := malloc_ops os t n s)\<rparr>"
  define l2 where "l2 = l1\<lparr>prog := (prog l1)(u := fork_ops s)\<rparr>"
  define l3 where "l3 = l2\<lparr>owner := (owner l2)(ClassMu c \<mapsto> t), prog := (prog l2)(t := Use (ClassMu c) # Lock SlotMu # k)\<rparr>"
  define l4 where "l4 = l3\<lparr>prog := (prog l3)(t := Lock SlotMu # k)\<rparr>"
  define l5 where "l5 = \<lparr>owner = (\<lambda>m. if m \<in> set ms then Some u else owner l4 m), prog = (prog l4)(u := Lock (ClassMu c) # k')\<rparr>"
  have "lk_reach os True l1" unfolding l1_def using reach_initial
    by (rule reach_call) (auto simp: lk_initial_def intro: call_malloc)
  then have "lk_reach os True l2" unfolding l2_def
    by (rule reach_call) (use assms(5-7) in \<open>auto simp: l1_def lk_initial_def intro: call_fork\<close>)
  moreover have "exec t l2 = Some l3"
    using assms(7) k by (simp add: exec_def l3_def l2_def l1_def lk_initial_def)
  moreover have "exec t l3 = Some l4" by (simp add: exec_def l4_def l3_def)
  moreover have "runs_to l4 l5" unfolding l5_def
    by (rule lock_many) (use assms(7) k' in \<open>auto simp: ms_def distinct_map inj_on_def l4_def l3_def l2_def l1_def lk_initial_def\<close>)
  ultimately have r: "lk_reach os True l5" using reach_exec reach_runs by blast
  then have i: "lk_inv False l5" using lk_reach_inv by fastforce
  have "deadlocked os {t, u} l5"
  proof (rule crossed_deadlock [OF i assms(7)])
    show "prog l5 t = Lock SlotMu # k" using assms(7) by (simp add: l5_def l4_def)
    show "owner l5 SlotMu = Some u" by (simp add: l5_def ms_def)
    show "prog l5 u = Lock (ClassMu c) # k'" by (simp add: l5_def)
    show "owner l5 (ClassMu c) = Some t" by (simp add: l5_def ms_def l4_def l3_def image_iff)
  qed
  with r show ?thesis by blast
qed

theorem fork_deadlock_witness:
  "\<exists>l. lk_reach demo_os True l \<and> deadlocked demo_os {0, 1} l"
proof (rule fork_deadlock [OF demo_malloc_ops _ demo_first_run])
  show "(10::nat) < kNumClasses" by (simp add: kNumClasses_def kSizes_def)
qed (simp_all add: demo_start_facts)

end
