(* ===== verification/BootFrame.thy ===== *)
theory BootFrame
  imports AllocHeap
begin

text \<open>
  Initialisation happens once: no entry point of the allocator that runs after it touches the flags, the bounds
  of the reserve or the background thread. \<open>boot\<close> collects them, and each operation preserves it,
  without any assumption on the state but \<open>g_ready\<close>. Last come what the process prints when it exits
  and what a forked child can do.
\<close>

definition boot :: "alloc \<Rightarrow> (bool \<times> bool \<times> bool \<times> bool \<times> bool \<times> bool) \<times> u64 \<times> u64" where
  "boot s = ((g_ready s, g_started s, g_res_done s, g_once_done s, g_trim_started s, tkey_ok s), g_res_start s, g_res_end s)"

lemma bootD:
  assumes "boot s' = boot s"
  shows "g_ready s' = g_ready s" "g_started s' = g_started s" "g_res_done s' = g_res_done s" "g_once_done s' = g_once_done s"
    "g_trim_started s' = g_trim_started s" "tkey_ok s' = tkey_ok s" "g_res_start s' = g_res_start s" "g_res_end s' = g_res_end s"
  using assms by (simp_all add: boot_def)

named_theorems boot_simps "operations that keep the boot flags"

lemma boot_updates [simp]:
  "boot (s\<lparr>g_runs := a\<rparr>) = boot s" "boot (s\<lparr>g_larges := b\<rparr>) = boot s" "boot (s\<lparr>g_acc := c\<rparr>) = boot s"
  "boot (s\<lparr>g_bytes := d\<rparr>) = boot s" "boot (s\<lparr>g_cls := e\<rparr>) = boot s" "boot (s\<lparr>g_mapped := f\<rparr>) = boot s"
  "boot (s\<lparr>g_freed_to_os := f\<rparr>) = boot s" "boot (s\<lparr>g_purged := f\<rparr>) = boot s" "boot (s\<lparr>tls := g\<rparr>) = boot s"
  "boot (s\<lparr>ticks := h\<rparr>) = boot s" "boot (s\<lparr>calls := h\<rparr>) = boot s" "boot (s\<lparr>libc_log := i\<rparr>) = boot s"
  "boot (s\<lparr>g_enomem := j\<rparr>) = boot s" "boot (s\<lparr>g_res_bump := f\<rparr>) = boot s"
  by (simp_all add: boot_def)

section \<open>Memory and runs\<close>

lemma boot_memory [simp]:
  "boot (put_run x r s) = boot s" "boot (put_large x h s) = boot s" "boot (set_head k x s) = boot s" "boot (add_live k y s) = boot s"
  "boot (map_range x y s) = boot s" "boot (munmap x y s) = boot s" "boot (zero_range x y s) = boot s" "boot (copy_range x y z s) = boot s"
  by (simp_all add: put_run_def put_large_def set_head_def add_live_def map_range_def munmap_def unmap_range_def
      zero_range_def copy_range_def boot_def)

lemma boot_memset: "memset0 x y s = Some s' \<Longrightarrow> boot s' = boot s"
  by (auto simp: memset0_def split: if_splits)

lemma boot_memcpy: "memcpy x y z s = Some s' \<Longrightarrow> boot s' = boot s"
  by (auto simp: memcpy_def split: if_splits)

lemma boot_now: "now_ms os s = (t, s') \<Longrightarrow> boot s' = boot s"
  by (auto simp: now_ms_def split: prod.splits)

lemma boot_reserve_map: "reserve_map os sz al s = (p, s') \<Longrightarrow> boot s' = boot s"
  by (auto simp: reserve_map_def Let_def split: if_splits)

lemma boot_mmap_any: "mmap_any os sz s = (p, s') \<Longrightarrow> boot s' = boot s"
  by (auto simp: mmap_any_def Let_def split: if_splits option.splits)

lemma boot_run_insert: "run_insert c a s = Some s' \<Longrightarrow> boot s' = boot s"
  by (auto simp: run_insert_def Let_def split: if_splits option.splits bind_splits)

lemma boot_run_remove: "run_remove c a s = Some s' \<Longrightarrow> boot s' = boot s"
  by (auto simp: run_remove_def Let_def split: if_splits option.splits bind_splits)

lemma boot_run_new: "run_new os c s = Some (p, s') \<Longrightarrow> boot s' = boot s"
  by (auto simp: run_new_def Let_def split: if_splits prod.splits bind_splits
      dest!: boot_run_insert boot_now boot_reserve_map boot_mmap_any)

lemma boot_run_take: "run_take os a s = Some (p, s') \<Longrightarrow> boot s' = boot s"
  by (auto simp: run_take_def Let_def split: if_splits prod.splits option.splits bind_splits dest!: boot_now)

lemma boot_run_give: "run_give os a p s = Some s' \<Longrightarrow> boot s' = boot s"
  by (auto simp: run_give_def Let_def split: if_splits prod.splits option.splits bind_splits dest!: boot_now)

section \<open>The purge\<close>

lemma boot_purge_pages: "boot (purge_pages r d n off s) = boot s"
  by (induction r d n off s rule: purge_pages.induct)
    (subst purge_pages.simps, auto simp: Let_def)

lemma boot_purge_run: "purge_run a t s = Some s' \<Longrightarrow> boot s' = boot s"
  by (auto simp: purge_run_def Let_def boot_purge_pages split: if_splits bind_splits dest!: boot_run_remove)

lemma boot_trim_walk:
  assumes r: "trim_walk t a s = Some s'"
  shows "boot s' = boot s"
proof (rule trim_walk.raw_induct [where P = "\<lambda>t a s s'. boot s' = boot s", OF _ r])
  fix f t a s s'
  assume "\<And>t a s s'. f t a s = Some s' \<Longrightarrow> boot s' = boot s"
    "(if a = 0 then Some s else do { r \<leftarrow> g_runs s a; s1 \<leftarrow> purge_run a t s; f t (r_next r) s1 }) = Some s'"
  then show "boot s' = boot s" by (auto split: if_splits bind_splits dest!: boot_purge_run)
qed

lemma boot_trim_classes: "trim_classes t cs s = Some s' \<Longrightarrow> boot s' = boot s"
  by (induction t cs s rule: trim_classes.induct)
    (auto simp: trim_class_def split: bind_splits dest!: boot_trim_walk)

lemma boot_trim_round: "trim_round os s = Some s' \<Longrightarrow> boot s' = boot s"
  by (auto simp: trim_round_def Let_def split: if_splits prod.splits dest!: boot_trim_classes boot_now)

section \<open>The malloc family\<close>

lemma boot_malloc:
  assumes "malloc os tid n s = Some (p, s')" "g_ready s"
  shows "boot s' = boot s"
proof -
  have large: "malloc_large os n s = Some (p, s') \<Longrightarrow> boot s' = boot s" for n
    by (auto simp: malloc_large_def Let_def split: if_splits prod.splits dest!: boot_reserve_map boot_mmap_any)
  have run: "malloc_run os c s = Some (p, s') \<Longrightarrow> boot s' = boot s" for c
    by (auto simp: malloc_run_def split: if_splits prod.splits bind_splits dest!: boot_run_new boot_run_take)
  have "malloc_ready os tid n s = Some (p, s') \<Longrightarrow> boot s' = boot s" for n
    by (auto simp: malloc_ready_def Let_def large run split: if_splits option.splits)
  then show ?thesis using assms by (auto simp: malloc_def Let_def)
qed

lemma boot_free: "free os tid p s = Some s' \<Longrightarrow> boot s' = boot s"
  by (auto simp: free_def free_small_def free_large_def Let_def boot_run_give split: if_splits option.splits bind_splits)

lemma boot_calloc: "calloc os tid nm sz s = Some (p, s') \<Longrightarrow> g_ready s \<Longrightarrow> boot s' = boot s"
  by (auto simp: calloc_def split: if_splits prod.splits bind_splits dest!: boot_malloc boot_memset)

lemma realloc_cases:
  assumes "p \<noteq> 0" "n \<noteq> 0" "realloc_lookup p s = Some (old, ours)" "ours"
  shows "realloc os tid p n s =
    (if n \<le> old \<and> old < kLargeMin \<and> n > old div 2 then Some (p, s)
     else do { (np, s1) \<leftarrow> malloc os tid n s;
               if np \<noteq> 0
               then do { s2 \<leftarrow> memcpy np p (if old < n then old else n) s1;
                         s3 \<leftarrow> free os tid p s2;
                         Some (np, s3) }
               else Some (np, s1) })"
  unfolding realloc_def assms(3) using assms(1,2,4) by (simp only: if_False simp_thms bind.bind_lunit prod.case)

lemma realloc_corner:
  "realloc os tid 0 n s = malloc os tid n s"
  "p \<noteq> 0 \<Longrightarrow> realloc os tid p 0 s = do { s1 \<leftarrow> free os tid p s; malloc os tid 1 s1 }"
  unfolding realloc_def by (simp_all only: if_True if_False simp_thms)

lemma realloc_foreign:
  "p \<noteq> 0 \<Longrightarrow> n \<noteq> 0 \<Longrightarrow> realloc_lookup p s = Some (old, False) \<Longrightarrow> realloc os tid p n s =
     (case libc_realloc os of None \<Rightarrow> Some (0, s)
      | Some f \<Rightarrow> Some (f (calls s), s\<lparr>calls := calls s + 1, libc_log := libc_log s @ [LibcRealloc p n]\<rparr>))"
  unfolding realloc_def by (simp only: if_False if_True simp_thms bind.bind_lunit prod.case)

lemma boot_realloc:
  assumes r: "realloc os tid p n s = Some (q, s')" and rd: "g_ready s"
  shows "boot s' = boot s"
proof -
  consider "p = 0" | "p \<noteq> 0" "n = 0" | "p \<noteq> 0" "n \<noteq> 0" "realloc_lookup p s = None"
    | old where "p \<noteq> 0" "n \<noteq> 0" "realloc_lookup p s = Some (old, False)"
    | old where "p \<noteq> 0" "n \<noteq> 0" "realloc_lookup p s = Some (old, True)"
    by (metis (full_types) option.exhaust surj_pair)
  then show ?thesis
  proof cases
    case 1
    then show ?thesis using r boot_malloc [OF _ rd] by (simp only: realloc_corner)
  next
    case 2
    obtain s1 where f: "free os tid p s = Some s1" "malloc os tid 1 s1 = Some (q, s')"
      using r unfolding 2(2) realloc_corner(2) [OF 2(1)] by (cases "free os tid p s") simp_all
    then show ?thesis using boot_free [OF f(1)] boot_malloc [OF f(2)] rd bootD(1) by metis
  next
    case 3
    then show ?thesis using r unfolding realloc_def by simp
  next
    case 4
    then show ?thesis using r unfolding realloc_foreign [OF 4] by (auto split: option.splits)
  next
    case 5
    show ?thesis
    proof (cases "n \<le> old \<and> old < kLargeMin \<and> n > old div 2")
      case True
      then show ?thesis using r unfolding realloc_cases [OF 5 TrueI] by simp
    next
      case False
      note r' = r [unfolded realloc_cases [OF 5 TrueI] if_not_P [OF False]]
      from r' obtain np s1 where m: "malloc os tid n s = Some (np, s1)" by (cases "malloc os tid n s") auto
      from boot_malloc [OF this rd] have b: "boot s1 = boot s" .
      show ?thesis
      proof (cases "np = 0")
        case True
        then show ?thesis using r' m b by simp
      next
        case nz: False
        define k where "k = (if old < n then old else n)"
        from r' m nz obtain s2 where "memcpy np p k s1 = Some s2" "free os tid p s2 = Some s'"
          unfolding k_def [symmetric] by (cases "memcpy np p k s1") (auto split: bind_splits)
        then show ?thesis using b boot_memcpy boot_free by metis
      qed
    qed
  qed
qed

lemma boot_posix_memalign: "posix_memalign os tid nul al n s = Some (c, out, s') \<Longrightarrow> g_ready s \<Longrightarrow> boot s' = boot s"
  by (auto simp: posix_memalign_def Let_def split: if_splits prod.splits bind_splits dest!: boot_malloc)

lemma boot_heap_step: "heap_step os s s' \<Longrightarrow> g_ready s \<Longrightarrow> boot s' = boot s"
  by (induction rule: heap_step.induct)
    (auto dest: boot_malloc boot_calloc boot_realloc boot_posix_memalign boot_free boot_trim_round)

section \<open>Exit and fork\<close>

text \<open>The handler registered with \<open>atexit\<close>: what it prints to \<open>stderr\<close>, if anything.\<close>

definition exit_text :: "alloc \<Rightarrow> string option" where
  "exit_text s =
     (if env_stats s \<noteq> 0
      then Some (''[memflux-preload] mapped='' @ show_nat (unat (drop_bit 20 (g_mapped s))) @
                 ''MB purged='' @ show_nat (unat (drop_bit 20 (g_purged s))) @
                 ''MB released='' @ show_nat (unat (drop_bit 20 (g_freed_to_os s))) @ ''MB'' @ [CHR 0x0A])
      else None)"

text \<open>The allocator of a child process right after \<open>fork()\<close>: a copy of the parent, without the background
  thread, since only the forking thread exists in the child and the handler for the child
  (\<open>atfork_release\<close>) only releases mutexes.\<close>

definition forked_child :: "alloc \<Rightarrow> alloc" where
  "forked_child s = s\<lparr>g_trim_started := False\<rparr>"

lemma heap_reach_started: "heap_reach os s \<Longrightarrow> g_started s"
proof (induction rule: heap_reach.induct)
  case (reach_init p)
  then show ?case by (rule ensure_init_initial(9))
next
  case (reach_step s s')
  then show ?case using boot_heap_step heap_reachD(2) bootD(2) by metis
qed

text \<open>A forked child never gives memory back: it has no background thread, and no sequence of allocator calls
  starts one, because \<open>ensure_init\<close> sees the flag \<open>started\<close> it inherited and does nothing.\<close>

theorem forked_child_never_trims:
  assumes "heap_reach os s" "(heap_step os)\<^sup>*\<^sup>* (forked_child s) s'"
  shows "\<not> g_trim_started s' \<and> ensure_init os s' = s'"
proof -
  have "boot s' = boot (forked_child s)"
    using assms(2)
  proof (induction rule: rtranclp_induct)
    case (step s1 s2)
    have "g_ready (forked_child s)" using heap_reachD(2) [OF assms(1)] by (simp add: forked_child_def)
    then show ?case using step boot_heap_step bootD(1) by metis
  qed simp
  then have "g_trim_started s' = g_trim_started (forked_child s)" "g_started s' = g_started (forked_child s)"
    by (rule bootD)+
  then show ?thesis using heap_reach_started [OF assms(1)] by (simp add: forked_child_def ensure_init_def)
qed

theorem forked_child_never_trims_witness:
  "g_trim_started demo_start \<and> \<not> g_trim_started (forked_child demo_start)"
proof -
  have "g_trim_started demo_start"
    by (simp add: demo_start_def ensure_init_def alloc_initial_def start_trim_def do_init_def read_env_def demo_os_def
        reserve_init_def Let_def)
  then show ?thesis using forked_child_never_trims [OF demo_reach rtranclp.rtrancl_refl] by simp
qed

end
