(* ===== verification/InitRace.thy ===== *)
theory InitRace
  imports BootFrame
begin

text \<open>
  Lazy initialisation with several threads (\<open>preload.cpp\<close>, lines 286 to 336 and 398 to 401): \<open>ensure_init\<close> as a
  program counter per thread, one atomic access, \<open>pthread_once\<close> call or call into the system at a
  time. A thread that has passed the check in \<open>malloc\<close> allocates; \<open>free\<close> has no check, so a thread can call it
  before; and the background thread makes its rounds once it is started.
\<close>

section \<open>The program counter\<close>

datatype pc =
    Enter          \<comment> \<open>\<open>malloc\<close>: is \<open>g_ready\<close> set?\<close>
  | LoadStarted    \<comment> \<open>\<open>started.load\<close>\<close>
  | CasRes         \<comment> \<open>\<open>res_done.compare_exchange_strong\<close>\<close>
  | MapReserve     \<comment> \<open>won it: map the reserve\<close>
  | Once           \<comment> \<open>at \<open>pthread_once\<close>\<close>
  | DoInit         \<comment> \<open>inside it\<close>
  | CasStarted     \<comment> \<open>\<open>g_ready\<close>, then \<open>started.compare_exchange_strong\<close>\<close>
  | Register       \<comment> \<open>won it: handlers and background thread\<close>
  | Ready          \<comment> \<open>past the check in \<open>malloc\<close>\<close>

record ini =
  i_alloc :: alloc
  i_pc :: "nat \<Rightarrow> pc"
  i_once :: "nat option"
  i_reserves :: nat
  i_inits :: nat
  i_handlers :: nat

text \<open>\<open>i_once\<close> is the thread inside \<open>pthread_once\<close>; the three counters count how often the reserve was mapped, \<open>do_init\<close> was
  run and the handlers were registered.\<close>

definition ini_start :: ini where
  "ini_start = \<lparr>i_alloc = alloc_initial, i_pc = (\<lambda>_. Enter), i_once = None, i_reserves = 0, i_inits = 0, i_handlers = 0\<rparr>"

definition goto :: "nat \<Rightarrow> pc \<Rightarrow> alloc \<Rightarrow> ini \<Rightarrow> ini" where
  "goto t c a s = s\<lparr>i_alloc := a, i_pc := (i_pc s)(t := c)\<rparr>"

text \<open>One step of a thread; \<open>None\<close> if it waits in \<open>pthread_once\<close> or is done.\<close>

definition init_step :: "os \<Rightarrow> nat \<Rightarrow> ini \<Rightarrow> ini option" where
  "init_step os t s =
     (let a = i_alloc s in
      case i_pc s t of
        Enter \<Rightarrow> Some (goto t (if g_ready a then Ready else LoadStarted) a s)
      | LoadStarted \<Rightarrow> Some (goto t (if g_started a then Ready else CasRes) a s)
      | CasRes \<Rightarrow> Some (if \<not> g_res_done a then goto t MapReserve (a\<lparr>g_res_done := True\<rparr>) s else goto t Once a s)
      | MapReserve \<Rightarrow> Some (if g_res_start a = 0
          then (goto t Once (reserve_init os a) s)\<lparr>i_reserves := i_reserves s + 1\<rparr> else goto t Once a s)
      | Once \<Rightarrow> (if g_once_done a then Some (goto t CasStarted a s)
          else if i_once s = None then Some ((goto t DoInit a s)\<lparr>i_once := Some t\<rparr>) else None)
      | DoInit \<Rightarrow> Some ((goto t CasStarted (do_init os (a\<lparr>g_once_done := True\<rparr>)) s)\<lparr>i_once := None, i_inits := i_inits s + 1\<rparr>)
      | CasStarted \<Rightarrow> Some (if g_ready a \<and> \<not> g_started a then goto t Register (a\<lparr>g_started := True\<rparr>) s else goto t Ready a s)
      | Register \<Rightarrow> Some ((goto t Ready (start_trim os a) s)\<lparr>i_handlers := i_handlers s + 1\<rparr>)
      | Ready \<Rightarrow> None)"

inductive ini_step :: "os \<Rightarrow> ini \<Rightarrow> ini \<Rightarrow> bool" for os where
  ini_init: "init_step os t s = Some s' \<Longrightarrow> ini_step os s s'"
| ini_malloc: "i_pc s t = Ready \<Longrightarrow> malloc os t n (i_alloc s) = Some (p, a) \<Longrightarrow> ini_step os s (s\<lparr>i_alloc := a\<rparr>)"
| ini_free: "i_pc s t \<in> {Enter, Ready} \<Longrightarrow> free os t p (i_alloc s) = Some a \<Longrightarrow> ini_step os s (s\<lparr>i_alloc := a\<rparr>)"
| ini_trim: "g_trim_started (i_alloc s) \<Longrightarrow> trim_round os (i_alloc s) = Some a \<Longrightarrow> ini_step os s (s\<lparr>i_alloc := a\<rparr>)"

definition ini_reach :: "os \<Rightarrow> ini \<Rightarrow> bool" where
  "ini_reach os s \<longleftrightarrow> (ini_step os)\<^sup>*\<^sup>* ini_start s"

section \<open>One thread alone\<close>

lemma do_init_flags:
  "g_ready (do_init os a)" "g_started (do_init os a) = g_started a" "g_res_start (do_init os a) = g_res_start a"
  "g_once_done (do_init os a) = g_once_done a" "g_res_done (do_init os a) = g_res_done a"
  by (simp_all add: do_init_def read_env_def Let_def split: option.splits)

lemma reserve_init_flags:
  "g_ready (reserve_init os a) = g_ready a" "g_started (reserve_init os a) = g_started a"
  "g_once_done (reserve_init os a) = g_once_done a" "g_res_done (reserve_init os a) = g_res_done a"
  by (simp_all add: reserve_init_def split: option.splits)

lemma start_trim_flags:
  "g_ready (start_trim os a) = g_ready a" "g_started (start_trim os a) = g_started a"
  "g_once_done (start_trim os a) = g_once_done a" "g_res_done (start_trim os a) = g_res_done a"
  by (simp_all add: start_trim_def)

lemmas init_flags = do_init_flags reserve_init_flags start_trim_flags

definition init_steps :: "os \<Rightarrow> nat \<Rightarrow> ini \<Rightarrow> ini \<Rightarrow> bool" where
  "init_steps os t = (\<lambda>s s'. init_step os t s = Some s')\<^sup>*\<^sup>*"

lemma init_steps_refl: "init_steps os t s s"
  by (simp add: init_steps_def)

lemma init_steps_more: "init_step os t s = Some s1 \<Longrightarrow> init_steps os t s1 s' \<Longrightarrow> init_steps os t s s'"
  unfolding init_steps_def by (rule converse_rtranclp_into_rtranclp)

lemma goto_simps [simp]:
  "i_alloc (goto t c a s) = a" "i_pc (goto t c a s) = (i_pc s)(t := c)" "i_once (goto t c a s) = i_once s"
  "i_reserves (goto t c a s) = i_reserves s" "i_inits (goto t c a s) = i_inits s" "i_handlers (goto t c a s) = i_handlers s"
  by (simp_all add: goto_def)

text \<open>From each program counter, what a thread that is alone in the initialisation reaches.\<close>

lemma from_started:
  assumes "i_pc s t = CasStarted"
  shows "\<exists>s'. init_steps os t s s' \<and> i_pc s' t = Ready \<and>
    i_alloc s' = (if g_ready (i_alloc s) \<and> \<not> g_started (i_alloc s) then start_trim os ((i_alloc s)\<lparr>g_started := True\<rparr>) else i_alloc s)"
proof (cases "g_ready (i_alloc s) \<and> \<not> g_started (i_alloc s)")
  case True
  let ?s1 = "goto t Register ((i_alloc s)\<lparr>g_started := True\<rparr>) s"
  let ?s2 = "(goto t Ready (start_trim os (i_alloc ?s1)) ?s1)\<lparr>i_handlers := i_handlers ?s1 + 1\<rparr>"
  have "init_step os t s = Some ?s1" "init_step os t ?s1 = Some ?s2" using assms True by (simp_all add: init_step_def)
  then have "init_steps os t s ?s2" by (blast intro: init_steps_more init_steps_refl)
  then show ?thesis using True by (intro exI [of _ ?s2]) simp
next
  case False
  let ?s1 = "goto t Ready (i_alloc s) s"
  have "init_step os t s = Some ?s1" unfolding init_step_def Let_def assms pc.case if_not_P [OF False] ..
  then have "init_steps os t s ?s1" by (blast intro: init_steps_more init_steps_refl)
  then show ?thesis by (intro exI [of _ ?s1]) (simp only: if_not_P [OF False] goto_simps fun_upd_same simp_thms)
qed

lemma from_once:
  fixes os
  assumes "i_pc s t = Once" "g_once_done (i_alloc s) \<or> i_once s = None"
  defines "a \<equiv> i_alloc s"
  defines "b \<equiv> (if \<not> g_once_done a then do_init os (a\<lparr>g_once_done := True\<rparr>) else a)"
  shows "\<exists>s'. init_steps os t s s' \<and> i_pc s' t = Ready \<and>
    i_alloc s' = (if g_ready b \<and> \<not> g_started b then start_trim os (b\<lparr>g_started := True\<rparr>) else b)"
proof -
  have "\<exists>s1. init_steps os t s s1 \<and> i_pc s1 t = CasStarted \<and> i_alloc s1 = b"
  proof (cases "g_once_done a")
    case True
    let ?s1 = "goto t CasStarted a s"
    have "init_step os t s = Some ?s1" using assms True by (simp add: init_step_def)
    then have "init_steps os t s ?s1" by (blast intro: init_steps_more init_steps_refl)
    then show ?thesis using True by (intro exI [of _ ?s1]) (simp add: b_def)
  next
    case False
    let ?s1 = "(goto t DoInit a s)\<lparr>i_once := Some t\<rparr>"
    let ?s2 = "(goto t CasStarted b ?s1)\<lparr>i_once := None, i_inits := i_inits ?s1 + 1\<rparr>"
    have "init_step os t s = Some ?s1" "init_step os t ?s1 = Some ?s2"
      using assms False by (simp_all add: init_step_def b_def)
    then have "init_steps os t s ?s2" by (blast intro: init_steps_more init_steps_refl)
    then show ?thesis by (intro exI [of _ ?s2]) simp
  qed
  then obtain s1 where s1: "init_steps os t s s1" "i_pc s1 t = CasStarted" "i_alloc s1 = b" by blast
  from from_started [OF s1(2), of os] s1 show ?thesis
    unfolding init_steps_def by (metis (no_types, lifting) rtranclp_trans)
qed

text \<open>The reserve, as one step of \<open>ensure_init\<close>.\<close>

definition reserve_step :: "os \<Rightarrow> alloc \<Rightarrow> alloc" where
  "reserve_step os a =
     (if \<not> g_res_done a then (let s = a\<lparr>g_res_done := True\<rparr> in if g_res_start s = 0 then reserve_init os s else s) else a)"

lemma from_cas_res:
  assumes "i_pc s t = CasRes"
  shows "\<exists>s'. init_steps os t s s' \<and> i_pc s' t = Once \<and> i_alloc s' = reserve_step os (i_alloc s) \<and> i_once s' = i_once s"
proof (cases "g_res_done (i_alloc s)")
  case True
  let ?s1 = "goto t Once (i_alloc s) s"
  have "init_step os t s = Some ?s1" using assms True by (simp add: init_step_def Let_def)
  then have "init_steps os t s ?s1" by (blast intro: init_steps_more init_steps_refl)
  then show ?thesis using True by (intro exI [of _ ?s1]) (simp add: reserve_step_def)
next
  case False
  define b where "b = reserve_step os (i_alloc s)"
  let ?s1 = "goto t MapReserve ((i_alloc s)\<lparr>g_res_done := True\<rparr>) s"
  let ?s2 = "if g_res_start (i_alloc s) = 0 then (goto t Once b ?s1)\<lparr>i_reserves := i_reserves ?s1 + 1\<rparr> else goto t Once b ?s1"
  have "init_step os t s = Some ?s1" "init_step os t ?s1 = Some ?s2"
    using assms False by (simp_all add: init_step_def b_def reserve_step_def Let_def)
  then have "init_steps os t s ?s2" by (blast intro: init_steps_more init_steps_refl)
  then show ?thesis by (intro exI [of _ ?s2]) (simp add: b_def)
qed

lemma init_steps_trans: "init_steps os t s s1 \<Longrightarrow> init_steps os t s1 s2 \<Longrightarrow> init_steps os t s s2"
  unfolding init_steps_def by (rule rtranclp_trans)

lemma from_cas_res_end:
  assumes "i_pc s t = CasRes" "g_once_done (i_alloc s) \<or> i_once s = None" "\<not> g_started (i_alloc s)"
  shows "\<exists>s'. init_steps os t s s' \<and> i_pc s' t = Ready \<and> i_alloc s' = ensure_init os (i_alloc s)"
proof -
  define b where "b = reserve_step os (i_alloc s)"
  obtain s1 where 1: "init_steps os t s s1" "i_pc s1 t = Once" "i_alloc s1 = b" "i_once s1 = i_once s"
    using from_cas_res [OF assms(1), of os] unfolding b_def by blast
  have "g_once_done b = g_once_done (i_alloc s)" by (simp add: b_def reserve_step_def Let_def init_flags)
  then have "g_once_done (i_alloc s1) \<or> i_once s1 = None" using assms(2) 1(3,4) by simp
  from from_once [OF 1(2) this, of os] obtain s' where s': "init_steps os t s1 s'" "i_pc s' t = Ready"
    "i_alloc s' = (let c = (if \<not> g_once_done b then do_init os (b\<lparr>g_once_done := True\<rparr>) else b)
       in if g_ready c \<and> \<not> g_started c then start_trim os (c\<lparr>g_started := True\<rparr>) else c)"
    unfolding 1(3) Let_def by blast
  have "i_alloc s' = ensure_init os (i_alloc s)"
    using assms(3) unfolding s'(3) ensure_init_def b_def reserve_step_def by (simp add: Let_def)
  then show ?thesis using init_steps_trans [OF 1(1) s'(1)] s'(2) by blast
qed

text \<open>A thread that is not disturbed goes through the atomic steps of the initialisation to the end, and the
  allocator is then exactly what the one-step function \<open>ensure_init\<close> makes of it.\<close>

theorem init_steps_refine:
  assumes "i_pc s t = Enter" "g_once_done (i_alloc s) \<or> i_once s = None"
  shows "\<exists>s'. init_steps os t s s' \<and> i_pc s' t = Ready \<and>
    i_alloc s' = (if g_ready (i_alloc s) then i_alloc s else ensure_init os (i_alloc s))"
proof -
  define a where "a = i_alloc s"
  let ?s1 = "goto t (if g_ready a then Ready else LoadStarted) a s"
  let ?s2 = "goto t (if g_started a then Ready else CasRes) a ?s1"
  have 1: "init_step os t s = Some ?s1" using assms by (simp add: init_step_def a_def)
  consider "g_ready a" | "\<not> g_ready a" "g_started a" | "\<not> g_ready a" "\<not> g_started a" by blast
  then show ?thesis
  proof cases
    case 1
    then show ?thesis using init_steps_more [OF \<open>init_step os t s = Some ?s1\<close> init_steps_refl]
      by (intro exI [of _ ?s1]) (simp add: a_def)
  next
    case 2
    then have "init_step os t ?s1 = Some ?s2" by (simp add: init_step_def)
    then show ?thesis using init_steps_more [OF 1 init_steps_more [OF _ init_steps_refl]] 2
      by (intro exI [of _ ?s2]) (simp add: a_def ensure_init_def)
  next
    case 3
    then have 2: "init_step os t ?s1 = Some ?s2" by (simp add: init_step_def)
    from 3 assms(2) have "i_pc ?s2 t = CasRes" "g_once_done (i_alloc ?s2) \<or> i_once ?s2 = None" "\<not> g_started (i_alloc ?s2)"
      by (simp_all add: a_def)
    from from_cas_res_end [OF this, of os] obtain s' where
      "init_steps os t ?s2 s'" "i_pc s' t = Ready" "i_alloc s' = ensure_init os a" by auto
    then show ?thesis using init_steps_more [OF 1 init_steps_more [OF 2]] 3(1) unfolding a_def by auto
  qed
qed

theorem init_steps_refine_witness:
  "\<exists>s'. init_steps demo_os 3 ini_start s' \<and> i_alloc s' = demo_start"
proof -
  have h: "i_pc ini_start 3 = Enter" "g_once_done (i_alloc ini_start) \<or> i_once ini_start = None" "\<not> g_ready (i_alloc ini_start)"
    by (simp_all add: ini_start_def alloc_initial_def)
  from init_steps_refine [OF h(1,2), of demo_os] h(3) show ?thesis
    by (auto simp: demo_start_def ini_start_def)
qed

section \<open>Exactly once\<close>

text \<open>Something done at most once: \<open>done\<close> says that a thread has won it, \<open>n\<close> counts how often it was carried out, and \<open>W\<close>
  are the threads about to do it.\<close>

definition once_only :: "bool \<Rightarrow> nat \<Rightarrow> nat set \<Rightarrow> bool" where
  "once_only won n W \<longleftrightarrow> (\<not> won \<longrightarrow> n = 0 \<and> W = {}) \<and> (W = {} \<and> n \<le> 1 \<or> n = 0 \<and> (\<exists>t. W = {t}))"

lemma once_only_bound: "once_only w n W \<Longrightarrow> n \<le> 1"
  by (auto simp: once_only_def)

lemma once_only_win: "once_only False n W \<Longrightarrow> once_only True n (insert t W)"
  by (auto simp: once_only_def)

lemma once_only_do: "once_only w n W \<Longrightarrow> t \<in> W \<Longrightarrow> once_only w (n + 1) (W - {t})"
  by (auto simp: once_only_def)

lemma once_only_skip: "once_only w n W \<Longrightarrow> once_only w n (W - {t})"
  by (auto simp: once_only_def)

definition ini_at :: "pc \<Rightarrow> ini \<Rightarrow> nat set" where
  "ini_at c s = {t. i_pc s t = c}"

definition ini_inv :: "ini \<Rightarrow> bool" where
  "ini_inv s \<longleftrightarrow>
     once_only (g_res_done (i_alloc s)) (i_reserves s) (ini_at MapReserve s) \<and>
     once_only (g_once_done (i_alloc s) \<or> i_once s \<noteq> None) (i_inits s) (ini_at DoInit s) \<and>
     once_only (g_started (i_alloc s)) (i_handlers s) (ini_at Register s) \<and>
     (\<forall>t. i_pc s t = DoInit \<longleftrightarrow> i_once s = Some t) \<and> (g_once_done (i_alloc s) \<longrightarrow> i_once s = None) \<and>
     g_ready (i_alloc s) = g_once_done (i_alloc s) \<and> (i_inits s = 1) = g_once_done (i_alloc s) \<and>
     (g_started (i_alloc s) \<longrightarrow> g_ready (i_alloc s)) \<and>
     (\<forall>t. i_pc s t \<in> {CasStarted, Register, Ready} \<longrightarrow> g_ready (i_alloc s))"

lemma ini_at_goto: "ini_at c (goto t d a s) = (if c = d then insert t (ini_at c s) else ini_at c s - {t})"
  by (auto simp: ini_at_def goto_def)

lemma ini_at_updates [simp]:
  "ini_at c (s\<lparr>i_once := w\<rparr>) = ini_at c s" "ini_at c (s\<lparr>i_reserves := n\<rparr>) = ini_at c s" "ini_at c (s\<lparr>i_alloc := a\<rparr>) = ini_at c s"
  "ini_at c (s\<lparr>i_inits := n\<rparr>) = ini_at c s" "ini_at c (s\<lparr>i_handlers := n\<rparr>) = ini_at c s"
  by (simp_all add: ini_at_def)

lemma ini_at_away: "i_pc s t = d \<Longrightarrow> c \<noteq> d \<Longrightarrow> ini_at c s - {t} = ini_at c s"
  by (auto simp: ini_at_def)

lemmas ini_simps = Let_def ini_at_goto ini_at_away init_flags

lemma init_step_inv:
  assumes e: "init_step os t s = Some s'" and i: "ini_inv s"
  shows "ini_inv s'"
proof -
  define a where "a = i_alloc s"
  have m: "c \<in> {MapReserve, DoInit, Register} \<Longrightarrow> i_pc s t = c \<Longrightarrow> t \<in> ini_at c s" for c by (simp add: ini_at_def)
  note i1 = i [unfolded ini_inv_def, folded a_def]
  note ir = i1 [THEN conjunct1] and io = i1 [THEN conjunct2, THEN conjunct1]
    and ih = i1 [THEN conjunct2, THEN conjunct2, THEN conjunct1]
  have no: "i_pc s t \<noteq> DoInit \<Longrightarrow> i_once s \<noteq> Some t" using i1 by blast
  show ?thesis
  proof (cases "i_pc s t")
    case MapReserve
    then have "once_only (g_res_done a) (i_reserves s + 1) (ini_at MapReserve s - {t})"
      by (intro once_only_do [OF ir m]) simp_all
    moreover have "once_only (g_res_done a) (i_reserves s) (ini_at MapReserve s - {t})" by (rule once_only_skip [OF ir])
    moreover have "s' = (if g_res_start a = 0
        then (goto t Once (reserve_init os a) s)\<lparr>i_reserves := i_reserves s + 1\<rparr> else goto t Once a s)"
      using e MapReserve by (simp add: init_step_def Let_def a_def split: if_splits)
    ultimately show ?thesis using i1 MapReserve no by (auto simp: ini_inv_def ini_simps)
  next
    case DoInit
    then have "i_once s = Some t" "\<not> g_once_done a" using i1 by auto
    moreover have "once_only True (i_inits s + 1) (ini_at DoInit s - {t})" "i_inits s = 0"
      using once_only_do [OF io m [OF _ DoInit]] io m [OF _ DoInit] \<open>i_once s = Some t\<close> by (auto simp: once_only_def)
    moreover have "s' = (goto t CasStarted (do_init os (a\<lparr>g_once_done := True\<rparr>)) s)\<lparr>i_once := None, i_inits := i_inits s + 1\<rparr>"
      using e DoInit by (simp add: init_step_def Let_def a_def)
    moreover note once_only_skip [OF ir, of t] once_only_skip [OF ih, of t]
    ultimately show ?thesis using i1 DoInit by (auto simp: ini_inv_def Let_def ini_at_goto init_flags)
  next
    case Register
    then have "once_only (g_started a) (i_handlers s + 1) (ini_at Register s - {t})" by (intro once_only_do [OF ih m]) simp_all
    moreover have "s' = (goto t Ready (start_trim os a) s)\<lparr>i_handlers := i_handlers s + 1\<rparr>"
      using e Register by (simp add: init_step_def Let_def a_def)
    ultimately show ?thesis using i1 Register no by (auto simp: ini_inv_def ini_simps)
  next
    case CasRes
    then have "\<not> g_res_done a \<Longrightarrow> once_only True (i_reserves s) (insert t (ini_at MapReserve s))"
      using ir once_only_win by simp
    moreover have "s' = (if \<not> g_res_done a then goto t MapReserve (a\<lparr>g_res_done := True\<rparr>) s else goto t Once a s)"
      using e CasRes by (simp add: init_step_def Let_def a_def split: if_splits)
    ultimately show ?thesis using i1 CasRes no by (auto simp: ini_inv_def ini_simps)
  next
    case Once
    have "once_only True (i_inits s) (insert t (ini_at DoInit s))" if "\<not> g_once_done a" "i_once s = None"
      using io once_only_win [of "i_inits s" "ini_at DoInit s" t] that by simp
    moreover have "g_once_done a \<and> s' = goto t CasStarted a s \<or>
        \<not> g_once_done a \<and> i_once s = None \<and> s' = (goto t DoInit a s)\<lparr>i_once := Some t\<rparr>"
      using e Once by (simp add: init_step_def Let_def a_def split: if_splits)
    ultimately show ?thesis using i1 Once no by (elim disjE conjE) (auto simp: ini_inv_def ini_simps)
  next
    case CasStarted
    then have "\<not> g_started a \<Longrightarrow> once_only True (i_handlers s) (insert t (ini_at Register s))"
      using ih once_only_win by simp
    moreover have "s' = (if g_ready a \<and> \<not> g_started a then goto t Register (a\<lparr>g_started := True\<rparr>) s else goto t Ready a s)"
      using e CasStarted by (auto simp: init_step_def Let_def a_def split: if_splits)
    ultimately show ?thesis using i1 CasStarted no by (auto simp: ini_inv_def ini_simps)
  next
    case Enter
    then have "s' = goto t (if g_ready a then Ready else LoadStarted) a s" using e by (simp add: init_step_def Let_def a_def)
    then show ?thesis using i1 Enter no by (auto simp: ini_inv_def ini_simps)
  next
    case LoadStarted
    then have "s' = goto t (if g_started a then Ready else CasRes) a s" using e by (simp add: init_step_def Let_def a_def)
    then show ?thesis using i1 LoadStarted no by (auto simp: ini_inv_def ini_simps)
  next
    case Ready
    then show ?thesis using e by (simp add: init_step_def)
  qed
qed

lemma ini_inv_boot:
  assumes "ini_inv s" "boot a = boot (i_alloc s)"
  shows "ini_inv (s\<lparr>i_alloc := a\<rparr>)"
proof -
  have e: "i_alloc (s\<lparr>i_alloc := a\<rparr>) = a" "i_pc (s\<lparr>i_alloc := a\<rparr>) = i_pc s" "i_once (s\<lparr>i_alloc := a\<rparr>) = i_once s"
    "i_reserves (s\<lparr>i_alloc := a\<rparr>) = i_reserves s" "i_inits (s\<lparr>i_alloc := a\<rparr>) = i_inits s"
    "i_handlers (s\<lparr>i_alloc := a\<rparr>) = i_handlers s" by simp_all
  show ?thesis using assms(1) unfolding ini_inv_def ini_at_updates e bootD [OF assms(2)] .
qed

lemma ini_step_inv:
  assumes "ini_step os s s'" "ini_inv s"
  shows "ini_inv s'"
  using assms(1)
proof (cases rule: ini_step.cases)
  case (ini_init t)
  then show ?thesis using init_step_inv assms(2) by blast
next
  case (ini_malloc t n p a)
  have "g_ready (i_alloc s)" using ini_malloc(2) assms(2) by (auto simp: ini_inv_def)
  then show ?thesis using ini_malloc boot_malloc ini_inv_boot assms(2) by blast
next
  case (ini_free t p a)
  then show ?thesis using boot_free ini_inv_boot assms(2) by blast
next
  case (ini_trim a)
  then show ?thesis using boot_trim_round ini_inv_boot assms(2) by blast
qed

lemma ini_inv_start: "ini_inv ini_start"
  by (simp add: ini_inv_def ini_start_def alloc_initial_def once_only_def ini_at_def)

lemma ini_reach_inv: "ini_reach os s \<Longrightarrow> ini_inv s"
  unfolding ini_reach_def
  by (induction rule: rtranclp_induct) (rule ini_inv_start, rule ini_step_inv)

text \<open>C22. However the threads interleave, the reserve is mapped, \<open>do_init\<close> run and the handlers and the background
  thread set up at most once each, and a thread gets to allocate only after \<open>do_init\<close> was run.\<close>

theorem initialised_once:
  assumes "ini_reach os s"
  shows "i_reserves s \<le> 1 \<and> i_inits s \<le> 1 \<and> i_handlers s \<le> 1 \<and>
    (i_pc s t = Ready \<longrightarrow> i_inits s = 1 \<and> g_ready (i_alloc s))"
  using ini_reach_inv [OF assms] unfolding ini_inv_def by (auto dest: once_only_bound)

section \<open>A thread that overtakes the reserve\<close>

fun init_run :: "os \<Rightarrow> nat list \<Rightarrow> ini \<Rightarrow> ini option" where
  "init_run os [] s = Some s"
| "init_run os (t # ts) s = Option.bind (init_step os t s) (init_run os ts)"

lemma reach_init_run: "init_run os ts s = Some s' \<Longrightarrow> ini_reach os s \<Longrightarrow> ini_reach os s'"
proof (induction os ts s rule: init_run.induct)
  case (2 os t ts s)
  then obtain s1 where s1: "init_step os t s = Some s1" "init_run os ts s1 = Some s'" by (auto split: bind_splits)
  have "ini_reach os s1" using 2(3) ini_init [OF s1(1)] unfolding ini_reach_def by (rule rtranclp.rtrancl_into_rtrancl)
  then show ?case using 2(1) s1 by blast
qed simp

lemma alone_run:
  "case init_run demo_os (replicate 8 0) ini_start of None \<Rightarrow> False | Some s \<Rightarrow> i_pc s 0 = Ready"
  by code_simp

theorem initialised_once_witness:
  "\<exists>s. ini_reach demo_os s \<and> i_pc s 0 = Ready \<and> i_inits s = 1 \<and> i_handlers s \<le> 1"
proof -
  obtain s where s: "init_run demo_os (replicate 8 0) ini_start = Some s" "i_pc s 0 = Ready"
    using alone_run by (auto split: option.splits)
  have "ini_reach demo_os s" by (rule reach_init_run [OF s(1)]) (simp add: ini_reach_def)
  from initialised_once [OF this, of 0] s(2) this show ?thesis by auto
qed

text \<open>The demonstration system, with a kernel that also places mappings itself.\<close>

definition race_os :: os where
  "race_os = demo_os\<lparr>mmap_anywhere := (\<lambda>_ _. Some 139637976727552)\<rparr>"

text \<open>Thread 0 wins the reserve and is stopped before it maps it; thread 1 goes all the way.\<close>

definition race_schedule :: "nat list" where
  "race_schedule = [0, 0, 0, 1, 1, 1, 1, 1, 1, 1]"

definition race_result :: "(ini \<times> u64 \<times> alloc \<times> ini \<times> alloc) option" where
  "race_result =
     do { s \<leftarrow> init_run race_os race_schedule ini_start;
          (p, a) \<leftarrow> malloc race_os 1 100 (i_alloc s);
          s2 \<leftarrow> init_step race_os 0 (s\<lparr>i_alloc := a\<rparr>);
          b \<leftarrow> free race_os 1 p (i_alloc s2);
          Some (s, p, a, s2, b) }"

lemma race_run:
  "case race_result of None \<Rightarrow> False | Some (s, p, a, s2, b) \<Rightarrow>
     i_pc s 1 = Ready \<and> p \<noteq> 0 \<and> i_pc s2 1 = Ready \<and> libc_log b = [LibcFree p]"
  by code_simp

lemma race_resultD:
  assumes "race_result = Some (s, p, a, s2, b)"
  shows "init_run race_os race_schedule ini_start = Some s" "malloc race_os 1 100 (i_alloc s) = Some (p, a)"
    "init_step race_os 0 (s\<lparr>i_alloc := a\<rparr>) = Some s2" "free race_os 1 p (i_alloc s2) = Some b"
  using assms unfolding race_result_def
  by (simp_all only: bind_eq_Some_conv split_paired_Ex prod.case option.inject prod.inject) blast+

text \<open>C23. A thread that enters the allocator while another one is about to map the reserve works without it; when the
  reserve is there, \<open>free\<close> takes the thread's pointer for a foreign one and passes it to the \<open>free\<close> of libc,
  which never handed it out.\<close>

theorem init_race_frees_foreign:
  "\<exists>s p a s2 b. ini_reach race_os s \<and> i_pc s 1 = Ready \<and>
    malloc race_os 1 100 (i_alloc s) = Some (p, a) \<and> p \<noteq> 0 \<and>
    init_step race_os 0 (s\<lparr>i_alloc := a\<rparr>) = Some s2 \<and> i_pc s2 1 = Ready \<and>
    free race_os 1 p (i_alloc s2) = Some b \<and> libc_log b = [LibcFree p]"
proof -
  from race_run obtain s p a s2 b where
    1: "race_result = Some (s, p, a, s2, b)" "i_pc s 1 = Ready" "p \<noteq> 0" "i_pc s2 1 = Ready" "libc_log b = [LibcFree p]"
    by (auto split: option.splits)
  have "ini_reach race_os s" by (rule reach_init_run [OF race_resultD(1) [OF 1(1)]]) (simp add: ini_reach_def)
  then show ?thesis using race_resultD(2-4) [OF 1(1)] 1(2-5) by blast
qed

end
