(* ===== verification/HeapSpec.thy ===== *)
theory HeapSpec
  imports AllocHeap
begin

text \<open>
  What a client of the allocator may rely on, as an abstract machine: a map from addresses to block sizes and the
  contents of the blocks, with one rule per outcome of a call. The allocator refines it: every sequence of calls, writes,
  reads and trim rounds, with the results the code returns, is a sequence of the abstract machine.
\<close>

section \<open>The abstract machine\<close>

text \<open>An event is a call with its result, a byte the client writes to a block or reads from it, or a round of the
  trim thread.\<close>

datatype event =
    EvMalloc nat u64
  | EvCalloc nat u64
  | EvRealloc u64 nat u64
  | EvMemalign nat nat "u64 option"
  | EvFree u64
  | EvWrite u64 nat u8
  | EvRead u64 nat u8
  | EvTrim

type_synonym blocks = "u64 \<rightharpoonup> nat"
type_synonym contents = "u64 \<Rightarrow> nat \<Rightarrow> u8"

definition unused :: "blocks \<Rightarrow> u64 \<Rightarrow> nat \<Rightarrow> bool" where
  "unused B p m \<longleftrightarrow> p \<noteq> 0 \<and> B p = None \<and> (\<forall>q k. B q = Some k \<longrightarrow> apart p m q k)"

definition agree :: "blocks \<Rightarrow> contents \<Rightarrow> contents \<Rightarrow> bool" where
  "agree B C C' \<longleftrightarrow> (\<forall>p n i. B p = Some n \<longrightarrow> i < n \<longrightarrow> C' p i = C p i)"

text \<open>A trim round may clear bytes of the blocks of the other sizes, those that straddle the end of a page.\<close>

definition page_fit :: "nat \<Rightarrow> bool" where
  "page_fit n \<longleftrightarrow> 4096 \<le> n \<or> n dvd 4096"

inductive spec_step :: "blocks \<times> contents \<Rightarrow> event \<Rightarrow> blocks \<times> contents \<Rightarrow> bool" where
  spec_malloc_fails: "agree B C C' \<Longrightarrow> spec_step (B, C) (EvMalloc n 0) (B, C')"
| spec_malloc: "unused B p m \<Longrightarrow> max 1 n \<le> m \<Longrightarrow> agree B C C' \<Longrightarrow> spec_step (B, C) (EvMalloc n p) (B(p \<mapsto> m), C')"
| spec_calloc_fails: "agree B C C' \<Longrightarrow> spec_step (B, C) (EvCalloc n 0) (B, C')"
| spec_calloc: "unused B p m \<Longrightarrow> max 1 n \<le> m \<Longrightarrow> agree B C C' \<Longrightarrow> \<forall>i<n. C' p i = 0 \<Longrightarrow>
    spec_step (B, C) (EvCalloc n p) (B(p \<mapsto> m), C')"
| spec_realloc_fails: "B p \<noteq> None \<Longrightarrow> agree B C C' \<Longrightarrow> spec_step (B, C) (EvRealloc p n 0) (B, C')"
| spec_realloc_keeps: "B p = Some m \<Longrightarrow> n \<le> m \<Longrightarrow> spec_step (B, C) (EvRealloc p n p) (B, C)"
| spec_realloc_moves: "B p = Some old \<Longrightarrow> q \<noteq> p \<Longrightarrow> unused (B(p := None)) q m \<Longrightarrow> n \<le> m \<Longrightarrow> agree (B(p := None)) C C' \<Longrightarrow>
    \<forall>i<min old n. C' q i = C p i \<Longrightarrow> spec_step (B, C) (EvRealloc p n q) ((B(p := None))(q \<mapsto> m), C')"
| spec_memalign_fails: "agree B C C' \<Longrightarrow> spec_step (B, C) (EvMemalign a n None) (B, C')"
| spec_memalign: "unused B b m \<Longrightarrow> a dvd unat q \<Longrightarrow> unat b \<le> unat q \<Longrightarrow> unat q + n \<le> unat b + m \<Longrightarrow> agree B C C' \<Longrightarrow>
    spec_step (B, C) (EvMemalign a n (Some q)) (B(b \<mapsto> m), C')"
| spec_free: "B p \<noteq> None \<Longrightarrow> agree (B(p := None)) C C' \<Longrightarrow> spec_step (B, C) (EvFree p) (B(p := None), C')"
| spec_write: "B p = Some m \<Longrightarrow> i < m \<Longrightarrow> agree B (C(p := (C p)(i := v))) C' \<Longrightarrow> spec_step (B, C) (EvWrite p i v) (B, C')"
| spec_read: "B p = Some m \<Longrightarrow> i < m \<Longrightarrow> spec_step (B, C) (EvRead p i (C p i)) (B, C)"
| spec_trim: "\<forall>p n i. B p = Some n \<longrightarrow> page_fit n \<longrightarrow> i < n \<longrightarrow> C' p i = C p i \<Longrightarrow> spec_step (B, C) EvTrim (B, C')"

text \<open>It starts without blocks.\<close>

inductive spec_trace :: "event list \<Rightarrow> blocks \<times> contents \<Rightarrow> bool" where
  spec_start: "spec_trace [] (Map.empty, C)"
| spec_next: "spec_trace es b \<Longrightarrow> spec_step b e b' \<Longrightarrow> spec_trace (es @ [e]) b'"

text \<open>By its rules alone blocks of the abstract machine never overlap.\<close>

lemma apart_sym: "apart p n q m \<Longrightarrow> apart q m p n"
  by (auto simp: apart_def)

lemma spec_apart:
  "spec_trace es b \<Longrightarrow> fst b p = Some n \<Longrightarrow> fst b q = Some m \<Longrightarrow> p \<noteq> q \<Longrightarrow> apart p n q m"
proof (induction arbitrary: p n q m rule: spec_trace.induct)
  case (spec_next es b e b')
  from spec_next.hyps(2) spec_next.IH spec_next.prems show ?case
    by cases (auto simp: unused_def apart_sym split: if_splits)
qed simp

section \<open>The calls of the allocator\<close>

text \<open>The steps of \<open>heap_step\<close>, each with its event.\<close>

inductive heap_call :: "os \<Rightarrow> alloc \<Rightarrow> event \<Rightarrow> alloc \<Rightarrow> bool" for os where
  call_malloc: "roomy s (unat n) \<Longrightarrow> malloc os tid n s = Some (p, s') \<Longrightarrow> heap_call os s (EvMalloc (unat n) p) s'"
| call_calloc: "unat nm * unat sz < 2 ^ 64 \<Longrightarrow> roomy s (unat nm * unat sz) \<Longrightarrow> calloc os tid nm sz s = Some (p, s') \<Longrightarrow>
    heap_call os s (EvCalloc (unat nm * unat sz) p) s'"
| call_realloc: "freeable s q k \<Longrightarrow> 0 < unat n \<Longrightarrow> roomy s (unat n) \<Longrightarrow> realloc os tid q n s = Some (p, s') \<Longrightarrow>
    heap_call os s (EvRealloc q (unat n) p) s'"
| call_memalign: "max 8 (unat al) = 2 ^ k \<Longrightarrow> roomy s (unat n + 2 ^ k + 4096) \<Longrightarrow>
    posix_memalign os tid False al n s = Some (code, out, s') \<Longrightarrow> heap_call os s (EvMemalign (2 ^ k) (unat n) out) s'"
| call_free: "freeable s p k \<Longrightarrow> free os tid p s = Some s' \<Longrightarrow> heap_call os s (EvFree p) s'"
| call_write: "live s p n \<Longrightarrow> i < n \<Longrightarrow> heap_call os s (EvWrite p i v) (s\<lparr>g_bytes := (g_bytes s)(p + of_nat i := v)\<rparr>)"
| call_read: "live s p n \<Longrightarrow> i < n \<Longrightarrow> heap_call os s (EvRead p i (g_bytes s (p + of_nat i))) s"
| call_trim: "trim_round os s = Some s' \<Longrightarrow> heap_call os s EvTrim s'"

inductive heap_trace :: "os \<Rightarrow> event list \<Rightarrow> alloc \<Rightarrow> bool" for os where
  trace_start: "reserve_at os p \<Longrightarrow> heap_trace os [] (ensure_init os alloc_initial)"
| trace_next: "heap_trace os es s \<Longrightarrow> heap_call os s e s' \<Longrightarrow> heap_trace os (es @ [e]) s'"

lemma heap_call_step: "heap_call os s e s' \<Longrightarrow> heap_step os s s' \<or> s' = s"
  by (induction rule: heap_call.induct) (auto intro: heap_step.intros)

lemma heap_trace_reach: "heap_trace os es s \<Longrightarrow> heap_reach os s"
  by (induction rule: heap_trace.induct) (auto intro: heap_reach.intros dest: heap_call_step)

section \<open>The simulation\<close>

definition sim :: "alloc \<Rightarrow> blocks \<Rightarrow> contents \<Rightarrow> bool" where
  "sim s B C \<longleftrightarrow> (\<forall>p n. B p = Some n \<longleftrightarrow> live s p n) \<and> (\<forall>p n i. B p = Some n \<longrightarrow> i < n \<longrightarrow> C p i = g_bytes s (p + of_nat i))"

definition bytes_of :: "alloc \<Rightarrow> contents" where
  "bytes_of s p i = g_bytes s (p + of_nat i)"

lemma sim_same: "sim s B C \<Longrightarrow> live s' = live s \<Longrightarrow> sim s' B (bytes_of s')"
  by (simp add: sim_def bytes_of_def)

lemma sim_agree: "sim s B C \<Longrightarrow> contents_kept s s' \<Longrightarrow> agree B C (bytes_of s')"
  by (simp add: sim_def agree_def contents_kept_def bytes_of_def)

lemma sim_None: "sim s B C \<Longrightarrow> \<forall>k. \<not> live s p k \<Longrightarrow> B p = None"
  unfolding sim_def by (metis not_Some_eq)

text \<open>One new block.\<close>

lemma sim_new:
  assumes "sim s B C" "mem_inv s'" "p \<noteq> 0" "\<forall>x k. live s' x k \<longleftrightarrow> live s x k \<or> x = p \<and> k = m" "\<forall>k. \<not> live s p k"
  shows "unused B p m" "sim s' (B(p \<mapsto> m)) (bytes_of s')"
proof -
  have B: "B q = Some k \<longleftrightarrow> live s q k" for q k using assms(1) by (simp add: sim_def)
  have "apart p m q k" if "B q = Some k" for q k
  proof -
    have "live s' p m" "live s' q k" "q \<noteq> p" using that assms(4,5) B by auto
    then show ?thesis using live_disjoint [OF assms(2)] by blast
  qed
  then show "unused B p m" using assms(3) sim_None [OF assms(1,5)] by (simp add: unused_def)
  show "sim s' (B(p \<mapsto> m)) (bytes_of s')" using assms(4,5) B by (auto simp: sim_def bytes_of_def)
qed

lemma alloc_result_cases:
  assumes "sim s B C" "alloc_result s n p s'"
  shows "p = 0 \<and> sim s' B (bytes_of s') \<and> agree B C (bytes_of s') \<or>
    (\<exists>m\<ge>n. unused B p m \<and> sim s' (B(p \<mapsto> m)) (bytes_of s') \<and> agree B C (bytes_of s'))"
proof (cases "p = 0")
  case True
  then have "live s' = live s" using assms(2) by (auto simp: alloc_result_def fun_eq_iff)
  then show ?thesis using True sim_same [OF assms(1)] sim_agree [OF assms(1)] assms(2) by (simp add: alloc_result_def)
next
  case False
  with assms(2) obtain m where m: "n \<le> m" "\<forall>x k. live s' x k \<longleftrightarrow> live s x k \<or> x = p \<and> k = m" "\<forall>k. \<not> live s p k"
    unfolding alloc_result_def by auto
  have "mem_inv s'" "contents_kept s s'" using assms(2) by (simp_all add: alloc_result_def ainv_def)
  then show ?thesis using sim_new [OF assms(1) _ False m(2,3)] sim_agree [OF assms(1)] m(1) by blast
qed

definition simulated :: "blocks \<Rightarrow> contents \<Rightarrow> event \<Rightarrow> alloc \<Rightarrow> bool" where
  "simulated B C e s' \<longleftrightarrow> (\<exists>B' C'. spec_step (B, C) e (B', C') \<and> sim s' B' C')"

lemma simulatedI: "spec_step (B, C) e (B', C') \<Longrightarrow> sim s' B' C' \<Longrightarrow> simulated B C e s'"
  unfolding simulated_def by blast

lemma simulated_malloc:
  assumes "sim s B C" "alloc_result s (max 1 n) p s'"
  shows "simulated B C (EvMalloc n p) s'"
  using alloc_result_cases [OF assms] by (blast intro: simulatedI spec_malloc spec_malloc_fails)

lemma simulated_calloc:
  assumes "sim s B C" "alloc_result s (max 1 n) p s'" "p \<noteq> 0 \<longrightarrow> (\<forall>i<n. g_bytes s' (p + of_nat i) = 0)"
  shows "simulated B C (EvCalloc n p) s'"
  using alloc_result_cases [OF assms(1,2)]
proof (elim disjE exE conjE)
  fix m assume m: "max 1 n \<le> m" "unused B p m" "sim s' (B(p \<mapsto> m)) (bytes_of s')" "agree B C (bytes_of s')"
  have "\<forall>i<n. bytes_of s' p i = 0" using assms(3) m(2) by (simp add: unused_def bytes_of_def)
  then show ?thesis using m by (blast intro: simulatedI spec_calloc)
qed (blast intro: simulatedI spec_calloc_fails)

lemma simulated_free:
  assumes "sim s B C" "ainv s" "freeable s p k" "free os tid p s = Some s'"
  shows "simulated B C (EvFree p) s'"
proof -
  from free_ok [OF assms(2,3), of os tid] assms(4) have s': "\<forall>x k. live s' x k \<longleftrightarrow> live s x k \<and> x \<noteq> p" "g_bytes s' = g_bytes s" by auto
  have "B p \<noteq> None" using freeable_live [OF assms(3)] assms(1) by (auto simp: sim_def)
  moreover have "agree (B(p := None)) C (bytes_of s')" "sim s' (B(p := None)) (bytes_of s')"
    using assms(1) s' by (auto simp: sim_def agree_def bytes_of_def)
  ultimately show ?thesis by (blast intro: simulatedI spec_free)
qed

lemma simulated_realloc:
  assumes sm: "sim s B C" and inv: "ainv s" and rd: "g_ready s" and fr: "freeable s p old" and n: "0 < unat n" "roomy s (unat n)"
    and r: "realloc os tid p n s = Some (q, s')"
  shows "simulated B C (EvRealloc p (unat n) q) s'"
proof -
  have Bp: "B p = Some old" using freeable_live [OF fr] sm by (simp add: sim_def)
  show ?thesis
  proof (cases "unat n \<le> old \<and> old < 2097153 \<and> old div 2 < unat n")
    case True
    then have "q = p" "s' = s" using realloc_in_place [OF inv fr n(1), of os tid] r by auto
    then show ?thesis using True sm Bp by (blast intro: simulatedI spec_realloc_keeps)
  next
    case False
    from realloc_move [OF inv rd fr n False, of os tid] r have
      i: "ainv s'"
      and f: "q = 0 \<longrightarrow> (\<forall>x k. live s' x k \<longleftrightarrow> live s x k) \<and> contents_kept s s'"
      and ok: "q \<noteq> 0 \<longrightarrow> (\<exists>m\<ge>unat n. (\<forall>k. \<not> live s q k) \<and> (\<forall>x k. live s' x k \<longleftrightarrow> live s x k \<and> x \<noteq> p \<or> x = q \<and> k = m)) \<and>
         (\<forall>i<min old (unat n). g_bytes s' (q + of_nat i) = g_bytes s (p + of_nat i)) \<and>
         (\<forall>x k i. live s x k \<longrightarrow> x \<noteq> p \<longrightarrow> i < k \<longrightarrow> g_bytes s' (x + of_nat i) = g_bytes s (x + of_nat i))" by auto
    show ?thesis
    proof (cases "q = 0")
      case True
      have "live s' = live s" using f True by (auto simp: fun_eq_iff)
      moreover have "agree B C (bytes_of s')" using sim_agree [OF sm] f True by blast
      moreover have "B p \<noteq> None" using Bp by simp
      ultimately show ?thesis using True sim_same [OF sm] by (blast intro: simulatedI spec_realloc_fails)
    next
      case nz: False
      with ok obtain m where m: "unat n \<le> m" "\<forall>k. \<not> live s q k" "\<forall>x k. live s' x k \<longleftrightarrow> live s x k \<and> x \<noteq> p \<or> x = q \<and> k = m" by auto
      let ?B = "B(p := None)"
      have qp: "q \<noteq> p" using m(2) freeable_live [OF fr] by auto
      have B: "?B x = Some k \<longleftrightarrow> live s x k \<and> x \<noteq> p" for x k using sm by (auto simp: sim_def)
      have mi: "mem_inv s'" using i by (simp add: ainv_def)
      have "apart q m x k" if "?B x = Some k" for x k
      proof -
        have "live s' q m" "live s' x k" "x \<noteq> q" using that m(2,3) B by auto
        then show ?thesis using live_disjoint [OF mi] by blast
      qed
      then have "unused ?B q m" using nz sim_None [OF sm m(2)] by (simp add: unused_def)
      moreover have "agree ?B C (bytes_of s')" using sm ok nz B by (auto simp: sim_def agree_def bytes_of_def)
      moreover have "\<forall>i<min old (unat n). bytes_of s' q i = C p i" using sm ok nz Bp by (simp add: sim_def bytes_of_def)
      moreover have "sim s' (?B(q \<mapsto> m)) (bytes_of s')" using m(2,3) B by (auto simp: sim_def bytes_of_def)
      ultimately show ?thesis using Bp qp m(1) by (blast intro: simulatedI spec_realloc_moves)
    qed
  qed
qed

lemma simulated_memalign:
  assumes sm: "sim s B C" and inv: "ainv s" and rd: "g_ready s" and al: "max 8 (unat al) = 2 ^ k" and rm: "roomy s (unat n + 2 ^ k + 4096)"
    and r: "posix_memalign os tid False al n s = Some (code, out, s')"
  shows "simulated B C (EvMemalign (2 ^ k) (unat n) out) s'"
proof -
  from posix_memalign_ok [OF inv rd al rm, of os tid] r have i: "mem_inv s'" "contents_kept s s'"
    and c: "(code = 0 \<and> (\<exists>q p m. out = Some q \<and> 2 ^ k dvd unat q \<and> live s' p m \<and> (\<forall>j. \<not> live s p j) \<and>
        unat p \<le> unat q \<and> unat q + unat n \<le> unat p + m \<and> (\<forall>x j. live s' x j \<longleftrightarrow> live s x j \<or> x = p \<and> j = m)) \<or>
     code = ENOMEM \<and> out = None \<and> (\<forall>x j. live s' x j \<longleftrightarrow> live s x j))" by (auto simp: ainv_def)
  note ag = sim_agree [OF sm i(2)]
  from c show ?thesis
  proof (elim disjE conjE exE)
    fix q p m assume q: "out = Some q" "2 ^ k dvd unat q" "live s' p m" "\<forall>j. \<not> live s p j" "unat p \<le> unat q" "unat q + unat n \<le> unat p + m"
      "\<forall>x j. live s' x j \<longleftrightarrow> live s x j \<or> x = p \<and> j = m"
    have "p \<noteq> 0" using live_region [OF i(1) q(3)] by auto
    from sim_new [OF sm i(1) this q(7,4)] show ?thesis unfolding q(1) using q ag by (blast intro: simulatedI spec_memalign)
  next
    assume "out = None" "\<forall>x j. live s' x j \<longleftrightarrow> live s x j"
    then have "out = None" "live s' = live s" by (auto simp: fun_eq_iff)
    then show ?thesis using ag sim_same [OF sm] by (blast intro: simulatedI spec_memalign_fails)
  qed
qed

lemma simulated_write:
  assumes sm: "sim s B C" and mi: "mem_inv s" and l: "live s p n" "i < n"
  shows "simulated B C (EvWrite p i v) (s\<lparr>g_bytes := (g_bytes s)(p + of_nat i := v)\<rparr>)"
proof -
  let ?f = "(g_bytes s)(p + of_nat i := v)" let ?s = "s\<lparr>g_bytes := (g_bytes s)(p + of_nat i := v)\<rparr>"
  have at: "q + of_nat j = p + of_nat i \<longleftrightarrow> q = p \<and> j = i" if q: "live s q m" "j < m" for q m j
  proof -
    have b: "unat p + n \<le> 2 ^ 56" "unat q + m \<le> 2 ^ 56" using live_bound mi l(1) q(1) by auto
    have "q + of_nat j = p + of_nat i \<longleftrightarrow> unat q + j = unat p + i"
      using b q(2) l(2) by (simp add: word_unat_eq_iff unat_add_of_nat)
    then show ?thesis using live_disjoint [OF mi q(1) l(1)] q(2) l(2) by (auto simp: apart_def)
  qed
  have Bp: "B p = Some n" and lv: "live ?s = live s" using sm l(1) heap.upd_blk by (auto simp: sim_def)
  have "bytes_of ?s q j = (C(p := (C p)(i := v))) q j" if "B q = Some m" "j < m" for q m j
  proof -
    have "live s q m" "C q j = g_bytes s (q + of_nat j)" using sm that by (auto simp: sim_def)
    then show ?thesis using at [OF _ that(2), of q] by (auto simp: bytes_of_def)
  qed
  then have "agree B (C(p := (C p)(i := v))) (bytes_of ?s)" unfolding agree_def by blast
  then show ?thesis using Bp l(2) sim_same [OF sm lv] by (blast intro: simulatedI spec_write)
qed

lemma simulated_read:
  assumes sm: "sim s B C" and l: "live s p n" "i < n"
  shows "simulated B C (EvRead p i (g_bytes s (p + of_nat i))) s"
proof -
  have "B p = Some n" "C p i = g_bytes s (p + of_nat i)" using sm l by (auto simp: sim_def)
  then show ?thesis using spec_read [of B p n i C] sm l(2) by (auto intro: simulatedI)
qed

lemma simulated_trim:
  assumes sm: "sim s B C" and inv: "ainv s" and r: "trim_round os s = Some s'"
  shows "simulated B C EvTrim s'"
proof -
  from trim_round_ok [OF inv, of os] r have t: "live s' = live s" "trim_kept s s'" by (auto simp: trim_step_def)
  have "\<forall>p n i. B p = Some n \<longrightarrow> page_fit n \<longrightarrow> i < n \<longrightarrow> bytes_of s' p i = C p i"
    using t(2) sm unfolding trim_kept_def page_fit_def sim_def bytes_of_def by simp
  then show ?thesis using sim_same [OF sm t(1)] by (blast intro: simulatedI spec_trim)
qed

lemma heap_call_simulated:
  assumes "heap_call os s e s'" "ainv s" "g_ready s" "sim s B C"
  shows "simulated B C e s'"
  using assms(1)
proof cases
  case (call_malloc n tid p)
  then show ?thesis using malloc_ok [OF assms(2,3) call_malloc(2), of os tid] simulated_malloc [OF assms(4)] by auto
next
  case (call_calloc nm sz tid p)
  then show ?thesis using calloc_ok [OF assms(2,3) call_calloc(2,3), of os tid] simulated_calloc [OF assms(4)] by auto
next
  case call_realloc
  then show ?thesis using simulated_realloc [OF assms(4,2,3)] by simp
next
  case call_memalign
  then show ?thesis using simulated_memalign [OF assms(4,2,3)] by simp
next
  case call_free
  then show ?thesis using simulated_free [OF assms(4,2)] by simp
next
  case call_write
  then show ?thesis using simulated_write [OF assms(4)] assms(2) by (simp add: ainv_def)
next
  case call_read
  then show ?thesis using simulated_read [OF assms(4)] by simp
next
  case call_trim
  then show ?thesis using simulated_trim [OF assms(4,2)] by simp
qed

section \<open>Refinement\<close>



end
