(* ===== verification/AllocLedger.thy ===== *)
theory AllocLedger
  imports BootFrame
begin

text \<open>
  The books of the allocator. It counts the bytes it has mapped and those it has given back
  (\<open>g_mapped\<close>, \<open>g_freed_to_os\<close>, printed on exit), and the blocks in use of every class (\<open>live_blocks\<close>). None of
  the counters is read by the code, so nothing in the other theories depends on them; here they are shown to agree
  with the memory. This theory has sums over maps, what the books depend on, the \<open>ledger\<close>, and the operations that do not touch it.
\<close>

section \<open>Sums over the entries of a map\<close>

definition msum :: "('b \<Rightarrow> nat) \<Rightarrow> ('a \<rightharpoonup> 'b) \<Rightarrow> nat" where
  "msum f m = (\<Sum>a\<in>dom m. f (the (m a)))"

lemma msum_empty [simp]: "msum f Map.empty = 0"
  by (simp add: msum_def)

lemma msum_drop:
  assumes "finite (dom m)" "m a = Some r"
  shows "msum f m = f r + msum f (m(a := None))"
proof -
  have "a \<in> dom m" using assms(2) by blast
  from sum.remove [OF assms(1) this, of "\<lambda>a. f (the (m a))"] show ?thesis
    using assms(2) by (simp add: msum_def)
qed

lemma msum_new:
  assumes "finite (dom m)" "m a = None"
  shows "msum f (m(a \<mapsto> r)) = f r + msum f m"
proof -
  have "m(a := None) = m" using assms(2) by auto
  then show ?thesis using msum_drop [of "m(a \<mapsto> r)" a r f] assms(1) by simp
qed

lemma msum_replace:
  assumes "finite (dom m)" "m a = Some r"
  shows "msum f (m(a \<mapsto> r')) + f r = msum f m + f r'"
  using msum_drop [OF assms, of f] msum_drop [of "m(a \<mapsto> r')" a r' f] assms(1) by simp

lemma msum_cong:
  assumes "\<And>a. map_option f (m a) = map_option f (m' a)"
  shows "msum f m = msum f m'"
proof -
  have d: "dom m = dom m'" using assms by (metis (mono_tags) domIff map_option_is_None subsetI subset_antisym)
  have "f (the (m a)) = f (the (m' a))" if "a \<in> dom m'" for a
    using assms [of a] that d by (cases "m a"; cases "m' a") auto
  then show ?thesis unfolding msum_def d by (intro sum.cong) simp_all
qed

lemma dom_map_option:
  assumes "\<And>a. map_option f (m a) = map_option f (m' a)"
  shows "dom m = dom m'"
  using assms by (metis (mono_tags) domIff map_option_is_None subsetI subset_antisym)

section \<open>The ledger\<close>

text \<open>What the books depend on: of a run its class and its count of used blocks, of a large block its size, the
  mapped addresses, and the counters.\<close>

definition run_entry :: "run \<Rightarrow> u32 \<times> u32" where
  "run_entry r = (r_cls r, r_used r)"

definition ledger :: "alloc \<Rightarrow> (u64 \<Rightarrow> (u32 \<times> u32) option) \<times> (u64 \<Rightarrow> u64 option) \<times> (u64 \<Rightarrow> bool) \<times> (u64 \<times> u64) \<times> u64 list" where
  "ledger s = (\<lambda>a. map_option run_entry (g_runs s a), \<lambda>a. map_option l_map_size (g_larges s a), g_acc s,
     (g_mapped s, g_freed_to_os s), map cs_live_blocks (g_cls s))"

lemma ledger_updates [simp]:
  "ledger (s\<lparr>g_bytes := b\<rparr>) = ledger s" "ledger (s\<lparr>g_purged := n\<rparr>) = ledger s" "ledger (s\<lparr>tls := t\<rparr>) = ledger s"
  "ledger (s\<lparr>ticks := k\<rparr>) = ledger s" "ledger (s\<lparr>calls := k\<rparr>) = ledger s" "ledger (s\<lparr>libc_log := l\<rparr>) = ledger s"
  "ledger (s\<lparr>g_enomem := e\<rparr>) = ledger s" "ledger (s\<lparr>g_res_bump := n\<rparr>) = ledger s"
  by (simp_all add: ledger_def)

lemma ledger_put_run: "map_option run_entry (g_runs s a) = Some (run_entry r) \<Longrightarrow> ledger (put_run a r s) = ledger s"
  by (auto simp: ledger_def put_run_def fun_eq_iff)

lemma live_counts_head: "map cs_live_blocks (xs[c := (xs ! c)\<lparr>cs_head := h\<rparr>]) = map cs_live_blocks xs"
  by (cases "c < length xs") (auto intro!: nth_equalityI simp: nth_list_update)

lemma ledger_now: "now_ms os s = (t, s') \<Longrightarrow> ledger s' = ledger s"
  by (auto simp: now_ms_def split: prod.splits)

lemma run_entry_core: "map_option core x = map_option core y \<Longrightarrow> map_option run_entry x = map_option run_entry y"
  using core_fields(2,4) [of "the x" "the y"] by (cases x; cases y) (simp_all add: run_entry_def)

lemma ledger_list_step:
  assumes "list_step c A s s'"
  shows "ledger s' = ledger s"
proof -
  have "map_option run_entry (g_runs s' a) = map_option run_entry (g_runs s a)" for a
    using list_step_fields(9) [OF assms] by (intro run_entry_core) (simp add: same_core_def)
  moreover have "map cs_live_blocks (g_cls s') = map cs_live_blocks (g_cls s)"
    using assms live_counts_head unfolding list_step_def by auto
  ultimately show ?thesis using list_step_fields(1,2,19,20) [OF assms] by (simp add: ledger_def)
qed

lemma ledger_set_head [simp]: "ledger (set_head c a s) = ledger s"
  by (simp add: ledger_def set_head_def live_counts_head)

lemma ledger_run_insert: "run_insert c a s = Some s' \<Longrightarrow> ledger s' = ledger s"
  by (auto simp: run_insert_def Let_def run_entry_def ledger_put_run split: if_splits bind_splits)

lemma ledger_run_remove: "run_remove c a s = Some s' \<Longrightarrow> ledger s' = ledger s"
  by (auto simp: run_remove_def Let_def run_entry_def ledger_put_run split: if_splits bind_splits)

lemma ledger_memset: "memset0 p n s = Some s' \<Longrightarrow> ledger s' = ledger s"
  by (auto simp: memset0_def zero_range_def split: if_splits)

lemma ledger_memcpy: "memcpy p q n s = Some s' \<Longrightarrow> ledger s' = ledger s"
  by (auto simp: memcpy_def copy_range_def split: if_splits)

lemma ledger_purge_pages: "ledger (purge_pages r d n off s) = ledger s"
  by (induction r d n off s rule: purge_pages.induct)
    (subst purge_pages.simps, auto simp: Let_def zero_range_def)

section \<open>The books\<close>

text \<open>The bytes of all runs and large blocks, and the blocks in use of a class.\<close>

definition held_bytes :: "alloc \<Rightarrow> nat" where
  "held_bytes s = msum (\<lambda>r. map_n (unat (r_cls r))) (g_runs s) + msum (\<lambda>h. unat (l_map_size h)) (g_larges s)"

definition used_count :: "alloc \<Rightarrow> nat \<Rightarrow> nat" where
  "used_count s c = msum (\<lambda>r. if unat (r_cls r) = c + 1 then unat (r_used r) else 0) (g_runs s)"

definition in_region :: "alloc \<Rightarrow> u64 \<Rightarrow> bool" where
  "in_region s x \<longleftrightarrow> (\<exists>a n. region s a n \<and> unat a \<le> unat x \<and> unat x < unat a + n)"

definition books :: "alloc \<Rightarrow> bool" where
  "books s \<longleftrightarrow> finite (dom (g_runs s)) \<and> finite (dom (g_larges s)) \<and> (\<forall>x. g_acc s x \<longrightarrow> in_region s x) \<and>
     g_mapped s = g_freed_to_os s + of_nat (held_bytes s) \<and>
     (\<forall>c<68. map cs_live_blocks (g_cls s) ! c = of_nat (used_count s c))"

lemma in_region_cong:
  assumes "\<And>a. map_option r_cls (g_runs s' a) = map_option r_cls (g_runs s a)"
    "\<And>a. map_option l_map_size (g_larges s' a) = map_option l_map_size (g_larges s a)"
  shows "in_region s' = in_region s"
proof -
  have "region s' a n \<longleftrightarrow> region s a n" for a n
    using assms [of a] unfolding region_def
    by (cases "g_runs s a"; cases "g_runs s' a"; cases "g_larges s a"; cases "g_larges s' a") auto
  then show ?thesis by (simp add: in_region_def fun_eq_iff)
qed

lemma map_option_factor:
  assumes "\<And>r. f r = g (h r)" "map_option h x = map_option h y"
  shows "map_option f x = map_option f y"
  using assms by (cases x; cases y) auto

lemma books_cong:
  assumes "ledger s' = ledger s"
  shows "books s' \<longleftrightarrow> books s"
proof -
  have f: "map_option run_entry (g_runs s' a) = map_option run_entry (g_runs s a)"
    "map_option l_map_size (g_larges s' a) = map_option l_map_size (g_larges s a)"
    "g_acc s' = g_acc s" "g_mapped s' = g_mapped s" "g_freed_to_os s' = g_freed_to_os s"
    "map cs_live_blocks (g_cls s') = map cs_live_blocks (g_cls s)" for a
    using assms unfolding ledger_def by (simp_all add: fun_eq_iff)
  have d: "dom (g_runs s') = dom (g_runs s)" "dom (g_larges s') = dom (g_larges s)"
    by (rule dom_map_option, rule f(1)) (rule dom_map_option, rule f(2))
  have m: "msum (\<lambda>r. F (r_cls r) (r_used r)) (g_runs s') = msum (\<lambda>r. F (r_cls r) (r_used r)) (g_runs s)" for F
    by (rule msum_cong) (rule map_option_factor [OF _ f(1), where g = "\<lambda>(x, y). F x y"], simp add: run_entry_def)
  have l: "msum (\<lambda>h. unat (l_map_size h)) (g_larges s') = msum (\<lambda>h. unat (l_map_size h)) (g_larges s)"
    by (rule msum_cong) (rule map_option_factor [OF _ f(2)], simp)
  have r: "in_region s' = in_region s"
    by (rule in_region_cong [OF map_option_factor [OF _ f(1), where g = fst] f(2)]) (simp add: run_entry_def)
  show ?thesis
    unfolding books_def d r f(3-6) held_bytes_def used_count_def l
    using m [of "\<lambda>c u. map_n (unat c)"] m [of "\<lambda>k u. if unat k = c + 1 then unat u else 0" for c] by simp
qed

end
