(* ===== verification/AllocBooks.thy ===== *)
theory AllocBooks
  imports AllocLedger
begin

text \<open>
  Every operation of the allocator keeps the books: taking and giving back a block, a new run or large
  block, the release of a run, and with them the entry points and the rounds of the background thread.
\<close>

section \<open>Blocks\<close>

text \<open>One block of a run taken or given back, with the counter of its class.\<close>

lemma books_block:
  assumes b: "books s" and r: "g_runs s a = Some r" "unat (r_cls r) = c + 1" "c < 68" "length (g_cls s) = 68"
    and s': "g_runs s' = (g_runs s)(a \<mapsto> r')" "r_cls r' = r_cls r" "g_larges s' = g_larges s" "g_acc s' = g_acc s"
      "g_mapped s' = g_mapped s" "g_freed_to_os s' = g_freed_to_os s"
      "map cs_live_blocks (g_cls s') = (map cs_live_blocks (g_cls s))[c := cs_live_blocks (g_cls s ! c) + d]"
    and used: "of_nat (unat (r_used r')) = of_nat (unat (r_used r)) + d"
  shows "books s'"
proof -
  have fin: "finite (dom (g_runs s))" using b by (simp add: books_def)
  note rep = msum_replace [OF fin r(1), of _ r']
  have h: "held_bytes s' = held_bytes s"
    using rep [of "\<lambda>r. map_n (unat (r_cls r))"] s'(1-3) by (simp add: held_bytes_def)
  have i: "in_region s' = in_region s"
    by (rule in_region_cong) (simp_all add: r(1) s'(1-3))
  have "map cs_live_blocks (g_cls s') ! e = of_nat (used_count s' e)" if e: "e < 68" for e
  proof -
    have u: "used_count s' e + (if e = c then unat (r_used r) else 0) = used_count s e + (if e = c then unat (r_used r') else 0)"
      using rep [of "\<lambda>r. if unat (r_cls r) = e + 1 then unat (r_used r) else 0"]
      unfolding used_count_def s'(1,2) r(2) by (simp only: add_right_cancel eq_commute [of c e])
    have l: "map cs_live_blocks (g_cls s) ! e = of_nat (used_count s e)" using b e by (simp add: books_def)
    show ?thesis
    proof (cases "e = c")
      case True
      have "used_count s' e + unat (r_used r) = used_count s e + unat (r_used r')" using u True by simp
      then have "(of_nat (used_count s' e + unat (r_used r)) :: u64) = of_nat (used_count s e + unat (r_used r'))" by (rule arg_cong)
      then have "(of_nat (used_count s' e) :: u64) + of_nat (unat (r_used r)) = of_nat (used_count s e) + of_nat (unat (r_used r'))"
        unfolding of_nat_add .
      then have "(of_nat (used_count s' e) :: u64) = of_nat (used_count s e) + d" using used by (simp add: algebra_simps)
      then show ?thesis using True l r(3,4) s'(7) by simp
    next
      case False
      then show ?thesis using u l s'(7) by simp
    qed
  qed
  moreover have "finite (dom (g_runs s'))" using fin by (simp add: s'(1))
  ultimately show ?thesis using b unfolding books_def h i s'(3-6) by blast
qed

lemma live_counts_add:
  "map cs_live_blocks (g_cls (add_live c d s)) = (map cs_live_blocks (g_cls s))[c := cs_live_blocks (g_cls s ! c) + d]"
  by (simp add: add_live_def map_update)

lemma run_take_counts:
  assumes "run_take os a s = Some (p, s')" "g_runs s a = Some r" "take_block r = Some (k, r1)"
  shows "g_mapped s' = g_mapped s" "g_freed_to_os s' = g_freed_to_os s"
    "map cs_live_blocks (g_cls s') = (map cs_live_blocks (g_cls s))[unat (r_cls r) - 1 := cs_live_blocks (g_cls s ! (unat (r_cls r) - 1)) + 1]"
  using assms by (auto simp: run_take_def Let_def put_run_def now_ms_def live_counts_add split: prod.splits)
    (auto simp: add_live_def)

lemma run_give_counts:
  assumes "run_give os a p s = Some s'" "g_runs s a = Some r"
  shows "g_mapped s' = g_mapped s" "g_freed_to_os s' = g_freed_to_os s"
    "map cs_live_blocks (g_cls s') = (map cs_live_blocks (g_cls s))[unat (r_cls r) - 1 := cs_live_blocks (g_cls s ! (unat (r_cls r) - 1)) + - 1]"
  using assms by (auto simp: run_give_def Let_def put_run_def now_ms_def live_counts_add split: prod.splits if_splits)
    (auto simp: add_live_def)

lemma run_cls_index:
  assumes "ainv s" "g_runs s a = Some r"
  shows "\<exists>c<68. unat (r_cls r) = c + 1" "length (g_cls s) = 68"
  using run_facts(1) [of s a r] mem_invD(2) [of s] assms
  by (auto simp: ainv_def intro!: exI [of _ "unat (r_cls r) - 1"])

lemma used_plus_free: "ainv s \<Longrightarrow> g_runs s a = Some r \<Longrightarrow> unat (r_used r) + card (free_set r) = unat (r_elems r)"
  using run_facts(3) [of s a r] by (simp add: ainv_def bm_ok_def)

lemma books_take:
  assumes b: "books s" and inv: "ainv s" and r: "g_runs s a = Some r" "free_set r \<noteq> {}"
    and t: "run_take os a s = Some (p, s')"
  shows "books s'"
proof -
  from run_take_ok [OF inv r, of os] t obtain i r' where k: "i \<in> free_set r" "g_runs s' = (g_runs s)(a \<mapsto> r')"
    "r_cls r' = r_cls r" "r_elems r' = r_elems r" "free_set r' = free_set r - {i}" "quiet s s'" "ainv s'" by auto
  obtain idx r1 where tb: "take_block r = Some (idx, r1)"
    using take_block_None [OF run_facts(3) [OF _ r(1)]] inv r(2) by (cases "take_block r") (auto simp: ainv_def)
  note c = run_take_counts [OF t r(1) tb]
  obtain e where e: "e < 68" "unat (r_cls r) = e + 1" "length (g_cls s) = 68" using run_cls_index [OF inv r(1)] by blast
  have "card (free_set r) = card (free_set r') + 1" using card.remove [OF finite_free_set k(1)] k(5) by simp
  then have "unat (r_used r') = unat (r_used r) + 1"
    using used_plus_free [OF inv r(1)] used_plus_free [OF k(7), of a r'] k(2,4) by simp
  then have u: "(of_nat (unat (r_used r')) :: u64) = of_nat (unat (r_used r)) + 1" by simp
  have q: "g_larges s' = g_larges s" "g_acc s' = g_acc s" using k(6) by (simp_all add: quiet_def)
  show ?thesis using books_block [OF b r(1) e(2,1,3) k(2,3) q c(1,2) _ u] c(3) e(2) by simp
qed

lemma books_give:
  assumes b: "books s" and inv: "ainv s" and r: "g_runs s a = Some r" "used_blk r i"
    and g: "run_give os a (blk_addr (unat (r_cls r)) a i) s = Some s'"
  shows "books s'"
proof -
  from run_give_ok [OF inv r, of os] g obtain r' where k: "g_runs s' = (g_runs s)(a \<mapsto> r')"
    "r_cls r' = r_cls r" "r_elems r' = r_elems r" "free_set r' = insert i (free_set r)" "quiet s s'" "ainv s'" by auto
  note c = run_give_counts [OF g r(1)]
  obtain e where e: "e < 68" "unat (r_cls r) = e + 1" "length (g_cls s) = 68" using run_cls_index [OF inv r(1)] by blast
  have "card (free_set r') = card (free_set r) + 1" using k(4) r(2) by (simp add: used_blk_def)
  then have "unat (r_used r) = unat (r_used r') + 1"
    using used_plus_free [OF inv r(1)] used_plus_free [OF k(6), of a r'] k(1,3) by simp
  then have u: "(of_nat (unat (r_used r')) :: u64) = of_nat (unat (r_used r)) + - 1" by simp
  have q: "g_larges s' = g_larges s" "g_acc s' = g_acc s" using k(5) by (simp_all add: quiet_def)
  show ?thesis using books_block [OF b r(1) e(2,1,3) k(1,2) q c(1,2) _ u] c(3) e(2) by simp
qed

section \<open>Growing\<close>

lemma reserve_map_books:
  assumes inv: "ainv s" and nw: "no_wrap s sz (2 ^ k)" and k: "k < 64" and sz: "24 \<le> unat sz"
    and rm: "reserve_map os sz (2 ^ k) s = (p, s1)"
  shows "p = 0 \<Longrightarrow> ledger s1 = ledger s"
    "p \<noteq> 0 \<Longrightarrow> g_runs s p = None \<and> g_larges s p = None \<and> g_mapped s1 = g_mapped s \<and> g_freed_to_os s1 = g_freed_to_os s \<and>
       g_cls s1 = g_cls s \<and> (\<forall>x. g_acc s1 x \<longrightarrow> g_acc s x \<or> (unat p \<le> unat x \<and> unat x < unat p + unat sz))"
proof -
  have nz: "sz \<noteq> 0" using sz by auto
  have mi: "mem_inv s" using inv by (simp add: ainv_def)
  note c = reserve_map_cases [OF mem_invD(1) [OF mi] nw k nz rm]
  show "ledger s1 = ledger s" if z: "p = 0"
  proof -
    obtain n where "s1 = s\<lparr>g_res_bump := g_res_bump s1, calls := n\<rparr>" using c(3) [OF z] by blast
    then have "ledger s1 = ledger (s\<lparr>g_res_bump := g_res_bump s1, calls := n\<rparr>)" by (rule arg_cong)
    then show ?thesis by simp
  qed
  assume z: "p \<noteq> 0"
  obtain n where n: "s1 = map_range p sz (s\<lparr>g_res_bump := g_res_bump s1, calls := n\<rparr>)" "unat p + unat sz \<le> unat (g_res_end s)"
    using c(2) [OF z] by blast
  have bd: "unat p + unat sz < 2 ^ 64" using n(2) mem_invD(1) [OF mi] by (simp add: res_ok_def)
  have f: "g_mapped s1 = g_mapped s" "g_freed_to_os s1 = g_freed_to_os s" "g_cls s1 = g_cls s"
    "g_acc s1 x \<Longrightarrow> in_range p sz x \<or> g_acc s x" for x
    by (subst n(1), simp add: map_range_def) (subst n(1), simp add: map_range_def, subst n(1), simp add: map_range_def,
      subst (asm) n(1), simp add: map_range_def)
  note m = reserve_map_ok [OF inv nw k nz rm]
  have "mem_inv s1" using m(1) by (simp add: ainv_def)
  from fresh_no_header(1,2) [OF this fresh_piece_mapped [OF inv nw k sz rm z]] m(4,5)
  show "g_runs s p = None \<and> g_larges s p = None \<and> g_mapped s1 = g_mapped s \<and> g_freed_to_os s1 = g_freed_to_os s \<and>
       g_cls s1 = g_cls s \<and> (\<forall>x. g_acc s1 x \<longrightarrow> g_acc s x \<or> (unat p \<le> unat x \<and> unat x < unat p + unat sz))"
    using f in_range_iff [OF bd] by auto
qed

text \<open>A new region of \<open>n\<close> bytes at \<open>p\<close>, counted in \<open>g_mapped\<close>.\<close>

lemma books_add:
  assumes b: "books s" and new: "g_runs s p = None" "g_larges s p = None"
    and hdr: "(\<exists>r. g_runs s' = (g_runs s)(p \<mapsto> r) \<and> map_n (unat (r_cls r)) = unat sz \<and> r_used r = 0 \<and> g_larges s' = g_larges s) \<or>
              (\<exists>h. g_larges s' = (g_larges s)(p \<mapsto> h) \<and> l_map_size h = sz \<and> g_runs s' = g_runs s)"
    and acc: "\<And>x. g_acc s' x \<Longrightarrow> g_acc s x \<or> (unat p \<le> unat x \<and> unat x < unat p + unat sz)"
    and cnt: "g_mapped s' = g_mapped s + sz" "g_freed_to_os s' = g_freed_to_os s" "map cs_live_blocks (g_cls s') = map cs_live_blocks (g_cls s)"
  shows "books s'"
proof -
  have fin: "finite (dom (g_runs s))" "finite (dom (g_larges s))" using b by (simp_all add: books_def)
  have sizes: "held_bytes s' = held_bytes s + unat sz" "used_count s' c = used_count s c"
    "finite (dom (g_runs s'))" "finite (dom (g_larges s'))" for c
    using hdr msum_new [OF fin(1) new(1)] msum_new [OF fin(2) new(2)] fin
    by (auto simp: held_bytes_def used_count_def)
  have reg: "region s a n \<Longrightarrow> region s' a n" "region s' p (unat sz)" for a n
    using hdr new unfolding region_def by (metis fun_upd_apply option.distinct(1) option.inject)+
  have "in_region s' x" if x: "g_acc s' x" for x
  proof -
    consider "in_region s x" | "unat p \<le> unat x" "unat x < unat p + unat sz" using acc [OF x] b unfolding books_def by blast
    then show ?thesis using reg by cases (auto simp: in_region_def)
  qed
  moreover have "g_mapped s' = g_freed_to_os s' + of_nat (held_bytes s')"
    using b unfolding books_def cnt sizes by simp
  ultimately show ?thesis using b sizes unfolding books_def cnt by simp
qed

lemma books_run_new:
  assumes b: "books s" and inv: "ainv s" and c: "class_ok c" and nw: "no_wrap s (run_msize c) kRunSize"
    and r: "run_new os c s = Some (a, s')"
  shows "books s'"
proof -
  obtain a1 s1 where rm: "reserve_map os (run_msize c) (2 ^ 21) s = (a1, s1)" by fastforce
  have nw': "no_wrap s (run_msize c) (2 ^ 21)" using nw unfolding two_pow_21 .
  have msz: "unat (run_msize c) = map_n c" "24 \<le> unat (run_msize c)"
    using unat_run_msize [OF c] map_n_bounds(5) [OF c] by simp_all
  have nz: "run_msize c \<noteq> 0" using msz(2) by auto
  note m = reserve_map_books [OF inv nw' _ msz(2) rm, simplified]
  have unf: "run_new os c s = (if a1 = 0 then Some (0, s1) else if \<not> g_acc s1 a1 then None
     else let (t, s2) = now_ms os s1; s3 = put_run a1 (new_run c t) s2;
          s4 = s3\<lparr>g_mapped := g_mapped s3 + run_msize c\<rparr>
       in do { s5 \<leftarrow> run_insert (c - 1) a1 s4; Some (a1, s5) })"
    using rm reserve_start_nz [OF inv]
    unfolding run_new_def Let_def run_msize_def [symmetric] two_pow_21 new_run_def [symmetric] by simp
  show ?thesis
  proof (cases "a1 = 0")
    case True
    then have "s' = s1" using r unf by simp
    then show ?thesis using b books_cong [OF m(1) [OF True]] by simp
  next
    case False
    obtain t s2 where n: "now_ms os s1 = (t, s2)" by fastforce
    define s4 where "s4 = (put_run a1 (new_run c t) s2)\<lparr>g_mapped := g_mapped (put_run a1 (new_run c t) s2) + run_msize c\<rparr>"
    have ins: "run_insert (c - 1) a1 s4 = Some s'"
      using r unf False n by (auto simp: Let_def s4_def split: if_splits bind_splits)
    have f: "g_runs s2 = g_runs s" "g_larges s2 = g_larges s" "g_acc s2 = g_acc s1" "g_mapped s2 = g_mapped s1"
      "g_freed_to_os s2 = g_freed_to_os s1" "g_cls s2 = g_cls s1"
      using n reserve_map_ok(4,5) [OF inv nw' _ nz rm] by (auto simp: now_ms_def split: prod.splits)
    have s4: "g_runs s4 = (g_runs s)(a1 \<mapsto> new_run c t)" "g_larges s4 = g_larges s" "g_acc s4 = g_acc s1"
      "g_mapped s4 = g_mapped s + run_msize c" "g_freed_to_os s4 = g_freed_to_os s" "g_cls s4 = g_cls s"
      using m(2) [OF False] f by (simp_all add: s4_def put_run_def)
    have e: "map_n (unat (r_cls (new_run c t))) = unat (run_msize c)" "r_used (new_run c t) = 0"
      using run_staticD(3) [OF new_run_ok(1) [OF c, of t]] msz by (simp_all add: new_run_def)
    note k = m(2) [OF False]
    have "(\<exists>r. g_runs s4 = (g_runs s)(a1 \<mapsto> r) \<and> map_n (unat (r_cls r)) = unat (run_msize c) \<and> r_used r = 0 \<and> g_larges s4 = g_larges s) \<or>
        (\<exists>h. g_larges s4 = (g_larges s)(a1 \<mapsto> h) \<and> l_map_size h = run_msize c \<and> g_runs s4 = g_runs s)"
      using s4(1,2) e by blast
    from books_add [OF b _ _ this] have "books s4" using k s4(3-6) by simp
    then show ?thesis using books_cong [OF ledger_run_insert [OF ins]] by simp
  qed
qed

lemma books_malloc_large:
  assumes b: "books s" and inv: "ainv s" and nw: "unat (g_res_bump s) + unat n + 2 ^ 23 < 2 ^ 64"
    and r: "malloc_large os n s = Some (p, s')"
  shows "books s'"
proof -
  have nb: "unat n + 4119 < 2 ^ 64" using nw by simp
  note ms = unat_large_msize [OF nb]
  obtain a s1 where rm: "reserve_map os (large_msize n) (2 ^ 12) s = (a, s1)" by fastforce
  have nw': "no_wrap s (large_msize n) (2 ^ 12)" using nw ms by (simp add: no_wrap_def)
  have sz: "24 \<le> unat (large_msize n)" using ms(2) by simp
  note m = reserve_map_books [OF inv nw' _ sz rm, simplified]
  let ?h = "\<lparr>l_magic = kMagicLarge, l_pad = 0, l_map_size = large_msize n, l_user = n\<rparr>"
  have unf: "malloc_large os n s = (if a = 0 then Some (0, s1) else if \<not> g_acc s1 a then None
     else let s2 = put_large a ?h s1; s3 = s2\<lparr>g_mapped := g_mapped s2 + large_msize n\<rparr> in Some (a + sizeof_LargeHdr, s3))"
    using rm reserve_start_nz [OF inv]
    unfolding malloc_large_def Let_def large_msize_def [symmetric] two_pow_12 by simp
  show ?thesis
  proof (cases "a = 0")
    case True
    then have "s' = s1" using r unf by simp
    then show ?thesis using b books_cong [OF m(1) [OF True]] by simp
  next
    case False
    then have s': "s' = (put_large a ?h s1)\<lparr>g_mapped := g_mapped (put_large a ?h s1) + large_msize n\<rparr>"
      using r unf by (auto simp: Let_def split: if_splits)
    have "large_msize n \<noteq> 0" using sz by auto
    note g = reserve_map_ok(4,5) [OF inv nw' _ this rm]
    have f: "g_larges s' = (g_larges s)(a \<mapsto> ?h)" "g_runs s' = g_runs s" "g_acc s' = g_acc s1" "g_mapped s' = g_mapped s + large_msize n"
      "g_freed_to_os s' = g_freed_to_os s" "g_cls s' = g_cls s"
      using m(2) [OF False] g by (simp_all add: s' put_large_def)
    have "(\<exists>r. g_runs s' = (g_runs s)(a \<mapsto> r) \<and> map_n (unat (r_cls r)) = unat (large_msize n) \<and> r_used r = 0 \<and> g_larges s' = g_larges s) \<or>
        (\<exists>h. g_larges s' = (g_larges s)(a \<mapsto> h) \<and> l_map_size h = large_msize n \<and> g_runs s' = g_runs s)"
      using f(1,2) by (intro disjI2 exI [of _ ?h]) simp
    from books_add [OF b _ _ this] show ?thesis using m(2) [OF False] f(3-6) by simp
  qed
qed

section \<open>malloc and its clients\<close>

lemma books_malloc_run:
  assumes b: "books s" and inv: "ainv s" and c: "c < 68" and nw: "unat (g_res_bump s) + 2 ^ 23 < 2 ^ 64"
    and m: "malloc_run os c s = Some (p, s')"
  shows "books s'"
proof -
  from find_run_ok [OF inv c] obtain a where a: "find_run s (class_head s c) = Some a"
    "a = 0 \<or> (\<exists>r. g_runs s a = Some r \<and> unat (r_cls r) = c + 1 \<and> free_set r \<noteq> {} \<and> a \<noteq> 0)" by blast
  show ?thesis
  proof (cases "a = 0")
    case False
    with a(2) obtain r where r: "g_runs s a = Some r" "free_set r \<noteq> {}" by blast
    have "run_take os a s = Some (p, s')" using m a(1) False by (simp add: malloc_run_def)
    then show ?thesis by (rule books_take [OF b inv r])
  next
    case True
    have co: "class_ok (c + 1)" using c by simp
    have nw': "no_wrap s (run_msize (c + 1)) kRunSize"
      using nw unat_run_msize [OF co] map_n_bounds(3) [OF co] by (simp add: no_wrap_def kRunSize_eq)
    from run_new_ok [OF inv co nw', of os] obtain d s1 where n: "run_new os (c + 1) s = Some (d, s1)" "ainv s1"
      "d \<noteq> 0 \<longrightarrow> (\<exists>r. g_runs s1 d = Some r \<and> unat (r_cls r) = c + 1 \<and> free_set r \<noteq> {})" by blast
    have b1: "books s1" by (rule books_run_new [OF b inv co nw' n(1)])
    have m': "(if d \<noteq> 0 then run_take os d s1 else Some (0, s1)) = Some (p, s')"
      using m a(1) True n(1) by (simp add: malloc_run_def)
    show ?thesis
    proof (cases "d = 0")
      case True
      then show ?thesis using m' b1 by simp
    next
      case False
      with n(3) obtain r where r: "g_runs s1 d = Some r" "free_set r \<noteq> {}" by blast
      have "run_take os d s1 = Some (p, s')" using m' False by simp
      then show ?thesis by (rule books_take [OF b1 n(2) r])
    qed
  qed
qed

lemma books_malloc:
  assumes b: "books s" and inv: "ainv s" and rd: "g_ready s" and nw: "roomy s (unat n)"
    and m: "malloc os tid n s = Some (p, s')"
  shows "books s'"
proof -
  define n' where "n' = (if n = 0 then 1 else n)"
  have u: "unat n' = max 1 (unat n)" using unat_gt_0 [of n] by (auto simp: n'_def)
  have nw': "unat (g_res_bump s) + unat n' + 2 ^ 23 < 2 ^ 64" using nw by (simp add: u roomy_def)
  have m': "malloc_ready os tid n' s = Some (p, s')" using m rd unfolding malloc_def n'_def [symmetric] Let_def by simp
  show ?thesis
  proof (cases "kLargeMin \<le> n'")
    case True
    then have "malloc_large os n' s = Some (p, s')" using m' by (simp add: malloc_ready_def)
    then show ?thesis by (rule books_malloc_large [OF b inv nw'])
  next
    case False
    then have lt: "n' < kLargeMin" by simp
    have c: "class_of n' - 1 < 68" using class_of_small(1,2) [OF lt] by simp
    have "unat (g_res_bump s) + 2 ^ 23 < 2 ^ 64" using nw' by simp
    moreover have "malloc_run os (class_of n' - 1) s = Some (p, s')"
      using m' False ainv_tc_None [OF inv] by (simp add: malloc_ready_def)
    ultimately show ?thesis using books_malloc_run [OF b inv c] by blast
  qed
qed

lemma books_free:
  assumes b: "books s" and inv: "ainv s" and fr: "freeable s p n" and f: "free os tid p s = Some s'"
  shows "books s'"
proof -
  obtain a r i where r: "g_runs s a = Some r" "used_blk r i" "reachable_blk (unat (r_cls r)) i"
    and p: "p = blk_addr (unat (r_cls r)) a i" using fr unfolding freeable_def by blast
  have mi: "mem_inv s" using inv by (simp add: ainv_def)
  have i: "i < elems_n (unat (r_cls r))" using used_blk_lt r(2) ainv_runs [OF inv r(1)] by blast
  note os = ours_small_reachable [OF mi r(1) i r(3), folded p]
  have "p \<noteq> 0" unfolding p by (rule blk_addr_nz [OF inv r(1) i])
  moreover have "in_reserve s p" unfolding p by (rule blk_in_reserve [OF mi r(1) i])
  ultimately have "run_give os a (blk_addr (unat (r_cls r)) a i) s = Some s'"
    using os f ainv_tc_None [OF inv] by (simp add: free_def free_small_def Let_def p)
  then show ?thesis by (rule books_give [OF b inv r(1,2)])
qed

lemma books_calloc:
  assumes b: "books s" and inv: "ainv s" and rd: "g_ready s" and nw: "unat nm * unat sz < 2 ^ 64" "roomy s (unat nm * unat sz)"
    and c: "calloc os tid nm sz s = Some (p, s')"
  shows "books s'"
proof -
  have u: "unat (nm * sz) = unat nm * unat sz" using nw(1) by (intro unat_mult_no_wrap) simp
  obtain q s1 where m: "malloc os tid (nm * sz) s = Some (q, s1)" and s': "s' = s1 \<or> memset0 q (nm * sz) s1 = Some s'"
    using c nw(1) by (auto simp: calloc_def split: if_splits bind_splits)
  have "roomy s (unat (nm * sz))" using nw(2) u by simp
  then have "books s1" by (rule books_malloc [OF b inv rd _ m])
  then show ?thesis using s' books_cong [OF ledger_memset] by blast
qed

lemma books_realloc:
  assumes b: "books s" and inv: "ainv s" and rd: "g_ready s" and fr: "freeable s p old" and n: "0 < unat n" "roomy s (unat n)"
    and r: "realloc os tid p n s = Some (q, s')"
  shows "books s'"
proof -
  obtain o' where o': "realloc_lookup p s = Some (o', True)" "unat o' = old" using realloc_lookup_ok(1) [OF inv fr] by blast
  have nz: "n \<noteq> 0" "p \<noteq> 0" using n(1) realloc_lookup_ok(2) [OF inv fr] by auto
  note r' = r [unfolded realloc_cases [OF nz(2,1) o'(1) TrueI]]
  show ?thesis
  proof (cases "n \<le> o' \<and> o' < kLargeMin \<and> n > o' div 2")
    case True
    then show ?thesis using r' b by simp
  next
    case False
    from malloc_ok [OF inv rd n(2), of os tid] obtain np s1 where
      m: "malloc os tid n s = Some (np, s1)" "alloc_result s (max 1 (unat n)) np s1" by auto
    have b1: "books s1" by (rule books_malloc [OF b inv rd n(2) m(1)])
    show ?thesis
    proof (cases "np = 0")
      case True
      then have "s' = s1" using r' False m(1) by auto
      then show ?thesis using b1 by simp
    next
      case nz: False
      obtain s2 where s2: "memcpy np p (if o' < n then o' else n) s1 = Some s2" "free os tid p s2 = Some s'"
        using r' [unfolded if_not_P [OF False]] m(1) nz by (auto split: bind_splits)
      have s2': "s2 = s1\<lparr>g_bytes := g_bytes s2\<rparr>" using s2(1) by (auto simp: memcpy_def copy_range_def split: if_splits)
      have "ainv s1" "runs_kept s s1" using m(2) by (simp_all add: alloc_result_def)
      moreover have "g_runs s2 = g_runs s1" by (subst s2') simp
      ultimately have "ainv s2" "freeable s2 p old"
        using ainv_bytes [of "g_bytes s2" s1] s2' freeable_kept [OF _ fr] by (auto simp: freeable_def)
      moreover have "books s2" using b1 books_cong [OF ledger_memcpy [OF s2(1)]] by simp
      ultimately show ?thesis using books_free s2(2) by blast
    qed
  qed
qed

lemma books_posix_memalign:
  assumes b: "books s" and inv: "ainv s" and rd: "g_ready s" and al: "max 8 (unat al) = 2 ^ k" and rm: "roomy s (unat n + 2 ^ k + 4096)"
    and p: "posix_memalign os tid False al n s = Some (code, out, s')"
  shows "books s'"
proof -
  define a where "a = (if al < 8 then 8 else al)"
  have ua: "unat a = 2 ^ k" using al by (auto simp: a_def word_less_nat_alt)
  have un: "unat (n + a + 4096) = unat n + 2 ^ k + 4096"
  proof -
    have "unat (n + a) = unat n + 2 ^ k" using rm ua by (subst unat_add_no_wrap) (simp_all add: roomy_def)
    then show ?thesis using rm by (subst unat_add_no_wrap) (simp_all add: roomy_def)
  qed
  have "s' = s \<or> (\<exists>q. malloc os tid (n + a + 4096) s = Some (q, s'))"
    using p unfolding posix_memalign_def a_def [symmetric] Let_def by (auto split: if_splits bind_splits)
  then show ?thesis using b books_malloc [OF b inv rd, of "n + a + 4096" os tid] rm un by auto
qed

section \<open>Trimming\<close>

lemma unmap_run_larges:
  assumes mi: "mem_inv s" and r: "g_runs s a = Some r"
  shows "g_larges (unmap_range a (run_msize (unat (r_cls r))) s) = g_larges s"
proof
  fix x
  note f = run_facts [OF mi r]
  have um: "unat (run_msize (unat (r_cls r))) = map_n (unat (r_cls r))" by (rule unat_run_msize [OF f(1)])
  have bd: "unat a + unat (run_msize (unat (r_cls r))) < 2 ^ 64" using f(7) mem_invD(1) [OF mi] um by (simp add: res_ok_def)
  show "g_larges (unmap_range a (run_msize (unat (r_cls r))) s) x = g_larges s x"
  proof (cases "g_larges s x")
    case (Some h)
    have "x \<noteq> a" using mem_invD(4) [OF mi r] Some by (auto simp: run_inv_def)
    from mem_invD(7) [OF mi region_large [OF Some] region_run [OF r] this] large_size(1) [OF mi Some]
    have "\<not> in_range a (run_msize (unat (r_cls r))) x" using bd um by (auto simp: in_range_iff apart_def)
    then show ?thesis by (simp add: unmap_range_def)
  qed (simp add: unmap_range_def)
qed

lemma books_drop:
  assumes b: "books s" and inv: "ainv s" and c: "c < 68" and r: "g_runs s a = Some r" "unat (r_cls r) = c + 1" and used: "r_used r = 0"
    and d: "(do { s1 \<leftarrow> run_remove (unat (r_cls r) - 1) a s;
                    let msize = (run_bytes (r_elems r) (r_elem r) + 4095) AND NOT 4095;
                    let s2 = munmap a msize s1;
                    Some (s2\<lparr>g_freed_to_os := g_freed_to_os s2 + msize\<rparr>) }) = Some s'"
  shows "books s'"
proof -
  have mi: "mem_inv s" and cl: "class_lists s {}" using inv by (simp_all add: ainv_def)
  note f = run_facts [OF mi r(1)]
  let ?m = "run_msize (unat (r_cls r))" let ?n = "map_n (unat (r_cls r))"
  have um: "unat ?m = ?n" by (rule unat_run_msize [OF f(1)])
  from remove_ok [OF mi cl r c] obtain s1 where s1: "run_remove c a s = Some s1" "mem_inv s1" "class_lists s1 {a}" "g_runs s1 a = Some r" by blast
  have a4: "4096 dvd unat a" using f(4) unfolding aligned_run_def by (rule dvd_trans [rotated]) simp
  have mn: "munmap a ?m s1 = unmap_range a ?m s1"
    using a4 map_n_bounds(3-5) [OF f(1)] um by (intro munmap_aligned) auto
  have s': "s' = (unmap_range a ?m s1)\<lparr>g_freed_to_os := g_freed_to_os (unmap_range a ?m s1) + ?m\<rparr>"
    using d s1(1) r(2) msize_of_run(1) [OF f(2)] mn by (simp add: Let_def)
  have b1: "books s1" using b books_cong [OF ledger_run_remove [OF s1(1)]] by simp
  have e: "\<not> used_blk r i" for i using empty_run [OF f(3) used] .
  have g: "g_runs s' = (g_runs s1)(a := None)" "g_larges s' = g_larges s1"
    using unmap_run_ok(3) [OF s1(2,3,4) e] unmap_run_larges [OF s1(2,4)] msize_of_run(2) [OF f(2)] by (simp_all add: s')
  have h: "g_acc s' = (\<lambda>x. \<not> in_range a ?m x \<and> g_acc s1 x)" "g_mapped s' = g_mapped s1" "g_freed_to_os s' = g_freed_to_os s1 + ?m"
    "g_cls s' = g_cls s1" by (simp_all add: s' unmap_range_def)
  have fin: "finite (dom (g_runs s1))" "finite (dom (g_larges s1))" using b1 by (simp_all add: books_def)
  have held: "held_bytes s1 = ?n + held_bytes s'" "used_count s' e = used_count s1 e" for e
    using msum_drop [OF fin(1) s1(4)] used by (simp_all add: held_bytes_def used_count_def g)
  have "in_region s' x" if x: "g_acc s' x" for x
  proof -
    obtain d n where d: "region s1 d n" "unat d \<le> unat x" "unat x < unat d + n"
      using x b1 unfolding books_def in_region_def h(1) by blast
    have "d \<noteq> a"
    proof
      assume "d = a"
      then have "n = ?n" using d(1) s1(4) mem_invD(4) [OF s1(2,4)] by (auto simp: region_def run_inv_def)
      moreover have "unat a + unat ?m < 2 ^ 64" using f(7) mem_invD(1) [OF mi] um by (simp add: res_ok_def)
      ultimately have "in_range a ?m x" using d(2,3) \<open>d = a\<close> um by (simp add: in_range_iff)
      then show False using x h(1) by simp
    qed
    then have "region s' d n" using d(1) by (simp add: region_def g)
    then show ?thesis using d(2,3) unfolding in_region_def by blast
  qed
  moreover have "g_mapped s' = g_freed_to_os s' + of_nat (held_bytes s')"
  proof -
    show ?thesis using b1 held(1) msize_of_run(2) [OF f(2)] unfolding books_def h by simp
  qed
  ultimately show ?thesis using b1 held(2) fin unfolding books_def h(4) by (simp add: g)
qed

lemma books_purge_run:
  assumes b: "books s" and inv: "ainv s" and c: "c < 68" and a: "a \<in> runs_of_class s c" and p: "purge_run a t s = Some s'"
  shows "books s'"
proof -
  obtain r where r: "g_runs s a = Some r" "unat (r_cls r) = c + 1" using a by (auto simp: runs_of_class_def)
  show ?thesis
  proof (cases "r_used r = 0 \<and> t - r_last_fully_free_ms r \<ge> env_run_idle_ms s")
    case True
    then show ?thesis using p books_drop [OF b inv c r] unfolding purge_run_def r(1) by (simp add: Let_def)
  next
    case False
    let ?r = "r\<lparr>r_last_touch_ms := t\<rparr>"
    have e: "ledger (put_run a ?r s) = ledger s" by (rule ledger_put_run) (simp add: r(1) run_entry_def)
    have "ledger s' = ledger s"
      using p unfolding purge_run_def r(1) Let_def bind.bind_lunit if_not_P [OF False]
      by (auto simp: e ledger_purge_pages split: if_splits)
    then show ?thesis using b books_cong by blast
  qed
qed

lemma books_trim_walk:
  assumes "books s" "ainv s" "c < 68" "clist s c (pre @ rest)" "h = (case rest of [] \<Rightarrow> 0 | b # _ \<Rightarrow> b)" "trim_walk t h s = Some s'"
  shows "books s'"
  using assms
proof (induction rest arbitrary: s pre h)
  case Nil
  then show ?case by (subst (asm) trim_walk.simps) simp
next
  case (Cons a rest)
  have m: "a \<in> runs_of_class s c" and dl: "dlist (g_runs s) (class_head s c) (pre @ a # rest)"
    using Cons.prems(4) by (auto simp: clist_def)
  then obtain r where r: "g_runs s a = Some r" by (auto simp: runs_of_class_def)
  have nz: "a \<noteq> 0" using dlist_mem [OF dl, of a] by simp
  from purge_run_ok [OF Cons.prems(2-4), of t] obtain s1 pre' where
    s1: "purge_run a t s = Some s1" "trim_step s s1" "clist s1 c (pre' @ rest)" by blast
  have w: "trim_walk t (r_next r) s1 = Some s'"
    using Cons.prems(5,6) s1(1) r nz by (subst (asm) trim_walk.simps) simp
  have "books s1" by (rule books_purge_run [OF Cons.prems(1-3) m s1(1)])
  moreover have "ainv s1" using s1(2) by (simp add: trim_step_def)
  ultimately show ?case using Cons.IH [OF _ _ Cons.prems(3) s1(3) dlist_next [OF dl r] w] by blast
qed

lemma books_trim_class:
  assumes "books s" "ainv s" "c < 68" "trim_class t c s = Some s'"
  shows "books s'"
proof -
  obtain L where L: "dlist (g_runs s) (class_head s c) L" "set L = runs_of_class s c"
    using assms(2,3) by (auto simp: ainv_def class_lists_def)
  have "class_head s c = (case L of [] \<Rightarrow> 0 | b # _ \<Rightarrow> b)" using L(1) by (cases L) (auto simp: dlist_def)
  then show ?thesis using books_trim_walk [OF assms(1-3), of "[]" L _ t s'] L assms(4) by (simp add: clist_def trim_class_def)
qed

lemma books_trim_classes:
  assumes "books s" "ainv s" "\<forall>c\<in>set cs. c < 68" "trim_classes t cs s = Some s'"
  shows "books s'"
  using assms
proof (induction cs arbitrary: s)
  case (Cons c cs)
  have c: "c < 68" using Cons.prems(3) by simp
  from trim_class_ok [OF Cons.prems(2) c, of t] obtain s1 where s1: "trim_class t c s = Some s1" "trim_step s s1" by blast
  have "books s1" by (rule books_trim_class [OF Cons.prems(1,2) c s1(1)])
  moreover have "ainv s1" using s1(2) by (simp add: trim_step_def)
  ultimately show ?case using Cons.IH [of s1] Cons.prems(3,4) s1(1) by (simp del: One_nat_def)
qed simp

lemma books_trim_round:
  assumes b: "books s" and inv: "ainv s" and r: "trim_round os s = Some s'"
  shows "books s'"
proof (cases "g_ready s")
  case False
  then show ?thesis using b r by (simp add: trim_round_def)
next
  case True
  obtain t s1 where n: "now_ms os s = (t, s1)" by fastforce
  have b1: "books s1" using b books_cong [OF ledger_now [OF n]] by simp
  note q = now_ms_quiet [OF n]
  have "mem_inv s1" using inv q by (subst mem_inv_cong [of s1 s]) (simp_all add: quiet_def ainv_def)
  moreover have "class_lists s1 {}" using inv q by (subst class_lists_cong [of s1 s]) (simp_all add: quiet_def ainv_def)
  ultimately have a1: "ainv s1" by (simp add: ainv_def)
  have "trim_classes t [0..<kNumClasses] s1 = Some s'" using r True n by (simp add: trim_round_def)
  then show ?thesis using books_trim_classes [OF b1 a1, of "[0..<kNumClasses]"] by simp
qed

section \<open>All reachable states\<close>

lemma books_initial:
  assumes "reserve_at os p"
  shows "books (ensure_init os alloc_initial)"
proof -
  note f = ensure_init_initial [OF assms]
  have "g_acc (read_env os s) = g_acc s" "g_mapped (read_env os s) = g_mapped s" "g_freed_to_os (read_env os s) = g_freed_to_os s" for s
    by (simp_all add: read_env_def Let_def split: option.splits)
  then have g: "g_acc (ensure_init os alloc_initial) = (\<lambda>_. False)" "g_mapped (ensure_init os alloc_initial) = 0"
    "g_freed_to_os (ensure_init os alloc_initial) = 0"
    using assms unfolding reserve_at_def
    by (simp_all add: ensure_init_def Let_def alloc_initial_def reserve_init_def do_init_def start_trim_def)
  show ?thesis unfolding books_def held_bytes_def used_count_def f(1,2,6) g by (simp add: class_empty_def)
qed

lemma books_heap_step:
  assumes "heap_step os s s'" "heap_reach os s" "books s"
  shows "books s'"
proof -
  note r = heap_reachD(1,2) [OF assms(2)]
  from assms(1) show ?thesis
  proof cases
    case step_malloc
    then show ?thesis using books_malloc [OF assms(3) r] by blast
  next
    case step_calloc
    then show ?thesis using books_calloc [OF assms(3) r] by blast
  next
    case step_realloc
    then show ?thesis using books_realloc [OF assms(3) r] by blast
  next
    case step_memalign
    then show ?thesis using books_posix_memalign [OF assms(3) r] by blast
  next
    case step_free
    then show ?thesis using books_free [OF assms(3) r(1)] by blast
  next
    case step_trim
    then show ?thesis using books_trim_round [OF assms(3) r(1)] by blast
  next
    case step_write
    then show ?thesis using assms(3) books_cong [OF ledger_updates(1)] by simp
  qed
qed

lemma books_reach: "heap_reach os s \<Longrightarrow> books s"
  by (induction rule: heap_reach.induct) (auto intro: books_initial books_heap_step)

end
