(* ===== verification/BooksBalance.thy ===== *)
theory BooksBalance
  imports AllocBooks
begin

text \<open>
  What the counters of the allocator count: the bytes of the regions are the mapped addresses, the counts of
  the run headers are the blocks in use; so the books balance in every reachable state.
\<close>

section \<open>Mapped addresses\<close>

lemma card_addresses:
  assumes "l \<le> u" "u \<le> 2 ^ 64"
  shows "card {x :: u64. l \<le> unat x \<and> unat x < u} = u - l"
proof -
  have "unat ` {x :: u64. l \<le> unat x \<and> unat x < u} = {l..<u}"
  proof (intro equalityI subsetI)
    fix n assume "n \<in> {l..<u}"
    then have n: "l \<le> n" "n < u" "n < 2 ^ 64" using assms by auto
    then have "unat (of_nat n :: u64) = n" by (intro unat_of_nat_small) simp
    then show "n \<in> unat ` {x :: u64. l \<le> unat x \<and> unat x < u}" using n by (intro image_eqI [of _ _ "of_nat n"]) simp_all
  qed auto
  moreover have "inj_on unat {x :: u64. l \<le> unat x \<and> unat x < u}" by (rule inj_onI) (simp add: word_unat_eq_iff)
  ultimately show ?thesis using card_image by fastforce
qed

definition size_at :: "alloc \<Rightarrow> u64 \<Rightarrow> nat" where
  "size_at s a = (case g_runs s a of Some r \<Rightarrow> map_n (unat (r_cls r))
     | None \<Rightarrow> (case g_larges s a of Some h \<Rightarrow> unat (l_map_size h) | None \<Rightarrow> 0))"

lemma region_size_at: "mem_inv s \<Longrightarrow> region s a n \<longleftrightarrow> a \<in> dom (g_runs s) \<union> dom (g_larges s) \<and> n = size_at s a"
  using mem_invD(4) [of s a] by (cases "g_runs s a"; cases "g_larges s a") (auto simp: region_def size_at_def run_inv_def)

lemma acc_is_held:
  assumes mi: "mem_inv s" and b: "books s"
  shows "card {x. g_acc s x} = held_bytes s"
proof -
  let ?D = "dom (g_runs s) \<union> dom (g_larges s)"
  let ?B = "\<lambda>a. {x :: u64. unat a \<le> unat x \<and> unat x < unat a + size_at s a}"
  note rs = region_size_at [OF mi]
  have fin: "finite (dom (g_runs s))" "finite (dom (g_larges s))" using b by (simp_all add: books_def)
  have "g_acc s x \<longleftrightarrow> (\<exists>a\<in>?D. x \<in> ?B a)" for x
    using b region_acc [OF mi] unfolding books_def in_region_def rs by blast
  then have "{x. g_acc s x} = (\<Union>a\<in>?D. ?B a)" by auto
  moreover have "card (\<Union>a\<in>?D. ?B a) = (\<Sum>a\<in>?D. card (?B a))"
  proof (rule card_UN_disjoint)
    show "\<forall>i\<in>?D. \<forall>j\<in>?D. i \<noteq> j \<longrightarrow> ?B i \<inter> ?B j = {}"
      using mem_invD(7) [OF mi] unfolding rs by (fastforce simp: apart_def)
  qed (use fin in auto)
  moreover have "card (?B a) = size_at s a" if "a \<in> ?D" for a
  proof -
    have "unat a + size_at s a \<le> 2 ^ 56" using region_live_bound(2) [OF mi, of a] rs that by blast
    then show ?thesis by (subst card_addresses) simp_all
  qed
  moreover have "(\<Sum>a\<in>?D. size_at s a) = held_bytes s"
  proof -
    have dis: "dom (g_runs s) \<inter> dom (g_larges s) = {}" using mem_invD(4) [OF mi] by (auto simp: run_inv_def)
    have "(\<Sum>a\<in>dom (g_runs s). size_at s a) = msum (\<lambda>r. map_n (unat (r_cls r))) (g_runs s)"
      unfolding msum_def by (intro sum.cong) (auto simp: size_at_def)
    moreover have "(\<Sum>a\<in>dom (g_larges s). size_at s a) = msum (\<lambda>h. unat (l_map_size h)) (g_larges s)"
      unfolding msum_def
    proof (intro sum.cong refl)
      fix a assume a: "a \<in> dom (g_larges s)"
      then have "g_runs s a = None" using dis by (cases "g_runs s a") auto
      then show "size_at s a = unat (l_map_size (the (g_larges s a)))" using a by (auto simp: size_at_def)
    qed
    ultimately show ?thesis using sum.union_disjoint [OF fin dis, of "size_at s"] by (simp add: held_bytes_def)
  qed
  ultimately show ?thesis by simp
qed

section \<open>Blocks in use\<close>

text \<open>The blocks of a class that are in use: the run and the index in it.\<close>

definition blocks_in_use :: "alloc \<Rightarrow> nat \<Rightarrow> (u64 \<times> nat) set" where
  "blocks_in_use s c = {(a, i). \<exists>r. g_runs s a = Some r \<and> unat (r_cls r) = c + 1 \<and> used_blk r i}"

lemma card_used:
  assumes "bm_ok r"
  shows "card {i. used_blk r i} = unat (r_used r)"
proof -
  have "{i. used_blk r i} = {..<unat (r_elems r)} - free_set r" by (auto simp: used_blk_def)
  moreover have "free_set r \<subseteq> {..<unat (r_elems r)}" by (auto simp: free_set_def)
  ultimately have "card {i. used_blk r i} = unat (r_elems r) - card (free_set r)" by (simp add: card_Diff_subset)
  moreover have "unat (r_used r) + card (free_set r) = unat (r_elems r)" using assms by (simp add: bm_ok_def)
  ultimately show ?thesis by linarith
qed

lemma used_count_card:
  assumes mi: "mem_inv s" and b: "books s"
  shows "used_count s c = card (blocks_in_use s c)"
proof -
  define I where "I a = {i. (a, i) \<in> blocks_in_use s c}" for a
  have fin: "finite (dom (g_runs s))" using b by (simp add: books_def)
  have one: "card (I a) = (if unat (r_cls r) = c + 1 then unat (r_used r) else 0) \<and> finite (I a)" if r: "g_runs s a = Some r" for a r
  proof -
    have "finite {i. used_blk r i}" by (rule finite_subset [of _ "{..<unat (r_elems r)}"]) (auto simp: used_blk_def)
    moreover have "I a = (if unat (r_cls r) = c + 1 then {i. used_blk r i} else {})" using r by (auto simp: I_def blocks_in_use_def)
    ultimately show ?thesis using card_used [OF run_facts(3) [OF mi r]] by simp
  qed
  have "blocks_in_use s c = Sigma (dom (g_runs s)) I" by (auto simp: I_def blocks_in_use_def)
  moreover have "card (Sigma (dom (g_runs s)) I) = (\<Sum>a\<in>dom (g_runs s). card (I a))"
    using fin one by (intro card_SigmaI) auto
  moreover have "(\<Sum>a\<in>dom (g_runs s). card (I a)) = used_count s c"
    unfolding used_count_def msum_def
  proof (intro sum.cong refl)
    fix a assume "a \<in> dom (g_runs s)"
    then obtain r where "g_runs s a = Some r" by blast
    then show "card (I a) = (if unat (r_cls (the (g_runs s a))) = c + 1 then unat (r_used (the (g_runs s a))) else 0)"
      using one by simp
  qed
  ultimately show ?thesis by simp
qed

lemma used_le_held:
  assumes mi: "mem_inv s"
  shows "used_count s c \<le> held_bytes s"
proof -
  have "(if unat (r_cls r) = c + 1 then unat (r_used r) else 0) \<le> map_n (unat (r_cls r))" if r: "g_runs s a = Some r" for a r
  proof -
    note f = run_facts [OF mi r]
    have "unat (r_used r) \<le> elems_n (unat (r_cls r))" using f(3) run_staticD(4) [OF f(2)] by (simp add: bm_ok_def)
    also have "\<dots> \<le> elems_n (unat (r_cls r)) * elem_n (unat (r_cls r))" using elem_n_bounds(1) [OF f(1)] by simp
    also have "\<dots> \<le> map_n (unat (r_cls r))" using map_n_bounds(1) [OF f(1)] by simp
    finally show ?thesis by (rule order_trans [rotated]) simp
  qed
  then have "used_count s c \<le> msum (\<lambda>r. map_n (unat (r_cls r))) (g_runs s)"
    unfolding used_count_def msum_def by (intro sum_mono) (metis domD option.sel)
  then show ?thesis by (simp add: held_bytes_def)
qed

section \<open>Balance\<close>

text \<open>C9. In every reachable state the books balance: the bytes mapped less the bytes released, as the program
  counts and on exit prints them, are exactly the bytes of memory that are mapped, and the counter of every size class
  is exactly the number of its blocks in use.\<close>

theorem books_balance:
  assumes "heap_reach os s"
  shows "unat (g_mapped s - g_freed_to_os s) = card {x. g_acc s x} \<and>
    (\<forall>c<68. unat (cs_live_blocks (g_cls s ! c)) = card (blocks_in_use s c))"
proof -
  note b = books_reach [OF assms] and mi = heap_reachD(3) [OF assms]
  have "g_acc s x \<Longrightarrow> unat x < 2 ^ 56" for x
    using b region_live_bound(2) [OF mi] unfolding books_def in_region_def by (meson less_le_trans)
  then have "card {x. g_acc s x} \<le> card {x :: u64. 0 \<le> unat x \<and> unat x < 2 ^ 56}" by (intro card_mono) auto
  then have held: "held_bytes s \<le> 2 ^ 56" using acc_is_held [OF mi b] card_addresses [of 0 "2 ^ 56"] by simp
  then have "unat (of_nat (held_bytes s) :: u64) = held_bytes s" by (intro unat_of_nat_small) simp
  moreover have "g_mapped s - g_freed_to_os s = of_nat (held_bytes s)" using b by (simp add: books_def)
  moreover have "unat (cs_live_blocks (g_cls s ! c)) = card (blocks_in_use s c)" if c: "c < 68" for c
  proof -
    have "cs_live_blocks (g_cls s ! c) = of_nat (used_count s c)" using b c mem_invD(2) [OF mi] by (simp add: books_def)
    moreover have "used_count s c < 2 ^ 64" using used_le_held [OF mi, of c] held by simp
    ultimately show ?thesis by (simp add: unat_of_nat_small used_count_card [OF mi b])
  qed
  ultimately show ?thesis using acc_is_held [OF mi b] by simp
qed

theorem books_balance_witness:
  "heap_reach demo_os demo_100 \<and> card {x. g_acc demo_100 x} = 2101248 \<and> card (blocks_in_use demo_100 10) = 1"
proof -
  have e: "g_mapped demo_100 - g_freed_to_os demo_100 = 2101248" "cs_live_blocks (g_cls demo_100 ! 10) = 1"
    unfolding demo_100_def demo_start_def by code_simp+
  from books_balance [OF demo_100_reach]
  have "card {x. g_acc demo_100 x} = unat (2101248 :: u64)" "card (blocks_in_use demo_100 10) = unat (1 :: u64)"
    unfolding e [symmetric] by auto
  then show ?thesis using demo_100_reach by simp
qed

end
