(* ===== verification/TrimRelease.thy ===== *)
theory TrimRelease
  imports BooksBalance
begin

text \<open>
  What a round of the background thread releases: exactly the runs that have been empty for at least
  \<open>env_run_idle_ms\<close>, each with all of its bytes; every other run stays, with its class and its count of used blocks.
\<close>

section \<open>The idle test\<close>

text \<open>Of a run the test of \<open>purge_run\<close> reads the count of used blocks and the time the run became empty.\<close>

definition run_status :: "run \<Rightarrow> u32 \<times> u32 \<times> u64" where
  "run_status r = (r_cls r, r_used r, r_last_fully_free_ms r)"

definition status :: "alloc \<Rightarrow> u64 \<Rightarrow> (u32 \<times> u32 \<times> u64) option" where
  "status s a = map_option run_status (g_runs s a)"

definition idle_run :: "u64 \<Rightarrow> alloc \<Rightarrow> run \<Rightarrow> bool" where
  "idle_run t s r \<longleftrightarrow> r_used r = 0 \<and> env_run_idle_ms s \<le> t - r_last_fully_free_ms r"

definition idle_at :: "u64 \<Rightarrow> alloc \<Rightarrow> u64 \<Rightarrow> bool" where
  "idle_at t s a \<longleftrightarrow> (\<exists>c f. status s a = Some (c, 0, f) \<and> env_run_idle_ms s \<le> t - f)"

lemma idle_at_run: "g_runs s a = Some r \<Longrightarrow> idle_at t s a = idle_run t s r"
  by (auto simp: idle_at_def idle_run_def status_def run_status_def)

lemma status_Some: "status s a = Some (c, u, f) \<Longrightarrow> \<exists>r. g_runs s a = Some r \<and> r_cls r = c \<and> r_used r = u"
  by (auto simp: status_def run_status_def)

text \<open>\<open>releases t A s s'\<close>: from \<open>s\<close> to \<open>s'\<close> the idle runs at the addresses of \<open>A\<close> are released and no other run.\<close>

definition releases :: "u64 \<Rightarrow> u64 set \<Rightarrow> alloc \<Rightarrow> alloc \<Rightarrow> bool" where
  "releases t A s s' \<longleftrightarrow> env_run_idle_ms s' = env_run_idle_ms s \<and> g_larges s' = g_larges s \<and>
     (\<forall>a. status s' a = (if a \<in> A \<and> idle_at t s a then None else status s a))"

lemma releases_none: "env_run_idle_ms s' = env_run_idle_ms s \<Longrightarrow> g_larges s' = g_larges s \<Longrightarrow> status s' = status s \<Longrightarrow> releases t {} s s'"
  by (simp add: releases_def)

lemma releases_trans:
  assumes "releases t A s s1" "releases t B s1 s2"
  shows "releases t (A \<union> B) s s2"
proof -
  have i: "idle_at t s1 a \<longleftrightarrow> idle_at t s a \<and> a \<notin> A" for a
    using assms(1) unfolding releases_def idle_at_def by auto
  have "status s2 a = (if a \<in> A \<union> B \<and> idle_at t s a then None else status s a)" for a
    using assms i [of a] unfolding releases_def by auto
  then show ?thesis using assms unfolding releases_def by simp
qed

section \<open>One run\<close>

lemma list_step_status: "list_step c A s s' \<Longrightarrow> env_run_idle_ms s' = env_run_idle_ms s \<and> status s' = status s"
proof
  assume ls: "list_step c A s s'"
  show "env_run_idle_ms s' = env_run_idle_ms s" by (rule list_step_fields(16) [OF ls])
  show "status s' = status s"
  proof
    fix a
    have "map_option core (g_runs s a) = map_option core (g_runs s' a)"
      using list_step_fields(9) [OF ls] by (simp add: same_core_def)
    then show "status s' a = status s a"
      using core_fields(2,4,7) [of "the (g_runs s a)" "the (g_runs s' a)"]
      by (cases "g_runs s a"; cases "g_runs s' a") (simp_all add: status_def run_status_def)
  qed
qed

lemma purge_run_releases:
  assumes inv: "ainv s" and c: "c < 68" and a: "a \<in> runs_of_class s c" and p: "purge_run a t s = Some s'"
  shows "releases t {a} s s'"
proof -
  have mi: "mem_inv s" and cl: "class_lists s {}" using inv by (simp_all add: ainv_def)
  obtain r where r: "g_runs s a = Some r" "unat (r_cls r) = c + 1" using a by (auto simp: runs_of_class_def)
  note f = run_facts [OF mi r(1)]
  show ?thesis
  proof (cases "r_used r = 0 \<and> env_run_idle_ms s \<le> t - r_last_fully_free_ms r")
    case True
    let ?m = "run_msize (unat (r_cls r))"
    from remove_ok [OF mi cl r c] obtain s1 where s1: "run_remove c a s = Some s1" "mem_inv s1" "class_lists s1 {a}"
      "list_step c UNIV s s1" "g_runs s1 a = Some r" by blast
    have a4: "4096 dvd unat a" using f(4) unfolding aligned_run_def by (rule dvd_trans [rotated]) simp
    have um: "unat ?m = map_n (unat (r_cls r))" by (rule unat_run_msize [OF f(1)])
    have "munmap a ?m s1 = unmap_range a ?m s1"
      using a4 map_n_bounds(3-5) [OF f(1)] um by (intro munmap_aligned) auto
    then have s': "s' = (unmap_range a ?m s1)\<lparr>g_freed_to_os := g_freed_to_os (unmap_range a ?m s1) + ?m\<rparr>"
      using p True s1(1) r msize_of_run(1) [OF f(2)] by (simp add: purge_run_def Let_def)
    have e: "\<not> used_blk r i" for i using empty_run [OF f(3)] True by simp
    have g: "g_runs s' = (g_runs s1)(a := None)" "env_run_idle_ms s' = env_run_idle_ms s1" "g_larges s' = g_larges s1"
      using unmap_run_ok(3) [OF s1(2,3,5) e] unmap_run_larges [OF s1(2,5)] msize_of_run(2) [OF f(2)] by (simp_all add: s' unmap_range_def)
    have "idle_at t s a" using True r(1) by (simp add: idle_at_run idle_run_def)
    then show ?thesis using list_step_status [OF s1(4)] list_step_fields(1) [OF s1(4)] g by (auto simp: releases_def status_def fun_eq_iff)
  next
    case False
    let ?r = "r\<lparr>r_last_touch_ms := t\<rparr>"
    have same: "env_run_idle_ms (purge_pages q d n off (put_run a ?r s)) = env_run_idle_ms s"
      "g_runs (purge_pages q d n off (put_run a ?r s)) = (g_runs s)(a \<mapsto> ?r)"
      "g_larges (purge_pages q d n off (put_run a ?r s)) = g_larges s" for q d n off
      using purge_pages_same [of q d n off "put_run a ?r s"] by (auto simp: put_run_def)
    have "env_run_idle_ms s' = env_run_idle_ms s \<and> g_larges s' = g_larges s \<and> (g_runs s' = g_runs s \<or> g_runs s' = (g_runs s)(a \<mapsto> ?r))"
      using p unfolding purge_run_def r(1) Let_def bind.bind_lunit if_not_P [OF False]
      by (auto simp: same split: if_splits) (simp_all add: put_run_def)
    then show ?thesis using False r(1)
      by (auto simp: releases_def status_def run_status_def idle_at_run idle_run_def fun_eq_iff)
  qed
qed

section \<open>A round\<close>

lemma trim_walk_releases:
  assumes "ainv s" "c < 68" "clist s c (pre @ rest)" "h = (case rest of [] \<Rightarrow> 0 | b # _ \<Rightarrow> b)" "trim_walk t h s = Some s'"
  shows "releases t (set rest) s s'"
  using assms
proof (induction rest arbitrary: s pre h)
  case Nil
  then show ?case by (subst (asm) trim_walk.simps) (simp add: releases_none)
next
  case (Cons a rest)
  have m: "a \<in> runs_of_class s c" and dl: "dlist (g_runs s) (class_head s c) (pre @ a # rest)"
    using Cons.prems(3) by (auto simp: clist_def)
  then obtain r where r: "g_runs s a = Some r" by (auto simp: runs_of_class_def)
  have nz: "a \<noteq> 0" using dlist_mem [OF dl, of a] by simp
  from purge_run_ok [OF Cons.prems(1-3), of t] obtain s1 pre' where
    s1: "purge_run a t s = Some s1" "trim_step s s1" "clist s1 c (pre' @ rest)" by blast
  have w: "trim_walk t (r_next r) s1 = Some s'"
    using Cons.prems(4,5) s1(1) r nz by (subst (asm) trim_walk.simps) simp
  have "releases t {a} s s1" by (rule purge_run_releases [OF Cons.prems(1,2) m s1(1)])
  moreover have "ainv s1" using s1(2) by (simp add: trim_step_def)
  ultimately show ?case
    using releases_trans [OF _ Cons.IH [OF _ Cons.prems(2) s1(3) dlist_next [OF dl r] w]] by fastforce
qed

lemma trim_class_releases:
  assumes "ainv s" "c < 68" "trim_class t c s = Some s'"
  shows "releases t (runs_of_class s c) s s'"
proof -
  obtain L where L: "dlist (g_runs s) (class_head s c) L" "set L = runs_of_class s c"
    using assms(1,2) by (auto simp: ainv_def class_lists_def)
  have "class_head s c = (case L of [] \<Rightarrow> 0 | b # _ \<Rightarrow> b)" using L(1) by (cases L) (auto simp: dlist_def)
  then show ?thesis using trim_walk_releases [OF assms(1,2), of "[]" L _ t s'] L assms(3) by (simp add: clist_def trim_class_def)
qed

text \<open>The runs of the classes still to come are the ones they had at the start of the round.\<close>

definition class_addrs :: "alloc \<Rightarrow> nat \<Rightarrow> u64 set" where
  "class_addrs s c = {a. \<exists>k u f. status s a = Some (k, u, f) \<and> unat k = c + 1}"

lemma class_addrs_runs: "class_addrs s c = runs_of_class s c"
  by (auto simp: class_addrs_def runs_of_class_def status_def run_status_def)

lemma releases_mono:
  assumes "releases t A s s'" "\<And>a. idle_at t s a \<Longrightarrow> a \<in> A \<longleftrightarrow> a \<in> B"
  shows "releases t B s s'"
  using assms unfolding releases_def by metis

lemma trim_classes_releases:
  assumes "ainv s" "\<forall>c\<in>set cs. c < 68" "trim_classes t cs s = Some s'"
  shows "releases t (\<Union>c\<in>set cs. runs_of_class s c) s s'"
  using assms
proof (induction cs arbitrary: s)
  case Nil
  then show ?case by (simp add: releases_none)
next
  case (Cons c cs)
  have c: "c < 68" using Cons.prems(2) by simp
  from trim_class_ok [OF Cons.prems(1) c, of t] obtain s1 where s1: "trim_class t c s = Some s1" "trim_step s s1" by blast
  have a1: "ainv s1" using s1(2) by (simp add: trim_step_def)
  have r1: "releases t (runs_of_class s c) s s1" by (rule trim_class_releases [OF Cons.prems(1) c s1(1)])
  have "releases t (\<Union>c\<in>set cs. runs_of_class s1 c) s1 s'"
    using Cons.IH [OF a1] Cons.prems(2,3) s1(1) by (simp del: One_nat_def)
  from releases_trans [OF r1 this] have r2: "releases t (runs_of_class s c \<union> (\<Union>c\<in>set cs. runs_of_class s1 c)) s s'" .
  show ?case
  proof (rule releases_mono [OF r2])
    fix a assume "idle_at t s a"
    have "a \<notin> runs_of_class s c \<Longrightarrow> status s1 a = status s a" using r1 unfolding releases_def by (metis (no_types))
    then have "a \<notin> runs_of_class s c \<Longrightarrow> a \<in> runs_of_class s1 e \<longleftrightarrow> a \<in> runs_of_class s e" for e
      unfolding class_addrs_runs [symmetric] class_addrs_def by simp
    then show "a \<in> runs_of_class s c \<union> (\<Union>c\<in>set cs. runs_of_class s1 c) \<longleftrightarrow> a \<in> (\<Union>c\<in>set (c # cs). runs_of_class s c)"
      unfolding UN_iff Un_iff list.set insert_iff by blast
  qed
qed

lemma trim_round_releases:
  assumes inv: "ainv s" and rd: "g_ready s" and r: "trim_round os s = Some s'"
  shows "releases (fst (now_ms os s)) UNIV s s'"
proof -
  obtain t s1 where n: "now_ms os s = (t, s1)" by fastforce
  note q = now_ms_quiet [OF n]
  have "mem_inv s1" using inv q by (subst mem_inv_cong [of s1 s]) (simp_all add: quiet_def ainv_def)
  moreover have "class_lists s1 {}" using inv q by (subst class_lists_cong [of s1 s]) (simp_all add: quiet_def ainv_def)
  ultimately have a1: "ainv s1" by (simp add: ainv_def)
  have "trim_classes t [0..<kNumClasses] s1 = Some s'" using r rd n by (simp add: trim_round_def)
  then have r1: "releases t (\<Union>c\<in>{0..<68}. runs_of_class s1 c) s1 s'"
    using trim_classes_releases [OF a1, of "[0..<kNumClasses]"] by simp
  have all: "a \<in> (\<Union>c\<in>{0..<68}. runs_of_class s1 c)" if "idle_at t s1 a" for a
  proof -
    obtain r where g: "g_runs s1 a = Some r" using \<open>idle_at t s1 a\<close> status_Some unfolding idle_at_def by blast
    from run_cls_index [OF a1 g] obtain c where "c < 68" "unat (r_cls r) = c + 1" by blast
    then show ?thesis using g by (auto simp: runs_of_class_def)
  qed
  have "releases t UNIV s1 s'" by (rule releases_mono [OF r1]) (use all in blast)
  moreover have "env_run_idle_ms s1 = env_run_idle_ms s" using n by (auto simp: now_ms_def split: prod.splits)
  then have "releases t {} s s1" using q(1,2) quiet_def by (intro releases_none) (simp_all add: status_def fun_eq_iff)
  ultimately show ?thesis using releases_trans [of t "{}" s s1 UNIV s'] n by simp
qed

section \<open>The bytes\<close>

text \<open>\<open>released_byte t s x\<close>: the address \<open>x\<close> lies in a run that is idle at time \<open>t\<close>.\<close>

definition released_byte :: "u64 \<Rightarrow> alloc \<Rightarrow> u64 \<Rightarrow> bool" where
  "released_byte t s x \<longleftrightarrow> (\<exists>a r. g_runs s a = Some r \<and> idle_run t s r \<and> unat a \<le> unat x \<and> unat x < unat a + map_n (unat (r_cls r)))"

lemma releases_run:
  assumes "releases t UNIV s s'"
  shows "case g_runs s a of None \<Rightarrow> g_runs s' a = None
       | Some r \<Rightarrow> if idle_run t s r then g_runs s' a = None
                   else (\<exists>r'. g_runs s' a = Some r' \<and> r_cls r' = r_cls r \<and> r_used r' = r_used r)"
proof -
  have st: "map_option run_status (g_runs s' a) = (if idle_at t s a then None else map_option run_status (g_runs s a))"
    using assms unfolding releases_def status_def by simp
  show ?thesis
  proof (cases "g_runs s a")
    case None
    then show ?thesis using st by (simp split: if_splits)
  next
    case (Some r)
    then show ?thesis using st idle_at_run [OF Some, of t] by (auto simp: run_status_def)
  qed
qed

lemma releases_region:
  assumes mi: "mem_inv s" and rel: "releases t UNIV s s'"
  shows "region s' a n \<longleftrightarrow> region s a n \<and> \<not> idle_at t s a"
proof -
  have lg: "g_larges s' = g_larges s" using rel by (simp add: releases_def)
  show ?thesis
  proof (cases "g_runs s a")
    case None
    then have "\<not> idle_at t s a" by (simp add: idle_at_def status_def)
    then show ?thesis using None releases_run [OF rel, of a] unfolding region_def lg by auto
  next
    case (Some r)
    have "g_larges s a = None" using mem_invD(4) [OF mi Some] by (simp add: run_inv_def)
    then show ?thesis using Some releases_run [OF rel, of a] idle_at_run [OF Some, of t] unfolding region_def lg
      by (auto split: if_splits)
  qed
qed

lemma releases_bytes:
  assumes "mem_inv s" "mem_inv s'" "books s" "books s'" "releases t UNIV s s'"
  shows "g_acc s' x \<longleftrightarrow> g_acc s x \<and> \<not> released_byte t s x"
proof -
  note rg = releases_region [OF assms(1,5)]
  have acc: "g_acc s y \<longleftrightarrow> in_region s y" "g_acc s' y \<longleftrightarrow> in_region s' y" for y
    using assms(1-4) region_acc unfolding books_def in_region_def by blast+
  have "region s a n \<and> idle_at t s a \<longleftrightarrow> (\<exists>r. g_runs s a = Some r \<and> idle_run t s r \<and> n = map_n (unat (r_cls r)))" for a n
    using mem_invD(4) [OF assms(1), of a]
    by (cases "g_runs s a") (auto simp: region_def idle_at_run run_inv_def, auto simp: idle_at_def status_def)
  then have "released_byte t s x \<longleftrightarrow> (\<exists>a n. region s a n \<and> idle_at t s a \<and> unat a \<le> unat x \<and> unat x < unat a + n)"
    unfolding released_byte_def by metis
  moreover have "a = b" if "region s a n" "region s b m" "unat a \<le> unat x" "unat x < unat a + n" "unat b \<le> unat x" "unat x < unat b + m" for a b n m
    using mem_invD(7) [OF assms(1) that(1,2)] that(3-6) by (auto simp: apart_def)
  ultimately show ?thesis unfolding acc in_region_def rg by blast
qed

section \<open>The property\<close>

text \<open>C8. A round of the trim thread releases exactly the idle runs: a run that is empty and has been so for at least
  \<open>env_run_idle_ms\<close> at the time of the round goes, with all of its bytes; every other run stays, with its class and
  its count of used blocks, and so does every large block; and not one other byte is mapped or unmapped.\<close>

theorem trim_releases:
  assumes "heap_reach os s" "now_ms os s = (t, s0)"
  shows "\<exists>s'. trim_round os s = Some s' \<and> g_larges s' = g_larges s \<and>
    (\<forall>a. case g_runs s a of None \<Rightarrow> g_runs s' a = None
       | Some r \<Rightarrow> if idle_run t s r then g_runs s' a = None
                   else (\<exists>r'. g_runs s' a = Some r' \<and> r_cls r' = r_cls r \<and> r_used r' = r_used r)) \<and>
    (\<forall>x. g_acc s' x \<longleftrightarrow> g_acc s x \<and> \<not> released_byte t s x)"
proof -
  note r = heap_reachD [OF assms(1)]
  from trim_round_ok [OF r(1), of os] obtain s' where s': "trim_round os s = Some s'" by blast
  have reach: "heap_reach os s'" by (rule reach_step [OF assms(1) step_trim [OF s']])
  have rel: "releases t UNIV s s'" using trim_round_releases [OF r(1,2) s'] assms(2) by simp
  have "g_acc s' x \<longleftrightarrow> g_acc s x \<and> \<not> released_byte t s x" for x
    by (rule releases_bytes [OF r(3) heap_reachD(3) [OF reach] books_reach [OF assms(1)] books_reach [OF reach] rel])
  then show ?thesis using s' rel releases_run [OF rel] unfolding releases_def by blast
qed

text \<open>A system whose clock moves ten seconds between two reads: the run of \<open>malloc(100)\<close>, once its block is
  freed, is released with its bytes by the next round.\<close>

definition late_os :: os where
  "late_os = demo_os\<lparr>clock := (\<lambda>n. (10 * of_nat n, 0))\<rparr>"

definition late_100 :: alloc where
  "late_100 = snd (the (malloc late_os 0 100 (ensure_init late_os alloc_initial)))"

definition late_free :: alloc where
  "late_free = the (free late_os 0 17592186048512 late_100)"

lemma late_malloc: "malloc late_os 0 100 (ensure_init late_os alloc_initial) = Some (17592186048512, late_100)"
proof -
  have "map_option fst (malloc late_os 0 100 (ensure_init late_os alloc_initial)) = Some 17592186048512" by code_simp
  then show ?thesis unfolding late_100_def by (auto simp: map_option_eq_Some)
qed

lemma late_run: "\<exists>r. g_runs late_100 17592186044416 = Some r \<and> r_cls r = 11 \<and> r_elems r = 18724 \<and> used_blk r 0"
proof -
  have "(case g_runs late_100 17592186044416 of Some r \<Rightarrow> r_cls r = 11 \<and> r_elems r = 18724 \<and> \<not> blk_free (r_bits r) 0 | None \<Rightarrow> False)"
    by code_simp
  then show ?thesis by (auto simp: used_blk_def free_set_def split: option.splits)
qed

lemma late_freeable: "freeable late_100 17592186048512 112"
proof -
  obtain r where r: "g_runs late_100 17592186044416 = Some r" "r_cls r = 11" "used_blk r 0" using late_run by blast
  have u: "unat (r_cls r) = 11" using r(2) by simp
  have "reachable_blk 11 0" by (simp add: reachable_blk_def doff_11)
  moreover have "blk_addr 11 17592186044416 0 = 17592186048512" by (simp add: blk_addr_def doff_11)
  ultimately show ?thesis unfolding freeable_def
    using r u doff_11(2) by (intro exI [of _ 17592186044416] exI [of _ r] exI [of _ 0]) simp
qed

lemma late_reach: "heap_reach late_os late_100" "heap_reach late_os late_free"
proof -
  have rs: "reserve_at late_os 17592186044416" by (simp add: reserve_at_def late_os_def demo_os_def)
  have rm: "roomy (ensure_init late_os alloc_initial) (unat (100 :: u64))"
    by (simp add: roomy_def ensure_init_initial(5) [OF rs])
  show h: "heap_reach late_os late_100" by (rule reach_step [OF reach_init [OF rs] step_malloc [OF rm late_malloc]])
  from free_ok [OF heap_reachD(1) [OF h] late_freeable, of late_os 0]
  have "free late_os 0 17592186048512 late_100 = Some late_free" unfolding late_free_def by auto
  then show "heap_reach late_os late_free" by (rule reach_step [OF h step_free [OF late_freeable]])
qed

lemma late_idle: "\<exists>r. g_runs late_free 17592186044416 = Some r \<and> r_cls r = 11 \<and> idle_run (fst (now_ms late_os late_free)) late_free r"
proof -
  have "(case g_runs late_free 17592186044416 of Some r \<Rightarrow> r_cls r = 11 \<and> idle_run (fst (now_ms late_os late_free)) late_free r | None \<Rightarrow> False)"
    by code_simp
  then show ?thesis by (auto split: option.splits)
qed

theorem trim_releases_witness:
  "\<exists>s'. heap_reach late_os late_free \<and> trim_round late_os late_free = Some s' \<and> g_runs late_free 17592186044416 \<noteq> None \<and>
     g_runs s' 17592186044416 = None \<and> \<not> g_acc s' 17592186048512"
proof -
  obtain r where r: "g_runs late_free 17592186044416 = Some r" "r_cls r = 11" "idle_run (fst (now_ms late_os late_free)) late_free r"
    using late_idle by blast
  obtain t s0 where n: "now_ms late_os late_free = (t, s0)" by (cases "now_ms late_os late_free")
  have i: "idle_run t late_free r" using r(3) n by simp
  from trim_releases [OF late_reach(2) n] obtain s' where s': "trim_round late_os late_free = Some s'"
    and runs: "\<And>a. case g_runs late_free a of None \<Rightarrow> g_runs s' a = None
       | Some r \<Rightarrow> if idle_run t late_free r then g_runs s' a = None
                   else (\<exists>r'. g_runs s' a = Some r' \<and> r_cls r' = r_cls r \<and> r_used r' = r_used r)"
    and acc: "\<And>x. g_acc s' x \<longleftrightarrow> g_acc late_free x \<and> \<not> released_byte t late_free x" by meson
  have "g_runs s' 17592186044416 = None" using runs [of 17592186044416] by (simp only: r(1) option.case i if_True)
  moreover have "map_n 11 = 2101248" by (simp add: map_n_def doff_11 elems_n_def)
  then have "released_byte t late_free 17592186048512" unfolding released_byte_def
    using r i by (intro exI [of _ 17592186044416] exI [of _ r]) simp
  then have "\<not> g_acc s' 17592186048512" using acc by simp
  moreover have "g_runs late_free 17592186044416 \<noteq> None" using r(1) by simp
  ultimately show ?thesis using s' late_reach(2) by blast
qed

end
