(* ===== verification/Memhog.thy ===== *)
theory Memhog
  imports CScan "HOL-Library.Signed_Division"
begin

text \<open>
  The load generator \<open>memhog\<close> (\<open>src/src/tools/memhog.cpp\<close>): it allocates the megabytes asked for in chunks of 8 MiB,
  then a hundred times waits, and touches every page before every other wait. \<open>malloc\<close>
  is a parameter, a function on the allocator's state \<open>'h\<close> (the library's or the preloaded one); the
  chunks live in the memory \<open>hg_mem\<close>.
\<close>

section \<open>Allocation\<close>

record 'h hog =
  hg_heap :: 'h
  hg_mem :: "u64 \<Rightarrow> u8"
  hg_keep :: "u64 list"

definition hog_chunk :: u64 where "hog_chunk = push_bit 20 8"

definition mem_set :: "u64 \<Rightarrow> u8 \<Rightarrow> u64 \<Rightarrow> (u64 \<Rightarrow> u8) \<Rightarrow> u64 \<Rightarrow> u8" where
  "mem_set p v n m = (\<lambda>x. if x - p < n then v else m x)"

text \<open>\<open>for(size_t got = 0; got < mb << 20; got += chunk)\<close>: whether all chunks were given. With a limit near \<open>2^64\<close>
  the counter wraps and the loop need not end.\<close>

partial_function (option) hog_alloc :: "(u64 \<Rightarrow> 'h \<Rightarrow> u64 \<times> 'h) \<Rightarrow> u64 \<Rightarrow> u64 \<Rightarrow> 'h hog \<Rightarrow> (bool \<times> 'h hog) option" where
  "hog_alloc al limit got s =
     (if got < limit
      then (case al hog_chunk (hg_heap s) of (p, h) \<Rightarrow>
              if p = 0 then Some (False, s\<lparr>hg_heap := h\<rparr>)
              else hog_alloc al limit (got + hog_chunk)
                     (s\<lparr>hg_heap := h, hg_mem := mem_set p 0x5a hog_chunk (hg_mem s), hg_keep := hg_keep s @ [p]\<rparr>))
      else Some (True, s))"

declare hog_alloc.simps [code]

section \<open>Touching\<close>

lemma unat_hog_chunk: "unat hog_chunk = 8388608"
  by (simp add: hog_chunk_def)

lemma unat_off_step: "off < hog_chunk \<Longrightarrow> unat (off + 4096) = unat off + 4096"
  by (subst unat_add_no_wrap) (simp_all add: word_less_nat_alt unat_hog_chunk)

function hog_touch_chunk :: "u8 \<Rightarrow> u64 \<Rightarrow> u64 \<Rightarrow> u64 \<Rightarrow> (u64 \<Rightarrow> u8) \<Rightarrow> u64 \<Rightarrow> u8" where
  "hog_touch_chunk v limit p off m =
     (if off < limit \<and> off < hog_chunk then hog_touch_chunk v limit p (off + 4096) (m(p + off := v)) else m)"
  by pat_completeness auto

termination
  by (relation "measure (\<lambda>(v, limit, p, off, m). 8388608 - unat off)")
    (auto simp: unat_off_step word_less_nat_alt unat_hog_chunk)

declare hog_touch_chunk.simps [simp del]

definition hog_touch :: "u8 \<Rightarrow> u64 \<Rightarrow> u64 list \<Rightarrow> (u64 \<Rightarrow> u8) \<Rightarrow> u64 \<Rightarrow> u8" where
  "hog_touch v limit ps m = fold (\<lambda>p. hog_touch_chunk v limit p 0) ps m"

section \<open>The program\<close>

datatype hog_event = Print string | Sleep int

definition hog_tick :: "u64 \<Rightarrow> int \<Rightarrow> nat \<Rightarrow> 'h hog \<Rightarrow> 'h hog" where
  "hog_tick limit phase i s =
     (if i mod 2 = 0 then s\<lparr>hg_mem := hog_touch (of_nat i) limit (hg_keep s) (hg_mem s)\<rparr> else s)"

definition hog_tick_events :: "int \<Rightarrow> nat \<Rightarrow> hog_event list" where
  "hog_tick_events phase i = [Print (''tick '' @ show_nat i @ [newline]), Sleep (phase sdiv 10)]"

definition hog_hello :: "int \<Rightarrow> u64 \<Rightarrow> int \<Rightarrow> string" where
  "hog_hello pid mb phase = ''memhog pid='' @ show_int pid @ '': '' @ show_nat (unat mb) @ '' Mo, phases '' @
     show_int phase @ ''s'' @ [newline]"

definition hog_ready :: "u64 \<Rightarrow> string" where
  "hog_ready mb = ''alloc done, rss ~'' @ show_nat (unat mb) @ '' Mo. Touch all / sleep altern'' @
     [CHR 0xC3, CHR 0xA9] @ ''...'' @ [newline]"

text \<open>\<open>(size_t)atoi(argv[1])\<close> extends the sign.\<close>

definition hog_mb :: "string list \<Rightarrow> u64" where
  "hog_mb argv = (if length argv > 1 then scast (atoi (argv ! 1)) else 512)"

definition hog_phase :: "string list \<Rightarrow> int" where
  "hog_phase argv = (if length argv > 2 then sint (atoi (argv ! 2)) else 30)"

text \<open>The exit status, what is printed and slept, and the state; \<open>None\<close> if the first loop does not end. The message of \<open>perror\<close>
  is left out.\<close>

definition hog_main :: "(u64 \<Rightarrow> 'h \<Rightarrow> u64 \<times> 'h) \<Rightarrow> int \<Rightarrow> string list \<Rightarrow> 'h hog \<Rightarrow> (int \<times> hog_event list \<times> 'h hog) option" where
  "hog_main al pid argv s =
     (let mb = hog_mb argv; phase = hog_phase argv; limit = push_bit 20 mb
      in do { (ok, s1) \<leftarrow> hog_alloc al limit 0 s;
              if \<not> ok then Some (1, [Print (hog_hello pid mb phase)], s1)
              else Some (0, Print (hog_hello pid mb phase) # Print (hog_ready mb) #
                            concat (map (hog_tick_events phase) [0..<100]),
                         fold (hog_tick limit phase) [0..<100] s1) })"

section \<open>How much is allocated\<close>

text \<open>Chunks still to come.\<close>

definition chunks_left :: "u64 \<Rightarrow> u64 \<Rightarrow> nat" where
  "chunks_left limit got = (unat limit - unat got + 8388607) div 8388608"

lemma chunk_count:
  assumes "0 < d"
  shows "(d + 8388607) div 8388608 = (d - 8388608 + 8388607) div 8388608 + (1 :: nat)"
proof -
  have "(d + 8388607) div 8388608 = Suc ((d + 8388607 - 8388608) div 8388608)"
    by (rule le_div_geq) (use assms in simp_all)
  moreover have "(d + 8388607 - 8388608) div 8388608 = (d - 8388608 + 8388607) div 8388608"
  proof (cases "d < 8388608")
    case True
    then have "(d + 8388607 - 8388608) div 8388608 = 0" "(d - 8388608 + 8388607) div 8388608 = 0" by simp_all
    then show ?thesis by simp
  next
    case False
    then have "d + 8388607 - 8388608 = d - 8388608 + 8388607" by simp
    then show ?thesis by (rule arg_cong)
  qed
  ultimately show ?thesis by simp
qed

lemma chunks_left_step:
  assumes "unat limit + 8388608 \<le> 2 ^ 64" "got < limit"
  shows "chunks_left limit got = chunks_left limit (got + hog_chunk) + 1" "unat (got + hog_chunk) = unat got + 8388608"
proof -
  have g: "unat got < unat limit" using assms(2) by (simp add: word_less_nat_alt)
  show u: "unat (got + hog_chunk) = unat got + 8388608"
    using assms(1) g by (subst unat_add_no_wrap) (simp_all add: unat_hog_chunk)
  have d: "unat limit - (unat got + 8388608) = unat limit - unat got - 8388608" by simp
  show "chunks_left limit got = chunks_left limit (got + hog_chunk) + 1"
    unfolding chunks_left_def u d by (rule chunk_count) (use g in simp)
qed

lemma hog_alloc_ends:
  assumes "unat limit + 8388608 \<le> 2 ^ 64"
  shows "\<exists>ok s' ps. hog_alloc al limit got s = Some (ok, s') \<and> hg_keep s' = hg_keep s @ ps \<and> 0 \<notin> set ps \<and>
    length ps \<le> chunks_left limit got \<and> ok = (length ps = chunks_left limit got)"
proof (induction "chunks_left limit got" arbitrary: got s)
  case 0
  then have "\<not> got < limit" using chunks_left_step [OF assms] by (metis Suc_eq_plus1 nat.distinct(1))
  then have "hog_alloc al limit got s = Some (True, s)" by (subst hog_alloc.simps) simp
  then show ?case using 0 by (intro exI [of _ True]) simp
next
  case (Suc n)
  show ?case
  proof (cases "got < limit")
    case True
    note c = chunks_left_step(1) [OF assms True]
    obtain p h where a: "al hog_chunk (hg_heap s) = (p, h)" by fastforce
    show ?thesis
    proof (cases "p = 0")
      case True
      then have "hog_alloc al limit got s = Some (False, s\<lparr>hg_heap := h\<rparr>)"
        using \<open>got < limit\<close> a by (subst hog_alloc.simps) simp
      then show ?thesis using c by (intro exI [of _ False]) simp
    next
      case False
      let ?s = "s\<lparr>hg_heap := h, hg_mem := mem_set p 0x5a hog_chunk (hg_mem s), hg_keep := hg_keep s @ [p]\<rparr>"
      have "n = chunks_left limit (got + hog_chunk)" using Suc.hyps(2) c by simp
      from Suc.hyps(1) [OF this, of ?s] obtain ok s' ps where r:
        "hog_alloc al limit (got + hog_chunk) ?s = Some (ok, s')" "hg_keep s' = hg_keep s @ p # ps" "0 \<notin> set ps"
        "length ps \<le> chunks_left limit (got + hog_chunk)" "ok = (length ps = chunks_left limit (got + hog_chunk))" by auto
      have "hog_alloc al limit got s = Some (ok, s')"
        using r(1) a True False by (subst hog_alloc.simps) simp
      moreover have "0 \<notin> set (p # ps)" "length (p # ps) \<le> chunks_left limit got"
        "ok = (length (p # ps) = chunks_left limit got)" using r(3-5) False c by simp_all
      ultimately show ?thesis using r(2) by blast
    qed
  next
    case False
    then have "unat limit \<le> unat got" by (simp add: word_less_nat_alt)
    then have "chunks_left limit got = 0" by (simp add: chunks_left_def)
    then show ?thesis using Suc.hyps(2) by simp
  qed
qed

text \<open>With a limit so high that the counter wraps before it, and an allocator that never fails, it does not end.\<close>

lemma hog_alloc_wraps:
  assumes "2 ^ 64 - 8388608 < unat limit" "unat got mod 8388608 = 0" "\<And>n h. fst (al n h) \<noteq> 0"
  shows "hog_alloc al limit got s = None"
proof (rule ccontr)
  assume "\<not> ?thesis"
  then obtain r where r: "hog_alloc al limit got s = Some r" by blast
  have "2 ^ 64 - 8388608 < unat limit \<and> (\<forall>n h. fst (al n h) \<noteq> 0) \<longrightarrow> unat got mod 8388608 \<noteq> 0"
  proof (rule hog_alloc.raw_induct [where P = "\<lambda>al limit got s r. 2 ^ 64 - 8388608 < unat limit \<and>
      (\<forall>n h. fst (al n h) \<noteq> 0) \<longrightarrow> unat got mod 8388608 \<noteq> 0", OF _ r], intro impI notI)
    fix f :: "(u64 \<Rightarrow> 'a \<Rightarrow> u64 \<times> 'a) \<Rightarrow> u64 \<Rightarrow> u64 \<Rightarrow> 'a hog \<Rightarrow> (bool \<times> 'a hog) option"
    fix al :: "u64 \<Rightarrow> 'a \<Rightarrow> u64 \<times> 'a" and limit got s r
    assume ih: "\<And>al limit got s r. f al limit got s = Some r \<Longrightarrow> 2 ^ 64 - 8388608 < unat limit \<and>
        (\<forall>n h. fst (al n h) \<noteq> 0) \<longrightarrow> unat got mod 8388608 \<noteq> 0"
    assume e: "(if got < limit
        then (case al hog_chunk (hg_heap s) of (p, h) \<Rightarrow>
            if p = 0 then Some (False, s\<lparr>hg_heap := h\<rparr>)
            else f al limit (got + hog_chunk)
                   (s\<lparr>hg_heap := h, hg_mem := mem_set p 0x5a hog_chunk (hg_mem s), hg_keep := hg_keep s @ [p]\<rparr>))
        else Some (True, s)) = Some r"
    assume h: "2 ^ 64 - 8388608 < unat limit \<and> (\<forall>n h. fst (al n h) \<noteq> 0)" and m: "unat got mod 8388608 = 0"
    have "unat got \<le> 2 ^ 64 - 8388608"
    proof -
      obtain k where k: "unat got = 8388608 * k" using m by (auto simp: mod_eq_0_iff_dvd elim: dvdE)
      have "unat got < 8388608 * 2199023255552" using unsigned_less [of got] by simp
      then have "k < 2199023255552" using k by simp
      then show ?thesis using k by simp
    qed
    then have "got < limit" using h by (simp add: word_less_nat_alt)
    moreover obtain p q where p: "al hog_chunk (hg_heap s) = (p, q)" by fastforce
    moreover have "p \<noteq> 0" using h p by (metis fst_conv)
    ultimately have "unat (got + hog_chunk) mod 8388608 \<noteq> 0" using e ih h by auto
    moreover have "unat (got + hog_chunk) = (unat got + 8388608) mod 2 ^ 64"
      by (simp add: unat_word_ariths unat_hog_chunk)
    moreover have "(8388608 :: nat) dvd 2 ^ 64" by simp
    ultimately show False using m by (metis mod_add_self2 mod_mod_cancel)
  qed
  then show False using assms by auto
qed

section \<open>What the chunks hold\<close>

definition hog_filled :: "'h hog \<Rightarrow> bool" where
  "hog_filled s \<longleftrightarrow> (\<forall>p\<in>set (hg_keep s). \<forall>i<8388608. hg_mem s (p + of_nat i) = 0x5a)"

lemma hog_filled_chunk:
  assumes "hog_filled s"
  shows "hog_filled (s\<lparr>hg_heap := h, hg_mem := mem_set p 0x5a hog_chunk (hg_mem s), hg_keep := hg_keep s @ [p]\<rparr>)"
proof -
  have "(of_nat i :: u64) < hog_chunk" if "i < 8388608" for i
    using that unat_of_nat_small [of i, where ?'a = 64] by (simp add: word_less_nat_alt unat_hog_chunk)
  then show ?thesis using assms by (auto simp: hog_filled_def mem_set_def)
qed

lemma hog_alloc_fills:
  assumes r: "hog_alloc al limit got s = Some (ok, s')" and f: "hog_filled s"
  shows "hog_filled s'"
proof -
  have "hog_filled s \<longrightarrow> hog_filled (snd (ok, s'))"
  proof (rule hog_alloc.raw_induct [where P = "\<lambda>al limit got s r. hog_filled s \<longrightarrow> hog_filled (snd r)", OF _ r], intro impI)
    fix f :: "(u64 \<Rightarrow> 'a \<Rightarrow> u64 \<times> 'a) \<Rightarrow> u64 \<Rightarrow> u64 \<Rightarrow> 'a hog \<Rightarrow> (bool \<times> 'a hog) option"
    fix al :: "u64 \<Rightarrow> 'a \<Rightarrow> u64 \<times> 'a" and limit got s r
    assume ih: "\<And>al limit got s r. f al limit got s = Some r \<Longrightarrow> hog_filled s \<longrightarrow> hog_filled (snd r)"
    assume e: "(if got < limit
        then (case al hog_chunk (hg_heap s) of (p, h) \<Rightarrow>
            if p = 0 then Some (False, s\<lparr>hg_heap := h\<rparr>)
            else f al limit (got + hog_chunk)
                   (s\<lparr>hg_heap := h, hg_mem := mem_set p 0x5a hog_chunk (hg_mem s), hg_keep := hg_keep s @ [p]\<rparr>))
        else Some (True, s)) = Some r" and h: "hog_filled s"
    obtain p q where p: "al hog_chunk (hg_heap s) = (p, q)" by fastforce
    have "hog_filled (s\<lparr>hg_heap := q\<rparr>)" using h by (simp add: hog_filled_def)
    then show "hog_filled (snd r)" using e p h ih hog_filled_chunk [where h = q and p = p, OF h] by (auto split: if_splits)
  qed
  then show ?thesis using f by simp
qed

lemma hog_touch_chunk_at:
  "4096 dvd unat off \<Longrightarrow> hog_touch_chunk v limit p off m x =
    (if \<exists>i. unat off \<le> i \<and> i < unat limit \<and> i < 8388608 \<and> 4096 dvd i \<and> x = p + of_nat i then v else m x)"
proof (induction v limit p off m rule: hog_touch_chunk.induct)
  case (1 v limit p off m)
  show ?case
  proof (cases "off < limit \<and> off < hog_chunk")
    case True
    then have u: "unat (off + 4096) = unat off + 4096" by (simp add: unat_off_step)
    have b: "unat off < unat limit" "unat off < 8388608" using True by (simp_all add: word_less_nat_alt unat_hog_chunk)
    have split: "(\<exists>i. unat off \<le> i \<and> i < unat limit \<and> i < 8388608 \<and> 4096 dvd i \<and> x = p + of_nat i) \<longleftrightarrow>
        x = p + off \<or> (\<exists>i. unat off + 4096 \<le> i \<and> i < unat limit \<and> i < 8388608 \<and> 4096 dvd i \<and> x = p + of_nat i)"
      (is "?L \<longleftrightarrow> ?R")
    proof
      assume ?L
      then obtain i where i: "unat off \<le> i" "i < unat limit" "i < 8388608" "4096 dvd i" "x = p + of_nat i" by blast
      show ?R
      proof (cases "i = unat off")
        case True
        then show ?thesis using i(5) by simp
      next
        case False
        obtain a b where "i = 4096 * a" "unat off = 4096 * b" using i(4) 1(2) by (auto elim!: dvdE)
        then have "unat off + 4096 \<le> i" using False i(1) by simp
        then show ?thesis using i by blast
      qed
    next
      assume ?R
      then show ?L
      proof
        assume "x = p + off"
        then show ?L using b 1(2) by (intro exI [of _ "unat off"]) simp
      next
        assume "\<exists>i. unat off + 4096 \<le> i \<and> i < unat limit \<and> i < 8388608 \<and> 4096 dvd i \<and> x = p + of_nat i"
        then obtain i where "unat off + 4096 \<le> i" "i < unat limit" "i < 8388608" "4096 dvd i" "x = p + of_nat i" by blast
        then show ?L by (intro exI [of _ i]) simp
      qed
    qed
    have dv: "4096 dvd unat (off + 4096)" using 1(2) by (simp add: u)
    have "hog_touch_chunk v limit p off m x = hog_touch_chunk v limit p (off + 4096) (m(p + off := v)) x"
      using True by (subst hog_touch_chunk.simps) simp
    also have "\<dots> = (if \<exists>i. unat off + 4096 \<le> i \<and> i < unat limit \<and> i < 8388608 \<and> 4096 dvd i \<and> x = p + of_nat i then v
        else (m(p + off := v)) x)"
      by (rule 1(1) [OF True dv, unfolded u])
    finally have r: "hog_touch_chunk v limit p off m x = (if \<exists>i. unat off + 4096 \<le> i \<and> i < unat limit \<and> i < 8388608 \<and>
        4096 dvd i \<and> x = p + of_nat i then v else (m(p + off := v)) x)" .
    define B where "B \<longleftrightarrow> (\<exists>i. unat off + 4096 \<le> i \<and> i < unat limit \<and> i < 8388608 \<and> 4096 dvd i \<and> x = p + of_nat i)"
    show ?thesis unfolding split r B_def [symmetric] by simp
  next
    case False
    then have "\<not> (\<exists>i. unat off \<le> i \<and> i < unat limit \<and> i < 8388608)"
      by (auto simp: word_less_nat_alt unat_hog_chunk)
    then show ?thesis using False by (subst hog_touch_chunk.simps) auto
  qed
qed

definition hog_page :: "u64 \<Rightarrow> u64 \<Rightarrow> u64 \<Rightarrow> bool" where
  "hog_page limit p x \<longleftrightarrow> (\<exists>i. i < unat limit \<and> i < 8388608 \<and> 4096 dvd i \<and> x = p + of_nat i)"

lemma hog_touch_at:
  "hog_touch v limit ps m x = (if \<exists>p\<in>set ps. hog_page limit p x then v else m x)"
  by (induction ps arbitrary: m) (auto simp: hog_touch_def hog_page_def hog_touch_chunk_at)

definition chunks_apart :: "u64 list \<Rightarrow> bool" where
  "chunks_apart ps \<longleftrightarrow> (\<forall>p\<in>set ps. \<forall>q\<in>set ps. \<forall>i<8388608. \<forall>j<8388608. p + of_nat i = q + of_nat j \<longrightarrow> p = q)"

lemma hog_page_in:
  assumes "chunks_apart ps" "p \<in> set ps" "i < 8388608"
  shows "(\<exists>q\<in>set ps. hog_page limit q (p + of_nat i)) \<longleftrightarrow> i < unat limit \<and> 4096 dvd i"
proof (rule iffI)
  assume "\<exists>q\<in>set ps. hog_page limit q (p + of_nat i)"
  then obtain q j where j: "q \<in> set ps" "j < unat limit" "j < 8388608" "4096 dvd j" "p + of_nat i = q + of_nat j"
    by (auto simp: hog_page_def)
  have "p = q" by (rule assms(1) [unfolded chunks_apart_def, rule_format, OF assms(2) j(1) assms(3) j(3,5)])
  then have "unat (of_nat i :: u64) = unat (of_nat j :: u64)" using j(5) by simp
  moreover have "unat (of_nat i :: u64) = i" "unat (of_nat j :: u64) = j"
    by (rule unat_of_nat_small, use assms(3) j(3) in simp)+
  ultimately show "i < unat limit \<and> 4096 dvd i" using j(2,4) by simp
next
  assume "i < unat limit \<and> 4096 dvd i"
  then have "hog_page limit p (p + of_nat i)" unfolding hog_page_def using assms(3) by blast
  then show "\<exists>q\<in>set ps. hog_page limit q (p + of_nat i)" using assms(2) by blast
qed

lemma hog_ticks_keep: "hg_keep (fold (hog_tick limit phase) is s) = hg_keep s"
  by (induction "is" arbitrary: s) (simp_all add: hog_tick_def)

lemma hog_ticks_other:
  "\<not> (\<exists>p\<in>set (hg_keep s). hog_page limit p x) \<Longrightarrow> hg_mem (fold (hog_tick limit phase) is s) x = hg_mem s x"
  by (induction "is" arbitrary: s) (simp_all add: hog_tick_def hog_touch_at)

lemma hog_ticks_page:
  assumes "p \<in> set (hg_keep s)" "hog_page limit p x"
  shows "hg_mem (fold (hog_tick limit phase) [0..<100] s) x = 98"
proof -
  have "[0..<100] = [0..<98] @ [98, 99]" by (simp add: upt_rec)
  moreover define s1 where "s1 = fold (hog_tick limit phase) [0..<98] s"
  ultimately have "fold (hog_tick limit phase) [0..<100] s = hog_tick limit phase 99 (hog_tick limit phase 98 s1)"
    by simp
  moreover have "hg_keep s1 = hg_keep s" by (simp add: s1_def hog_ticks_keep)
  ultimately show ?thesis using assms by (auto simp: hog_tick_def hog_touch_at)
qed

section \<open>The whole run\<close>

lemma hog_limit: "mb < 2 ^ 31 \<Longrightarrow> unat (push_bit 20 mb) = unat mb * 2 ^ 20" for mb :: u64
  by (simp add: push_bit_eq_mult word_less_nat_alt unat_word_ariths)

lemma chunks_total: "mb < 2 ^ 31 \<Longrightarrow> chunks_left (push_bit 20 mb) 0 = (unat mb + 7) div 8"
proof -
  assume "mb < 2 ^ 31"
  then have "chunks_left (push_bit 20 mb) 0 = (unat mb * 1048576 + 8388607) div 8388608"
    by (simp add: chunks_left_def hog_limit)
  also have "\<dots> = ((unat mb * 1048576 + 8388607) div 1048576) div 8" by (simp flip: div_mult2_eq)
  also have "(unat mb * 1048576 + 8388607) div 1048576 = unat mb + 7" by simp
  finally show ?thesis .
qed

text \<open>C38. For up to \<open>2^31 - 1\<close> megabytes \<open>memhog\<close> ends, whatever the allocator answers. It keeps at most one chunk of 8 MiB for every 8
  megabytes begun, none of them null, and exits with 0 if it got them all and 1 otherwise. In the first case, when the chunks do not
  overlap, every page asked for ends up with the mark of the last active tick, 98, in its first
  byte, and all other bytes hold the initial fill.\<close>

theorem memhog_run:
  assumes "hog_mb argv < 2 ^ 31" "hg_keep s = []"
  shows "\<exists>code evs s'. hog_main al pid argv s = Some (code, evs, s') \<and> 0 \<notin> set (hg_keep s') \<and>
    length (hg_keep s') \<le> (unat (hog_mb argv) + 7) div 8 \<and>
    code = (if length (hg_keep s') = (unat (hog_mb argv) + 7) div 8 then 0 else 1) \<and>
    (code = 0 \<longrightarrow> chunks_apart (hg_keep s') \<longrightarrow> (\<forall>p\<in>set (hg_keep s'). \<forall>i<8388608.
       hg_mem s' (p + of_nat i) = (if i < unat (hog_mb argv) * 2 ^ 20 \<and> 4096 dvd i then 98 else 0x5a)))"
proof -
  define limit where "limit = push_bit 20 (hog_mb argv)"
  have l: "unat limit = unat (hog_mb argv) * 2 ^ 20" unfolding limit_def by (rule hog_limit [OF assms(1)])
  have "unat limit + 8388608 \<le> 2 ^ 64" using assms(1) by (simp add: l word_less_nat_alt)
  from hog_alloc_ends [OF this, of al 0 s] obtain ok s1 where a:
    "hog_alloc al limit 0 s = Some (ok, s1)" "0 \<notin> set (hg_keep s1)" "length (hg_keep s1) \<le> (unat (hog_mb argv) + 7) div 8"
    "ok = (length (hg_keep s1) = (unat (hog_mb argv) + 7) div 8)"
    using assms(2) unfolding chunks_total [OF assms(1), folded limit_def] by auto
  have f: "hog_filled s1" using hog_alloc_fills [OF a(1)] assms(2) by (simp add: hog_filled_def)
  show ?thesis
  proof (cases ok)
    case True
    define s2 where "s2 = fold (hog_tick limit (hog_phase argv)) [0..<100] s1"
    have k: "hg_keep s2 = hg_keep s1" by (simp add: s2_def hog_ticks_keep)
    have "hg_mem s2 (p + of_nat i) = (if i < unat limit \<and> 4096 dvd i then 98 else 0x5a)"
      if "chunks_apart (hg_keep s1)" "p \<in> set (hg_keep s1)" "i < 8388608" for p i
    proof (cases "i < unat limit \<and> 4096 dvd i")
      case True
      then have "hog_page limit p (p + of_nat i)" using that(3) by (auto simp: hog_page_def)
      then show ?thesis using True hog_ticks_page [OF that(2)] by (simp add: s2_def)
    next
      case False
      then have "\<not> (\<exists>q\<in>set (hg_keep s1). hog_page limit q (p + of_nat i))" using hog_page_in [OF that] by simp
      then have "hg_mem s2 (p + of_nat i) = hg_mem s1 (p + of_nat i)" unfolding s2_def by (rule hog_ticks_other)
      also have "\<dots> = 0x5a" using f that(2,3) by (simp add: hog_filled_def)
      finally show ?thesis using False by simp
    qed
    moreover obtain evs where "hog_main al pid argv s = Some (0, evs, s2)"
      using a(1) True by (simp add: hog_main_def Let_def limit_def s2_def)
    moreover have "length (hg_keep s1) = (unat (hog_mb argv) + 7) div 8" using a(4) True by simp
    ultimately show ?thesis using a(2) k l by (intro exI [of _ 0] exI [of _ evs] exI [of _ s2]) simp
  next
    case False
    then obtain evs where "hog_main al pid argv s = Some (1, evs, s1)"
      using a(1) by (simp add: hog_main_def Let_def limit_def)
    moreover have "length (hg_keep s1) \<noteq> (unat (hog_mb argv) + 7) div 8" using a(4) False by simp
    ultimately show ?thesis using a(2,3) by (intro exI [of _ 1] exI [of _ evs] exI [of _ s1]) simp
  qed
qed

text \<open>An allocator that hands out one chunk after the other from \<open>2^32\<close>.\<close>

definition hog_demo_al :: "u64 \<Rightarrow> u64 \<Rightarrow> u64 \<times> u64" where
  "hog_demo_al n h = (h, h + n)"

definition hog_demo :: "u64 hog" where
  "hog_demo = \<lparr>hg_heap = 4294967296, hg_mem = (\<lambda>_. 0), hg_keep = []\<rparr>"

theorem memhog_run_witness:
  "hog_mb [''memhog'', ''20''] = 20 \<and>
   (\<exists>code evs s'. hog_main hog_demo_al 7 [''memhog'', ''20''] hog_demo = Some (code, evs, s') \<and> length (hg_keep s') \<le> 3)"
proof -
  have m: "hog_mb [''memhog'', ''20''] = 20" by code_simp
  then have h: "hog_mb [''memhog'', ''20''] < 2 ^ 31" "hg_keep hog_demo = []" by (simp_all add: hog_demo_def)
  from memhog_run [OF h, of hog_demo_al 7] m show ?thesis by auto
qed

end
