(* ===== verification/BenchAlloc.thy ===== *)
theory BenchAlloc
  imports SizeClasses CScan "HOL-Library.Multiset"
begin

text \<open>
  The allocator benchmark (\<open>src/src/tools/bench_alloc.cpp\<close>): worker threads that allocate blocks of random sizes, keep at most
  3000 of them each and free a random one beyond that. The allocator and the kernel file the
  resident size is read from are parameters; the workers interleave, one iteration of the loop at a time.
  The generator is the standard \<open>mt19937\<close>.
\<close>

section \<open>The random numbers of \<open>std::mt19937\<close>\<close>

record mt =
  mt_state :: "u32 list"
  mt_index :: nat

fun mt_fill :: "nat \<Rightarrow> u32 \<Rightarrow> nat \<Rightarrow> u32 list" where
  "mt_fill 0 x i = []"
| "mt_fill (Suc n) x i = x # mt_fill n (1812433253 * (x XOR drop_bit 30 x) + of_nat (Suc i)) (Suc i)"

definition mt_seed :: "u32 \<Rightarrow> mt" where
  "mt_seed x = \<lparr>mt_state = mt_fill 624 x 0, mt_index = 624\<rparr>"

definition mt_twist1 :: "nat \<Rightarrow> u32 list \<Rightarrow> u32 list" where
  "mt_twist1 i xs =
     (let y = (xs ! i AND 0x80000000) OR (xs ! ((i + 1) mod 624) AND 0x7FFFFFFF)
      in xs[i := xs ! ((i + 397) mod 624) XOR drop_bit 1 y XOR (if bit y 0 then 0x9908B0DF else 0)])"

definition mt_temper :: "u32 \<Rightarrow> u32" where
  "mt_temper y0 =
     (let y1 = y0 XOR drop_bit 11 y0;
          y2 = y1 XOR (push_bit 7 y1 AND 0x9D2C5680);
          y3 = y2 XOR (push_bit 15 y2 AND 0xEFC60000)
      in y3 XOR drop_bit 18 y3)"

definition mt_next :: "mt \<Rightarrow> u32 \<times> mt" where
  "mt_next g =
     (let h = (if mt_index g \<ge> 624 then \<lparr>mt_state = fold mt_twist1 [0..<624] (mt_state g), mt_index = 0\<rparr> else g)
      in (mt_temper (mt_state h ! mt_index h), h\<lparr>mt_index := mt_index h + 1\<rparr>))"

section \<open>Reading the resident size\<close>

text \<open>\<open>fscanf(f, "%llu %llu", &tot, &rss)\<close> on \<open>/proc/self/statm\<close>; pages of 4 kB.\<close>

definition bench_rss_kb :: "string option \<Rightarrow> u64" where
  "bench_rss_kb statm =
     (case statm of None \<Rightarrow> 0
      | Some t \<Rightarrow> (case scan_ull t of None \<Rightarrow> 0
          | Some (tot, rest) \<Rightarrow> (case scan_ull rest of None \<Rightarrow> 0 | Some (rss, _) \<Rightarrow> rss * 4)))"

section \<open>Workers\<close>

record worker =
  wk_tid :: nat
  wk_rng :: mt
  wk_i :: int
  wk_live :: "(u64 \<times> u64) list"
  wk_done :: bool

text \<open>What a worker does to the heap: a block got (or not), its first bytes filled, a block given back.\<close>

datatype bench_call = Got u64 u64 | Fill u64 u8 u64 | Gave u64

record 'h bench_env =
  be_malloc :: "nat \<Rightarrow> u64 \<Rightarrow> 'h \<Rightarrow> u64 \<times> 'h"
  be_free :: "nat \<Rightarrow> u64 \<Rightarrow> 'h \<Rightarrow> 'h"
  be_memset :: "u64 \<Rightarrow> u8 \<Rightarrow> u64 \<Rightarrow> 'h \<Rightarrow> 'h"
  be_statm :: "'h \<Rightarrow> string option"

record 'h bench =
  bn_heap :: 'h
  bn_peak :: u64
  bn_log :: "bench_call list"
  bn_workers :: "worker list"

text \<open>The size of the next request.\<close>

definition bench_size :: "mt \<Rightarrow> u64 \<times> mt" where
  "bench_size g0 =
     (let (r1, g1) = mt_next g0;
          sz = ucast (push_bit (8 + unat (r1 mod 12)) (1 :: u32));
          (r2, g2) = mt_next g1
      in if r2 mod 100 < 15
         then (let (r3, g3) = mt_next g2 in (8 + ucast (r3 mod 4096), g3))
         else (sz, g2))"

definition worker_alloc :: "'h bench_env \<Rightarrow> worker \<Rightarrow> 'h bench \<Rightarrow> worker \<times> 'h bench" where
  "worker_alloc env w s =
     (let (sz, g) = bench_size (wk_rng w);
          (p, h) = be_malloc env (wk_tid w) sz (bn_heap s)
      in if p \<noteq> 0
         then (let (r, g') = mt_next g; v = ucast (r AND 0xFF); n = (if sz < 64 then sz else 64)
               in (w\<lparr>wk_rng := g', wk_live := wk_live w @ [(p, sz)]\<rparr>,
                   s\<lparr>bn_heap := be_memset env p v n h, bn_log := bn_log s @ [Got p sz, Fill p v n]\<rparr>))
         else (w\<lparr>wk_rng := g\<rparr>, s\<lparr>bn_heap := h, bn_log := bn_log s @ [Got 0 sz]\<rparr>))"

text \<open>\<open>free(live[k].first); live[k] = live.back(); live.pop_back();\<close>\<close>

definition worker_evict :: "'h bench_env \<Rightarrow> worker \<Rightarrow> 'h bench \<Rightarrow> worker \<times> 'h bench" where
  "worker_evict env w s =
     (if length (wk_live w) > 3000
      then (let (r, g) = mt_next (wk_rng w);
                k = unat r mod length (wk_live w);
                p = fst (wk_live w ! k)
            in (w\<lparr>wk_rng := g, wk_live := butlast ((wk_live w)[k := last (wk_live w)])\<rparr>,
                s\<lparr>bn_heap := be_free env (wk_tid w) p (bn_heap s), bn_log := bn_log s @ [Gave p]\<rparr>))
      else (w, s))"

text \<open>Every 4096th iteration updates the peak; the loop around \<open>compare_exchange_weak\<close> stores the larger value.\<close>

definition worker_sample :: "'h bench_env \<Rightarrow> worker \<Rightarrow> 'h bench \<Rightarrow> 'h bench" where
  "worker_sample env w s =
     (if wk_i w AND 0xFFF = 0
      then (let r = bench_rss_kb (be_statm env (bn_heap s)); e = bn_peak s in if r > e then s\<lparr>bn_peak := r\<rparr> else s)
      else s)"

definition worker_iter :: "'h bench_env \<Rightarrow> worker \<Rightarrow> 'h bench \<Rightarrow> worker \<times> 'h bench" where
  "worker_iter env w s =
     (let (w1, s1) = worker_alloc env w s;
          (w2, s2) = worker_evict env w1 s1;
          s3 = worker_sample env w2 s2
      in (w2\<lparr>wk_i := wk_i w2 + 1\<rparr>, s3))"

definition worker_finish :: "'h bench_env \<Rightarrow> worker \<Rightarrow> 'h bench \<Rightarrow> worker \<times> 'h bench" where
  "worker_finish env w s =
     (w\<lparr>wk_live := [], wk_done := True\<rparr>,
      s\<lparr>bn_heap := fold (\<lambda>b. be_free env (wk_tid w) (fst b)) (wk_live w) (bn_heap s),
        bn_log := bn_log s @ map (\<lambda>b. Gave (fst b)) (wk_live w)\<rparr>)"

definition worker_step :: "'h bench_env \<Rightarrow> int \<Rightarrow> worker \<Rightarrow> 'h bench \<Rightarrow> worker \<times> 'h bench" where
  "worker_step env iters w s = (if wk_i w < iters then worker_iter env w s else worker_finish env w s)"

section \<open>The program\<close>

definition bench_threads :: "string list \<Rightarrow> int" where
  "bench_threads argv = (if length argv > 1 then sint (atoi (argv ! 1)) else 4)"

definition bench_iters :: "string list \<Rightarrow> int" where
  "bench_iters argv = (if length argv > 2 then sint (atoi (argv ! 2)) else 200000)"

definition bench_start :: "string list \<Rightarrow> 'h \<Rightarrow> 'h bench" where
  "bench_start argv h =
     \<lparr>bn_heap = h, bn_peak = 0, bn_log = [],
      bn_workers = map (\<lambda>i. \<lparr>wk_tid = i, wk_rng = mt_seed (of_nat i + 1), wk_i = 0, wk_live = [], wk_done = False\<rparr>)
        [0..<nat (bench_threads argv)]\<rparr>"

text \<open>Some worker that is not done makes a step.\<close>

inductive bench_step :: "'h bench_env \<Rightarrow> int \<Rightarrow> 'h bench \<Rightarrow> 'h bench \<Rightarrow> bool" for env iters where
  bench_worker: "k < length (bn_workers s) \<Longrightarrow> \<not> wk_done (bn_workers s ! k) \<Longrightarrow>
    worker_step env iters (bn_workers s ! k) s = (w, s') \<Longrightarrow>
    bench_step env iters s (s'\<lparr>bn_workers := (bn_workers s)[k := w]\<rparr>)"

definition bench_hello :: "string list \<Rightarrow> int \<Rightarrow> string" where
  "bench_hello argv pid = ''bench_alloc: threads='' @ show_int (bench_threads argv) @ '' iters='' @ show_int (bench_iters argv) @
     '' pid='' @ show_int pid @ [newline]"

definition bench_report :: "int \<Rightarrow> 'h bench_env \<Rightarrow> 'h bench \<Rightarrow> string" where
  "bench_report ms env s = ''time='' @ show_int ms @ ''ms peak_rss='' @ show_nat (unat (bn_peak s div 1024)) @
     ''MB final_rss='' @ show_nat (unat (bench_rss_kb (be_statm env (bn_heap s)) div 1024)) @ ''MB'' @ [newline]"

section \<open>Balance\<close>

text \<open>Replays the calls: the blocks held, or \<open>None\<close> when one is given back that is not held.\<close>

fun replay :: "bench_call list \<Rightarrow> u64 multiset \<Rightarrow> u64 multiset option" where
  "replay [] m = Some m"
| "replay (Got p sz # cs) m = replay cs (if p = 0 then m else add_mset p m)"
| "replay (Fill p v n # cs) m = (if p \<in># m then replay cs m else None)"
| "replay (Gave p # cs) m = (if p \<in># m then replay cs (m - {#p#}) else None)"

lemma replay_append: "replay (a @ b) m = Option.bind (replay a m) (replay b)"
  by (induction a m rule: replay.induct) auto

definition held_by :: "worker \<Rightarrow> u64 multiset" where
  "held_by w = mset (map fst (wk_live w))"

lemma replay_gave_all: "replay (map (\<lambda>b. Gave (fst b)) bs) (mset (map fst bs) + m) = Some m"
  by (induction bs) auto

lemma mset_evict:
  assumes "k < length xs"
  shows "add_mset (xs ! k) (mset (butlast (xs[k := last xs]))) = mset xs"
proof -
  have ne: "xs \<noteq> []" using assms by auto
  then obtain ys y where xs: "xs = ys @ [y]" by (metis append_butlast_last_id)
  show ?thesis
  proof (cases "k = length ys")
    case True
    then show ?thesis using xs by simp
  next
    case False
    then have k: "k < length ys" using assms xs by simp
    then have "mset (ys[k := y]) = add_mset y (mset ys - {#ys ! k#})" by (rule mset_update)
    moreover have "butlast (xs[k := last xs]) = ys[k := y]" using xs k by (simp add: list_update_append butlast_append)
    moreover have "xs ! k = ys ! k" using xs k by (simp add: nth_append)
    ultimately show ?thesis using xs k by simp
  qed
qed

text \<open>A step of a worker changes the heap log and its own blocks alike, and keeps the bound.\<close>

definition worker_ok :: "'h bench \<Rightarrow> worker \<Rightarrow> 'h bench \<Rightarrow> worker \<Rightarrow> bool" where
  "worker_ok s w s' w' \<longleftrightarrow> bn_workers s' = bn_workers s \<and>
     (\<exists>cs. bn_log s' = bn_log s @ cs \<and> (\<forall>m. replay cs (held_by w + m) = Some (held_by w' + m)))"

lemma worker_ok_refl: "worker_ok s w s w"
  by (simp add: worker_ok_def)

lemma worker_ok_trans: "worker_ok s w s1 w1 \<Longrightarrow> worker_ok s1 w1 s2 w2 \<Longrightarrow> worker_ok s w s2 w2"
  unfolding worker_ok_def by (auto simp: replay_append)

lemma worker_alloc_ok:
  assumes "worker_alloc env w s = (w', s')"
  shows "worker_ok s w s' w'" "length (wk_live w') \<le> length (wk_live w) + 1" "wk_i w' = wk_i w" "wk_done w' = wk_done w"
  using assms by (auto simp: worker_alloc_def worker_ok_def held_by_def Let_def split: prod.splits if_splits)

lemma worker_evict_ok:
  assumes "worker_evict env w s = (w', s')"
  shows "worker_ok s w s' w'" "length (wk_live w') \<le> max 3000 (length (wk_live w) - 1)" "wk_i w' = wk_i w" "wk_done w' = wk_done w"
proof -
  define r where "r = fst (mt_next (wk_rng w))"
  define k where "k = unat r mod length (wk_live w)"
  define live where "live = butlast ((wk_live w)[k := last (wk_live w)])"
  have "worker_ok s w s' w' \<and> length (wk_live w') \<le> max 3000 (length (wk_live w) - 1) \<and> wk_i w' = wk_i w \<and> wk_done w' = wk_done w"
  proof (cases "length (wk_live w) > 3000")
    case True
    then have "0 < length (wk_live w)" by linarith
    then have k: "k < length (wk_live w)" unfolding k_def by (rule mod_less_divisor)
    let ?p = "fst (wk_live w ! k)"
    have w': "w' = w\<lparr>wk_rng := snd (mt_next (wk_rng w)), wk_live := live\<rparr>"
      "s' = s\<lparr>bn_heap := be_free env (wk_tid w) ?p (bn_heap s), bn_log := bn_log s @ [Gave ?p]\<rparr>"
      using assms True by (auto simp: worker_evict_def r_def k_def live_def Let_def split: prod.splits)
    have "mset (wk_live w) = add_mset (wk_live w ! k) (mset live)" using mset_evict [OF k] by (simp add: live_def)
    then have "held_by w = add_mset ?p (held_by w')" by (simp add: held_by_def w' flip: mset_map) (metis image_mset_add_mset mset_map)
    then have "replay [Gave ?p] (held_by w + m) = Some (held_by w' + m)" for m by simp
    then show ?thesis using True by (auto simp: worker_ok_def w' live_def)
  next
    case False
    then show ?thesis using assms by (auto simp: worker_evict_def worker_ok_refl)
  qed
  then show "worker_ok s w s' w'" "length (wk_live w') \<le> max 3000 (length (wk_live w) - 1)" "wk_i w' = wk_i w" "wk_done w' = wk_done w"
    by auto
qed

lemma worker_sample_ok: "bn_workers (worker_sample env w s) = bn_workers s" "bn_log (worker_sample env w s) = bn_log s"
  by (simp_all add: worker_sample_def Let_def)

lemma worker_iter_ok:
  assumes "worker_iter env w s = (w', s')" "length (wk_live w) \<le> 3000"
  shows "worker_ok s w s' w'" "length (wk_live w') \<le> 3000" "wk_i w' = wk_i w + 1" "wk_done w' = wk_done w"
proof -
  obtain w1 s1 where 1: "worker_alloc env w s = (w1, s1)" by fastforce
  obtain w2 s2 where 2: "worker_evict env w1 s1 = (w2, s2)" by fastforce
  have r: "w' = w2\<lparr>wk_i := wk_i w2 + 1\<rparr>" "s' = worker_sample env w2 s2" using assms(1) by (auto simp: worker_iter_def 1 2)
  note a = worker_alloc_ok [OF 1] and e = worker_evict_ok [OF 2]
  have "worker_ok s w s2 w2" using worker_ok_trans [OF a(1) e(1)] .
  then show "worker_ok s w s' w'" by (simp add: worker_ok_def r worker_sample_ok held_by_def)
  have "length (wk_live w1) - 1 \<le> 3000" using a(2) assms(2) by simp
  then show "length (wk_live w') \<le> 3000" using e(2) by (simp add: r)
  show "wk_i w' = wk_i w + 1" "wk_done w' = wk_done w" using a e by (simp_all add: r)
qed

lemma worker_finish_ok:
  assumes "worker_finish env w s = (w', s')"
  shows "worker_ok s w s' w'" "wk_live w' = []"
  using assms replay_gave_all [of "wk_live w"] by (auto simp: worker_finish_def worker_ok_def held_by_def)

lemma worker_step_ok:
  assumes "worker_step env iters w s = (w', s')" "length (wk_live w) \<le> 3000"
  shows "worker_ok s w s' w'" "length (wk_live w') \<le> 3000"
  using assms worker_iter_ok(1,2) [OF _ assms(2)] worker_finish_ok(1) worker_finish_ok(2)
  unfolding worker_step_def by (metis (full_types)) (metis assms worker_step_def list.size(3) zero_le worker_iter_ok(2) worker_finish_ok(2))

section \<open>Whole runs\<close>

definition bench_inv :: "'h bench \<Rightarrow> bool" where
  "bench_inv s \<longleftrightarrow> replay (bn_log s) {#} = Some (\<Sum>w\<leftarrow>bn_workers s. held_by w) \<and>
     (\<forall>w\<in>set (bn_workers s). length (wk_live w) \<le> 3000 \<and> (wk_done w \<longrightarrow> wk_live w = []))"

lemma sum_list_replace:
  fixes f :: "'a \<Rightarrow> 'b::cancel_comm_monoid_add"
  assumes "k < length ws"
  shows "\<exists>m. sum_list (map f ws) = f (ws ! k) + m \<and> sum_list (map f (ws[k := w])) = f w + m"
proof -
  have 1: "ws = take k ws @ ws ! k # drop (Suc k) ws" using assms by (rule id_take_nth_drop)
  have 2: "ws[k := w] = take k ws @ w # drop (Suc k) ws" using assms by (rule upd_conv_take_nth_drop)
  show ?thesis
    by (subst 1, subst 2, rule exI [of _ "sum_list (map f (take k ws)) + sum_list (map f (drop (Suc k) ws))"]) (simp add: ac_simps)
qed

lemma bench_start_inv: "bench_inv (bench_start argv h)"
  by (simp add: bench_inv_def bench_start_def held_by_def o_def sum_list_0)

lemma bench_step_inv:
  assumes "bench_step env iters s s'" "bench_inv s"
  shows "bench_inv s'"
  using assms(1)
proof cases
  case (bench_worker k w s1)
  let ?w = "bn_workers s ! k"
  have m: "?w \<in> set (bn_workers s)" using bench_worker(2) by simp
  then have l: "length (wk_live ?w) \<le> 3000" using assms(2) by (simp add: bench_inv_def)
  note ok = worker_step_ok [OF bench_worker(4) l]
  have d: "wk_done w \<longrightarrow> wk_live w = []"
    using bench_worker(3,4) worker_iter_ok(4) [OF _ l] worker_finish_ok(2)
    by (metis worker_step_def)
  from ok(1) obtain cs where cs: "bn_log s1 = bn_log s @ cs" "\<And>m. replay cs (held_by ?w + m) = Some (held_by w + m)"
    by (auto simp: worker_ok_def)
  obtain m where "(\<Sum>w\<leftarrow>bn_workers s. held_by w) = held_by ?w + m"
    "(\<Sum>w\<leftarrow>(bn_workers s)[k := w]. held_by w) = held_by w + m" using sum_list_replace [OF bench_worker(2)] by blast
  then have "replay (bn_log s1) {#} = Some (\<Sum>w\<leftarrow>(bn_workers s)[k := w]. held_by w)"
    using assms(2) cs by (simp add: bench_inv_def replay_append)
  moreover have "\<forall>v\<in>set ((bn_workers s)[k := w]). length (wk_live v) \<le> 3000 \<and> (wk_done v \<longrightarrow> wk_live v = [])"
    using assms(2) ok(2) d set_update_subset_insert [of "bn_workers s" k w] by (auto simp: bench_inv_def)
  ultimately show ?thesis using bench_worker(1) by (simp add: bench_inv_def)
qed

text \<open>However the workers interleave and whatever the allocator answers, the benchmark gives back only blocks it was given and still holds,
  writes only to such blocks, and holds at most 3000 for each worker between iterations; when all
  workers are done every block was given back exactly once.\<close>

theorem bench_balanced:
  assumes "(bench_step env (bench_iters argv))\<^sup>*\<^sup>* (bench_start argv h) s"
  shows "\<exists>m. replay (bn_log s) {#} = Some m \<and> size m \<le> 3000 * length (bn_workers s) \<and>
    ((\<forall>w\<in>set (bn_workers s). wk_done w) \<longrightarrow> m = {#})"
proof -
  have i: "bench_inv s"
    using assms by (induction rule: rtranclp_induct) (auto intro: bench_start_inv bench_step_inv)
  have "size (\<Sum>w\<leftarrow>ws. held_by w) \<le> 3000 * length ws" if "\<forall>w\<in>set ws. length (wk_live w) \<le> 3000" for ws
    using that by (induction ws) (auto simp: held_by_def)
  then have "size (\<Sum>w\<leftarrow>bn_workers s. held_by w) \<le> 3000 * length (bn_workers s)" using i by (simp add: bench_inv_def)
  moreover have "(\<Sum>w\<leftarrow>ws. held_by w) = {#}" if "\<forall>w\<in>set ws. wk_live w = []" for ws
    using that by (induction ws) (auto simp: held_by_def)
  ultimately show ?thesis using i by (auto simp: bench_inv_def)
qed

text \<open>The sizes it asks for: never 0, and always below the threshold of large blocks, so that
  the path of \<open>malloc\<close> for large requests is not measured.\<close>

lemma bench_sizes: "8 \<le> fst (bench_size g) \<and> fst (bench_size g) \<le> 524288 \<and> fst (bench_size g) < kLargeMin"
proof -
  have "8 \<le> fst (bench_size g) \<and> fst (bench_size g) \<le> 524288"
  proof -
    obtain r1 g1 where 1: "mt_next g = (r1, g1)" by fastforce
    obtain r2 g2 where 2: "mt_next g1 = (r2, g2)" by fastforce
    obtain r3 g3 where 3: "mt_next g2 = (r3, g3)" by fastforce
    have m: "unat (r1 mod 12) < 12" "unat (r3 mod 4096) < 4096" by (simp_all add: unat_mod)
    have "unat (push_bit (8 + unat (r1 mod 12)) (1 :: u32)) = 2 ^ (8 + unat (r1 mod 12))"
      using m(1) by (simp add: push_bit_eq_mult unat_pow2)
    moreover have "(2::nat) ^ 8 \<le> 2 ^ (8 + unat (r1 mod 12))" "(2::nat) ^ (8 + unat (r1 mod 12)) \<le> 2 ^ 19"
      using m(1) by (intro power_increasing; simp)+
    ultimately have "256 \<le> unat (ucast (push_bit (8 + unat (r1 mod 12)) (1 :: u32)) :: u64)"
      "unat (ucast (push_bit (8 + unat (r1 mod 12)) (1 :: u32)) :: u64) \<le> 524288"
      by (simp_all add: unat_ucast_small)
    moreover have "unat (8 + ucast (r3 mod 4096) :: u64) = 8 + unat (r3 mod 4096)"
      using m(2) by (subst unat_add_no_wrap) (simp_all add: unat_ucast_small)
    ultimately show ?thesis using m(2) by (auto simp: bench_size_def Let_def 1 2 3 word_le_nat_alt)
  qed
  moreover have "(524288 :: u64) < kLargeMin" by (simp add: kLargeMin_def)
  ultimately show ?thesis by (meson le_less_trans)
qed

text \<open>An allocator that never reuses an address, and one worker that makes a single request.\<close>

definition bench_demo_env :: "u64 bench_env" where
  "bench_demo_env = \<lparr>be_malloc = (\<lambda>_ n h. (h, h + n)), be_free = (\<lambda>_ _ h. h), be_memset = (\<lambda>_ _ _ h. h), be_statm = (\<lambda>_. Some ''100 25'')\<rparr>"

definition bench_demo_argv :: "string list" where
  "bench_demo_argv = [''bench_alloc'', ''1'', ''1'']"

lemma bench_demo_run:
  "\<exists>s. (bench_step bench_demo_env (bench_iters bench_demo_argv))\<^sup>*\<^sup>* (bench_start bench_demo_argv 4096) s \<and>
     (\<forall>w\<in>set (bn_workers s). wk_done w) \<and> bn_log s \<noteq> []"
proof -
  have n: "bench_iters bench_demo_argv = 1" "bench_threads bench_demo_argv = 1"
    unfolding bench_demo_argv_def by code_simp+
  define s0 where "s0 = bench_start bench_demo_argv (4096 :: u64)"
  obtain w0 where w0: "bn_workers s0 = [w0]" "wk_i w0 = 0" "wk_live w0 = []" "\<not> wk_done w0"
    by (simp add: s0_def bench_start_def n upt_rec)
  obtain w1 s1 where 1: "worker_step bench_demo_env 1 w0 s0 = (w1, s1)" by fastforce
  then have i1: "worker_iter bench_demo_env w0 s0 = (w1, s1)" by (simp add: worker_step_def w0)
  then have w1: "wk_i w1 = 1" "\<not> wk_done w1" using worker_iter_ok(3,4) [OF i1] w0 by simp_all
  have log: "bn_log s1 \<noteq> []"
    using i1 by (auto simp: worker_iter_def worker_alloc_def worker_evict_def worker_sample_ok Let_def split: prod.splits if_splits)
  define t1 where "t1 = s1\<lparr>bn_workers := [w1]\<rparr>"
  have s1: "bench_step bench_demo_env 1 s0 t1"
    using bench_worker [of 0 s0 bench_demo_env 1 w1 s1] 1 w0 by (simp add: t1_def)
  obtain w2 s2 where 2: "worker_step bench_demo_env 1 w1 t1 = (w2, s2)" by fastforce
  then have f2: "worker_finish bench_demo_env w1 t1 = (w2, s2)" by (simp add: worker_step_def w1)
  have s2: "bench_step bench_demo_env 1 t1 (s2\<lparr>bn_workers := [w2]\<rparr>)"
    using bench_worker [of 0 t1 bench_demo_env 1 w2 s2] 2 w1 by (simp add: t1_def)
  have "wk_done w2" "bn_log s2 \<noteq> []" using f2 log by (auto simp: worker_finish_def t1_def)
  moreover have "(bench_step bench_demo_env 1)\<^sup>*\<^sup>* s0 (s2\<lparr>bn_workers := [w2]\<rparr>)" using s1 s2 by auto
  ultimately show ?thesis unfolding n(1) s0_def by fastforce
qed

theorem bench_balanced_witness:
  "\<exists>s. (bench_step bench_demo_env (bench_iters bench_demo_argv))\<^sup>*\<^sup>* (bench_start bench_demo_argv 4096) s \<and>
     bn_log s \<noteq> [] \<and> replay (bn_log s) {#} = Some {#}"
proof -
  obtain s where s: "(bench_step bench_demo_env (bench_iters bench_demo_argv))\<^sup>*\<^sup>* (bench_start bench_demo_argv 4096) s"
    "\<forall>w\<in>set (bn_workers s). wk_done w" "bn_log s \<noteq> []" using bench_demo_run by blast
  from bench_balanced [OF s(1)] s(2,3) show ?thesis using s(1) by blast
qed

end
