(* ===== verification/BenchHeap.thy ===== *)
theory BenchHeap
  imports BenchAlloc BootFrame
begin

text \<open>
  The benchmark on the allocator of this repository: the parameters of \<open>BenchAlloc\<close> are the functions of
  \<open>AllocApi\<close>, and the background thread runs between the iterations of the workers. \<open>None\<close> is a heap in which a
  call has faulted. The library itself is not modelled as a client of the allocator: the vectors and threads of the program
  allocate nothing here.
\<close>

section \<open>The allocator as the environment\<close>

definition memset_byte :: "u64 \<Rightarrow> u8 \<Rightarrow> u64 \<Rightarrow> alloc \<Rightarrow> alloc option" where
  "memset_byte p v n s =
     (if range_acc s p n then Some (s\<lparr>g_bytes := (\<lambda>x. if in_range p n x then v else g_bytes s x)\<rparr>) else None)"

definition mf_env :: "os \<Rightarrow> (alloc option \<Rightarrow> string option) \<Rightarrow> alloc option bench_env" where
  "mf_env os statm = \<lparr>
     be_malloc = (\<lambda>tid n h. case Option.bind h (malloc os tid n) of None \<Rightarrow> (0, None) | Some (p, s) \<Rightarrow> (p, Some s)),
     be_free = (\<lambda>tid p h. Option.bind h (free os tid p)),
     be_memset = (\<lambda>p v n h. Option.bind h (memset_byte p v n)),
     be_statm = statm\<rparr>"

text \<open>No four consecutive bytes of memory spell a magic number of the allocator.\<close>

definition unspelled :: "alloc option \<Rightarrow> bool" where
  "unspelled h \<longleftrightarrow> (\<forall>s x. h = Some s \<longrightarrow> u32_at (g_bytes s) x \<noteq> kMagicRun \<and> u32_at (g_bytes s) x \<noteq> kMagicLarge)"

text \<open>The heap a worker sees when it comes to its calls of \<open>free\<close>.\<close>

definition heap_at_free :: "alloc option bench_env \<Rightarrow> int \<Rightarrow> worker \<Rightarrow> alloc option bench \<Rightarrow> alloc option" where
  "heap_at_free env iters w s = bn_heap (if wk_i w < iters then snd (worker_alloc env w s) else s)"

inductive mf_step :: "os \<Rightarrow> (alloc option \<Rightarrow> string option) \<Rightarrow> int \<Rightarrow> alloc option bench \<Rightarrow> alloc option bench \<Rightarrow> bool"
  for os statm iters where
  mf_worker: "k < length (bn_workers s) \<Longrightarrow> \<not> wk_done (bn_workers s ! k) \<Longrightarrow>
    unspelled (heap_at_free (mf_env os statm) iters (bn_workers s ! k) s) \<Longrightarrow>
    worker_step (mf_env os statm) iters (bn_workers s ! k) s = (w, s') \<Longrightarrow>
    mf_step os statm iters s (s'\<lparr>bn_workers := (bn_workers s)[k := w]\<rparr>)"
| mf_trim: "mf_step os statm iters s (s\<lparr>bn_heap := Option.bind (bn_heap s) (trim_round os)\<rparr>)"

section \<open>No large blocks\<close>

text \<open>The requests of the benchmark are small, so no large block is ever made; then every live block is a block of a run.\<close>

definition no_large :: "alloc \<Rightarrow> bool" where
  "no_large s \<longleftrightarrow> g_larges s = Map.empty"

lemma no_large_updates [simp]:
  "no_large (s\<lparr>g_runs := a\<rparr>) = no_large s" "no_large (s\<lparr>g_acc := c\<rparr>) = no_large s"
  "no_large (s\<lparr>g_bytes := d\<rparr>) = no_large s" "no_large (s\<lparr>g_cls := e\<rparr>) = no_large s" "no_large (s\<lparr>g_mapped := f\<rparr>) = no_large s"
  "no_large (s\<lparr>g_freed_to_os := f\<rparr>) = no_large s" "no_large (s\<lparr>g_purged := f\<rparr>) = no_large s"
  "no_large (s\<lparr>ticks := h\<rparr>) = no_large s" "no_large (s\<lparr>calls := h\<rparr>) = no_large s" "no_large (s\<lparr>g_res_bump := f\<rparr>) = no_large s"
  "no_large (put_run x r s) = no_large s" "no_large (set_head k x s) = no_large s" "no_large (add_live k y s) = no_large s"
  "no_large (zero_range x y s) = no_large s"
  by (simp_all add: no_large_def put_run_def set_head_def add_live_def zero_range_def)

lemma no_large_map: "no_large s \<Longrightarrow> no_large (map_range x y s)" "no_large s \<Longrightarrow> no_large (munmap x y s)"
  by (simp_all add: no_large_def map_range_def munmap_def unmap_range_def fun_eq_iff)

lemma no_large_now: "now_ms os s = (t, s') \<Longrightarrow> no_large s' = no_large s"
  by (auto simp: now_ms_def split: prod.splits)

lemma no_large_reserve_map: "reserve_map os sz al s = (p, s') \<Longrightarrow> no_large s \<Longrightarrow> no_large s'"
  by (auto simp: reserve_map_def Let_def no_large_map split: if_splits)

lemma no_large_mmap_any: "mmap_any os sz s = (p, s') \<Longrightarrow> no_large s \<Longrightarrow> no_large s'"
  by (auto simp: mmap_any_def Let_def no_large_map split: if_splits option.splits)

lemma no_large_run_insert: "run_insert c a s = Some s' \<Longrightarrow> no_large s' = no_large s"
  by (auto simp: run_insert_def Let_def split: if_splits option.splits bind_splits)

lemma no_large_run_remove: "run_remove c a s = Some s' \<Longrightarrow> no_large s' = no_large s"
  by (auto simp: run_remove_def Let_def split: if_splits option.splits bind_splits)

lemma no_large_run_new: "run_new os c s = Some (p, s') \<Longrightarrow> no_large s \<Longrightarrow> no_large s'"
  by (auto simp: run_new_def Let_def split: if_splits prod.splits bind_splits
      dest!: no_large_run_insert no_large_now dest: no_large_reserve_map no_large_mmap_any)

lemma no_large_run_take: "run_take os a s = Some (p, s') \<Longrightarrow> no_large s' = no_large s"
  by (auto simp: run_take_def Let_def split: if_splits prod.splits option.splits bind_splits dest!: no_large_now)

lemma no_large_malloc_run: "malloc_run os c s = Some (p, s') \<Longrightarrow> no_large s \<Longrightarrow> no_large s'"
  by (auto simp: malloc_run_def split: if_splits prod.splits bind_splits dest!: no_large_run_take dest: no_large_run_new)

lemma no_large_purge_pages: "no_large (purge_pages r d n off s) = no_large s"
  by (induction r d n off s rule: purge_pages.induct)
    (subst purge_pages.simps, auto simp: Let_def)

lemma no_large_purge_run: "purge_run a t s = Some s' \<Longrightarrow> no_large s \<Longrightarrow> no_large s'"
  by (auto simp: purge_run_def Let_def no_large_purge_pages no_large_map split: if_splits bind_splits dest!: no_large_run_remove)

lemma no_large_trim_walk:
  assumes r: "trim_walk t a s = Some s'"
  shows "no_large s \<longrightarrow> no_large s'"
proof (rule trim_walk.raw_induct [where P = "\<lambda>t a s s'. no_large s \<longrightarrow> no_large s'", OF _ r])
  fix f t a s s'
  assume "\<And>t a s s'. f t a s = Some s' \<Longrightarrow> no_large s \<longrightarrow> no_large s'"
    "(if a = 0 then Some s else do { r \<leftarrow> g_runs s a; s1 \<leftarrow> purge_run a t s; f t (r_next r) s1 }) = Some s'"
  then show "no_large s \<longrightarrow> no_large s'" by (auto split: if_splits bind_splits dest: no_large_purge_run)
qed

lemma no_large_trim_classes: "trim_classes t cs s = Some s' \<Longrightarrow> no_large s \<Longrightarrow> no_large s'"
  by (induction t cs s rule: trim_classes.induct)
    (auto simp: trim_class_def split: bind_splits dest: no_large_trim_walk)

lemma no_large_trim_round: "trim_round os s = Some s' \<Longrightarrow> no_large s \<Longrightarrow> no_large s'"
  by (auto simp: trim_round_def Let_def split: if_splits prod.splits dest: no_large_trim_classes no_large_now)

lemma no_large_run_give: "run_give os a p s = Some s' \<Longrightarrow> no_large s' = no_large s"
  by (auto simp: run_give_def Let_def split: if_splits prod.splits option.splits bind_splits dest!: no_large_now)

lemma no_large_free: "free os tid p s = Some s' \<Longrightarrow> no_large s \<Longrightarrow> no_large s'"
  by (auto simp: free_def free_small_def free_large_def Let_def no_large_run_give no_large_map split: if_splits option.splits bind_splits)
    (simp_all add: no_large_def)

definition heap_ok :: "alloc \<Rightarrow> bool" where
  "heap_ok a \<longleftrightarrow> ainv a \<and> g_ready a \<and> no_large a"

section \<open>Calls of a worker\<close>

lemma small_malloc:
  assumes "heap_ok a" "8 \<le> n" "n < kLargeMin" "malloc os tid n a = Some (p, a')"
  shows "no_large a'"
proof -
  have "n \<noteq> 0" using assms(2) by auto
  then have "malloc_run os (class_of n - 1) a = Some (p, a')"
    using malloc_small [of a n os tid] assms(1,3,4) by (simp add: heap_ok_def)
  then show ?thesis using no_large_malloc_run assms(1) unfolding heap_ok_def by blast
qed

lemma bench_malloc:
  assumes "heap_ok a" "8 \<le> n" "n \<le> 524288" "unat (g_res_bump a) < 2 ^ 63"
  shows "\<exists>p a'. malloc os tid n a = Some (p, a') \<and> heap_ok a' \<and> unat (g_res_bump a') \<le> unat (g_res_bump a) + 2 ^ 25 \<and>
    (\<forall>x k. live a x k \<longrightarrow> live a' x k) \<and> (p \<noteq> 0 \<longrightarrow> (\<forall>k. \<not> live a p k) \<and> (\<exists>k\<ge>unat n. live a' p k))"
proof -
  have un: "unat n \<le> 524288" using assms(3) by (simp add: word_le_nat_alt)
  have rm: "roomy a (unat n)" using un assms(4) by (simp add: roomy_def)
  have lt: "n < kLargeMin" using un by (simp add: kLargeMin_def word_less_nat_alt)
  from malloc_ok [OF _ _ rm, of os tid] assms(1) obtain p a' where
    m: "malloc os tid n a = Some (p, a')" "alloc_result a (max 1 (unat n)) p a'"
      "unat (g_res_bump a') \<le> unat (g_res_bump a) + unat n + 2 ^ 24" unfolding heap_ok_def by blast
  have "heap_ok a'" using m(2) assms(1) small_malloc [OF assms(1,2) lt m(1)] by (simp add: heap_ok_def alloc_result_def)
  moreover have "unat (g_res_bump a') \<le> unat (g_res_bump a) + 2 ^ 25" using m(3) un by simp
  moreover have "(\<forall>x k. live a x k \<longrightarrow> live a' x k) \<and> (p \<noteq> 0 \<longrightarrow> (\<forall>k. \<not> live a p k) \<and> (\<exists>k\<ge>unat n. live a' p k))"
    using m(2) unfolding alloc_result_def by (cases "p = 0") (auto intro: order_trans)
  ultimately show ?thesis using m(1) by blast
qed

lemma bench_memset:
  assumes "heap_ok a" "live a p k" "unat n \<le> k"
  shows "\<exists>a'. memset_byte p v n a = Some a' \<and> heap_ok a' \<and> live a' = live a \<and> g_res_bump a' = g_res_bump a"
proof -
  let ?f = "\<lambda>x. if in_range p n x then v else g_bytes a x"
  have mi: "mem_inv a" using assms(1) by (simp add: heap_ok_def ainv_def)
  have "memset_byte p v n a = Some (a\<lparr>g_bytes := ?f\<rparr>)"
    using range_acc_live [OF mi assms(2,3)] by (simp add: memset_byte_def)
  moreover have "heap_ok (a\<lparr>g_bytes := ?f\<rparr>)" using assms(1) ainv_bytes [of ?f a] by (simp add: heap_ok_def)
  moreover have "live (a\<lparr>g_bytes := ?f\<rparr>) = live a" by (rule heap.upd_blk)
  ultimately show ?thesis by (intro exI [of _ "a\<lparr>g_bytes := ?f\<rparr>"]) simp
qed

lemma bench_free:
  assumes "heap_ok a" "live a p k" "unspelled (Some a)"
  shows "\<exists>a'. free os tid p a = Some a' \<and> heap_ok a' \<and> g_bytes a' = g_bytes a \<and> g_res_bump a' = g_res_bump a \<and>
    (\<forall>x j. live a x j \<longrightarrow> x \<noteq> p \<longrightarrow> live a' x j)"
proof -
  have inv: "ainv a" using assms(1) by (simp add: heap_ok_def)
  obtain b r i where r: "g_runs a b = Some r" "used_blk r i" "p = blk_addr (unat (r_cls r)) b i" "k = elem_n (unat (r_cls r))"
    using assms(1,2) by (auto simp: live_def heap_ok_def no_large_def)
  show ?thesis
  proof (cases "reachable_blk (unat (r_cls r)) i")
    case True
    then have "freeable a p k" using r unfolding freeable_def by blast
    from free_ok [OF inv this, of os tid] obtain a' where f: "free os tid p a = Some a'" "ainv a'"
      "\<forall>x k. live a' x k \<longleftrightarrow> live a x k \<and> x \<noteq> p" "g_bytes a' = g_bytes a" "g_res_bump a' = g_res_bump a" "g_ready a' = g_ready a" by blast
    then show ?thesis using no_large_free [OF f(1)] assms(1) by (auto simp: heap_ok_def)
  next
    case False
    have "unforged a p" using assms(3) by (simp add: unforged_def unspelled_def)
    from free_unreachable [OF inv r(1,2) False, folded r(3), OF this] show ?thesis using assms(1) by auto
  qed
qed

section \<open>The blocks of all workers\<close>

definition holds :: "alloc \<Rightarrow> (u64 \<times> u64) multiset \<Rightarrow> bool" where
  "holds a M \<longleftrightarrow> (\<forall>p. count (image_mset fst M) p \<le> 1) \<and> (\<forall>b\<in>#M. \<exists>k\<ge>unat (snd b). live a (fst b) k)"

lemma holds_live: "holds a (add_mset (p, n) M) \<Longrightarrow> \<exists>k. live a p k"
  by (auto simp: holds_def)

lemma holds_mono: "holds a M \<Longrightarrow> (\<And>x k. live a x k \<Longrightarrow> live a' x k) \<Longrightarrow> holds a' M"
  unfolding holds_def by blast

lemma holds_add:
  assumes "holds a M" "\<And>x k. live a x k \<Longrightarrow> live a' x k" "\<And>k. \<not> live a p k" "live a' p k" "unat n \<le> k"
  shows "holds a' (add_mset (p, n) M)"
proof -
  have "count (image_mset fst M) p = 0"
    using assms(1,3) by (auto simp: holds_def count_eq_zero_iff)
  moreover have "\<exists>k\<ge>unat (snd b). live a' (fst b) k" if "b \<in># M" for b
    using assms(1,2) that unfolding holds_def by blast
  ultimately show ?thesis using assms(1,4,5) unfolding holds_def by auto
qed

lemma holds_remove:
  assumes "holds a (add_mset (p, n) M)" "\<And>x k. live a x k \<Longrightarrow> x \<noteq> p \<Longrightarrow> live a' x k"
  shows "holds a' M"
proof -
  have c: "count (image_mset fst (add_mset (p, n) M)) x \<le> 1" for x using assms(1) unfolding holds_def by blast
  then have "count (image_mset fst M) p = 0" using c [of p] by simp
  then have "p \<notin># image_mset fst M" by (simp add: count_eq_zero_iff)
  then have ne: "fst b \<noteq> p" if "b \<in># M" for b using that by auto
  have "count (image_mset fst M) x \<le> 1" for x using c [of x] by (simp split: if_splits)
  moreover have "\<exists>k\<ge>unat (snd b). live a' (fst b) k" if b: "b \<in># M" for b
  proof -
    have "b \<in># add_mset (p, n) M" using b by simp
    then obtain k where "unat (snd b) \<le> k" "live a (fst b) k" using assms(1) unfolding holds_def by blast
    then show ?thesis using assms(2) ne [OF b] by blast
  qed
  ultimately show ?thesis unfolding holds_def by blast
qed

section \<open>Steps\<close>

lemma mf_alloc:
  assumes "bn_heap s = Some a" "heap_ok a" "unat (g_res_bump a) < 2 ^ 63" "holds a (mset (wk_live w) + M)"
    and w: "worker_alloc (mf_env os statm) w s = (w', s')"
  shows "\<exists>a'. bn_heap s' = Some a' \<and> heap_ok a' \<and> unat (g_res_bump a') \<le> unat (g_res_bump a) + 2 ^ 25 \<and>
    holds a' (mset (wk_live w') + M) \<and> wk_tid w' = wk_tid w"
proof -
  obtain sz g where sz: "bench_size (wk_rng w) = (sz, g)" by fastforce
  have b: "8 \<le> sz" "sz \<le> 524288" using bench_sizes [of "wk_rng w"] sz by simp_all
  from bench_malloc [OF assms(2) b assms(3), of os "wk_tid w"] obtain p a1 where m: "malloc os (wk_tid w) sz a = Some (p, a1)"
    "heap_ok a1" "unat (g_res_bump a1) \<le> unat (g_res_bump a) + 2 ^ 25" "\<forall>x k. live a x k \<longrightarrow> live a1 x k"
    "p \<noteq> 0 \<longrightarrow> (\<forall>k. \<not> live a p k) \<and> (\<exists>k\<ge>unat sz. live a1 p k)" by blast
  have e: "be_malloc (mf_env os statm) (wk_tid w) sz (bn_heap s) = (p, Some a1)" using m(1) by (simp add: mf_env_def assms(1))
  show ?thesis
  proof (cases "p = 0")
    case True
    then show ?thesis using w sz e m(2-4) assms(4) holds_mono by (auto simp: worker_alloc_def)
  next
    case False
    with m(5) obtain k where k: "\<forall>k. \<not> live a p k" "unat sz \<le> k" "live a1 p k" by blast
    obtain r g' where r: "mt_next g = (r, g')" by fastforce
    let ?v = "ucast (r AND 0xFF) :: u8" and ?n = "if sz < 64 then sz else 64"
    have "unat ?n \<le> k" using k(2) by (auto simp: word_less_nat_alt)
    from bench_memset [OF m(2) k(3) this, of ?v] obtain a2 where
      a2: "memset_byte p ?v ?n a1 = Some a2" "heap_ok a2" "live a2 = live a1" "g_res_bump a2 = g_res_bump a1" by blast
    have s': "bn_heap s' = Some a2" "wk_live w' = wk_live w @ [(p, sz)]" "wk_tid w' = wk_tid w"
      using w sz e r False a2(1) by (auto simp: worker_alloc_def Let_def mf_env_def split: if_splits)
    have "holds a2 (add_mset (p, sz) (mset (wk_live w) + M))"
      using holds_add [OF assms(4), of a2 p k sz] m(4) k a2(3) by simp
    then show ?thesis using s' a2 m(3) by simp
  qed
qed

lemma mf_free:
  assumes "heap_ok a" "holds a (add_mset b M)" "unspelled (Some a)"
  shows "\<exists>a'. be_free (mf_env os statm) tid (fst b) (Some a) = Some a' \<and> heap_ok a' \<and> g_bytes a' = g_bytes a \<and>
    g_res_bump a' = g_res_bump a \<and> holds a' M"
proof -
  obtain p n where b: "b = (p, n)" by (cases b)
  obtain k where "live a p k" using holds_live assms(2) b by blast
  from bench_free [OF assms(1) this assms(3), of os tid] obtain a' where "free os tid p a = Some a'" "heap_ok a'" "g_bytes a' = g_bytes a"
    "g_res_bump a' = g_res_bump a" "\<forall>x j. live a x j \<longrightarrow> x \<noteq> p \<longrightarrow> live a' x j" by blast
  then show ?thesis using holds_remove [of a p n M a'] assms(2) by (simp add: b mf_env_def)
qed

lemma mf_evict:
  assumes "bn_heap s = Some a" "heap_ok a" "holds a (mset (wk_live w) + M)" "unspelled (Some a)"
    and w: "worker_evict (mf_env os statm) w s = (w', s')"
  shows "\<exists>a'. bn_heap s' = Some a' \<and> heap_ok a' \<and> g_res_bump a' = g_res_bump a \<and> holds a' (mset (wk_live w') + M)"
proof (cases "length (wk_live w) > 3000")
  case False
  then show ?thesis using assms by (auto simp: worker_evict_def)
next
  case True
  obtain r g where r: "mt_next (wk_rng w) = (r, g)" by fastforce
  define k where "k = unat r mod length (wk_live w)"
  have "0 < length (wk_live w)" using True by linarith
  then have k: "k < length (wk_live w)" unfolding k_def by (rule mod_less_divisor)
  define live where "live = butlast ((wk_live w)[k := last (wk_live w)])"
  have "mset (wk_live w) = add_mset (wk_live w ! k) (mset live)" using mset_evict [OF k] by (simp add: live_def)
  then have "holds a (add_mset (wk_live w ! k) (mset live + M))" using assms(3) by simp
  from mf_free [OF assms(2) this assms(4), of os statm "wk_tid w"] show ?thesis
    using w True r assms(1) by (auto simp: worker_evict_def Let_def k_def [symmetric] live_def [symmetric])
qed

lemma mf_free_all:
  assumes "heap_ok a" "holds a (mset bs + M)" "unspelled (Some a)"
  shows "\<exists>a'. fold (\<lambda>b. be_free (mf_env os statm) tid (fst b)) bs (Some a) = Some a' \<and> heap_ok a' \<and>
    g_res_bump a' = g_res_bump a \<and> holds a' M"
  using assms
proof (induction bs arbitrary: a)
  case (Cons b bs)
  have "holds a (add_mset b (mset bs + M))" using Cons.prems(2) by simp
  from mf_free [OF Cons.prems(1) this Cons.prems(3), of os statm tid] obtain a1 where
    a1: "be_free (mf_env os statm) tid (fst b) (Some a) = Some a1" "heap_ok a1" "g_bytes a1 = g_bytes a"
      "g_res_bump a1 = g_res_bump a" "holds a1 (mset bs + M)" by blast
  have "unspelled (Some a1)" using Cons.prems(3) a1(3) by (simp add: unspelled_def)
  from Cons.IH [OF a1(2,5) this] show ?case using a1(1,4) by simp
qed simp

text \<open>One step of a worker, in the context of the blocks \<open>M\<close> of the others.\<close>

definition iters_done :: "worker \<Rightarrow> nat" where
  "iters_done w = nat (wk_i w)"

lemma mf_worker_step:
  assumes h: "bn_heap s = Some a" "heap_ok a" "unat (g_res_bump a) < 2 ^ 63" "holds a (mset (wk_live w) + M)" "0 \<le> wk_i w"
    and u: "unspelled (heap_at_free (mf_env os statm) iters w s)"
    and w: "worker_step (mf_env os statm) iters w s = (w', s')"
  shows "\<exists>a'. bn_heap s' = Some a' \<and> heap_ok a' \<and> holds a' (mset (wk_live w') + M) \<and> bn_workers s' = bn_workers s \<and>
    unat (g_res_bump a') + 2 ^ 25 * iters_done w \<le> unat (g_res_bump a) + 2 ^ 25 * iters_done w' \<and>
    0 \<le> wk_i w' \<and> (wk_i w \<le> max 0 iters \<longrightarrow> wk_i w' \<le> max 0 iters)"
proof (cases "wk_i w < iters")
  case True
  let ?e = "mf_env os statm"
  obtain w1 s1 where 1: "worker_alloc ?e w s = (w1, s1)" by fastforce
  obtain w2 s2 where 2: "worker_evict ?e w1 s1 = (w2, s2)" by fastforce
  have r: "w' = w2\<lparr>wk_i := wk_i w2 + 1\<rparr>" "s' = worker_sample ?e w2 s2" using w True by (auto simp: worker_step_def worker_iter_def 1 2)
  have i: "wk_i w2 = wk_i w" "bn_workers s2 = bn_workers s"
    using worker_alloc_ok(1,3) [OF 1] worker_evict_ok(1,3) [OF 2] by (simp_all add: worker_ok_def)
  from mf_alloc [OF h(1-4) 1] obtain a1 where a1: "bn_heap s1 = Some a1" "heap_ok a1"
    "unat (g_res_bump a1) \<le> unat (g_res_bump a) + 2 ^ 25" "holds a1 (mset (wk_live w1) + M)" by blast
  have "unspelled (Some a1)" using u True 1 a1(1) by (simp add: heap_at_free_def)
  from mf_evict [OF a1(1,2,4) this 2] obtain a2 where a2: "bn_heap s2 = Some a2" "heap_ok a2" "g_res_bump a2 = g_res_bump a1"
    "holds a2 (mset (wk_live w2) + M)" by blast
  have "bn_heap s' = Some a2" "bn_workers s' = bn_workers s" using a2(1) i(2) by (simp_all add: r worker_sample_def Let_def)
  moreover have "iters_done w' = iters_done w + 1" using h(5) i(1) by (simp add: iters_done_def r nat_add_distrib)
  ultimately show ?thesis using a1(3) a2 h(5) i(1) True by (intro exI [of _ a2]) (simp add: r)
next
  case False
  have r: "w' = w\<lparr>wk_live := [], wk_done := True\<rparr>"
    "bn_heap s' = fold (\<lambda>b. be_free (mf_env os statm) (wk_tid w) (fst b)) (wk_live w) (bn_heap s)" "bn_workers s' = bn_workers s"
    using w False by (auto simp: worker_step_def worker_finish_def)
  have "unspelled (Some a)" using u False h(1) by (simp add: heap_at_free_def)
  from mf_free_all [OF h(2,4) this, of os statm "wk_tid w"] show ?thesis using r h(1,5) by (auto simp: iters_done_def)
qed

section \<open>Whole runs\<close>

definition all_blocks :: "alloc option bench \<Rightarrow> (u64 \<times> u64) multiset" where
  "all_blocks s = (\<Sum>w\<leftarrow>bn_workers s. mset (wk_live w))"

definition mf_inv :: "int \<Rightarrow> nat \<Rightarrow> alloc option bench \<Rightarrow> bool" where
  "mf_inv iters B s \<longleftrightarrow> (\<exists>a. bn_heap s = Some a \<and> heap_ok a \<and> holds a (all_blocks s) \<and>
     unat (g_res_bump a) \<le> B + 2 ^ 25 * (\<Sum>w\<leftarrow>bn_workers s. iters_done w)) \<and>
     (\<forall>w\<in>set (bn_workers s). 0 \<le> wk_i w \<and> wk_i w \<le> max 0 iters)"

lemma sum_list_bound: "(\<And>x. x \<in> set xs \<Longrightarrow> f x \<le> (b :: nat)) \<Longrightarrow> sum_list (map f xs) \<le> length xs * b"
  by (induction xs) fastforce+

lemma mf_step_inv:
  assumes st: "mf_step os statm iters s s'" and i: "mf_inv iters B s" and B: "B \<le> 2 ^ 60"
    and n: "length (bn_workers s) * nat iters \<le> 2 ^ 37"
  shows "mf_inv iters B s' \<and> length (bn_workers s') = length (bn_workers s)"
  using st
proof cases
  case (mf_worker k w s1)
  let ?w = "bn_workers s ! k"
  obtain a where a: "bn_heap s = Some a" "heap_ok a" "holds a (all_blocks s)"
    "unat (g_res_bump a) \<le> B + 2 ^ 25 * (\<Sum>w\<leftarrow>bn_workers s. iters_done w)" using i unfolding mf_inv_def by blast
  have wi: "\<forall>w\<in>set (bn_workers s). 0 \<le> wk_i w \<and> wk_i w \<le> max 0 iters" using i by (simp add: mf_inv_def)
  then have "iters_done v \<le> nat iters" if "v \<in> set (bn_workers s)" for v using that by (force simp: iters_done_def)
  then have "(\<Sum>w\<leftarrow>bn_workers s. iters_done w) \<le> length (bn_workers s) * nat iters" by (rule sum_list_bound)
  then have bump: "unat (g_res_bump a) < 2 ^ 63" using a(4) B n by simp
  obtain M where M: "all_blocks s = mset (wk_live ?w) + M"
    "(\<Sum>v\<leftarrow>(bn_workers s)[k := w]. mset (wk_live v)) = mset (wk_live w) + M"
    using sum_list_replace [OF mf_worker(2), of "\<lambda>w. mset (wk_live w)" w] unfolding all_blocks_def by blast
  obtain N where N: "(\<Sum>w\<leftarrow>bn_workers s. iters_done w) = iters_done ?w + N"
    "(\<Sum>v\<leftarrow>(bn_workers s)[k := w]. iters_done v) = iters_done w + N"
    using sum_list_replace [OF mf_worker(2), of iters_done w] by blast
  have w0: "0 \<le> wk_i ?w" "wk_i ?w \<le> max 0 iters" using wi mf_worker(2) by simp_all
  from mf_worker_step [OF a(1,2) bump _ w0(1) mf_worker(4,5), of M] a(3) M(1) w0(2) obtain a' where
    a': "bn_heap s1 = Some a'" "heap_ok a'" "holds a' (mset (wk_live w) + M)"
    "unat (g_res_bump a') + 2 ^ 25 * iters_done ?w \<le> unat (g_res_bump a) + 2 ^ 25 * iters_done w"
    "0 \<le> wk_i w" "wk_i w \<le> max 0 iters" by auto
  have "unat (g_res_bump a') \<le> B + 2 ^ 25 * (iters_done w + N)" using a(4) a'(4) unfolding N(1) by simp
  moreover have "\<forall>v\<in>set ((bn_workers s)[k := w]). 0 \<le> wk_i v \<and> wk_i v \<le> max 0 iters"
    using wi a'(5,6) set_update_subset_insert [of "bn_workers s" k w] by blast
  ultimately show ?thesis using a'(1-3) M(2) N(2) mf_worker(1) by (simp add: mf_inv_def all_blocks_def)
next
  case mf_trim
  obtain a where a: "bn_heap s = Some a" "heap_ok a" "holds a (all_blocks s)"
    "unat (g_res_bump a) \<le> B + 2 ^ 25 * (\<Sum>w\<leftarrow>bn_workers s. iters_done w)" using i unfolding mf_inv_def by blast
  from trim_round_ok [of a os] a(2) obtain a' where t: "trim_round os a = Some a'" "trim_step a a'" by (auto simp: heap_ok_def)
  have "heap_ok a'" using a(2) t no_large_trim_round [OF t(1)] by (simp add: heap_ok_def trim_step_def)
  moreover have "holds a' (all_blocks s)" using holds_mono [OF a(3)] t(2) by (simp add: trim_step_def)
  ultimately show ?thesis using i a t by (simp add: mf_trim mf_inv_def all_blocks_def trim_step_def)
qed

definition held_blocks :: "alloc option bench \<Rightarrow> (u64 \<times> u64) list" where
  "held_blocks s = concat (map wk_live (bn_workers s))"

lemma distinct_of_count:
  assumes "\<And>p. count (mset xs) p \<le> 1"
  shows "distinct xs"
  unfolding distinct_count_atmost_1
proof
  fix p show "count (mset xs) p = (if p \<in> set xs then 1 else 0)"
  proof (cases "p \<in> set xs")
    case True
    then have "count (mset xs) p \<noteq> 0" by (simp add: count_eq_zero_iff)
    then have "count (mset xs) p = 1" using assms [of p] by linarith
    then show ?thesis using True by simp
  next
    case False
    then show ?thesis by (simp add: count_eq_zero_iff)
  qed
qed

lemma mset_held: "mset (held_blocks s) = all_blocks s"
proof -
  have "mset (concat xss) = (\<Sum>xs\<leftarrow>xss. mset xs)" for xss :: "(u64 \<times> u64) list list" by (induction xss) simp_all
  then show ?thesis by (simp add: held_blocks_def all_blocks_def o_def)
qed

lemma mf_start_inv:
  assumes "heap_ok a" "unat (g_res_bump a) \<le> B"
  shows "mf_inv iters B (bench_start argv (Some a))"
proof -
  have "all_blocks (bench_start argv (Some a)) = {#}"
    by (simp add: all_blocks_def bench_start_def o_def sum_list_0)
  moreover have "\<forall>w\<in>set (bn_workers (bench_start argv (Some a))). wk_i w = 0" by (simp add: bench_start_def)
  ultimately show ?thesis using assms by (simp add: mf_inv_def holds_def) (simp add: bench_start_def)
qed

text \<open>C10. On the allocator of this repository, started from any reachable heap without large blocks, with the background
  thread trimming at any time, no call of the benchmark faults, and at every point the blocks its workers hold have different
  addresses, each is live with at least the bytes asked for, and no two overlap. The hypotheses bound the
  number of requests (the bump pointer would wrap) and say that when a worker frees, no bytes in memory spell a magic number.\<close>

theorem bench_on_memflux:
  assumes "heap_reach os a0" "g_larges a0 = Map.empty" "unat (g_res_bump a0) \<le> 2 ^ 60"
    "nat (bench_threads argv) * nat (bench_iters argv) \<le> 2 ^ 37"
    "(mf_step os statm (bench_iters argv))\<^sup>*\<^sup>* (bench_start argv (Some a0)) s"
  shows "\<exists>a. bn_heap s = Some a \<and> distinct (map fst (held_blocks s)) \<and>
    (\<forall>b\<in>set (held_blocks s). \<exists>k\<ge>unat (snd b). live a (fst b) k) \<and>
    (\<forall>b\<in>set (held_blocks s). \<forall>c\<in>set (held_blocks s). fst b \<noteq> fst c \<longrightarrow> apart (fst b) (unat (snd b)) (fst c) (unat (snd c)))"
proof -
  let ?T = "nat (bench_threads argv)"
  have "heap_ok a0" using heap_reachD(1,2) [OF assms(1)] assms(2) by (simp add: heap_ok_def no_large_def)
  note st = mf_start_inv [OF this order_refl, of "bench_iters argv" argv]
  have "mf_inv (bench_iters argv) (unat (g_res_bump a0)) s \<and> length (bn_workers s) = ?T"
    using assms(5)
  proof (induction rule: rtranclp_induct)
    case base
    then show ?case using st by (simp add: bench_start_def)
  next
    case (step s1 s2)
    then show ?case using mf_step_inv [OF step(2) _ assms(3)] assms(4) by simp
  qed
  then obtain a where a: "bn_heap s = Some a" "heap_ok a" "holds a (mset (held_blocks s))" unfolding mf_inv_def mset_held by blast
  have mi: "mem_inv a" using a(2) by (simp add: heap_ok_def ainv_def)
  have c: "count (mset (map fst (held_blocks s))) p \<le> 1" for p using a(3) unfolding holds_def mset_map by blast
  then have "distinct (map fst (held_blocks s))" by (rule distinct_of_count)
  moreover have l: "\<exists>k\<ge>unat (snd b). live a (fst b) k" if "b \<in> set (held_blocks s)" for b
    using a(3) that unfolding holds_def by auto
  moreover have "apart (fst b) (unat (snd b)) (fst c) (unat (snd c))"
    if bc: "b \<in> set (held_blocks s)" "c \<in> set (held_blocks s)" "fst b \<noteq> fst c" for b c
  proof -
    obtain k j where "unat (snd b) \<le> k" "live a (fst b) k" "unat (snd c) \<le> j" "live a (fst c) j" using l bc(1,2) by blast
    then show ?thesis using live_disjoint [OF mi] bc(3) by (fastforce simp: apart_def)
  qed
  ultimately show ?thesis using a(1) by blast
qed

section \<open>A run\<close>

text \<open>Allocation zeroes bytes and changes no others.\<close>

lemma zero_now: "now_ms os s = (t, s') \<Longrightarrow> g_bytes s' = g_bytes s"
  by (auto simp: now_ms_def split: prod.splits)

lemma zero_reserve_map: "reserve_map os sz al s = (p, s') \<Longrightarrow> g_bytes s = (\<lambda>_. 0) \<Longrightarrow> g_bytes s' = (\<lambda>_. 0)"
  by (auto simp: reserve_map_def Let_def map_range_def split: if_splits)

lemma zero_mmap_any: "mmap_any os sz s = (p, s') \<Longrightarrow> g_bytes s = (\<lambda>_. 0) \<Longrightarrow> g_bytes s' = (\<lambda>_. 0)"
  by (auto simp: mmap_any_def Let_def map_range_def split: if_splits option.splits)

lemma zero_run_insert: "run_insert c a s = Some s' \<Longrightarrow> g_bytes s' = g_bytes s"
  by (auto simp: run_insert_def Let_def put_run_def set_head_def split: if_splits option.splits bind_splits)

lemma zero_malloc_run:
  assumes "malloc_run os c s = Some (p, s')" "g_bytes s = (\<lambda>_. 0)"
  shows "g_bytes s' = (\<lambda>_. 0)"
proof -
  have n: "run_new os k s = Some (q, s1) \<Longrightarrow> g_bytes s1 = (\<lambda>_. 0)" for k q s1
    using assms(2) by (auto simp: run_new_def Let_def put_run_def split: if_splits prod.splits bind_splits
        dest!: zero_run_insert zero_now dest: zero_reserve_map zero_mmap_any)
  have t: "run_take os a s1 = Some (q, s2) \<Longrightarrow> g_bytes s2 = g_bytes s1" for a q s1 s2
    by (auto simp: run_take_def Let_def put_run_def add_live_def split: if_splits prod.splits option.splits bind_splits dest!: zero_now)
  show ?thesis using assms n t by (auto simp: malloc_run_def split: if_splits prod.splits bind_splits)
qed

text \<open>The four bytes of a magic number differ, so memory that holds one byte value beside zeros spells none.\<close>

lemma u32_at_bytes:
  "unat (u32_at m x) mod 256 = unat (m x)" "unat (u32_at m x) div 256 mod 256 = unat (m (x + 1))"
proof -
  let ?n = "unat (m x) + 256 * (unat (m (x + 1)) + 256 * (unat (m (x + 2)) + 256 * unat (m (x + 3))))"
  have b: "unat (m y) < 256" for y using unsigned_less [of "m y", where ?'a = nat] by simp
  have "u32_at m x = of_nat ?n" by (simp add: u32_at_def)
  moreover have "?n < 2 ^ 32" using b [of x] b [of "x + 1"] b [of "x + 2"] b [of "x + 3"] by simp
  then have "unat (of_nat ?n :: u32) = ?n" by (intro unat_of_nat_small) simp
  ultimately have u: "unat (u32_at m x) = ?n" by simp
  have low: "(i + 256 * j) mod 256 = i \<and> (i + 256 * j) div 256 = j" if "i < 256" for i j :: nat using that by simp
  show "unat (u32_at m x) mod 256 = unat (m x)" unfolding u using low [OF b] by blast
  have "?n div 256 = unat (m (x + 1)) + 256 * (unat (m (x + 2)) + 256 * unat (m (x + 3)))" using low [OF b] by blast
  then show "unat (u32_at m x) div 256 mod 256 = unat (m (x + 1))" unfolding u using low [OF b] by presburger
qed

lemma two_valued_unspelled:
  assumes "\<forall>x. g_bytes a x = 0 \<or> g_bytes a x = v"
  shows "unspelled (Some a)"
proof -
  have two: "unat (g_bytes a x) = 0 \<or> unat (g_bytes a x) = unat v" for x using assms by (metis unat_0)
  have "u32_at (g_bytes a) x \<noteq> w" if "w = kMagicRun \<or> w = kMagicLarge" for x w
  proof
    assume "u32_at (g_bytes a) x = w"
    then have "unat w mod 256 = unat (g_bytes a x)" "unat w div 256 mod 256 = unat (g_bytes a (x + 1))" using u32_at_bytes by auto
    then show False using that two [of x] two [of "x + 1"] by (auto simp: kMagicRun_def kMagicLarge_def)
  qed
  then show ?thesis by (simp add: unspelled_def)
qed

lemma first_alloc_unspelled:
  assumes "bn_heap s = Some a" "heap_ok a" "g_bytes a = (\<lambda>_. 0)"
  shows "unspelled (bn_heap (snd (worker_alloc (mf_env os statm) w s)))"
proof -
  obtain sz g where sz: "bench_size (wk_rng w) = (sz, g)" by fastforce
  obtain p h where e: "be_malloc (mf_env os statm) (wk_tid w) sz (bn_heap s) = (p, h)" by fastforce
  obtain r g' where r: "mt_next g = (r, g')" by fastforce
  have b: "8 \<le> sz" "sz < kLargeMin" using bench_sizes [of "wk_rng w"] sz by simp_all
  have z: "g_bytes a1 = (\<lambda>_. 0)" if h: "h = Some a1" for a1
  proof -
    have m: "malloc os (wk_tid w) sz a = Some (p, a1)"
      using e h assms(1) by (auto simp: mf_env_def split: option.splits prod.splits)
    have "sz \<noteq> 0" using b by auto
    then have "malloc_run os (class_of sz - 1) a = Some (p, a1)"
      using malloc_small [of a sz os "wk_tid w"] m assms(2) b(2) by (simp add: heap_ok_def)
    then show ?thesis using zero_malloc_run assms(3) by blast
  qed
  define k where "k = (if sz < 64 then sz else 64)"
  define v where "v = (ucast (r AND 0xFF) :: u8)"
  have "bn_heap (snd (worker_alloc (mf_env os statm) w s)) = (if p \<noteq> 0 then Option.bind h (memset_byte p v k) else h)"
    using sz e r by (simp add: worker_alloc_def Let_def mf_env_def k_def v_def)
  moreover have "\<forall>x. g_bytes a2 x = 0 \<or> g_bytes a2 x = v"
    if "(if p \<noteq> 0 then Option.bind h (memset_byte p v k) else h) = Some a2" for a2
    using that z by (auto simp: memset_byte_def split: if_splits bind_splits)
  ultimately show ?thesis using two_valued_unspelled by (metis option.exhaust unspelled_def option.distinct(1))
qed

lemma demo_start_plain: "heap_ok demo_start" "g_bytes demo_start = (\<lambda>_. 0)" "g_larges demo_start = Map.empty"
  using heap_reachD(1,2) [OF demo_reach] ensure_init_initial(2,10) [OF demo_reserve]
  by (simp_all add: heap_ok_def no_large_def flip: demo_start_def)

text \<open>One worker makes one request on the demonstration system; then it gives back what it has.\<close>

lemma bench_demo_mf_run:
  "\<exists>s. (mf_step demo_os (\<lambda>_. None) (bench_iters bench_demo_argv))\<^sup>*\<^sup>* (bench_start bench_demo_argv (Some demo_start)) s \<and>
     (\<forall>w\<in>set (bn_workers s). wk_done w) \<and> bn_log s \<noteq> []"
proof -
  let ?e = "mf_env demo_os (\<lambda>_. None)"
  have n: "bench_iters bench_demo_argv = 1" "bench_threads bench_demo_argv = 1"
    unfolding bench_demo_argv_def by code_simp+
  define s0 where "s0 = bench_start bench_demo_argv (Some demo_start)"
  obtain w0 where w0: "bn_workers s0 = [w0]" "wk_i w0 = 0" "wk_live w0 = []" "\<not> wk_done w0" "bn_heap s0 = Some demo_start"
    by (simp add: s0_def bench_start_def n upt_rec)
  obtain wa sa where a: "worker_alloc ?e w0 s0 = (wa, sa)" by fastforce
  have ua: "unspelled (bn_heap sa)" using first_alloc_unspelled [OF w0(5) demo_start_plain(1,2), of demo_os "\<lambda>_. None" w0] a by simp
  obtain w1 s1 where 1: "worker_iter ?e w0 s0 = (w1, s1)" by fastforce
  have w1: "wk_i w1 = 1" "\<not> wk_done w1" using worker_iter_ok(3,4) [OF 1] w0 by simp_all
  have "length (wk_live wa) \<le> 1" using worker_alloc_ok(2) [OF a] w0(3) by simp
  then have ev: "worker_evict ?e wa sa = (wa, sa)" by (simp add: worker_evict_def)
  have h1: "bn_heap s1 = bn_heap sa" "bn_log s1 = bn_log sa"
    using 1 by (auto simp: worker_iter_def a ev worker_sample_def Let_def split: if_splits)
  have log: "bn_log sa \<noteq> []" using a by (auto simp: worker_alloc_def Let_def split: prod.splits if_splits)
  define t1 where "t1 = s1\<lparr>bn_workers := [w1]\<rparr>"
  have s1: "mf_step demo_os (\<lambda>_. None) 1 s0 t1"
    using mf_worker [of 0 s0 demo_os "\<lambda>_. None" 1 w1 s1] 1 w0 a ua by (simp add: t1_def worker_step_def heap_at_free_def)
  obtain w2 s2 where 2: "worker_finish ?e w1 t1 = (w2, s2)" by fastforce
  have s2: "mf_step demo_os (\<lambda>_. None) 1 t1 (s2\<lparr>bn_workers := [w2]\<rparr>)"
    using mf_worker [of 0 t1 demo_os "\<lambda>_. None" 1 w2 s2] 2 w1 ua h1(1) by (simp add: t1_def worker_step_def heap_at_free_def)
  have "wk_done w2" "bn_log s2 \<noteq> []" using 2 log h1(2) by (auto simp: worker_finish_def t1_def)
  moreover have "(mf_step demo_os (\<lambda>_. None) 1)\<^sup>*\<^sup>* s0 (s2\<lparr>bn_workers := [w2]\<rparr>)" using s1 s2 by auto
  ultimately show ?thesis unfolding n(1) s0_def by fastforce
qed

theorem bench_on_memflux_witness:
  "\<exists>s a. (mf_step demo_os (\<lambda>_. None) (bench_iters bench_demo_argv))\<^sup>*\<^sup>* (bench_start bench_demo_argv (Some demo_start)) s \<and>
     (\<forall>w\<in>set (bn_workers s). wk_done w) \<and> bn_log s \<noteq> [] \<and> bn_heap s = Some a"
proof -
  obtain s where s: "(mf_step demo_os (\<lambda>_. None) (bench_iters bench_demo_argv))\<^sup>*\<^sup>* (bench_start bench_demo_argv (Some demo_start)) s"
    "\<forall>w\<in>set (bn_workers s). wk_done w" "bn_log s \<noteq> []" using bench_demo_mf_run by blast
  have b: "unat (g_res_bump demo_start) \<le> 2 ^ 60" by (simp add: demo_bump)
  have "bench_iters bench_demo_argv = 1" "bench_threads bench_demo_argv = 1"
    unfolding bench_demo_argv_def by code_simp+
  then have n: "nat (bench_threads bench_demo_argv) * nat (bench_iters bench_demo_argv) \<le> 2 ^ 37" by simp
  from bench_on_memflux [OF demo_reach demo_start_plain(3) b n s(1)] show ?thesis using s by blast
qed

end
