(* ===== verification/Spec2Isabelle.thy ===== *)
theory Spec2Isabelle
  imports AllocLimits ProcProps EngineReclaim EngineCooldown ScoreOrder UnitTests LockProps InitRace HeapSpec TrimRelease Memhog BenchHeap
begin

text \<open>
  A verification development for memflux: the interposed allocator \<open>libmemflux-preload\<close>, the
  reclamation daemon \<open>memfluxd\<close>, its control tool \<open>memfluxctl\<close>, and the two demonstration programs. Paths
  are those of the repository.

  \<^bold>\<open>The program.\<close> Two programs share the repository and nothing at run time. The allocator
  (\<open>src/alloc/preload.cpp\<close>) replaces \<open>malloc\<close> and its relatives: 68 size classes, runs of blocks with
  bitmaps in a reserve of address space, large blocks with a header, and a thread that returns idle
  runs and free pages to the kernel. The daemon reads its configuration (\<open>src/core/log.cpp\<close>), and in
  every cycle of its engine (\<open>src/core/engine.cpp\<close>) scans \<open>/proc\<close> (\<open>src/kern/process.cpp\<close>), samples
  working sets (\<open>src/core/workingset.cpp\<close>), scores the processes and pages out the coldest; it also
  drives KSM, MGLRU, cgroup reclaim, DAMON and an eBPF fault tracer (the other files of \<open>src/kern\<close>).
  Its main loop (\<open>src/daemon/main.cpp\<close>) serves one control client per turn; the tool and the client
  side are \<open>src/tools/ctl.cpp\<close> and \<open>src/daemon/ipc.cpp\<close>. \<open>src/tools\<close> also holds an allocator benchmark and a program
  that occupies memory.

  \<^bold>\<open>Foundations.\<close> Machine integers are words of their width. \<open>Prelude\<close> has lemmas on words, masks and
  lists; \<open>CStrings\<close> and \<open>CScan\<close> the C and C++ library functions on text that the sources use
  (\<open>strtoll\<close>, \<open>fgets\<close>, \<open>getline\<close>, the conversions of \<open>scanf\<close>, stream extraction, \<open>stod\<close>); \<open>Doubles\<close> IEEE
  binary64 with rationals as finite values, round to nearest even and monotonicity of rounding.

  \<^bold>\<open>The allocator.\<close> \<open>SizeClasses\<close>: the table and \<open>class_of\<close>. \<open>AllocState\<close>: the records of the structures,
  the globals, memory as bytes with mapped addresses, \<open>reserve_map\<close>; what \<open>mmap\<close>, \<open>madvise\<close> and the clock
  answer is the record \<open>os\<close>. \<open>RunOps\<close> and \<open>AllocApi\<close>: one definition per function, down to \<open>malloc\<close>,
  \<open>free\<close>, \<open>calloc\<close>, \<open>realloc\<close>, \<open>posix_memalign\<close> and the trim round; \<open>None\<close> is an access to unmapped
  memory. \<open>RunLayout\<close>, \<open>Bitmap\<close>, \<open>RunList\<close>, \<open>Reserve\<close>: geometry of runs, the bitmap as a set of free
  blocks, the doubly linked lists as lists (a locale with the laws of \<open>run_insert\<close> and \<open>run_remove\<close>),
  disjoint pieces of the reserve. \<open>AllocInv\<close>, \<open>AllocLive\<close>: the invariant and the live blocks as an
  abstract heap. \<open>AllocGrow\<close>, \<open>AllocMalloc\<close>, \<open>AllocFree\<close>, \<open>AllocTrim\<close>, \<open>AllocClients\<close>: each operation keeps
  the invariant and has its effect on the abstract heap. \<open>AllocHeap\<close>: the heap as a step relation and
  the properties of all reachable states; \<open>HeapSpec\<close>: an abstract machine of blocks and their contents, which
  the allocator refines call by call. \<open>AllocLedger\<close>, \<open>AllocBooks\<close>, \<open>BooksBalance\<close>: the counters of mapped and
  released bytes and of live blocks agree with the memory. \<open>TrimRelease\<close>: a trim round releases exactly the idle
  runs. \<open>AllocFaults\<close> and \<open>AllocLimits\<close>: what goes wrong, and when.

  \<^bold>\<open>Threads of the allocator.\<close> The theories above run each call as one step. \<open>Locks\<close> computes, by the same
  conditions, the lock operations a call performs, with its reads of run headers and its \<open>munmap\<close> outside
  every mutex, adds the fork handlers, and interleaves threads; \<open>LockFrames\<close> compares the states before
  and after each call and shows that whatever differs (the run table, a class's list, a counter) is
  announced by the call; \<open>LockProps\<close> has mutual exclusion, progress, the child process, and the deadlock
  between a fork and an allocation. \<open>InitRace\<close> is \<open>ensure_init\<close> as a program counter per thread with atomic steps: it refines
  the one-step \<open>ensure_init\<close>, does everything at most once, and lets a thread overtake the reserve.
  \<open>BootFrame\<close>: no call changes the flags of the initialisation; exit statistics; the allocator of a
  forked child.

  \<^bold>\<open>Demonstration programs.\<close> \<open>Memhog\<close> and \<open>BenchAlloc\<close>, with \<open>malloc\<close> and \<open>free\<close> as parameters: how much the first
  allocates and which bytes it touches; that the workers of the second, interleaved, hold
  a bounded number of blocks and give each back once. \<open>mt19937\<close> is written out. \<open>BenchHeap\<close> runs the second on
  the allocator model, with trim rounds in between: no call faults and no two blocks overlap.

  \<^bold>\<open>The daemon's environment.\<close> \<open>System\<close>: what the kernel answers is a record of functions of the number
  of calls made so far, and every call is recorded; \<open>only\<close> and \<open>runs\<close> say which calls an operation makes.
  \<open>ProcText\<close>: the readers of \<open>/proc\<close> as functions of text. \<open>Sysfs\<close>: KSM, MGLRU, cgroups, DAMON, the
  tracer. \<open>WorkingSet\<close>: the sampler; its page-map loop is a partial function, total under the documented
  behaviour of \<open>pread\<close> (\<open>pagemap_contract\<close>). \<open>ProcProps\<close> and \<open>SysfsProps\<close>: round trips of the readers
  with text in the kernel's format, what the flags are taken for, the fault counts; the contract of an
  on/off switch is the locale \<open>feature_switch\<close>, interpreted for KSM, MGLRU and DAMON, on which the
  startup rests.

  \<^bold>\<open>Configuration, engine, daemon.\<close> \<open>Config\<close> and \<open>ConfigProps\<close>: \<open>Config::reload\<close> line by line; which lines
  fail, and the round trip of the group policies. \<open>Engine\<close>: the scan, the scores, the actions and both
  kinds of cycle; \<open>std::sort\<close> is an argument, a function of the comparator that the code passes. \<open>EngineFrame\<close>,
  \<open>EngineScores\<close>, \<open>EngineActions\<close>, \<open>EngineCycle\<close>: what each part may touch and what it computes.
  \<open>EngineProps\<close>, \<open>EngineLimits\<close>, \<open>ScoreOrder\<close>: properties of cycles, of the action phase, of the policies and of the
  scores; \<open>EngineReclaim\<close>: the ranges the action phase advises, and what it counts;
  \<open>EngineCooldown\<close>: a process just worked on is left alone for the following cycles. \<open>LogFmt\<close>:
  \<open>printf\<close> conversions, the formatter, the logger. \<open>Ipc\<close>: requests, the client, the tool. \<open>Daemon\<close>: command
  line, startup, commands, and the loop as a step relation labelled by clients, clock and signals.
  \<open>DaemonProps\<close>, \<open>DaemonRuns\<close>, \<open>Startup\<close>: properties over all sequences of labels. \<open>ConfigTypes\<close>: the values the
  settings can have, from the reader to any state of a run. \<open>UnitTests\<close>: the unit tests as a program, the kernels on which they
  pass, and that a release build of them passes on every kernel.

  \<^bold>\<open>What is shown.\<close> For the allocator: live blocks never overlap and are mapped, and what a program sees is what an abstract heap allows; \<open>malloc\<close>, \<open>free\<close>,
  \<open>realloc\<close>, \<open>calloc\<close>, \<open>posix_memalign\<close> and the trim round meet their specifications where the code is
  right, the statistics count what is mapped and in use, and concrete heaps show where it is not (\<open>free\<close> of a large block reads the header it has just
  unmapped; the page purge clears live blocks; blocks beyond 2 MiB are never freed; a fork can deadlock
  with an allocation, although without forks no interleaving can). For the daemon:
  over any sequence of clients, cycles and signals it makes only calls its configuration allows, never
  advises pages of itself, keeps its configuration but for the pressure threshold, is rate limited,
  sleeps while paused, stops on every signal and otherwise gets through every iteration, except that a silent client blocks it
  for good; the action phase succeeds on at most \<open>max_targets\<close> processes and starts none once the cap of bytes is reached; it visits the highest scores first; scores are monotone in spite of rounding; the crisis guard holds; the policy loop is the
  longest prefix. And where it is not right: with DAMON on nothing is paged out, the fields of
  \<open>/proc/<pid>/stat\<close> are read as 0, the reclaim cap mixes units, the shipped policies match nothing.

  \<^bold>\<open>Bounds.\<close> No definition is cut off by fuel that the code does not have: the only counter is the
  64-element array of \<open>stat_nums\<close>. The loops over lists are structural, \<open>mem_loop\<close>, \<open>parse_args\<close> and
  \<open>purge_pages\<close> have measures, and the walks over run lists and \<open>ws_chunks\<close> are partial functions whose
  termination is a lemma. The number of groups is bounded by \<open>max_size\<close> of the vector. The allocation loop
  of \<open>Memhog\<close> is a partial function too: it ends below \<open>2^31\<close> MB, and need not near \<open>2^64\<close> bytes.

  \<^bold>\<open>Not modelled.\<close> The order of the memory accesses inside a critical section of the allocator, and of the
  three assignments of \<open>reserve_init\<close> (each is one step; memory is sequentially consistent); the log
  lines of the daemon and the engine (the formatter and the logger are) and the mutexes of the logger;
  the signs of zero and NaN; the steady clock's own type; partial writes to a client; a disposition of
  \<open>SIGPIPE\<close> other than the default (systemd ignores the signal unless told otherwise); \<open>close\<close> of process handles; the
  width of the counters of a tracking entry, which are integers; the interleaving inside one iteration of a benchmark
  worker; the allocations of the vector of \<open>Memhog\<close>; the \<open>munmap\<close> of a dying thread's own cache page; the placeholder files of \<open>src/kern\<close>, and unused declarations of the headers
  (\<open>DamonStats\<close>, \<open>TargetRegions\<close>, \<open>psi_prev_\<close>). libbpf and the kernel are parameters.
\<close>

end
